(* ===== verification/Prelude.thy ===== *)
theory Prelude
  imports Main "HOL-Library.Word"
begin

text \<open>
  Shared vocabulary of the FentoOS development: the integer types of
  \<^verbatim>\<open>include/types.h\<close>, the rewrite collections the component proofs pass to the
  simplifier, and the generic facts on bits, words and lists that more than one component
  needs. Nothing here models code of its own.
\<close>

unbundle bit_operations_syntax

section \<open>Types\<close>

text \<open>
  \<^verbatim>\<open>uint8_t\<close>, \<^verbatim>\<open>uint16_t\<close> and \<^verbatim>\<open>uint32_t\<close> are words, so that
  every addition and multiplication of the model wraps where the code's does. A C
  \<^verbatim>\<open>int\<close> that only carries a result code or a small count is an \<^typ>\<open>int\<close>.
\<close>

type_synonym u8 = "8 word"
type_synonym u16 = "16 word"
type_synonym u32 = "32 word"

type_synonym bytes = "8 word list"

section \<open>Rewrite collections\<close>

named_theorems word_nat \<open>translating 32-bit arithmetic to natural numbers\<close>
named_theorems frame \<open>which fields an operation leaves alone\<close>

section \<open>Words\<close>

lemma unat_less_32 [simp]: "unat (w :: u32) < 4294967296"
  using unsigned_less [of w, where 'a = nat] by simp

lemma unat_less_8 [simp]: "unat (w :: u8) < 256"
  using unsigned_less [of w, where 'a = nat] by simp

lemma unat_less_16 [simp]: "unat (w :: u16) < 65536"
  using unsigned_less [of w, where 'a = nat] by simp

lemma unat_Suc_less [word_nat]:
  fixes f t :: u32
  assumes "f < t"
  shows "unat (f + 1) = Suc (unat f)"
proof -
  have "Suc (unat f) \<le> unat t"
    using assms by (simp add: word_less_nat_alt)
  also have "\<dots> < 4294967296"
    by simp
  finally show ?thesis
    by (simp add: unat_word_ariths)
qed

lemma unat_div_numeral_32 [word_nat]:
  "unat (w div numeral k :: u32) = unat w div unat (numeral k :: u32)"
  by (rule unat_div_distrib)

lemma unat_mod_numeral_32 [word_nat]:
  "unat (w mod numeral k :: u32) = unat w mod unat (numeral k :: u32)"
  by (rule unat_mod_distrib)

lemma unat_add_no_wrap [word_nat]:
  fixes a b :: u32
  assumes "unat a + unat b < 4294967296"
  shows "unat (a + b) = unat a + unat b"
  using assms by (simp add: unat_word_ariths)

lemma unat_mult_no_wrap [word_nat]:
  fixes a b :: u32
  assumes "unat a * unat b < 4294967296"
  shows "unat (a * b) = unat a * unat b"
  using assms by (simp add: unat_word_ariths)

lemma unat_sub_no_wrap [word_nat]:
  fixes a b :: u32
  assumes "b \<le> a"
  shows "unat (a - b) = unat a - unat b"
  using assms by (simp add: unat_sub)

text \<open>
  \<^verbatim>\<open>1u << n\<close> is written \<^term>\<open>push_bit n 1\<close> in the definitions; the simplifier
  normalises it to \<open>2 ^ n\<close>, the form these facts have.
\<close>

lemma and_power_nonzero: "(w AND 2 ^ n \<noteq> 0) \<longleftrightarrow> bit (w :: 'a::len word) n"
  using bit_iff_and_push_bit_not_eq_0 [of w n] by simp

lemma bit_or_power:
  "bit (w OR 2 ^ n :: 'a::len word) m \<longleftrightarrow> bit w m \<or> (m = n \<and> n < LENGTH('a))"
  by (auto simp: bit_simps)

lemma bit_and_not_power:
  "bit (w AND NOT (2 ^ n) :: 'a::len word) m \<longleftrightarrow> bit w m \<and> m \<noteq> n"
  by (auto simp: bit_simps dest: bit_imp_le_length)

text \<open>
  Masking with \<^verbatim>\<open>2^n - 1\<close> is the remainder, masking with its complement rounds
  down. The complement masks of the code appear as negative numerals after simplification.
\<close>

lemma unat_and_mask: "unat (w AND mask n :: 'a::len word) = unat w mod 2 ^ n"
  by (simp only: take_bit_eq_mask [symmetric] unsigned_take_bit_eq) (simp add: take_bit_eq_mod)

lemma and_not_mask: "(w AND NOT (mask n) :: 'a::len word) = w - (w AND mask n)"
proof -
  have "w - (w AND mask n) = w AND NOT (w AND mask n)"
    by (rule disjunctive_diff_eq_and_not) (simp add: bit_eq_iff bit_simps)
  also have "\<dots> = w AND NOT (mask n)"
    by (rule bit_word_eqI) (auto simp: bit_simps)
  finally show ?thesis by simp
qed

lemma unat_and_not_mask:
  "unat (w AND NOT (mask n) :: 'a::len word) = unat w div 2 ^ n * 2 ^ n"
proof -
  have "w AND mask n \<le> w"
    by (simp add: word_and_le2)
  then have "unat (w - (w AND mask n)) = unat w - unat w mod 2 ^ n"
    by (simp add: unat_sub unat_and_mask)
  then show ?thesis
    by (simp add: and_not_mask minus_mod_eq_div_mult)
qed

lemma unat_and_4095 [word_nat]: "unat (w AND 4095 :: u32) = unat w mod 4096"
  using unat_and_mask [of w 12] by (simp add: mask_eq_exp_minus_1)

lemma unat_and_neg_4096 [word_nat]: "unat (w AND - 4096 :: u32) = unat w div 4096 * 4096"
  using unat_and_not_mask [of w 12] by (simp add: mask_eq_exp_minus_1 not_eq_complement)

lemma unat_and_neg_8 [word_nat]: "unat (w AND - 8 :: u32) = unat w div 8 * 8"
  using unat_and_not_mask [of w 3] by (simp add: mask_eq_exp_minus_1 not_eq_complement)

section \<open>Lists\<close>

lemma nth_list_update_if:
  "i < length xs \<Longrightarrow> xs[i := v] ! j = (if j = i then v else xs ! j)"
  by (cases "i = j") auto

lemma take_Suc_snoc: "i < length xs \<Longrightarrow> take (Suc i) xs = take i xs @ [xs ! i]"
  by (rule take_Suc_conv_app_nth)

lemma length_takeWhile_less: "\<exists>x\<in>set xs. \<not> P x \<Longrightarrow> length (takeWhile P xs) < length xs"
  by (induction xs) auto

end
