(* ===== verification/Pmm.thy ===== *)
theory Pmm
  imports Prelude
begin

text \<open>
  The physical memory manager, \<^verbatim>\<open>kernel/mm/pmm.c\<close>: a bitmap with one bit per 4 KiB
  frame (set = in use), the number of managed frames and the number of free ones. The
  static variables of the file are the record \<open>pmm\<close>; every function of the file is a
  function on it. The contract the rest of the kernel relies on is the locale
  \<open>frame_allocator\<close>, interpreted on these definitions.
\<close>

unbundle bit_operations_syntax

section \<open>State and operations\<close>

record pmm =
  bitmap :: "u32 list"
  total_frames :: u32
  free_frames :: u32

definition PMM_FRAME_SIZE :: u32 where
  "PMM_FRAME_SIZE = 4096"

definition MAX_FRAMES :: u32 where
  "MAX_FRAMES = 1024 * 1024"

definition bitmap_words :: nat where
  "bitmap_words = unat (MAX_FRAMES div 32)"

definition set_used :: "u32 \<Rightarrow> pmm \<Rightarrow> pmm" where
  "set_used f p = p\<lparr>bitmap := (bitmap p)
     [unat (f div 32) := bitmap p ! unat (f div 32) OR push_bit (unat (f mod 32)) 1]\<rparr>"

definition set_free :: "u32 \<Rightarrow> pmm \<Rightarrow> pmm" where
  "set_free f p = p\<lparr>bitmap := (bitmap p)
     [unat (f div 32) := bitmap p ! unat (f div 32) AND NOT (push_bit (unat (f mod 32)) 1)]\<rparr>"

definition test_frame :: "u32 \<Rightarrow> pmm \<Rightarrow> bool" where
  "test_frame f p \<longleftrightarrow> bitmap p ! unat (f div 32) AND push_bit (unat (f mod 32)) 1 \<noteq> 0"

lemma set_free_total [simp, frame]: "total_frames (set_free f p) = total_frames p"
  by (simp add: set_free_def)

lemma set_used_total [simp, frame]: "total_frames (set_used f p) = total_frames p"
  by (simp add: set_used_def)

lemma set_free_count [simp, frame]: "free_frames (set_free f p) = free_frames p"
  by (simp add: set_free_def)

lemma set_used_count [simp, frame]: "free_frames (set_used f p) = free_frames p"
  by (simp add: set_used_def)

text \<open>The loop of \<^verbatim>\<open>pmm_init\<close> that hands the frames above the kernel out as free.\<close>

function pmm_init_loop :: "u32 \<Rightarrow> pmm \<Rightarrow> pmm" where
  "pmm_init_loop f p =
     (if f < total_frames p
      then pmm_init_loop (f + 1) ((set_free f p)\<lparr>free_frames := free_frames p + 1\<rparr>)
      else p)"
  by pat_completeness auto
termination
  by (relation "measure (\<lambda>(f, p). unat (total_frames p) - unat f)")
    (auto simp: word_nat word_less_nat_alt)

definition pmm_init :: "u32 \<Rightarrow> u32 \<Rightarrow> pmm" where
  "pmm_init mem_upper_kb kernel_end =
     (let mem_bytes = (1024 + mem_upper_kb) * 1024;
          total = mem_bytes div PMM_FRAME_SIZE;
          total = (if total > MAX_FRAMES then MAX_FRAMES else total);
          p = \<lparr>bitmap = replicate bitmap_words (- 1), total_frames = total, free_frames = 0\<rparr>;
          reserved_end = (kernel_end + PMM_FRAME_SIZE - 1) AND NOT (PMM_FRAME_SIZE - 1);
          reserved_end = reserved_end + 0x100000
      in pmm_init_loop (reserved_end div PMM_FRAME_SIZE) p)"

function pmm_alloc_loop :: "u32 \<Rightarrow> pmm \<Rightarrow> u32 \<times> pmm" where
  "pmm_alloc_loop f p =
     (if f < total_frames p
      then if \<not> test_frame f p
           then (f * PMM_FRAME_SIZE, (set_used f p)\<lparr>free_frames := free_frames p - 1\<rparr>)
           else pmm_alloc_loop (f + 1) p
      else (0, p))"
  by pat_completeness auto
termination
  by (relation "measure (\<lambda>(f, p). unat (total_frames p) - unat f)")
    (auto simp: word_nat word_less_nat_alt)

definition pmm_alloc_frame :: "pmm \<Rightarrow> u32 \<times> pmm" where
  "pmm_alloc_frame p = pmm_alloc_loop 0 p"

definition pmm_free_frame :: "u32 \<Rightarrow> pmm \<Rightarrow> pmm" where
  "pmm_free_frame frame p =
     (let f = frame div PMM_FRAME_SIZE in
      if f \<ge> total_frames p then p
      else if test_frame f p
      then (set_free f p)\<lparr>free_frames := free_frames p + 1\<rparr>
      else p)"

definition pmm_free_count :: "pmm \<Rightarrow> u32" where
  "pmm_free_count p = free_frames p"

definition pmm_total_count :: "pmm \<Rightarrow> u32" where
  "pmm_total_count p = total_frames p"

declare pmm_init_loop.simps [simp del] pmm_alloc_loop.simps [simp del]

section \<open>The bitmap as a set of frame numbers\<close>

definition used :: "pmm \<Rightarrow> nat \<Rightarrow> bool" where
  "used p f \<longleftrightarrow> bit (bitmap p ! (f div 32)) (f mod 32)"

definition free_set :: "pmm \<Rightarrow> nat set" where
  "free_set p = {f. f < unat (total_frames p) \<and> \<not> used p f}"

text \<open>
  The state invariant: the bitmap has its static length, it covers every managed frame,
  and the free counter counts the clear bits below \<open>total_frames\<close>.
\<close>

definition pmm_wf :: "pmm \<Rightarrow> bool" where
  "pmm_wf p \<longleftrightarrow> length (bitmap p) = bitmap_words \<and> total_frames p \<le> MAX_FRAMES"

definition pmm_inv :: "pmm \<Rightarrow> bool" where
  "pmm_inv p \<longleftrightarrow> pmm_wf p \<and> unat (free_frames p) = card (free_set p)"

lemma bitmap_words_eq: "bitmap_words = 32768"
  by (simp add: bitmap_words_def MAX_FRAMES_def)

lemma finite_free_set [simp, intro]: "finite (free_set p)"
  by (simp add: free_set_def)

lemma free_set_less: "f \<in> free_set p \<Longrightarrow> f < unat (total_frames p)"
  by (simp add: free_set_def)

lemma pmm_wf_total: "pmm_wf p \<Longrightarrow> unat (total_frames p) \<le> 1048576"
  by (simp add: pmm_wf_def MAX_FRAMES_def word_le_nat_alt)

lemma free_set_wf_less: "pmm_wf p \<Longrightarrow> f \<in> free_set p \<Longrightarrow> f < 1048576"
  using pmm_wf_total free_set_less by fastforce

lemma same_bit_position:
  "(g div 32 = f div 32 \<and> g mod 32 = f mod 32) \<longleftrightarrow> g = (f :: nat)"
  by (metis mod_mult_div_eq)

lemma test_frame_used: "test_frame f p \<longleftrightarrow> used p (unat f)"
  by (simp add: test_frame_def used_def and_power_nonzero word_nat)

lemma used_set_used:
  assumes "unat f div 32 < length (bitmap p)"
  shows "used (set_used f p) g \<longleftrightarrow> used p g \<or> g = unat f"
  using assms same_bit_position [of g "unat f"]
  by (auto simp: used_def set_used_def nth_list_update_if bit_or_power word_nat)

lemma used_set_free:
  assumes "unat f div 32 < length (bitmap p)"
  shows "used (set_free f p) g \<longleftrightarrow> used p g \<and> g \<noteq> unat f"
  using assms same_bit_position [of g "unat f"]
  by (auto simp: used_def set_free_def nth_list_update_if bit_and_not_power word_nat)

lemma used_count_update [simp]: "used (p\<lparr>free_frames := n\<rparr>) g = used p g"
  by (simp add: used_def)

lemma free_set_count_update [simp]: "free_set (p\<lparr>free_frames := n\<rparr>) = free_set p"
  by (simp add: free_set_def)

lemma pmm_wf_in_bitmap:
  assumes "pmm_wf p" and "f < total_frames p"
  shows "unat f div 32 < length (bitmap p)"
proof -
  have "unat f < 1048576"
    using assms pmm_wf_total [of p] by (simp add: word_less_nat_alt)
  then show ?thesis
    using assms(1) by (simp add: pmm_wf_def bitmap_words_eq)
qed

lemma free_set_set_used:
  assumes "pmm_wf p" and "f < total_frames p"
  shows "free_set (set_used f p) = free_set p - {unat f}"
  using used_set_used [OF pmm_wf_in_bitmap [OF assms]] by (auto simp: free_set_def)

lemma free_set_set_free:
  assumes "pmm_wf p" and "f < total_frames p"
  shows "free_set (set_free f p) = insert (unat f) (free_set p)"
  using used_set_free [OF pmm_wf_in_bitmap [OF assms]] assms(2)
  by (auto simp: free_set_def word_less_nat_alt)

lemma pmm_wf_set_used [simp]: "pmm_wf (set_used f p) = pmm_wf p"
  by (simp add: pmm_wf_def set_used_def)

lemma pmm_wf_set_free [simp]: "pmm_wf (set_free f p) = pmm_wf p"
  by (simp add: pmm_wf_def set_free_def)

lemma pmm_wf_count_update [simp]: "pmm_wf (p\<lparr>free_frames := n\<rparr>) = pmm_wf p"
  by (simp add: pmm_wf_def)

lemma card_free_set_bound: "pmm_wf p \<Longrightarrow> card (free_set p) \<le> 1048576"
proof -
  assume "pmm_wf p"
  then have "free_set p \<subseteq> {..<1048576}"
    using free_set_wf_less by auto
  then show ?thesis
    using card_mono [of "{..<1048576}" "free_set p"] by simp
qed

section \<open>What each operation does to the set of free frames\<close>

text \<open>The first-fit scan, by computation induction on the frame index.\<close>

lemma pmm_alloc_loop_none:
  assumes "\<And>g. unat f \<le> g \<Longrightarrow> g \<notin> free_set p"
  shows "pmm_alloc_loop f p = (0, p)"
  using assms
proof (induction f p rule: pmm_alloc_loop.induct)
  case (1 f p)
  have "test_frame f p" if "f < total_frames p"
    using that "1.prems" [of "unat f"]
    by (simp add: test_frame_used free_set_def word_less_nat_alt)
  moreover have "pmm_alloc_loop (f + 1) p = (0, p)"
    if "f < total_frames p" "test_frame f p"
    using that "1.prems" by (intro "1.IH") (auto simp: word_nat)
  ultimately show ?case
    by (auto simp: pmm_alloc_loop.simps [of f p])
qed

lemma pmm_alloc_loop_first:
  assumes "g \<in> free_set p" and "unat f \<le> g"
    and "\<And>h. unat f \<le> h \<Longrightarrow> h < g \<Longrightarrow> h \<notin> free_set p"
  shows "pmm_alloc_loop f p =
    (of_nat g * PMM_FRAME_SIZE, (set_used (of_nat g) p)\<lparr>free_frames := free_frames p - 1\<rparr>)"
  using assms
proof (induction f p rule: pmm_alloc_loop.induct)
  case (1 f p)
  have f: "f < total_frames p"
    using free_set_less [OF "1.prems"(1)] "1.prems"(2) by (simp add: word_less_nat_alt)
  show ?case
  proof (cases "unat f = g")
    case True
    then have "\<not> test_frame f p" and "of_nat g = f"
      using "1.prems"(1) by (auto simp: test_frame_used free_set_def)
    with f show ?thesis
      by (simp add: pmm_alloc_loop.simps [of f p])
  next
    case False
    then have less: "unat f < g"
      using "1.prems"(2) by simp
    then have t: "test_frame f p"
      using "1.prems"(3) [of "unat f"] f by (simp add: test_frame_used free_set_def word_less_nat_alt)
    have "pmm_alloc_loop (f + 1) p =
      (of_nat g * PMM_FRAME_SIZE, (set_used (of_nat g) p)\<lparr>free_frames := free_frames p - 1\<rparr>)"
      using f t less "1.prems" by (intro "1.IH") (auto simp: word_nat)
    with f t show ?thesis
      by (simp add: pmm_alloc_loop.simps [of f p])
  qed
qed

lemma pmm_alloc_frame_full:
  "free_set p = {} \<Longrightarrow> pmm_alloc_frame p = (0, p)"
  by (simp add: pmm_alloc_frame_def pmm_alloc_loop_none)

lemma pmm_alloc_frame_min:
  assumes "free_set p \<noteq> {}"
  shows "pmm_alloc_frame p = (of_nat (Min (free_set p)) * PMM_FRAME_SIZE,
    (set_used (of_nat (Min (free_set p))) p)\<lparr>free_frames := free_frames p - 1\<rparr>)"
  unfolding pmm_alloc_frame_def
proof (rule pmm_alloc_loop_first)
  show "Min (free_set p) \<in> free_set p"
    using assms by simp
  show "h \<notin> free_set p" if "h < Min (free_set p)" for h
    using that Min_le [OF finite_free_set] by (meson not_le)
qed simp

lemma unat_of_frame: "pmm_wf p \<Longrightarrow> f \<in> free_set p \<Longrightarrow> unat (of_nat f :: u32) = f"
  using free_set_wf_less [of p f] by (simp add: unat_of_nat)

lemma of_frame_less: "pmm_wf p \<Longrightarrow> f \<in> free_set p \<Longrightarrow> of_nat f < total_frames p"
  using unat_of_frame [of p f] free_set_less [of f p] by (simp add: word_less_nat_alt)

lemma pmm_inv_free_pos:
  assumes "pmm_inv p" and "free_set p \<noteq> {}"
  shows "free_frames p \<noteq> 0"
proof
  assume "free_frames p = 0"
  then have "card (free_set p) = 0"
    using assms(1) by (simp add: pmm_inv_def)
  then show False
    using assms(2) by simp
qed

text \<open>Allocation takes the lowest free frame out of the set and keeps the invariant.\<close>

lemma pmm_alloc_frame_spec:
  assumes "pmm_inv p" and "free_set p \<noteq> {}" and "pmm_alloc_frame p = (a, p')"
  shows "a = of_nat (Min (free_set p)) * PMM_FRAME_SIZE"
    and "free_set p' = free_set p - {Min (free_set p)}"
    and "total_frames p' = total_frames p"
    and "pmm_inv p'"
proof -
  let ?m = "Min (free_set p)"
  have wf: "pmm_wf p" and m: "?m \<in> free_set p"
    using assms by (simp_all add: pmm_inv_def)
  have p': "p' = (set_used (of_nat ?m) p)\<lparr>free_frames := free_frames p - 1\<rparr>"
    and a: "a = of_nat ?m * PMM_FRAME_SIZE"
    using assms(3) pmm_alloc_frame_min [OF assms(2)] by simp_all
  show "a = of_nat ?m * PMM_FRAME_SIZE" by (rule a)
  show fs: "free_set p' = free_set p - {?m}"
    using free_set_set_used [OF wf of_frame_less [OF wf m]] unat_of_frame [OF wf m]
    by (simp add: p')
  show "total_frames p' = total_frames p"
    by (simp add: p')
  have "1 \<le> free_frames p"
    using pmm_inv_free_pos [OF assms(1,2)] by (simp add: word_le_nat_alt Suc_le_eq unat_gt_0)
  then have "unat (free_frames p - 1) = card (free_set p) - 1"
    using assms(1) by (simp add: word_nat pmm_inv_def)
  then show "pmm_inv p'"
    using wf fs m by (simp add: pmm_inv_def p')
qed

text \<open>Freeing puts the frame back, and does nothing when it is free already.\<close>

lemma pmm_free_frame_cases:
  assumes "pmm_wf p" and "unat a div 4096 < unat (total_frames p)"
  shows "pmm_free_frame a p =
    (if unat a div 4096 \<in> free_set p then p
     else (set_free (a div PMM_FRAME_SIZE) p)\<lparr>free_frames := free_frames p + 1\<rparr>)"
  using assms
  by (simp add: pmm_free_frame_def Let_def test_frame_used free_set_def PMM_FRAME_SIZE_def
      word_nat word_le_nat_alt)

lemma pmm_free_frame_spec:
  assumes "pmm_inv p" and "unat a div 4096 < unat (total_frames p)"
  shows "free_set (pmm_free_frame a p) = insert (unat a div 4096) (free_set p)"
    and "total_frames (pmm_free_frame a p) = total_frames p"
    and "pmm_inv (pmm_free_frame a p)"
proof -
  let ?f = "a div PMM_FRAME_SIZE"
  have wf: "pmm_wf p" and count: "unat (free_frames p) = card (free_set p)"
    using assms(1) by (simp_all add: pmm_inv_def)
  have uf: "unat ?f = unat a div 4096"
    by (simp add: PMM_FRAME_SIZE_def word_nat)
  then have lt: "?f < total_frames p"
    using assms(2) by (simp add: word_less_nat_alt)
  note cases = pmm_free_frame_cases [OF wf assms(2)]
  show "free_set (pmm_free_frame a p) = insert (unat a div 4096) (free_set p)"
    using free_set_set_free [OF wf lt] uf by (auto simp: cases)
  show "total_frames (pmm_free_frame a p) = total_frames p"
    by (simp add: cases)
  show "pmm_inv (pmm_free_frame a p)"
    using free_set_set_free [OF wf lt] uf wf count card_free_set_bound [OF wf]
    by (auto simp: cases pmm_inv_def word_nat)
qed

lemma pmm_free_frame_outside:
  "unat (total_frames p) \<le> unat a div 4096 \<Longrightarrow> pmm_free_frame a p = p"
  by (simp add: pmm_free_frame_def Let_def PMM_FRAME_SIZE_def word_nat word_le_nat_alt)

text \<open>The initialising loop frees exactly the frames from its start index on.\<close>

lemma pmm_init_loop_spec:
  assumes "pmm_inv p" and "\<And>g. unat f \<le> g \<Longrightarrow> g \<notin> free_set p"
  shows "free_set (pmm_init_loop f p) = free_set p \<union> {unat f..<unat (total_frames p)}
    \<and> total_frames (pmm_init_loop f p) = total_frames p \<and> pmm_inv (pmm_init_loop f p)"
  using assms
proof (induction f p rule: pmm_init_loop.induct)
  case (1 f p)
  show ?case
  proof (cases "f < total_frames p")
    case False
    with "1.prems"(1) show ?thesis
      by (simp add: pmm_init_loop.simps [of f p] word_less_nat_alt)
  next
    case True
    let ?q = "(set_free f p)\<lparr>free_frames := free_frames p + 1\<rparr>"
    have wf: "pmm_wf p" and count: "unat (free_frames p) = card (free_set p)"
      using "1.prems"(1) by (simp_all add: pmm_inv_def)
    note fs = free_set_set_free [OF wf True]
    have "pmm_inv ?q"
      using fs wf count card_free_set_bound [OF wf] "1.prems"(2) [of "unat f"]
      by (simp add: pmm_inv_def word_nat)
    moreover have "g \<notin> free_set ?q" if "unat (f + 1) \<le> g" for g
      using that "1.prems"(2) [of g] True by (auto simp: fs word_nat)
    ultimately have "free_set (pmm_init_loop (f + 1) ?q)
        = free_set ?q \<union> {unat (f + 1)..<unat (total_frames ?q)}
      \<and> total_frames (pmm_init_loop (f + 1) ?q) = total_frames ?q
      \<and> pmm_inv (pmm_init_loop (f + 1) ?q)"
      by (rule "1.IH" [OF True])
    moreover have "pmm_init_loop f p = pmm_init_loop (f + 1) ?q"
      using True by (simp add: pmm_init_loop.simps [of f p])
    moreover have "insert (unat f) {unat (f + 1)..<unat (total_frames p)}
        = {unat f..<unat (total_frames p)}"
      using True unat_Suc_less [OF True] by (auto simp: word_less_nat_alt)
    ultimately show ?thesis
      by (simp add: fs) blast
  qed
qed

definition managed_frames :: "u32 \<Rightarrow> u32" where
  "managed_frames mem_upper_kb = (1024 + mem_upper_kb) * 1024 div PMM_FRAME_SIZE"

definition first_frame :: "u32 \<Rightarrow> u32" where
  "first_frame kernel_end =
     (((kernel_end + PMM_FRAME_SIZE - 1) AND NOT (PMM_FRAME_SIZE - 1)) + 0x100000) div PMM_FRAME_SIZE"

text \<open>
  The clamp to \<^verbatim>\<open>MAX_FRAMES\<close> never acts: a 32-bit byte count has fewer than
  \<open>2 ^ 20\<close> frames.
\<close>

lemma managed_frames_bound: "managed_frames m \<le> MAX_FRAMES"
proof -
  have "unat ((1024 + m) * 1024) div 4096 \<le> 1048576"
    using unat_less_32 [of "(1024 + m) * 1024"] by linarith
  then show ?thesis
    by (simp add: managed_frames_def MAX_FRAMES_def PMM_FRAME_SIZE_def word_le_nat_alt word_nat)
qed

lemma pmm_init_eq:
  "pmm_init m k = pmm_init_loop (first_frame k)
     \<lparr>bitmap = replicate bitmap_words (- 1), total_frames = managed_frames m, free_frames = 0\<rparr>"
  using managed_frames_bound [of m]
  by (simp add: pmm_init_def Let_def managed_frames_def first_frame_def not_less)

lemma pmm_init_spec:
  "free_set (pmm_init m k) = {unat (first_frame k)..<unat (managed_frames m)}"
  "total_frames (pmm_init m k) = managed_frames m"
  "pmm_inv (pmm_init m k)"
proof -
  let ?p = "\<lparr>bitmap = replicate bitmap_words (- 1), total_frames = managed_frames m, free_frames = 0\<rparr>"
  have "used ?p g" if "g < unat (managed_frames m)" for g
  proof -
    have "g div 32 < bitmap_words"
      using that managed_frames_bound [of m]
      by (simp add: bitmap_words_eq MAX_FRAMES_def word_le_nat_alt)
    then show ?thesis
      by (simp add: used_def)
  qed
  then have empty: "free_set ?p = {}"
    by (auto simp: free_set_def)
  then have "pmm_inv ?p"
    by (simp add: pmm_inv_def pmm_wf_def managed_frames_bound)
  from pmm_init_loop_spec [OF this, of "first_frame k"] empty
  show "free_set (pmm_init m k) = {unat (first_frame k)..<unat (managed_frames m)}"
    "total_frames (pmm_init m k) = managed_frames m" "pmm_inv (pmm_init m k)"
    by (simp_all add: pmm_init_eq)
qed

section \<open>The contract of a frame allocator\<close>

text \<open>
  What the paging code and the heap rely on, stated over the addresses of the free frames:
  an allocation returns one of them and removes it, or returns \<open>0\<close> and changes nothing
  when there is none; freeing a managed frame puts it back.
\<close>

fun alloc_seq :: "('p \<Rightarrow> u32 \<times> 'p) \<Rightarrow> nat \<Rightarrow> 'p \<Rightarrow> u32 list \<times> 'p" where
  "alloc_seq alloc 0 p = ([], p)"
| "alloc_seq alloc (Suc n) p =
     (let (a, p) = alloc p; (as, p) = alloc_seq alloc n p in (a # as, p))"

locale frame_allocator =
  fixes inv :: "'p \<Rightarrow> bool"
    and alloc :: "'p \<Rightarrow> u32 \<times> 'p"
    and release :: "u32 \<Rightarrow> 'p \<Rightarrow> 'p"
    and frees :: "'p \<Rightarrow> u32 set"
    and managed :: "'p \<Rightarrow> u32 set"
  assumes finite_frees: "finite (frees p)"
    and frees_managed: "inv p \<Longrightarrow> frees p \<subseteq> managed p"
    and alloc_some: "inv p \<Longrightarrow> frees p \<noteq> {} \<Longrightarrow> alloc p = (a, p') \<Longrightarrow>
      a \<in> frees p \<and> frees p' = frees p - {a} \<and> managed p' = managed p \<and> inv p'"
    and alloc_none: "inv p \<Longrightarrow> frees p = {} \<Longrightarrow> alloc p = (0, p)"
    and release_managed: "inv p \<Longrightarrow> a \<in> managed p \<Longrightarrow>
      frees (release a p) = insert a (frees p) \<and> managed (release a p) = managed p
      \<and> inv (release a p)"
begin

lemma alloc_seq_spec:
  assumes "inv p" and "n \<le> card (frees p)" and "alloc_seq alloc n p = (as, p')"
  shows "length as = n \<and> distinct as \<and> set as \<subseteq> frees p \<and> frees p' = frees p - set as
    \<and> managed p' = managed p \<and> inv p'"
  using assms
proof (induction n arbitrary: p as)
  case 0
  then show ?case by simp
next
  case (Suc n)
  obtain a q where a: "alloc p = (a, q)"
    by force
  obtain bs where bs: "alloc_seq alloc n q = (bs, p')" and as: "as = a # bs"
    using Suc.prems(3) by (auto simp: a split: prod.splits)
  have "frees p \<noteq> {}"
    using Suc.prems(2) by auto
  with Suc.prems(1) a have q: "a \<in> frees p" "frees q = frees p - {a}" "managed q = managed p" "inv q"
    using alloc_some [of p a q] by auto
  then have "n \<le> card (frees q)"
    using Suc.prems(2) finite_frees [of p] by simp
  from Suc.IH [OF q(4) this bs] show ?case
    using q as by auto
qed

text \<open>Releasing what a sequence of allocations returned restores the free set.\<close>

lemma release_all:
  assumes "inv p" and "set as \<subseteq> managed p"
  shows "frees (fold release as p) = set as \<union> frees p \<and> inv (fold release as p)"
  using assms
proof (induction as arbitrary: p)
  case Nil
  then show ?case by simp
next
  case (Cons a as)
  have r: "frees (release a p) = insert a (frees p)" "managed (release a p) = managed p"
    "inv (release a p)"
    using release_managed [of p a] Cons.prems by auto
  then have "frees (fold release as (release a p)) = set as \<union> frees (release a p)
      \<and> inv (fold release as (release a p))"
    using Cons.prems by (intro Cons.IH) auto
  then show ?case
    using r by auto
qed

lemma alloc_release_roundtrip:
  assumes "inv p" and "n \<le> card (frees p)" and "alloc_seq alloc n p = (as, p')"
  shows "frees (fold release as p') = frees p \<and> inv (fold release as p')"
proof -
  have s: "set as \<subseteq> frees p" "frees p' = frees p - set as" "managed p' = managed p" "inv p'"
    using alloc_seq_spec [OF assms] by auto
  then have "set as \<subseteq> managed p'"
    using frees_managed [OF assms(1)] by auto
  with s release_all [of p' as] show ?thesis
    by auto
qed

end

definition frame_addr :: "nat \<Rightarrow> u32" where
  "frame_addr f = of_nat f * PMM_FRAME_SIZE"

definition free_addrs :: "pmm \<Rightarrow> u32 set" where
  "free_addrs p = frame_addr ` free_set p"

definition managed_addrs :: "pmm \<Rightarrow> u32 set" where
  "managed_addrs p = frame_addr ` {..<unat (total_frames p)}"

lemma unat_frame_addr: "f < 1048576 \<Longrightarrow> unat (frame_addr f) = f * 4096"
  by (simp add: frame_addr_def PMM_FRAME_SIZE_def unat_word_ariths unat_of_nat)

lemma frame_addr_inj:
  assumes "f < 1048576" and "g < 1048576" and "frame_addr f = frame_addr g"
  shows "f = g"
proof -
  have "f * 4096 = g * 4096"
    using assms unat_frame_addr [of f] unat_frame_addr [of g] by metis
  then show ?thesis by simp
qed

lemma frame_addr_image_diff:
  assumes "pmm_wf p" and "m \<in> free_set p"
  shows "frame_addr ` (free_set p - {m}) = frame_addr ` free_set p - {frame_addr m}"
  using assms free_set_wf_less frame_addr_inj by blast

lemma managed_addrs_less:
  assumes "pmm_inv p" and "a \<in> managed_addrs p"
  shows "unat a div 4096 < unat (total_frames p)" and "frame_addr (unat a div 4096) = a"
proof -
  obtain f where f: "f < unat (total_frames p)" and a: "a = frame_addr f"
    using assms(2) by (auto simp: managed_addrs_def)
  have "f < 1048576"
    using f pmm_wf_total [of p] assms(1) by (simp add: pmm_inv_def)
  then have "unat a div 4096 = f"
    by (simp add: a unat_frame_addr)
  with f a show "unat a div 4096 < unat (total_frames p)" "frame_addr (unat a div 4096) = a"
    by simp_all
qed

interpretation frames: frame_allocator pmm_inv pmm_alloc_frame pmm_free_frame free_addrs managed_addrs
proof unfold_locales
  fix p
  show "finite (free_addrs p)"
    by (simp add: free_addrs_def)
  show "free_addrs p \<subseteq> managed_addrs p"
    using free_set_less by (auto simp: free_addrs_def managed_addrs_def)
next
  fix p a p'
  assume inv: "pmm_inv p" and ne: "free_addrs p \<noteq> {}" and al: "pmm_alloc_frame p = (a, p')"
  have fs: "free_set p \<noteq> {}"
    using ne by (simp add: free_addrs_def)
  note spec = pmm_alloc_frame_spec [OF inv fs al]
  have "pmm_wf p" and "Min (free_set p) \<in> free_set p"
    using inv fs by (simp_all add: pmm_inv_def)
  then show "a \<in> free_addrs p \<and> free_addrs p' = free_addrs p - {a}
      \<and> managed_addrs p' = managed_addrs p \<and> pmm_inv p'"
    using spec frame_addr_image_diff [of p "Min (free_set p)"]
    by (simp add: free_addrs_def managed_addrs_def frame_addr_def)
next
  fix p
  assume "free_addrs p = {}"
  then show "pmm_alloc_frame p = (0, p)"
    by (simp add: free_addrs_def pmm_alloc_frame_full)
next
  fix p a
  assume inv: "pmm_inv p" and a: "a \<in> managed_addrs p"
  show "free_addrs (pmm_free_frame a p) = insert a (free_addrs p)
      \<and> managed_addrs (pmm_free_frame a p) = managed_addrs p \<and> pmm_inv (pmm_free_frame a p)"
    using pmm_free_frame_spec [OF inv managed_addrs_less(1) [OF inv a]] managed_addrs_less(2) [OF inv a]
    by (simp add: free_addrs_def managed_addrs_def)
qed

section \<open>Properties\<close>

lemma pmm_init_small: "free_set (pmm_init 4 0) = {256}" "pmm_inv (pmm_init 4 0)"
proof -
  have "first_frame 0 = 256" and "managed_frames 4 = 257"
    by (simp_all add: managed_frames_def first_frame_def PMM_FRAME_SIZE_def)
  moreover have "{256..<257} = {256 :: nat}"
    unfolding set_eq_iff atLeastLessThan_iff by (intro allI) (simp, arith)
  ultimately show "free_set (pmm_init 4 0) = {256}" "pmm_inv (pmm_init 4 0)"
    using pmm_init_spec [of 4 0] by simp_all
qed

text \<open>
  C24. \<^verbatim>\<open>pmm_alloc_frame\<close> returns the address of the lowest free frame, marks exactly
  that frame used, lowers the free counter by one and keeps the bitmap and the counter in
  agreement.
\<close>

theorem pmm_alloc_first_fit:
  assumes "pmm_inv p" and "free_set p \<noteq> {}" and "pmm_alloc_frame p = (a, p')"
  shows "a = frame_addr (Min (free_set p)) \<and> free_set p' = free_set p - {Min (free_set p)}
    \<and> pmm_free_count p' = pmm_free_count p - 1 \<and> pmm_inv p'"
proof -
  have "free_frames p' = free_frames p - 1"
    using assms(3) pmm_alloc_frame_min [OF assms(2)] by auto
  then show ?thesis
    using pmm_alloc_frame_spec [OF assms] by (simp add: frame_addr_def pmm_free_count_def)
qed

theorem pmm_alloc_first_fit_witness:
  "\<exists>p'. pmm_alloc_frame (pmm_init 4 0) = (0x100000, p') \<and> free_set p' = {} \<and> pmm_inv p'"
proof -
  obtain a p' where e: "pmm_alloc_frame (pmm_init 4 0) = (a, p')"
    by force
  from pmm_alloc_first_fit [OF pmm_init_small(2) _ e] have "a = frame_addr 256" "free_set p' = {}" "pmm_inv p'"
    by (simp_all add: pmm_init_small(1))
  with e show ?thesis
    by (simp add: frame_addr_def PMM_FRAME_SIZE_def)
qed

text \<open>
  As long as enough frames are free, a run of allocations returns pairwise distinct
  free frame addresses, and freeing all of them gives back the same set of free frames.
\<close>

theorem pmm_alloc_run:
  assumes "pmm_inv p" and "n \<le> card (free_addrs p)"
    and "alloc_seq pmm_alloc_frame n p = (as, p')"
  shows "length as = n \<and> distinct as \<and> set as \<subseteq> free_addrs p \<and> free_addrs p' = free_addrs p - set as
    \<and> free_addrs (fold pmm_free_frame as p') = free_addrs p \<and> pmm_inv (fold pmm_free_frame as p')"
  using frames.alloc_seq_spec [OF assms] frames.alloc_release_roundtrip [OF assms] by simp

theorem pmm_alloc_run_witness:
  "\<exists>as p'. alloc_seq pmm_alloc_frame 1 (pmm_init 4 0) = (as, p') \<and> length as = 1
    \<and> free_addrs (fold pmm_free_frame as p') = {0x100000}"
proof -
  obtain as p' where e: "alloc_seq pmm_alloc_frame 1 (pmm_init 4 0) = (as, p')"
    by force
  have fa: "free_addrs (pmm_init 4 0) = {0x100000}"
    by (simp add: free_addrs_def pmm_init_small frame_addr_def PMM_FRAME_SIZE_def)
  show ?thesis
    using pmm_alloc_run [OF pmm_init_small(2) _ e] e fa by auto
qed

lemma pmm_init_range:
  assumes "unat mem_upper_kb < 4193280" and "unat kernel_end \<le> 4293914624"
  shows "free_set (pmm_init mem_upper_kb kernel_end)
      = {(unat kernel_end + 4095) div 4096 + 256..<(1024 + unat mem_upper_kb) div 4}"
proof -
  have "unat (1024 + mem_upper_kb) = 1024 + unat mem_upper_kb"
    using assms(1) by (simp add: unat_word_ariths)
  moreover from this have "unat ((1024 + mem_upper_kb) * 1024) = (1024 + unat mem_upper_kb) * 1024"
    using assms(1) by (simp add: unat_word_ariths)
  ultimately have m: "unat (managed_frames mem_upper_kb) = (1024 + unat mem_upper_kb) div 4"
    by (simp add: managed_frames_def PMM_FRAME_SIZE_def unat_div_distrib)
  have k: "unat (4095 + kernel_end) = unat kernel_end + 4095"
    using assms(2) by (simp add: unat_word_ariths)
  then have r: "unat (4095 + kernel_end AND - 4096) = (unat kernel_end + 4095) div 4096 * 4096"
    by (simp add: unat_and_neg_4096)
  moreover have "(unat kernel_end + 4095) div 4096 * 4096 \<le> 4293914624"
    using div_le_mono [of "unat kernel_end + 4095" "4293918719" 4096] assms(2) by simp
  ultimately have "unat ((4095 + kernel_end AND - 4096) + 0x100000)
      = (unat kernel_end + 4095) div 4096 * 4096 + 0x100000"
    by (simp add: unat_word_ariths)
  then have f: "unat (first_frame kernel_end) = (unat kernel_end + 4095) div 4096 + 256"
    by (simp add: first_frame_def PMM_FRAME_SIZE_def unat_div_distrib)
  show ?thesis
    using pmm_init_spec [of mem_upper_kb kernel_end] by (simp add: m f)
qed

text \<open>
  \<^verbatim>\<open>pmm_init\<close> leaves free exactly the frames from the first one that starts at
  least 1 MiB above the page-aligned end of the kernel up to the end of memory, as long as the
  sizes it is given do not wrap 32 bits.
\<close>

theorem pmm_init_free_frames:
  assumes "unat mem_upper_kb < 4193280" and "unat kernel_end \<le> 4293914624"
  shows "free_set (pmm_init mem_upper_kb kernel_end)
      = {(unat kernel_end + 4095) div 4096 + 256..<(1024 + unat mem_upper_kb) div 4}
    \<and> pmm_inv (pmm_init mem_upper_kb kernel_end)"
  using pmm_init_range [OF assms] pmm_init_spec(3) by blast

theorem pmm_init_free_frames_witness:
  "free_set (pmm_init 32768 0x200000) = {768..<8448} \<and> pmm_inv (pmm_init 32768 0x200000)"
  using pmm_init_free_frames [of 32768 "0x200000"] by simp

text \<open>
  The byte count wraps at 4 GiB: told that the machine has 4 GiB of memory,
  \<^verbatim>\<open>pmm_init\<close> manages no frame at all and every allocation fails.
\<close>

theorem pmm_init_4gib_wraps:
  "pmm_total_count (pmm_init 4193280 kernel_end) = 0
    \<and> pmm_alloc_frame (pmm_init 4193280 kernel_end) = (0, pmm_init 4193280 kernel_end)"
proof -
  have "managed_frames 4193280 = 0"
    by (simp add: managed_frames_def PMM_FRAME_SIZE_def)
  then have "total_frames (pmm_init 4193280 kernel_end) = 0" "free_set (pmm_init 4193280 kernel_end) = {}"
    using pmm_init_spec [of 4193280 kernel_end] by auto
  then show ?thesis
    by (simp add: pmm_total_count_def pmm_alloc_frame_full)
qed

end
