(* ===== verification/Memory.thy ===== *)
theory Memory
  imports Prelude
begin

text \<open>
  Physical memory as the kernel sees it: a byte for every 32-bit address, and the
  little-endian 32-bit accesses the page-table code and the on-disk structures are made of.
  The facts are about aligned accesses (two different aligned words never overlap) and about
  filling and copying a range that does not wrap around the address space.
\<close>

unbundle bit_operations_syntax

section \<open>Little-endian words\<close>

definition byte_of :: "nat \<Rightarrow> u32 \<Rightarrow> u8" where
  "byte_of i v = ucast (drop_bit (8 * i) v)"

definition word32_of :: "u8 \<Rightarrow> u8 \<Rightarrow> u8 \<Rightarrow> u8 \<Rightarrow> u32" where
  "word32_of a b c d =
     ucast a OR push_bit 8 (ucast b) OR push_bit 16 (ucast c) OR push_bit 24 (ucast d)"

lemma bit_high_8: "8 \<le> n \<Longrightarrow> \<not> bit (a :: u8) n"
  by (auto dest: bit_imp_le_length)

lemma bit_byte_of: "bit (byte_of i v) n \<longleftrightarrow> n < 8 \<and> bit v (8 * i + n)"
  by (auto simp: byte_of_def bit_simps dest: bit_imp_le_length)

lemma bit_word32_of:
  "bit (word32_of a b c d) n =
    (if n < 8 then bit a n else if n < 16 then bit b (n - 8)
     else if n < 24 then bit c (n - 16) else bit d (n - 24))"
proof -
  have "bit (word32_of a b c d) n \<longleftrightarrow> n < 32 \<and> (bit a n \<or> (8 \<le> n \<and> bit b (n - 8))
    \<or> (16 \<le> n \<and> bit c (n - 16)) \<or> (24 \<le> n \<and> bit d (n - 24)))"
    by (auto simp: word32_of_def bit_simps dest: bit_imp_le_length)
  then show ?thesis
    using bit_high_8 [of n a] bit_high_8 [of "n - 8" b] bit_high_8 [of "n - 16" c]
      bit_high_8 [of "n - 24" d]
    by auto arith
qed

lemma word32_of_byte_of [simp]:
  "word32_of (byte_of 0 v) (byte_of (Suc 0) v) (byte_of 2 v) (byte_of 3 v) = v"
  by (rule bit_word_eqI) (auto simp: bit_word32_of bit_byte_of)

lemma byte_of_word32_of [simp]:
  "byte_of 0 (word32_of a b c d) = a"
  "byte_of (Suc 0) (word32_of a b c d) = b"
  "byte_of 2 (word32_of a b c d) = c"
  "byte_of 3 (word32_of a b c d) = d"
  by (rule bit_word_eqI; simp add: bit_word32_of bit_byte_of)+

section \<open>Memory\<close>

type_synonym mem = "u32 \<Rightarrow> u8"

definition load32 :: "mem \<Rightarrow> u32 \<Rightarrow> u32" where
  "load32 m a = word32_of (m a) (m (a + 1)) (m (a + 2)) (m (a + 3))"

definition store32 :: "u32 \<Rightarrow> u32 \<Rightarrow> mem \<Rightarrow> mem" where
  "store32 a v m = m(a := byte_of 0 v, a + 1 := byte_of 1 v, a + 2 := byte_of 2 v, a + 3 := byte_of 3 v)"

primrec fill :: "nat \<Rightarrow> u32 \<Rightarrow> u8 \<Rightarrow> mem \<Rightarrow> mem" where
  "fill 0 a c m = m"
| "fill (Suc n) a c m = fill n (a + 1) c (m(a := c))"

primrec copy_bytes :: "nat \<Rightarrow> u32 \<Rightarrow> u32 \<Rightarrow> mem \<Rightarrow> mem" where
  "copy_bytes 0 d s m = m"
| "copy_bytes (Suc n) d s m = copy_bytes n (d + 1) (s + 1) (m(d := m s))"

fun store_bytes :: "u32 \<Rightarrow> bytes \<Rightarrow> mem \<Rightarrow> mem" where
  "store_bytes a [] m = m"
| "store_bytes a (b # bs) m = store_bytes (a + 1) bs (m(a := b))"

lemma load32_store32 [simp]: "load32 (store32 a v m) a = v"
proof -
  have "a + 1 \<noteq> a" "a + 2 \<noteq> a" "a + 3 \<noteq> a" "a + 2 \<noteq> a + 1" "a + 3 \<noteq> a + 1" "a + 3 \<noteq> a + 2"
    by simp_all
  then show ?thesis
    by (simp add: load32_def store32_def)
qed

text \<open>The bytes of a range that does not wrap.\<close>

definition span :: "u32 \<Rightarrow> nat \<Rightarrow> u32 set" where
  "span a n = {x. unat a \<le> unat x \<and> unat x < unat a + n}"

definition fits :: "u32 \<Rightarrow> nat \<Rightarrow> bool" where
  "fits a n \<longleftrightarrow> unat a + n \<le> 4294967296"

lemma unat_add_fits: "fits a n \<Longrightarrow> k < n \<Longrightarrow> unat (a + of_nat k) = unat a + k"
  by (simp add: fits_def unat_word_ariths unat_of_nat)

lemma fits_Suc: "fits a (Suc (Suc n)) \<Longrightarrow> fits (a + 1) (Suc n)"
  using unat_add_fits [of a "Suc (Suc n)" 1] by (simp add: fits_def)

lemma load32_cong:
  assumes "fits a 4" and "\<And>x. x \<in> span a 4 \<Longrightarrow> m x = m' x"
  shows "load32 m a = load32 m' a"
proof -
  have "a + of_nat k \<in> span a 4" if "k < 4" for k
    using that unat_add_fits [OF assms(1) that] by (simp add: span_def)
  from this [of 0] this [of 1] this [of 2] this [of 3]
  have "m a = m' a" "m (a + 1) = m' (a + 1)" "m (a + 2) = m' (a + 2)" "m (a + 3) = m' (a + 3)"
    by (auto intro!: assms(2))
  then show ?thesis
    by (simp add: load32_def)
qed

lemma store32_other:
  assumes "fits a 4" and "x \<notin> span a 4"
  shows "store32 a v m x = m x"
proof -
  have "a + of_nat k \<in> span a 4" if "k < 4" for k
    using that unat_add_fits [OF assms(1) that] by (simp add: span_def)
  from this [of 0] this [of 1] this [of 2] this [of 3]
  have "x \<noteq> a" "x \<noteq> a + 1" "x \<noteq> a + 2" "x \<noteq> a + 3"
    using assms(2) by auto
  then show ?thesis
    by (simp add: store32_def)
qed

lemma load32_store32_disjoint:
  assumes "fits a 4" and "fits b 4" and "span a 4 \<inter> span b 4 = {}"
  shows "load32 (store32 a v m) b = load32 m b"
  using assms by (intro load32_cong) (auto intro: store32_other)

lemma span_empty [simp]: "span a 0 = {}"
  by (simp add: span_def)

lemma span_one [simp]: "span a (Suc 0) = {a}"
  by (auto simp: span_def word_unat_eq_iff)

lemma span_head: "a \<in> span a (Suc n)"
  by (simp add: span_def)

lemma unat_succ_fits:
  assumes "fits a (Suc n)"
  shows "unat (a + 1) = Suc (unat a) \<or> (n = 0 \<and> a + 1 = 0)"
proof (cases "unat a + 1 < 4294967296")
  case True
  then show ?thesis
    by (simp add: unat_word_ariths)
next
  case False
  then have "unat a = 4294967295" and "n = 0"
    using assms unat_less_32 [of a] by (auto simp: fits_def)
  then have "a = of_nat 4294967295"
    by (metis word_of_nat_eq_iff of_nat_unat ucast_id) 
  then show ?thesis
    using \<open>n = 0\<close> by simp
qed

text \<open>One step of a byte loop over a range: the first byte, and the rest of the range.\<close>

lemma span_step:
  assumes "fits a (Suc n)"
  shows "span a (Suc n) = insert a (span (a + 1) n)" and "a \<notin> span (a + 1) n"
    and "n \<noteq> 0 \<Longrightarrow> fits (a + 1) n"
proof -
  have eq: "x = a \<longleftrightarrow> unat x = unat a" for x
    by (simp add: word_unat_eq_iff)
  show "span a (Suc n) = insert a (span (a + 1) n)" "a \<notin> span (a + 1) n"
    "n \<noteq> 0 \<Longrightarrow> fits (a + 1) n"
    using unat_succ_fits [OF assms] assms by (auto simp: span_def fits_def eq)
qed

lemma fill_apply:
  assumes "fits a n"
  shows "fill n a c m x = (if x \<in> span a n then c else m x)"
  using assms
proof (induction n arbitrary: a m)
  case (Suc n)
  show ?case
  proof (cases "n = 0")
    case False
    have "fill (Suc n) a c m x = (if x \<in> span (a + 1) n then c else (m(a := c)) x)"
      using Suc.IH [OF span_step(3) [OF Suc.prems False]] by simp
    then show ?thesis
      unfolding span_step(1) [OF Suc.prems] by (cases "x = a") simp_all
  qed simp
qed simp

lemma store_bytes_apply:
  assumes "fits a (length bs)"
  shows "store_bytes a bs m x =
    (if x \<in> span a (length bs) then bs ! (unat x - unat a) else m x)"
  using assms
proof (induction a bs m rule: store_bytes.induct)
  case (2 a b bs m)
  have f: "fits a (Suc (length bs))"
    using "2.prems" by simp
  show ?case
  proof (cases "bs = []")
    case False
    have u: "unat (a + 1) = Suc (unat a)"
      using unat_succ_fits [OF f] False by simp
    have "unat x - unat a = Suc (unat x - unat (a + 1))" if "x \<in> span (a + 1) (length bs)"
      using that by (auto simp: span_def u)
    moreover have "store_bytes a (b # bs) m x =
        (if x \<in> span (a + 1) (length bs) then bs ! (unat x - unat (a + 1)) else (m(a := b)) x)"
      using "2.IH" [OF span_step(3) [OF f]] False by (simp del: fun_upd_apply)
    ultimately show ?thesis
      unfolding list.size(4) add_Suc_right add_0_right span_step(1) [OF f]
      by (cases "x = a") (use span_step(2) [OF f] in simp_all)
  qed simp
qed simp

lemma copy_bytes_apply:
  assumes "fits d n" and "fits s n" and "span d n \<inter> span s n = {}"
  shows "copy_bytes n d s m x = (if x \<in> span d n then m (s + (x - d)) else m x)"
  using assms
proof (induction n arbitrary: d s m)
  case (Suc n)
  show ?case
  proof (cases "n = 0")
    case False
    note d = span_step [OF Suc.prems(1)] and s = span_step [OF Suc.prems(2)]
    have disj: "span (d + 1) n \<inter> span (s + 1) n = {}"
      using Suc.prems(3) d(1) s(1) by blast
    have other: "m (s + (x - d)) = (m(d := m s)) (s + 1 + (x - (d + 1)))" if "x \<in> span (d + 1) n"
    proof -
      have "x \<in> span d (Suc n)"
        using that d(1) by simp
      then have "unat x - unat d < Suc n" "d \<le> x"
        by (auto simp: span_def word_le_nat_alt)
      then have "unat (s + (x - d)) = unat s + (unat x - unat d)"
        using unat_add_fits [OF Suc.prems(2), of "unat x - unat d"]
        by (simp add: unat_sub [symmetric])
      then have "s + (x - d) \<in> span s (Suc n)"
        using \<open>unat x - unat d < Suc n\<close> by (simp add: span_def)
      moreover have "d \<notin> span s (Suc n)"
        using Suc.prems(3) d(1) by blast
      ultimately have "s + (x - d) \<noteq> d"
        by metis
      then show ?thesis
        by (simp add: algebra_simps)
    qed
    have "copy_bytes (Suc n) d s m x =
        (if x \<in> span (d + 1) n then (m(d := m s)) (s + 1 + (x - (d + 1))) else (m(d := m s)) x)"
      using Suc.IH [OF d(3) [OF False] s(3) [OF False] disj] by simp
    then show ?thesis
      unfolding d(1) using other d(2) by (cases "x = d") simp_all
  qed simp
qed simp

end
