(* ===== verification/Paging.thy ===== *)
theory Paging
  imports Pmm Memory
begin

text \<open>
  Address spaces, \<^verbatim>\<open>kernel/i386/paging.c\<close>: two-level i386 page tables kept in
  physical memory. The record \<open>mm\<close> holds physical memory, the frame allocator and the
  static variables of the file. The kernel reads and writes page tables through pointers
  that are physical addresses; the model does the same on physical memory, which is what
  those pointers mean as long as the frames lie in the identity-mapped window that
  \<^verbatim>\<open>hal_paging_init\<close> sets up. TLB maintenance (\<^verbatim>\<open>invlpg\<close>) has no effect on
  this state and is left out; loading \<^verbatim>\<open>cr3\<close> and setting the paging bit of
  \<^verbatim>\<open>cr0\<close> are fields.
\<close>

unbundle bit_operations_syntax

section \<open>State and operations\<close>

record mm =
  phys :: mem
  frames_of :: pmm
  kernel_dir :: u32
  kernel_dir_phys :: u32
  current_dir_phys :: u32
  cr3 :: u32
  cr0 :: u32

definition PAGE_SIZE :: nat where
  "PAGE_SIZE = 4096"

definition ENTRIES :: nat where
  "ENTRIES = 1024"

definition USER_BASE :: u32 where
  "USER_BASE = 0x40000000"

definition HAL_PG_PRESENT :: u32 where
  "HAL_PG_PRESENT = 1"

definition HAL_PG_WRITE :: u32 where
  "HAL_PG_WRITE = 2"

definition HAL_PG_USER :: u32 where
  "HAL_PG_USER = 4"

definition pd_index :: "u32 \<Rightarrow> u32" where
  "pd_index va = drop_bit 22 va AND 0x3FF"

definition pt_index :: "u32 \<Rightarrow> u32" where
  "pt_index va = drop_bit 12 va AND 0x3FF"

text \<open>\<^verbatim>\<open>dir[i]\<close> and \<^verbatim>\<open>dir[i] = v\<close> for a \<^verbatim>\<open>uint32_t *dir\<close>.\<close>

definition entry :: "mm \<Rightarrow> u32 \<Rightarrow> u32 \<Rightarrow> u32" where
  "entry s dir i = load32 (phys s) (dir + 4 * i)"

definition set_entry :: "u32 \<Rightarrow> u32 \<Rightarrow> u32 \<Rightarrow> mm \<Rightarrow> mm" where
  "set_entry dir i v s = s\<lparr>phys := store32 (dir + 4 * i) v (phys s)\<rparr>"

definition present :: "u32 \<Rightarrow> bool" where
  "present e \<longleftrightarrow> e AND HAL_PG_PRESENT \<noteq> 0"

definition alloc_frame :: "mm \<Rightarrow> u32 \<times> mm" where
  "alloc_frame s = (let (a, p) = pmm_alloc_frame (frames_of s) in (a, s\<lparr>frames_of := p\<rparr>))"

definition free_frame :: "u32 \<Rightarrow> mm \<Rightarrow> mm" where
  "free_frame a s = s\<lparr>frames_of := pmm_free_frame a (frames_of s)\<rparr>"

definition clear_page :: "u32 \<Rightarrow> mm \<Rightarrow> mm" where
  "clear_page a s = s\<lparr>phys := fill PAGE_SIZE a 0 (phys s)\<rparr>"

definition map_in_dir :: "u32 \<Rightarrow> u32 \<Rightarrow> u32 \<Rightarrow> u32 \<Rightarrow> mm \<Rightarrow> mm" where
  "map_in_dir dir va pa flags s =
     (let di = pd_index va; ti = pt_index va;
          (table, s) =
            (if \<not> present (entry s dir di)
             then let (table, s) = alloc_frame s;
                      s = clear_page table s;
                      s = set_entry dir di
                            (table OR HAL_PG_PRESENT OR HAL_PG_WRITE OR (flags AND HAL_PG_USER)) s
                  in (table, s)
             else let table = entry s dir di AND NOT 0xFFF;
                      s = (if flags AND HAL_PG_USER \<noteq> 0
                           then set_entry dir di (entry s dir di OR HAL_PG_USER) s else s)
                  in (table, s))
      in set_entry table ti ((pa AND NOT 0xFFF) OR (flags AND 0xFFF) OR HAL_PG_PRESENT) s)"

definition hal_paging_switch :: "u32 \<Rightarrow> mm \<Rightarrow> mm" where
  "hal_paging_switch dir s = s\<lparr>current_dir_phys := dir, cr3 := dir\<rparr>"

text \<open>The identity-mapping loop of \<^verbatim>\<open>hal_paging_init\<close>; it visits 32768 pages.\<close>

function identity_map_loop :: "u32 \<Rightarrow> mm \<Rightarrow> mm" where
  "identity_map_loop addr s =
     (if addr < 0x8000000
      then identity_map_loop (addr + 4096)
             (map_in_dir (kernel_dir s) addr addr (HAL_PG_PRESENT OR HAL_PG_WRITE) s)
      else s)"
  by pat_completeness auto
termination
proof (relation "measure (\<lambda>(addr, s). 0x8000000 - unat addr)", goal_cases)
  case (2 addr s)
  then have "unat addr < 0x8000000"
    by (simp add: word_less_nat_alt)
  moreover from this have "unat (addr + 4096) = unat addr + 4096"
    by (simp add: unat_word_ariths)
  ultimately show ?case
    by simp
qed simp

definition hal_paging_init :: "mm \<Rightarrow> mm" where
  "hal_paging_init s =
     (let (dir, s) = alloc_frame s;
          s = s\<lparr>kernel_dir := dir, kernel_dir_phys := dir, current_dir_phys := dir\<rparr>;
          s = clear_page dir s;
          s = identity_map_loop 0 s;
          s = hal_paging_switch (kernel_dir_phys s) s
      in s\<lparr>cr0 := cr0 s OR 0x80000000\<rparr>)"

definition hal_paging_map :: "u32 \<Rightarrow> u32 \<Rightarrow> u32 \<Rightarrow> mm \<Rightarrow> mm" where
  "hal_paging_map va pa flags s = map_in_dir (kernel_dir s) va pa flags s"

definition hal_paging_unmap :: "u32 \<Rightarrow> mm \<Rightarrow> mm" where
  "hal_paging_unmap va s =
     (let di = pd_index va; ti = pt_index va in
      if \<not> present (entry s (kernel_dir s) di) then s
      else set_entry (entry s (kernel_dir s) di AND NOT 0xFFF) ti 0 s)"

definition hal_paging_resolve :: "u32 \<Rightarrow> mm \<Rightarrow> u32" where
  "hal_paging_resolve va s =
     (let di = pd_index va; ti = pt_index va in
      if \<not> present (entry s (kernel_dir s) di) then 0
      else let table = entry s (kernel_dir s) di AND NOT 0xFFF in
           if \<not> present (entry s table ti) then 0
           else (entry s table ti AND NOT 0xFFF) OR (va AND 0xFFF))"

definition hal_paging_kernel_dir :: "mm \<Rightarrow> u32" where
  "hal_paging_kernel_dir s = kernel_dir_phys s"

definition hal_addrspace_current :: "mm \<Rightarrow> u32" where
  "hal_addrspace_current s = current_dir_phys s"

fun copy_pdes :: "nat \<Rightarrow> u32 \<Rightarrow> u32 \<Rightarrow> mm \<Rightarrow> mm" where
  "copy_pdes 0 i dir s = s"
| "copy_pdes (Suc n) i dir s =
     copy_pdes n (i + 1) dir (set_entry dir i (entry s (kernel_dir s) i) s)"

definition hal_addrspace_create :: "mm \<Rightarrow> u32 \<times> mm" where
  "hal_addrspace_create s =
     (let (dir, s) = alloc_frame s in
      if dir = 0 then (0, s)
      else let s = clear_page dir s;
               kernel_pdes = drop_bit 22 USER_BASE;
               s = copy_pdes (unat kernel_pdes) 0 dir s
           in (dir, s))"

definition hal_addrspace_map_user :: "u32 \<Rightarrow> u32 \<Rightarrow> u32 \<Rightarrow> mm \<Rightarrow> int \<times> mm" where
  "hal_addrspace_map_user dir_phys va flags s =
     (let (frame, s) = alloc_frame s in
      if frame = 0 then (- 1, s)
      else (0, map_in_dir dir_phys va frame
                 (HAL_PG_PRESENT OR HAL_PG_WRITE OR HAL_PG_USER OR flags) s))"

definition dir_resolve :: "u32 \<Rightarrow> u32 \<Rightarrow> mm \<Rightarrow> u32" where
  "dir_resolve dir va s =
     (let di = pd_index va; ti = pt_index va in
      if \<not> present (entry s dir di) then 0
      else let table = entry s dir di AND NOT 0xFFF in
           if \<not> present (entry s table ti) then 0
           else entry s table ti AND NOT 0xFFF)"

text \<open>
  \<^verbatim>\<open>hal_addrspace_copy_to\<close> and \<^verbatim>\<open>hal_addrspace_memset\<close>: page by page, mapping
  a fresh frame where the target page has none. Each round moves at least one byte.
\<close>

definition chunk_len :: "u32 \<Rightarrow> u32 \<Rightarrow> u32 \<Rightarrow> u32" where
  "chunk_len cur len done =
     (let off = cur AND 0xFFF; chunk = 4096 - off in
      if chunk > len - done then len - done else chunk)"

definition resolve_or_map :: "u32 \<Rightarrow> u32 \<Rightarrow> mm \<Rightarrow> u32 \<times> mm" where
  "resolve_or_map dir_phys cur s =
     (let frame = dir_resolve dir_phys cur s in
      if frame = 0
      then let (r, s) = hal_addrspace_map_user dir_phys (cur AND NOT 0xFFF) 0 s
           in (dir_resolve dir_phys cur s, s)
      else (frame, s))"

lemma chunk_len_progress:
  assumes "done < len"
  shows "0 < unat (chunk_len cur len done)"
    and "unat (done + chunk_len cur len done) = unat done + unat (chunk_len cur len done)"
    and "unat done + unat (chunk_len cur len done) \<le> unat len"
proof -
  have off: "unat (cur AND 0xFFF) < 4096"
    by (simp add: unat_and_4095)
  then have chunk: "unat (4096 - (cur AND 0xFFF)) = 4096 - unat (cur AND 0xFFF)"
    by (simp add: unat_sub word_le_nat_alt)
  have rest: "unat (len - done) = unat len - unat done"
    using assms by (simp add: unat_sub)
  have "0 < unat (4096 - (cur AND 0xFFF))"
    using off chunk by simp
  moreover have "0 < unat (len - done)"
    using assms rest by (simp add: word_less_nat_alt)
  ultimately show pos: "0 < unat (chunk_len cur len done)"
    by (simp add: chunk_len_def Let_def)
  show le: "unat done + unat (chunk_len cur len done) \<le> unat len"
    using assms rest by (auto simp: chunk_len_def Let_def word_less_nat_alt not_less)
  have "unat done + unat (chunk_len cur len done) < 4294967296"
    using le unat_less_32 [of len] by (rule order.strict_trans1)
  then show "unat (done + chunk_len cur len done) = unat done + unat (chunk_len cur len done)"
    by (rule unat_add_no_wrap)
qed

lemma chunk_len_less:
  "done < len \<Longrightarrow> unat len - unat (done + chunk_len cur len done) < unat len - unat done"
  using chunk_len_progress [of "done" len cur] by (simp add: word_less_nat_alt)

function copy_to_loop :: "u32 \<Rightarrow> u32 \<Rightarrow> bytes \<Rightarrow> u32 \<Rightarrow> u32 \<Rightarrow> mm \<Rightarrow> mm" where
  "copy_to_loop dir_phys va src len done s =
     (if done < len
      then let cur = va + done;
               chunk = chunk_len cur len done;
               (frame, s) = resolve_or_map dir_phys cur s
           in if frame = 0 then s
              else copy_to_loop dir_phys va src len (done + chunk)
                     (s\<lparr>phys := store_bytes (frame + (cur AND 0xFFF))
                                 (take (unat chunk) (drop (unat done) src)) (phys s)\<rparr>)
      else s)"
  by pat_completeness auto
termination
proof (relation "measure (\<lambda>(dir, va, src, len, done, s). unat len - unat done)", goal_cases)
  case (2 dir_phys va src len d s)
  then show ?case
    using chunk_len_less [of d len "va + d"] by simp
qed simp

definition hal_addrspace_copy_to :: "u32 \<Rightarrow> u32 \<Rightarrow> bytes \<Rightarrow> u32 \<Rightarrow> mm \<Rightarrow> mm" where
  "hal_addrspace_copy_to dir_phys va src len s = copy_to_loop dir_phys va src len 0 s"

function memset_loop :: "u32 \<Rightarrow> u32 \<Rightarrow> u8 \<Rightarrow> u32 \<Rightarrow> u32 \<Rightarrow> mm \<Rightarrow> mm" where
  "memset_loop dir_phys va c len done s =
     (if done < len
      then let cur = va + done;
               chunk = chunk_len cur len done;
               (frame, s) = resolve_or_map dir_phys cur s
           in if frame = 0 then s
              else memset_loop dir_phys va c len (done + chunk)
                     (s\<lparr>phys := fill (unat chunk) (frame + (cur AND 0xFFF)) c (phys s)\<rparr>)
      else s)"
  by pat_completeness auto
termination
proof (relation "measure (\<lambda>(dir, va, c, len, done, s). unat len - unat done)", goal_cases)
  case (2 dir_phys va c len d s)
  then show ?case
    using chunk_len_less [of d len "va + d"] by simp
qed simp

definition hal_addrspace_memset :: "u32 \<Rightarrow> u32 \<Rightarrow> u8 \<Rightarrow> u32 \<Rightarrow> mm \<Rightarrow> mm" where
  "hal_addrspace_memset dir_phys va c len s = memset_loop dir_phys va c len 0 s"

text \<open>
  \<^verbatim>\<open>hal_addrspace_clone\<close> (the copy behind \<^verbatim>\<open>fork\<close>) and
  \<^verbatim>\<open>hal_addrspace_destroy\<close>. The inner loops run over the entries of one table, the outer
  ones over the page directory from the user half up; the first argument counts the
  iterations left.
\<close>

fun clone_table :: "nat \<Rightarrow> u32 \<Rightarrow> u32 \<Rightarrow> u32 \<Rightarrow> mm \<Rightarrow> mm" where
  "clone_table 0 ti src_table dst_table s = s"
| "clone_table (Suc n) ti src_table dst_table s =
     clone_table n (ti + 1) src_table dst_table
       (if \<not> present (entry s src_table ti) then s
        else let src_frame = entry s src_table ti AND NOT 0xFFF;
                 (dst_frame, s) = alloc_frame s;
                 s = s\<lparr>phys := copy_bytes PAGE_SIZE dst_frame src_frame (phys s)\<rparr>
             in set_entry dst_table ti (dst_frame OR (entry s src_table ti AND 0xFFF)) s)"

fun clone_dir :: "nat \<Rightarrow> u32 \<Rightarrow> u32 \<Rightarrow> u32 \<Rightarrow> mm \<Rightarrow> mm" where
  "clone_dir 0 di src dst s = s"
| "clone_dir (Suc n) di src dst s =
     clone_dir n (di + 1) src dst
       (if \<not> present (entry s src di) then s
        else let src_table = entry s src di AND NOT 0xFFF;
                 (dst_table, s) = alloc_frame s;
                 s = clear_page dst_table s;
                 s = set_entry dst di (dst_table OR (entry s src di AND 0xFFF)) s
             in clone_table ENTRIES 0 src_table dst_table s)"

definition start_pde :: u32 where
  "start_pde = drop_bit 22 USER_BASE"

definition hal_addrspace_clone :: "u32 \<Rightarrow> mm \<Rightarrow> u32 \<times> mm" where
  "hal_addrspace_clone src_dir_phys s =
     (let (new_phys, s) = hal_addrspace_create s in
      if new_phys = 0 then (0, s)
      else (new_phys, clone_dir (ENTRIES - unat start_pde) start_pde src_dir_phys new_phys s))"

fun free_table :: "nat \<Rightarrow> u32 \<Rightarrow> u32 \<Rightarrow> mm \<Rightarrow> mm" where
  "free_table 0 ti table s = s"
| "free_table (Suc n) ti table s =
     free_table n (ti + 1) table
       (if present (entry s table ti) then free_frame (entry s table ti AND NOT 0xFFF) s else s)"

fun free_dir :: "nat \<Rightarrow> u32 \<Rightarrow> u32 \<Rightarrow> mm \<Rightarrow> mm" where
  "free_dir 0 di dir s = s"
| "free_dir (Suc n) di dir s =
     free_dir n (di + 1) dir
       (if \<not> present (entry s dir di) then s
        else let table = entry s dir di AND NOT 0xFFF
             in free_frame table (free_table ENTRIES 0 table s))"

definition hal_addrspace_destroy :: "u32 \<Rightarrow> mm \<Rightarrow> mm" where
  "hal_addrspace_destroy dir_phys s =
     (if dir_phys = 0 \<or> dir_phys = kernel_dir_phys s then s
      else free_frame dir_phys (free_dir (ENTRIES - unat start_pde) start_pde dir_phys s))"

declare identity_map_loop.simps [simp del] copy_to_loop.simps [simp del] memset_loop.simps [simp del]

section \<open>Entries of page-aligned tables\<close>

definition page_aligned :: "u32 \<Rightarrow> bool" where
  "page_aligned a \<longleftrightarrow> unat a mod 4096 = 0"

lemma page_aligned_fits: "page_aligned a \<Longrightarrow> fits a 4096"
proof -
  assume "page_aligned a"
  then obtain k where k: "unat a = 4096 * k"
    by (auto simp: page_aligned_def)
  then have "4096 * k < 4294967296"
    using unat_less_32 [of a] by simp
  then have "k < 1048576" by simp
  then show ?thesis
    by (simp add: fits_def k)
qed

lemma entry_addr:
  assumes "page_aligned d" and "i < 1024"
  shows "unat (d + 4 * i) = unat d + 4 * unat i" and "fits (d + 4 * i) 4"
proof -
  have i: "unat i < 1024"
    using assms(2) by (simp add: word_less_nat_alt)
  then have "unat (4 * i) = 4 * unat i"
    by (simp add: unat_word_ariths)
  moreover have "unat d + 4096 \<le> 4294967296"
    using page_aligned_fits [OF assms(1)] by (simp add: fits_def)
  ultimately show u: "unat (d + 4 * i) = unat d + 4 * unat i"
    using i by (simp add: unat_word_ariths)
  show "fits (d + 4 * i) 4"
    using \<open>unat d + 4096 \<le> 4294967296\<close> i by (simp add: fits_def u)
qed

lemma page_aligned_apart:
  assumes "page_aligned a" and "page_aligned b" and "a \<noteq> b"
  shows "unat a + 4096 \<le> unat b \<or> unat b + 4096 \<le> unat a"
proof -
  obtain j k where "unat a = 4096 * j" and "unat b = 4096 * k"
    using assms(1,2) by (auto simp: page_aligned_def elim!: dvdE)
  moreover have "unat a \<noteq> unat b"
    using assms(3) by (simp add: word_unat_eq_iff)
  ultimately show ?thesis
    by (cases j k rule: linorder_cases) auto
qed

lemma span_entry: "page_aligned d \<Longrightarrow> i < 1024 \<Longrightarrow> span (d + 4 * i) 4 \<subseteq> span d 4096"
  using entry_addr(1) [of d i] by (auto simp: span_def word_less_nat_alt)

lemma span_pages_disjoint:
  "page_aligned a \<Longrightarrow> page_aligned b \<Longrightarrow> a \<noteq> b \<Longrightarrow> span a 4096 \<inter> span b 4096 = {}"
  using page_aligned_apart [of a b] by (auto simp: span_def)

lemma span_entries_disjoint:
  assumes "page_aligned a" "page_aligned b" "i < 1024" "j < 1024" "a \<noteq> b \<or> i \<noteq> j"
  shows "span (a + 4 * i) 4 \<inter> span (b + 4 * j) 4 = {}"
proof (cases "a = b")
  case True
  then have "unat i \<noteq> unat j"
    using assms(5) by (simp add: word_unat_eq_iff)
  then show ?thesis
    using entry_addr(1) [OF assms(1,3)] entry_addr(1) [OF assms(2,4)] True by (auto simp: span_def)
next
  case False
  then show ?thesis
    using span_pages_disjoint [OF assms(1,2)] span_entry [OF assms(1,3)] span_entry [OF assms(2,4)]
    by blast
qed

lemma entry_set_entry_same [simp]: "entry (set_entry d i v s) d i = v"
  by (simp add: entry_def set_entry_def)

lemma entry_set_entry_other:
  assumes "page_aligned a" "page_aligned b" "i < 1024" "j < 1024" "a \<noteq> b \<or> i \<noteq> j"
  shows "entry (set_entry a i v s) b j = entry s b j"
  using load32_store32_disjoint [OF entry_addr(2) [OF assms(1,3)] entry_addr(2) [OF assms(2,4)]
      span_entries_disjoint [OF assms]]
  by (simp add: entry_def set_entry_def)

lemma entry_clear_page:
  assumes "page_aligned a" "page_aligned d" "i < 1024"
  shows "entry (clear_page a s) d i = (if d = a then 0 else entry s d i)"
proof -
  have fa: "fits a 4096"
    using assms(1) by (rule page_aligned_fits)
  note app = fill_apply [OF fa]
  have cong: "load32 (fill 4096 a 0 (phys s)) (d + 4 * i) = load32 m (d + 4 * i)"
    if "\<And>x. x \<in> span (d + 4 * i) 4 \<Longrightarrow> fill 4096 a 0 (phys s) x = m x" for m
    using that entry_addr(2) [OF assms(2,3)] by (rule load32_cong [rotated])
  show ?thesis
  proof (cases "d = a")
    case True
    have "load32 (fill 4096 a 0 (phys s)) (d + 4 * i) = load32 (\<lambda>_. 0) (d + 4 * i)"
      using span_entry [OF assms(2,3)] True by (intro cong) (auto simp: app)
    then show ?thesis
      using True by (simp add: entry_def clear_page_def PAGE_SIZE_def load32_def word32_of_def)
  next
    case False
    have "load32 (fill 4096 a 0 (phys s)) (d + 4 * i) = load32 (phys s) (d + 4 * i)"
      using span_entry [OF assms(2,3)] span_pages_disjoint [OF assms(1,2)] False
      by (intro cong) (auto simp: app)
    then show ?thesis
      using False by (simp add: entry_def clear_page_def PAGE_SIZE_def)
  qed
qed

lemma entry_frames_update [simp]: "entry (s\<lparr>frames_of := p\<rparr>) d i = entry s d i"
  by (simp add: entry_def)

lemma pd_index_less [simp]: "pd_index va < 1024"
  using unat_and_mask [of "drop_bit 22 va" 10]
  by (simp add: pd_index_def word_less_nat_alt mask_eq_exp_minus_1)

lemma pt_index_less [simp]: "pt_index va < 1024"
  using unat_and_mask [of "drop_bit 12 va" 10]
  by (simp add: pt_index_def word_less_nat_alt mask_eq_exp_minus_1)

section \<open>Bits of an entry\<close>

lemma ones_12: "(0xFFF :: u32) = mask 12"
  by (simp add: mask_eq_exp_minus_1)

lemma present_bit: "present e \<longleftrightarrow> bit e 0"
  using and_power_nonzero [of e 0] by (simp add: present_def HAL_PG_PRESENT_def)

lemma page_aligned_bits: "page_aligned a \<longleftrightarrow> (\<forall>n<12. \<not> bit a n)"
proof -
  have "page_aligned a \<longleftrightarrow> unat (a AND mask 12) = 0"
    by (simp add: page_aligned_def unat_and_mask)
  also have "\<dots> \<longleftrightarrow> a AND mask 12 = 0"
    by (simp add: unat_eq_zero)
  also have "\<dots> \<longleftrightarrow> (\<forall>n<32. \<not> (bit a n \<and> n < 12))"
    by (simp add: bit_eq_iff bit_simps)
  also have "\<dots> \<longleftrightarrow> (\<forall>n<12. \<not> bit a n)"
  proof (intro iffI allI impI notI)
    fix n :: nat
    assume l: "\<forall>n<32. \<not> (bit a n \<and> n < 12)" and n: "n < 12" "bit a n"
    have "n < 32"
      using n(1) by simp
    with l n show False by blast
  qed blast
  finally show ?thesis .
qed

lemma page_aligned_masked [simp]: "page_aligned (a AND NOT 0xFFF)"
  unfolding page_aligned_bits ones_12 by (simp add: bit_simps)

lemma frame_of_entry:
  "((pa AND NOT 0xFFF) OR (flags AND 0xFFF) OR HAL_PG_PRESENT) AND NOT 0xFFF = pa AND NOT 0xFFF"
  unfolding ones_12 HAL_PG_PRESENT_def by (rule bit_word_eqI) (auto simp: bit_simps)

lemma present_entry: "present ((pa AND NOT 0xFFF) OR (flags AND 0xFFF) OR HAL_PG_PRESENT)"
  by (simp add: present_bit HAL_PG_PRESENT_def bit_simps)

lemma frame_of_pde:
  assumes "page_aligned t"
  shows "(t OR HAL_PG_PRESENT OR HAL_PG_WRITE OR (fl AND HAL_PG_USER)) AND NOT 0xFFF = t"
proof (rule bit_word_eqI)
  fix n
  assume "n < LENGTH(32)"
  have "\<not> n < 12 \<or> \<not> bit t n"
    using assms by (auto simp: page_aligned_bits)
  moreover have "bit (2 :: u32) n \<longleftrightarrow> n = 1" "bit (4 :: u32) n \<longleftrightarrow> n = 2"
    using bit_exp_iff [where 'a = u32, of 1 n] bit_exp_iff [where 'a = u32, of 2 n] \<open>n < LENGTH(32)\<close>
    by auto
  ultimately show "bit ((t OR HAL_PG_PRESENT OR HAL_PG_WRITE OR (fl AND HAL_PG_USER)) AND NOT 0xFFF) n
      = bit t n"
    using \<open>n < LENGTH(32)\<close>
    unfolding ones_12 HAL_PG_PRESENT_def HAL_PG_WRITE_def HAL_PG_USER_def
    by (auto simp: bit_simps)
qed

lemma frame_of_user_pde: "(e OR HAL_PG_USER) AND NOT 0xFFF = e AND NOT 0xFFF"
proof (rule bit_word_eqI)
  fix n
  assume "n < LENGTH(32)"
  then show "bit ((e OR HAL_PG_USER) AND NOT 0xFFF) n = bit (e AND NOT 0xFFF) n"
    using bit_exp_iff [where 'a = u32, of 2 n]
    unfolding ones_12 HAL_PG_USER_def by (auto simp: bit_simps)
qed

lemma present_pde [simp]:
  "present (t OR HAL_PG_PRESENT OR HAL_PG_WRITE OR x)"
  "present e \<Longrightarrow> present (e OR HAL_PG_USER)"
  by (simp_all add: present_bit HAL_PG_PRESENT_def bit_simps)

lemma page_index_iff:
  "pd_index va = pd_index vb \<and> pt_index va = pt_index vb \<longleftrightarrow> va AND NOT 0xFFF = vb AND NOT 0xFFF"
proof -
  have m: "(0x3FF :: u32) = mask 10"
    by (simp add: mask_eq_exp_minus_1)
  show ?thesis (is "?l \<longleftrightarrow> ?r")
  proof
    assume l: ?l
    show ?r
    proof (rule bit_word_eqI)
      fix n
      assume n: "n < LENGTH(32)"
      have "bit (pd_index va) (n - 22) = bit (pd_index vb) (n - 22)"
        "bit (pt_index va) (n - 12) = bit (pt_index vb) (n - 12)"
        using l by simp_all
      then show "bit (va AND NOT 0xFFF) n = bit (vb AND NOT 0xFFF) n"
        using n unfolding pd_index_def pt_index_def m ones_12
        by (cases "n < 12"; cases "n < 22") (auto simp: bit_simps)
    qed
  next
    assume r: ?r
    have "bit va n = bit vb n" if "12 \<le> n" "n < 32" for n
      using that arg_cong [OF r, of "\<lambda>w. bit w n"] unfolding ones_12 by (simp add: bit_simps)
    then show ?l
      unfolding pd_index_def pt_index_def m by (auto intro!: bit_word_eqI simp: bit_simps)
  qed
qed

section \<open>Address spaces as maps from pages to entries\<close>

text \<open>
  The abstract view of a directory: the leaf entry of each page, 0 where no table covers it.
\<close>

definition table_of :: "mm \<Rightarrow> u32 \<Rightarrow> u32 \<Rightarrow> u32" where
  "table_of s dir di = entry s dir di AND NOT 0xFFF"

definition leaf :: "mm \<Rightarrow> u32 \<Rightarrow> u32 \<Rightarrow> u32" where
  "leaf s dir va =
     (if present (entry s dir (pd_index va)) then entry s (table_of s dir (pd_index va)) (pt_index va) else 0)"

definition new_leaf :: "u32 \<Rightarrow> u32 \<Rightarrow> u32" where
  "new_leaf pa flags = (pa AND NOT 0xFFF) OR (flags AND 0xFFF) OR HAL_PG_PRESENT"

definition dir_wf :: "mm \<Rightarrow> u32 \<Rightarrow> bool" where
  "dir_wf s dir \<longleftrightarrow>
     pmm_inv (frames_of s) \<and> page_aligned dir \<and> dir \<notin> free_addrs (frames_of s)
     \<and> (\<forall>i<1024. present (entry s dir i) \<longrightarrow>
          table_of s dir i \<noteq> dir \<and> table_of s dir i \<notin> free_addrs (frames_of s))
     \<and> (\<forall>i<1024. \<forall>j<1024. present (entry s dir i) \<longrightarrow> present (entry s dir j) \<longrightarrow>
          table_of s dir i = table_of s dir j \<longrightarrow> i = j)"

definition can_map :: "mm \<Rightarrow> u32 \<Rightarrow> u32 \<Rightarrow> bool" where
  "can_map s dir va \<longleftrightarrow> present (entry s dir (pd_index va)) \<or> free_addrs (frames_of s) \<noteq> {}"

lemma present_0 [simp]: "\<not> present 0"
  by (simp add: present_bit)

lemma dir_resolve_leaf:
  "dir_resolve dir va s = (if present (leaf s dir va) then leaf s dir va AND NOT 0xFFF else 0)"
  by (simp add: dir_resolve_def leaf_def table_of_def Let_def)

lemma table_of_aligned [simp]: "page_aligned (table_of s dir i)"
  unfolding table_of_def by (rule page_aligned_masked)

lemma page_aligned_free:
  assumes "pmm_inv p" and "a \<in> free_addrs p"
  shows "page_aligned a"
proof -
  have "a \<in> managed_addrs p"
    using frames.frees_managed assms by blast
  then obtain f where "f < unat (total_frames p)" and a: "a = frame_addr f"
    by (auto simp: managed_addrs_def)
  then have "f < 1048576"
    using pmm_wf_total [of p] assms(1) by (simp add: pmm_inv_def)
  then show ?thesis
    by (simp add: a page_aligned_def unat_frame_addr)
qed

lemma frames_set_entry [simp]: "frames_of (set_entry d i v s) = frames_of s"
  by (simp add: set_entry_def)

lemma frames_clear_page [simp]: "frames_of (clear_page d s) = frames_of s"
  by (simp add: clear_page_def)

text \<open>
  What \<open>map_in_dir\<close> does before it writes the leaf: it makes sure the directory entry is
  present, taking a cleared frame from the allocator when it is not.
\<close>

definition ensure_table :: "u32 \<Rightarrow> u32 \<Rightarrow> u32 \<Rightarrow> mm \<Rightarrow> u32 \<times> mm" where
  "ensure_table dir va flags s =
     (let di = pd_index va in
      if \<not> present (entry s dir di)
      then let (table, s) = alloc_frame s;
               s = clear_page table s;
               s = set_entry dir di
                     (table OR HAL_PG_PRESENT OR HAL_PG_WRITE OR (flags AND HAL_PG_USER)) s
           in (table, s)
      else let table = entry s dir di AND NOT 0xFFF;
               s = (if flags AND HAL_PG_USER \<noteq> 0
                    then set_entry dir di (entry s dir di OR HAL_PG_USER) s else s)
           in (table, s))"

lemma map_in_dir_eq:
  "map_in_dir dir va pa flags s =
     (let (table, s) = ensure_table dir va flags s in set_entry table (pt_index va) (new_leaf pa flags) s)"
  by (simp add: map_in_dir_def ensure_table_def new_leaf_def Let_def)

lemma ensure_table_present:
  assumes "page_aligned dir" and "present (entry s dir (pd_index va))"
    and "ensure_table dir va flags s = (t, s')"
  shows "t = table_of s dir (pd_index va)" and "frames_of s' = frames_of s"
    and "present (entry s' dir (pd_index va)) \<and> table_of s' dir (pd_index va) = t"
    and "\<And>d j. page_aligned d \<Longrightarrow> j < 1024 \<Longrightarrow> d \<noteq> dir \<or> j \<noteq> pd_index va \<Longrightarrow> entry s' d j = entry s d j"
  using assms
  by (auto simp: ensure_table_def table_of_def Let_def frame_of_user_pde [simplified] entry_set_entry_other
      split: if_splits)

lemma ensure_table_fresh:
  assumes "dir_wf s dir" and "\<not> present (entry s dir (pd_index va))"
    and "free_addrs (frames_of s) \<noteq> {}" and "ensure_table dir va flags s = (t, s')"
  shows "t \<in> free_addrs (frames_of s)" and "free_addrs (frames_of s') = free_addrs (frames_of s) - {t}"
    and "pmm_inv (frames_of s')" and "page_aligned t"
    and "present (entry s' dir (pd_index va)) \<and> table_of s' dir (pd_index va) = t"
    and "\<And>d j. page_aligned d \<Longrightarrow> j < 1024 \<Longrightarrow> d \<noteq> dir \<or> j \<noteq> pd_index va \<Longrightarrow>
      entry s' d j = (if d = t then 0 else entry s d j)"
proof -
  obtain p' where al: "pmm_alloc_frame (frames_of s) = (t, p')"
    and s': "s' = set_entry dir (pd_index va)
      (t OR HAL_PG_PRESENT OR HAL_PG_WRITE OR (flags AND HAL_PG_USER)) (clear_page t (s\<lparr>frames_of := p'\<rparr>))"
    using assms(2,4) by (auto simp: ensure_table_def alloc_frame_def Let_def split: prod.splits)
  have inv: "pmm_inv (frames_of s)" and d: "page_aligned dir"
    using assms(1) by (simp_all add: dir_wf_def)
  note spec = frames.alloc_some [OF inv assms(3) al]
  show t: "t \<in> free_addrs (frames_of s)" and "free_addrs (frames_of s') = free_addrs (frames_of s) - {t}"
    and "pmm_inv (frames_of s')"
    using spec by (simp_all add: s')
  show at: "page_aligned t"
    using page_aligned_free [OF inv t] .
  show "present (entry s' dir (pd_index va)) \<and> table_of s' dir (pd_index va) = t"
    by (simp add: s' table_of_def frame_of_pde [simplified] at)
  show "entry s' e j = (if e = t then 0 else entry s e j)"
    if "page_aligned e" "j < 1024" "e \<noteq> dir \<or> j \<noteq> pd_index va" for e j
  proof -
    have "entry s' e j = entry (clear_page t (s\<lparr>frames_of := p'\<rparr>)) e j"
      unfolding s' using that d by (intro entry_set_entry_other) auto
    then show ?thesis
      using that at by (simp add: entry_clear_page)
  qed
qed

lemma dir_wfD:
  assumes "dir_wf s dir"
  shows "pmm_inv (frames_of s)" and "page_aligned dir" and "dir \<notin> free_addrs (frames_of s)"
    and "\<And>i. i < 1024 \<Longrightarrow> present (entry s dir i) \<Longrightarrow> table_of s dir i \<noteq> dir"
    and "\<And>i. i < 1024 \<Longrightarrow> present (entry s dir i) \<Longrightarrow> table_of s dir i \<notin> free_addrs (frames_of s)"
    and "\<And>i j. i < 1024 \<Longrightarrow> j < 1024 \<Longrightarrow> present (entry s dir i) \<Longrightarrow> present (entry s dir j) \<Longrightarrow>
      table_of s dir i = table_of s dir j \<Longrightarrow> i = j"
  using assms unfolding dir_wf_def by blast+

lemma ensure_table_spec:
  assumes wf: "dir_wf s dir" and can: "can_map s dir va" and en: "ensure_table dir va flags s = (t, s')"
  shows "dir_wf s' dir" and "t = table_of s' dir (pd_index va)" and "present (entry s' dir (pd_index va))"
    and "leaf s' dir vb = leaf s dir vb"
proof -
  note wfD = dir_wfD [OF wf]
  have "dir_wf s' dir \<and> t = table_of s' dir (pd_index va) \<and> present (entry s' dir (pd_index va))
      \<and> leaf s' dir vb = leaf s dir vb"
  proof (cases "present (entry s dir (pd_index va))")
    case True
    note E = ensure_table_present [OF wfD(2) True en]
    have tab: "table_of s' dir i = table_of s dir i" "present (entry s' dir i) = present (entry s dir i)"
      if "i < 1024" for i
      using E(1,3) E(4) [OF wfD(2) that] True by (cases "i = pd_index va"; simp add: table_of_def)+
    have "dir_wf s' dir"
      unfolding dir_wf_def E(2) using wfD tab by simp
    moreover have "leaf s' dir vb = leaf s dir vb"
      using E(4) [of "table_of s dir (pd_index vb)"] wfD(4) by (simp add: leaf_def tab)
    ultimately show ?thesis
      using E(3) by simp
  next
    case False
    have ne: "free_addrs (frames_of s) \<noteq> {}"
      using can False by (simp add: can_map_def)
    note E = ensure_table_fresh [OF wf False ne en]
    have tdir: "t \<noteq> dir"
      using E(1) wfD(3) by auto
    have ent: "entry s' dir i = entry s dir i" if "i < 1024" "i \<noteq> pd_index va" for i
      using E(6) [OF wfD(2) that(1)] that(2) tdir by simp
    have tab: "table_of s' dir i = (if i = pd_index va then t else table_of s dir i)"
      "present (entry s' dir i) = (i = pd_index va \<or> present (entry s dir i))" if "i < 1024" for i
      using E(5) ent [OF that] by (cases "i = pd_index va"; simp add: table_of_def)+
    have tne: "table_of s dir i \<noteq> t" if "i < 1024" "present (entry s dir i)" for i
      using wfD(5) [OF that] E(1) by auto
    have "dir_wf s' dir"
      unfolding dir_wf_def E(2) using wfD E(3) tab tne tdir tne [THEN not_sym] by simp
    moreover have "leaf s' dir vb = leaf s dir vb"
    proof (cases "pd_index vb = pd_index va")
      case True
      then show ?thesis
        using E(4,5) E(6) [of t "pt_index vb"] False tdir by (simp add: leaf_def)
    next
      case False
      then show ?thesis
        using E(6) [of "table_of s dir (pd_index vb)" "pt_index vb"] wfD(4) tne
        by (simp add: leaf_def tab)
    qed
    ultimately show ?thesis
      using E(5) by simp
  qed
  then show "dir_wf s' dir" "t = table_of s' dir (pd_index va)" "present (entry s' dir (pd_index va))"
    "leaf s' dir vb = leaf s dir vb"
    by blast+
qed

lemma map_in_dir_spec:
  assumes wf: "dir_wf s dir" and can: "can_map s dir va"
  shows "dir_wf (map_in_dir dir va pa flags s) dir"
    and "leaf (map_in_dir dir va pa flags s) dir vb =
      (if vb AND NOT 0xFFF = va AND NOT 0xFFF then new_leaf pa flags else leaf s dir vb)"
proof -
  obtain t s1 where en: "ensure_table dir va flags s = (t, s1)"
    by force
  let ?s2 = "set_entry t (pt_index va) (new_leaf pa flags) s1"
  have m: "map_in_dir dir va pa flags s = ?s2"
    by (simp add: map_in_dir_eq en)
  note E = ensure_table_spec [OF wf can en]
  note wfD = dir_wfD [OF E(1)]
  have ta: "page_aligned t" and td: "t \<noteq> dir"
    using E(2,3) wfD(4) by simp_all
  have ent: "entry ?s2 dir i = entry s1 dir i" if "i < 1024" for i
    using ta wfD(2) td that by (simp add: entry_set_entry_other)
  then have tab: "table_of ?s2 dir i = table_of s1 dir i" if "i < 1024" for i
    using that by (simp add: table_of_def)
  show "dir_wf (map_in_dir dir va pa flags s) dir"
    unfolding m dir_wf_def using wfD by (simp add: ent tab)
  have "leaf ?s2 dir vb = (if pd_index vb = pd_index va \<and> pt_index vb = pt_index va
      then new_leaf pa flags else leaf s1 dir vb)"
  proof (cases "pd_index vb = pd_index va")
    case True
    then show ?thesis
      using E(3) entry_set_entry_other [OF ta ta, of "pt_index va" "pt_index vb"]
      by (simp add: leaf_def ent tab E(2) [symmetric])
  next
    case False
    have "entry ?s2 (table_of s1 dir (pd_index vb)) (pt_index vb)
        = entry s1 (table_of s1 dir (pd_index vb)) (pt_index vb)"
      if "present (entry s1 dir (pd_index vb))"
      using that False E(2,3) wfD(6) [of "pd_index vb" "pd_index va"] ta
      by (intro entry_set_entry_other) auto
    then show ?thesis
      using False by (simp add: leaf_def ent tab)
  qed
  then show "leaf (map_in_dir dir va pa flags s) dir vb =
      (if vb AND NOT 0xFFF = va AND NOT 0xFFF then new_leaf pa flags else leaf s dir vb)"
    unfolding m page_index_iff E(4) .
qed


text \<open>The bytes \<open>map_in_dir\<close> may write: the directory, the table of the page, free frames.\<close>

lemma set_entry_bytes:
  assumes "page_aligned d" and "i < 1024" and "x \<notin> span d 4096"
  shows "phys (set_entry d i v s) x = phys s x"
  using store32_other [OF entry_addr(2) [OF assms(1,2)]] span_entry [OF assms(1,2)] assms(3)
  by (auto simp: set_entry_def)

lemma clear_page_bytes: "page_aligned d \<Longrightarrow> x \<notin> span d 4096 \<Longrightarrow> phys (clear_page d s) x = phys s x"
  using fill_apply [OF page_aligned_fits [of d]] by (simp add: clear_page_def PAGE_SIZE_def)

lemma map_in_dir_bytes:
  assumes wf: "dir_wf s dir" and can: "can_map s dir va"
    and "x \<notin> span dir 4096"
    and tab: "present (entry s dir (pd_index va)) \<Longrightarrow> x \<notin> span (table_of s dir (pd_index va)) 4096"
    and free: "\<And>f. f \<in> free_addrs (frames_of s) \<Longrightarrow> x \<notin> span f 4096"
  shows "phys (map_in_dir dir va pa flags s) x = phys s x"
proof -
  note wfD = dir_wfD [OF wf]
  show ?thesis
  proof (cases "present (entry s dir (pd_index va))")
    case True
    then show ?thesis
      using assms(3) tab wfD(2)
      by (simp add: map_in_dir_def Let_def table_of_def [simplified, symmetric] set_entry_bytes)
  next
    case False
    then have ne: "free_addrs (frames_of s) \<noteq> {}"
      using can by (simp add: can_map_def)
    obtain t p' where al: "pmm_alloc_frame (frames_of s) = (t, p')"
      by force
    have t: "t \<in> free_addrs (frames_of s)"
      using frames.alloc_some [OF wfD(1) ne al] by simp
    then show ?thesis
      using False assms(3) wfD(1,2) free [OF t] page_aligned_free [OF wfD(1) t]
      by (simp add: map_in_dir_def alloc_frame_def al Let_def set_entry_bytes clear_page_bytes)
  qed
qed

lemma entry_cong:
  assumes "page_aligned d" and "i < 1024" and "\<And>x. x \<in> span d 4096 \<Longrightarrow> phys s' x = phys s x"
  shows "entry s' d i = entry s d i"
  unfolding entry_def
  using entry_addr(2) [OF assms(1,2)] span_entry [OF assms(1,2)] assms(3)
  by (intro load32_cong) auto

text \<open>Creating an address space.\<close>

lemma kernel_dir_clear_page [simp]: "kernel_dir (clear_page d s) = kernel_dir s"
  by (simp add: clear_page_def)

lemma kernel_dir_set_entry [simp]: "kernel_dir (set_entry d i v s) = kernel_dir s"
  by (simp add: set_entry_def)

lemma copy_pdes_frames [simp]:
  "frames_of (copy_pdes n i dir s) = frames_of s" "kernel_dir (copy_pdes n i dir s) = kernel_dir s"
  by (induction n i dir s rule: copy_pdes.induct) simp_all

lemma copy_pdes_entry:
  assumes "page_aligned dir" "page_aligned (kernel_dir s)" "dir \<noteq> kernel_dir s"
    and "page_aligned d" "j < 1024" "unat i + n \<le> 1024"
  shows "entry (copy_pdes n i dir s) d j =
    (if d = dir \<and> unat i \<le> unat j \<and> unat j < unat i + n then entry s (kernel_dir s) j else entry s d j)"
  using assms
proof (induction n i dir s rule: copy_pdes.induct)
  case (1 i dir s)
  then show ?case by auto
next
  case (2 n i dir s)
  have i: "i < 1024" and i1: "unat (i + 1) = unat i + 1"
    using 2(7) by (simp_all add: word_less_nat_alt unat_word_ariths)
  have ne: "unat j \<noteq> unat i" if "j \<noteq> i"
    using that by (simp add: word_unat_eq_iff)
  have k: "entry (set_entry dir i v s) (kernel_dir s) j = entry s (kernel_dir s) j" for v
    using 2 i by (intro entry_set_entry_other) auto
  show ?case
  proof (cases "d = dir \<and> j = i")
    case True
    then show ?thesis
      using 2 i1 by simp
  next
    case False
    then have "entry (set_entry dir i (entry s (kernel_dir s) i) s) d j = entry s d j"
      using 2 i by (intro entry_set_entry_other) auto
    then show ?thesis
      using 2 i1 k ne False by auto
  qed
qed

lemma hal_addrspace_create_spec:
  assumes wf: "dir_wf s (kernel_dir s)" and free: "free_addrs (frames_of s) \<noteq> {}"
    and "0 \<notin> free_addrs (frames_of s)" and cr: "hal_addrspace_create s = (dir, s')"
  shows "dir \<in> free_addrs (frames_of s)" and "free_addrs (frames_of s') = free_addrs (frames_of s) - {dir}"
    and "pmm_inv (frames_of s')" and "kernel_dir s' = kernel_dir s"
    and "\<And>d j. page_aligned d \<Longrightarrow> j < 1024 \<Longrightarrow> entry s' d j =
      (if d = dir then if j < 256 then entry s (kernel_dir s) j else 0 else entry s d j)"
proof -
  note wfD = dir_wfD [OF wf]
  obtain a p' where al: "pmm_alloc_frame (frames_of s) = (a, p')"
    by force
  note spec = frames.alloc_some [OF wfD(1) free al]
  then have "a \<noteq> 0"
    using assms(3) by auto
  moreover have "drop_bit 22 USER_BASE = 256"
    by (simp add: USER_BASE_def drop_bit_eq_div)
  ultimately have dir: "dir = a" and s': "s' = copy_pdes 256 0 a (clear_page a (s\<lparr>frames_of := p'\<rparr>))"
    using cr by (auto simp: hal_addrspace_create_def alloc_frame_def al Let_def)
  show "dir \<in> free_addrs (frames_of s)" "free_addrs (frames_of s') = free_addrs (frames_of s) - {dir}"
    "pmm_inv (frames_of s')" "kernel_dir s' = kernel_dir s"
    using spec by (simp_all add: dir s' clear_page_def)
  have aa: "page_aligned a" and ak: "a \<noteq> kernel_dir s"
    using spec page_aligned_free [OF wfD(1)] wfD(3) by auto
  show "entry s' d j = (if d = dir then if j < 256 then entry s (kernel_dir s) j else 0 else entry s d j)"
    if "page_aligned d" "j < 1024" for d j
    using copy_pdes_entry [OF aa, of "clear_page a (s\<lparr>frames_of := p'\<rparr>)" d j 0 256] wfD(2) ak that aa
    by (simp add: s' dir entry_clear_page word_less_nat_alt)
qed


section \<open>Properties\<close>

text \<open>
  A machine with one free frame: an empty kernel directory at 0x1000 and the allocator
  managing the frames below 0x101000, of which the last one is free.
\<close>

definition mm_small :: mm where
  "mm_small = \<lparr>phys = (\<lambda>_. 0), frames_of = pmm_init 4 0, kernel_dir = 0x1000, kernel_dir_phys = 0x1000,
     current_dir_phys = 0x1000, cr3 = 0x1000, cr0 = 0\<rparr>"

lemma mm_small_entry [simp]: "entry mm_small d i = 0"
  by (simp add: entry_def mm_small_def load32_def word32_of_def)

lemma mm_small_free [simp]: "free_addrs (frames_of mm_small) = {0x100000}"
  by (simp add: mm_small_def free_addrs_def pmm_init_small frame_addr_def PMM_FRAME_SIZE_def)

lemma mm_small_wf: "dir_wf mm_small 0x1000" "kernel_dir mm_small = 0x1000"
proof -
  have "pmm_inv (frames_of mm_small)"
    by (simp add: mm_small_def pmm_init_small)
  then show "dir_wf mm_small 0x1000"
    by (simp add: dir_wf_def page_aligned_def)
  show "kernel_dir mm_small = 0x1000"
    by (simp add: mm_small_def)
qed



text \<open>
  Mapping a page in one address space writes only the directory, the table of that page and
  free frames: every other page of memory keeps its bytes, so that an address space that
  shares neither its directory nor that table with it translates every address as before.
\<close>

theorem map_in_dir_isolated:
  assumes "dir_wf s dir" and "can_map s dir va" and "dir_wf s dir2" and "dir2 \<noteq> dir"
    and "present (entry s dir (pd_index va)) \<longrightarrow> dir2 \<noteq> table_of s dir (pd_index va)"
    and "\<forall>i<1024. present (entry s dir2 i) \<longrightarrow> table_of s dir2 i \<noteq> dir
      \<and> (present (entry s dir (pd_index va)) \<longrightarrow> table_of s dir2 i \<noteq> table_of s dir (pd_index va))"
  shows "dir_resolve dir2 vb (map_in_dir dir va pa flags s) = dir_resolve dir2 vb s"
proof -
  let ?s' = "map_in_dir dir va pa flags s"
  note wfD = dir_wfD [OF assms(1)] and wfD2 = dir_wfD [OF assms(3)]
  have same: "entry ?s' q j = entry s q j"
    if q: "page_aligned q" "q \<noteq> dir" "q \<notin> free_addrs (frames_of s)"
      "present (entry s dir (pd_index va)) \<longrightarrow> q \<noteq> table_of s dir (pd_index va)" and "j < 1024" for q j
  proof (rule entry_cong [OF q(1) \<open>j < 1024\<close>])
    fix x
    assume x: "x \<in> span q 4096"
    have away: "x \<notin> span r 4096" if "page_aligned r" "q \<noteq> r" for r
      using span_pages_disjoint [OF q(1) that] x by blast
    show "phys ?s' x = phys s x"
    proof (rule map_in_dir_bytes [OF assms(1,2)])
      show "x \<notin> span dir 4096"
        using away wfD(2) q(2) by simp
      show "x \<notin> span (table_of s dir (pd_index va)) 4096" if "present (entry s dir (pd_index va))"
        using away q(4) that by simp
      show "x \<notin> span f 4096" if "f \<in> free_addrs (frames_of s)" for f
        using away [OF page_aligned_free [OF wfD(1) that]] q(3) that by auto
    qed
  qed
  have "entry ?s' dir2 i = entry s dir2 i" if "i < 1024" for i
    using that assms(4,5) wfD2(2,3) by (intro same) auto
  moreover have "entry ?s' (table_of s dir2 i) j = entry s (table_of s dir2 i) j"
    if "i < 1024" "present (entry s dir2 i)" "j < 1024" for i j
    using that assms(6) wfD2(5) by (intro same) auto
  ultimately have "leaf ?s' dir2 vb = leaf s dir2 vb"
    by (simp add: leaf_def table_of_def [of ?s'] table_of_def [of s])
  then show ?thesis
    by (simp add: dir_resolve_leaf)
qed

theorem map_in_dir_isolated_witness:
  "dir_resolve 0x2000 0x40000000 (map_in_dir 0x1000 0x40000000 0x7000 7 mm_small) = 0"
proof -
  have "can_map mm_small 0x1000 0x40000000"
    by (simp add: can_map_def)
  moreover have "dir_wf mm_small 0x2000"
    using mm_small_wf(1) by (simp add: dir_wf_def page_aligned_def)
  ultimately have "dir_resolve 0x2000 0x40000000 (map_in_dir 0x1000 0x40000000 0x7000 7 mm_small)
      = dir_resolve 0x2000 0x40000000 mm_small"
    using mm_small_wf(1) by (intro map_in_dir_isolated) simp_all
  then show ?thesis
    by (simp add: dir_resolve_def)
qed

text \<open>
  A new address space is made of a frame that was free; it shares the kernel's half of
  the address space (below \<^verbatim>\<open>USER_BASE\<close>) and maps nothing in the user half.
\<close>

theorem hal_addrspace_create_shares_kernel:
  assumes "dir_wf s (kernel_dir s)" and "free_addrs (frames_of s) \<noteq> {}" and "0 \<notin> free_addrs (frames_of s)"
    and "hal_addrspace_create s = (dir, s')"
  shows "dir \<in> free_addrs (frames_of s) \<and> dir_wf s' dir
    \<and> dir_resolve dir va s' = (if va < USER_BASE then dir_resolve (kernel_dir s) va s else 0)
    \<and> dir_resolve (kernel_dir s') va s' = dir_resolve (kernel_dir s) va s"
proof -
  note C = hal_addrspace_create_spec [OF assms] and wfD = dir_wfD [OF assms(1)]
  have da: "page_aligned dir" and dk: "dir \<noteq> kernel_dir s"
    using C(1) wfD page_aligned_free by auto
  have tab: "table_of s (kernel_dir s) i \<noteq> dir" if "i < 1024" "present (entry s (kernel_dir s) i)" for i
    using C(1) wfD(5) [OF that] by auto
  have wf': "dir_wf s' dir"
    unfolding dir_wf_def table_of_def using C da wfD(5,6) tab by (simp add: table_of_def)
  have low: "pd_index va < 256 \<longleftrightarrow> va < USER_BASE"
  proof -
    have "unat (pd_index va) = unat va div 4194304"
      using unat_and_mask [of "drop_bit 22 va" 10] unat_less_32 [of va]
      by (simp add: pd_index_def mask_eq_exp_minus_1 unat_drop_bit_eq drop_bit_eq_div word_nat)
    then show ?thesis
      by (simp add: word_less_nat_alt USER_BASE_def div_less_iff_less_mult)
  qed
  have "leaf s' dir va = (if va < USER_BASE then leaf s (kernel_dir s) va else 0)"
    using tab C(5) da page_aligned_masked by (simp add: leaf_def table_of_def low)
  moreover have "leaf s' (kernel_dir s) va = leaf s (kernel_dir s) va"
    using tab C(5) wfD(2) dk page_aligned_masked by (simp add: leaf_def table_of_def)
  ultimately show ?thesis
    using C(1,4) wf' by (simp add: dir_resolve_leaf)
qed

theorem hal_addrspace_create_shares_kernel_witness:
  "fst (hal_addrspace_create mm_small) = 0x100000"
proof -
  obtain d s' where e: "hal_addrspace_create mm_small = (d, s')"
    by force
  have "d \<in> free_addrs (frames_of mm_small)"
    using hal_addrspace_create_shares_kernel [OF _ _ _ e] mm_small_wf by simp
  then show ?thesis
    by (simp add: e)
qed

end
