(* ===== verification/Vmm.thy ===== *)
theory Vmm
  imports Paging
begin

text \<open>
  The kernel heap, \<^verbatim>\<open>kernel/mm/vmm.c\<close>: a doubly linked list of blocks that tile the
  address range from \<^verbatim>\<open>HEAP_START\<close> to \<^verbatim>\<open>heap_end\<close>. The header fields are kept as one
  function per field from block addresses to values, so that a header that is no longer part of
  the list keeps its last contents, as the bytes do. Growing the heap takes frames from the
  frame allocator and maps them through the kernel directory.
\<close>

unbundle bit_operations_syntax

section \<open>State and operations\<close>

record vmm =
  magic :: "u32 \<Rightarrow> u32"
  bsize :: "u32 \<Rightarrow> u32"
  bfree :: "u32 \<Rightarrow> bool"
  bnext :: "u32 \<Rightarrow> u32"
  bprev :: "u32 \<Rightarrow> u32"
  heap_head :: u32
  heap_end :: u32
  heap_limit :: u32
  pages :: mm

definition HEAP_START :: u32 where
  "HEAP_START = 0x02000000"

definition HEAP_MAX :: u32 where
  "HEAP_MAX = 0x08000000"

definition MAGIC :: u32 where
  "MAGIC = 0xCAFEB00D"

text \<open>\<^verbatim>\<open>sizeof(struct block)\<close>: five 32-bit fields, the enumeration type \<^verbatim>\<open>bool\<close> included.\<close>

definition BLOCK :: u32 where
  "BLOCK = 20"

function expand :: "u32 \<Rightarrow> vmm \<Rightarrow> vmm" where
  "expand need h =
     (if heap_end h < heap_limit h \<and> need > 0
      then let (frame, s) = alloc_frame (pages h);
               s = hal_paging_map (heap_end h) frame (HAL_PG_PRESENT OR HAL_PG_WRITE) s;
               h = h\<lparr>pages := s, heap_end := heap_end h + 4096\<rparr>
           in expand (if need > 4096 then need - 4096 else 0) h
      else h)"
  by pat_completeness auto
termination
proof (relation "measure (\<lambda>(need, h). unat need)", goal_cases)
  case (2 need h)
  then show ?case
    by (auto simp: word_less_nat_alt unat_sub word_le_nat_alt)
qed simp

definition vmm_init :: "vmm \<Rightarrow> vmm" where
  "vmm_init h =
     (let h = h\<lparr>heap_end := HEAP_START, heap_limit := HEAP_MAX\<rparr>;
          h = expand 0x400000 h;
          b = HEAP_START
      in h\<lparr>heap_head := b,
           magic := (magic h)(b := MAGIC),
           bsize := (bsize h)(b := heap_end h - HEAP_START - BLOCK),
           bfree := (bfree h)(b := True),
           bnext := (bnext h)(b := 0),
           bprev := (bprev h)(b := 0)\<rparr>)"

definition split :: "u32 \<Rightarrow> u32 \<Rightarrow> vmm \<Rightarrow> vmm" where
  "split b sz h =
     (if bsize h b < sz + BLOCK + 16 then h
      else let nb = b + BLOCK + sz;
               h = h\<lparr>magic := (magic h)(nb := MAGIC)\<rparr>;
               h = h\<lparr>bsize := (bsize h)(nb := bsize h b - sz - BLOCK)\<rparr>;
               h = h\<lparr>bfree := (bfree h)(nb := True)\<rparr>;
               h = h\<lparr>bnext := (bnext h)(nb := bnext h b)\<rparr>;
               h = h\<lparr>bprev := (bprev h)(nb := b)\<rparr>;
               h = (if bnext h b \<noteq> 0 then h\<lparr>bprev := (bprev h)(bnext h b := nb)\<rparr> else h);
               h = h\<lparr>bnext := (bnext h)(b := nb)\<rparr>
           in h\<lparr>bsize := (bsize h)(b := sz)\<rparr>)"

text \<open>
  The search of \<^verbatim>\<open>kmalloc\<close>: \<open>Inl b\<close> is the first free block that is large enough,
  \<open>Inr b\<close> the block the loop stops at otherwise. The list is followed for as long as it
  goes on; not returning is \<open>None\<close>.
\<close>

partial_function (option) find_block :: "u32 \<Rightarrow> u32 \<Rightarrow> vmm \<Rightarrow> (u32 + u32) option" where
  "find_block b sz h =
     (if b = 0 then Some (Inr b)
      else if bfree h b \<and> bsize h b \<ge> sz then Some (Inl b)
      else if bnext h b = 0 then Some (Inr b)
      else find_block (bnext h b) sz h)"

definition kmalloc_grow :: "u32 \<Rightarrow> u32 \<Rightarrow> vmm \<Rightarrow> u32 \<times> vmm" where
  "kmalloc_grow b sz h =
     (let grow = sz + BLOCK + 4096;
          old_end = heap_end h;
          h = expand grow h
      in if heap_end h = old_end then (0, h)
         else let nb = old_end;
                  h = h\<lparr>magic := (magic h)(nb := MAGIC),
                        bsize := (bsize h)(nb := heap_end h - old_end - BLOCK),
                        bfree := (bfree h)(nb := True),
                        bnext := (bnext h)(nb := 0),
                        bprev := (bprev h)(nb := b)\<rparr>;
                  h = h\<lparr>bnext := (bnext h)(b := nb)\<rparr>;
                  h = split nb sz h;
                  h = h\<lparr>bfree := (bfree h)(nb := False)\<rparr>
              in (nb + BLOCK, h))"

definition round_up_8 :: "u32 \<Rightarrow> u32" where
  "round_up_8 sz = (sz + 7) AND NOT 7"

definition kmalloc :: "u32 \<Rightarrow> vmm \<Rightarrow> (u32 \<times> vmm) option" where
  "kmalloc sz h =
     (if sz = 0 then Some (0, h)
      else let sz = round_up_8 sz in
           case find_block (heap_head h) sz h of
             None \<Rightarrow> None
           | Some (Inl b) \<Rightarrow>
               let h = split b sz h
               in Some (b + BLOCK, h\<lparr>bfree := (bfree h)(b := False)\<rparr>)
           | Some (Inr b) \<Rightarrow> Some (kmalloc_grow b sz h))"

definition coalesce :: "u32 \<Rightarrow> vmm \<Rightarrow> vmm" where
  "coalesce b h =
     (let h = (if bnext h b \<noteq> 0 \<and> bfree h (bnext h b)
               then let h = h\<lparr>bsize := (bsize h)(b := bsize h b + (BLOCK + bsize h (bnext h b)))\<rparr>;
                        h = h\<lparr>bnext := (bnext h)(b := bnext h (bnext h b))\<rparr>
                    in if bnext h b \<noteq> 0 then h\<lparr>bprev := (bprev h)(bnext h b := b)\<rparr> else h
               else h)
      in if bprev h b \<noteq> 0 \<and> bfree h (bprev h b)
         then let p = bprev h b;
                  h = h\<lparr>bsize := (bsize h)(p := bsize h p + (BLOCK + bsize h b))\<rparr>;
                  h = h\<lparr>bnext := (bnext h)(p := bnext h b)\<rparr>
              in if bnext h b \<noteq> 0 then h\<lparr>bprev := (bprev h)(bnext h b := bprev h b)\<rparr> else h
         else h)"

definition kfree :: "u32 \<Rightarrow> vmm \<Rightarrow> vmm" where
  "kfree ptr h =
     (if ptr = 0 then h
      else let b = ptr - BLOCK in
           if magic h b \<noteq> MAGIC then h
           else coalesce b (h\<lparr>bfree := (bfree h)(b := True)\<rparr>))"

definition kmalloc_aligned :: "u32 \<Rightarrow> vmm \<Rightarrow> (u32 \<times> vmm) option" where
  "kmalloc_aligned sz h =
     (case kmalloc (sz + 4096) h of
        None \<Rightarrow> None
      | Some (p, h) \<Rightarrow> if p = 0 then Some (0, h) else Some ((p + 4095) AND NOT 4095, h))"

declare expand.simps [simp del] find_block.simps [code]

section \<open>The block list\<close>

definition first_or :: "u32 \<Rightarrow> u32 list \<Rightarrow> u32" where
  "first_or nx bs = (case bs of [] \<Rightarrow> nx | b # _ \<Rightarrow> b)"

lemma first_or_simps [simp]: "first_or nx [] = nx" "first_or nx (b # bs) = b"
  by (simp_all add: first_or_def)

lemma first_or_append: "first_or nx (xs @ ys) = first_or (first_or nx ys) xs"
  by (cases xs) simp_all

text \<open>
  \<open>seg h p pos bs e nx\<close>: the blocks \<open>bs\<close> tile the addresses from \<open>pos\<close> to \<open>e\<close>;
  the first one has previous block \<open>p\<close>, the last one has next block \<open>nx\<close>.
\<close>

fun seg :: "vmm \<Rightarrow> u32 \<Rightarrow> nat \<Rightarrow> u32 list \<Rightarrow> nat \<Rightarrow> u32 \<Rightarrow> bool" where
  "seg h p pos [] e nx \<longleftrightarrow> pos = e"
| "seg h p pos (b # bs) e nx \<longleftrightarrow>
     unat b = pos \<and> magic h b = MAGIC \<and> bprev h b = p \<and> bnext h b = first_or nx bs
     \<and> seg h b (pos + 20 + unat (bsize h b)) bs e nx"

lemma seg_append:
  "seg h p pos (xs @ ys) e nx \<longleftrightarrow>
     (\<exists>m. seg h p pos xs m (first_or nx ys) \<and> seg h (last (p # xs)) m ys e nx)"
  by (induction xs arbitrary: p pos) (auto simp: first_or_append)

lemma seg_mono: "seg h p pos bs e nx \<Longrightarrow> pos \<le> e"
  by (induction bs arbitrary: p pos) force+

lemma seg_bounds: "seg h p pos bs e nx \<Longrightarrow> b \<in> set bs \<Longrightarrow> pos \<le> unat b \<and> unat b + 20 + unat (bsize h b) \<le> e"
proof (induction bs arbitrary: p pos)
  case (Cons c bs)
  have "pos + 20 + unat (bsize h c) \<le> e"
    using Cons.prems(1) seg_mono by auto
  then show ?case
    using Cons by fastforce
qed simp

lemma seg_cong:
  assumes "\<And>b. b \<in> set bs \<Longrightarrow> magic h' b = magic h b \<and> bsize h' b = bsize h b
    \<and> bnext h' b = bnext h b \<and> bprev h' b = bprev h b"
  shows "seg h' p pos bs e nx = seg h p pos bs e nx"
  using assms by (induction bs arbitrary: p pos) simp_all

text \<open>The same segment after a different block.\<close>

lemma seg_other_prev:
  assumes "seg h p pos bs e nx" and "bs \<noteq> [] \<Longrightarrow> bprev h' (hd bs) = q"
    and "\<And>b. b \<in> set bs \<Longrightarrow> magic h' b = magic h b \<and> bsize h' b = bsize h b \<and> bnext h' b = bnext h b"
    and "\<And>b. b \<in> set (tl bs) \<Longrightarrow> bprev h' b = bprev h b"
  shows "seg h' q pos bs e nx"
proof (cases bs)
  case (Cons b bs')
  then show ?thesis
    using assms seg_cong [of bs' h' h b] by simp
qed (use assms in simp)

lemma seg_distinct: "seg h p pos bs e nx \<Longrightarrow> distinct bs"
proof (induction bs arbitrary: p pos)
  case (Cons b bs)
  then have "seg h b (pos + 20 + unat (bsize h b)) bs e nx" and "unat b = pos"
    by simp_all
  then show ?case
    using Cons.IH seg_bounds [of h b "pos + 20 + unat (bsize h b)" bs e nx b] by auto
qed simp

definition no_adjacent_free :: "vmm \<Rightarrow> u32 list \<Rightarrow> bool" where
  "no_adjacent_free h bs \<longleftrightarrow> successively (\<lambda>b c. \<not> (bfree h b \<and> bfree h c)) bs"

definition heap_shape :: "vmm \<Rightarrow> u32 list \<Rightarrow> bool" where
  "heap_shape h bs \<longleftrightarrow>
     bs \<noteq> [] \<and> heap_head h = hd bs \<and> seg h 0 (unat HEAP_START) bs (unat (heap_end h)) 0
     \<and> heap_end h \<le> heap_limit h \<and> heap_limit h \<le> HEAP_MAX
     \<and> page_aligned (heap_end h) \<and> page_aligned (heap_limit h)"

definition heap_inv :: "vmm \<Rightarrow> u32 list \<Rightarrow> bool" where
  "heap_inv h bs \<longleftrightarrow> heap_shape h bs \<and> no_adjacent_free h bs"

lemma heap_shapeD:
  assumes "heap_shape h bs"
  shows "bs \<noteq> []" and "heap_head h = hd bs" and "seg h 0 33554432 bs (unat (heap_end h)) 0"
    and "unat (heap_end h) \<le> unat (heap_limit h)"
    and "unat (heap_limit h) \<le> 134217728"
    and "page_aligned (heap_end h)" and "page_aligned (heap_limit h)"
  using assms by (simp_all add: heap_shape_def HEAP_START_def HEAP_MAX_def word_le_nat_alt)

text \<open>
  Around one block \<open>b\<close> of the list: where it lies, and that the blocks before and after
  it have other addresses.
\<close>

lemma heap_around:
  assumes "heap_shape h (xs @ b # ys)"
  shows "seg h 0 33554432 xs (unat b) b" and "magic h b = MAGIC" and "bprev h b = last (0 # xs)"
    and "bnext h b = first_or 0 ys"
    and "seg h b (unat b + 20 + unat (bsize h b)) ys (unat (heap_end h)) 0"
    and "33554432 \<le> unat b" and "unat b + 20 + unat (bsize h b) \<le> 134217728"
    and "\<And>x. x \<in> set xs \<Longrightarrow> unat x + 20 + unat (bsize h x) \<le> unat b"
    and "\<And>y. y \<in> set ys \<Longrightarrow> unat b + 20 + unat (bsize h b) \<le> unat y"
    and "\<And>y. y \<in> set ys \<Longrightarrow> unat y < 134217728"
proof -
  note D = heap_shapeD [OF assms]
  then show 1: "seg h 0 33554432 xs (unat b) b" and "magic h b = MAGIC" and "bprev h b = last (0 # xs)"
    and "bnext h b = first_or 0 ys"
    and 5: "seg h b (unat b + 20 + unat (bsize h b)) ys (unat (heap_end h)) 0"
    by (auto simp: seg_append)
  show "33554432 \<le> unat b"
    using seg_mono [OF 1] .
  show "unat b + 20 + unat (bsize h b) \<le> 134217728"
    using seg_mono [OF 5] D(4,5) by simp
  show "unat x + 20 + unat (bsize h x) \<le> unat b" if "x \<in> set xs" for x
    using seg_bounds [OF 1 that] by simp
  show "unat b + 20 + unat (bsize h b) \<le> unat y" "unat y < 134217728" if "y \<in> set ys" for y
    using seg_bounds [OF 5 that] D(4,5) by simp_all
qed

lemma bigger_apart: "unat a + 20 + n \<le> unat b \<Longrightarrow> a \<noteq> b" "unat a + 20 + n \<le> unat b \<Longrightarrow> b \<noteq> a"
  for a b :: u32
  by auto

section \<open>Splitting and merging\<close>

definition absorb :: "u32 \<Rightarrow> vmm \<Rightarrow> vmm" where
  "absorb b h =
     (let c = bnext h b in
      h\<lparr>bsize := (bsize h)(b := bsize h b + (BLOCK + bsize h c)),
        bnext := (bnext h)(b := bnext h c),
        bprev := (if bnext h c \<noteq> 0 then (bprev h)(bnext h c := b) else bprev h)\<rparr>)"

lemma split_eq:
  assumes "b \<noteq> nb" and "\<not> bsize h b < sz + BLOCK + 16" and "nb = b + BLOCK + sz"
  shows "split b sz h =
    h\<lparr>magic := (magic h)(nb := MAGIC),
      bsize := (bsize h)(nb := bsize h b - sz - BLOCK, b := sz),
      bfree := (bfree h)(nb := True),
      bnext := (bnext h)(nb := bnext h b, b := nb),
      bprev := (if bnext h b \<noteq> 0 then (bprev h)(nb := b, bnext h b := nb) else (bprev h)(nb := b))\<rparr>"
  using assms(1,2) unfolding split_def assms(3) [symmetric]
  by (intro vmm.equality) (simp_all add: Let_def)

lemma heap_blocks_nonzero:
  assumes "heap_shape h bs" and "b \<in> set bs"
  shows "b \<noteq> 0"
  using seg_bounds [OF heap_shapeD(3) [OF assms(1)] assms(2)] by auto

lemma split_spec:
  assumes inv: "heap_shape h (xs @ b # ys)" and fit: "unat sz + 36 \<le> unat (bsize h b)"
  defines "nb \<equiv> b + BLOCK + sz"
  shows "seg (split b sz h) 0 33554432 (xs @ b # nb # ys) (unat (heap_end h)) 0"
    and "nb \<notin> set (xs @ b # ys)" and "bsize (split b sz h) b = sz"
    and "\<And>c. c \<in> set (xs @ ys) \<Longrightarrow> bsize (split b sz h) c = bsize h c"
    and "bfree (split b sz h) = (bfree h)(nb := True)"
    and "heap_end (split b sz h) = heap_end h" and "heap_limit (split b sz h) = heap_limit h"
    and "heap_head (split b sz h) = heap_head h"
proof -
  note A = heap_around [OF inv]
  let ?h = "split b sz h"
  have nb: "unat nb = unat b + 20 + unat sz"
    using A(7) fit by (simp add: nb_def unat_word_ariths BLOCK_def)
  have sz: "unat (sz + BLOCK + 16) = unat sz + 36" "unat (bsize h b - sz - BLOCK) = unat (bsize h b) - unat sz - 20"
    using A(7) fit by (simp_all add: unat_word_ariths BLOCK_def unat_sub word_le_nat_alt)
  have bnb: "b \<noteq> nb"
    using nb by auto
  have xs: "x \<noteq> b \<and> x \<noteq> nb \<and> x \<notin> set ys" if "x \<in> set xs" for x
    using A(8) [OF that] A(9) nb by fastforce
  have ys: "y \<noteq> b \<and> y \<noteq> nb" if "y \<in> set ys" for y
    using A(9) [OF that] nb fit by auto
  have fits: "\<not> bsize h b < sz + BLOCK + 16"
    using fit by (simp add: word_less_nat_alt sz)
  note eq = split_eq [OF bnb fits nb_def [THEN meta_eq_to_obj_eq]]
  have b0: "b \<noteq> 0"
    using heap_blocks_nonzero [OF inv] by simp
  have next_ys: "bnext h b \<noteq> 0 \<Longrightarrow> bnext h b \<in> set ys"
    using A(4) by (cases ys) auto
  have seg_xs: "seg ?h 0 33554432 xs (unat b) b"
    using A(1) xs next_ys by (subst seg_cong [where h = h]) (auto simp: eq)
  have seg_ys: "seg ?h nb (unat b + 20 + unat (bsize h b)) ys (unat (heap_end h)) 0"
  proof (rule seg_other_prev [OF A(5)])
    show "bprev ?h (hd ys) = nb" if "ys \<noteq> []"
      using that A(4) heap_blocks_nonzero [OF inv] by (cases ys) (auto simp: eq)
    show "bprev ?h y = bprev h y" if "y \<in> set (tl ys)" for y
    proof (cases ys)
      case (Cons c zs)
      then have "y \<noteq> c"
        using that seg_distinct [OF A(5)] by auto
      then show ?thesis
        using that Cons A(4) ys [of y] by (simp add: eq)
    qed (use that in simp)
  qed (use ys in \<open>auto simp: eq\<close>)
  have prev_b: "bprev ?h b = bprev h b"
    using next_ys ys [of "bnext h b"] bnb by (auto simp: eq)
  have nb_fields: "magic ?h nb = MAGIC" "bprev ?h nb = b" "bnext ?h nb = first_or 0 ys"
    "unat (bsize ?h nb) = unat (bsize h b) - unat sz - 20"
    using next_ys ys [of "bnext h b"] bnb sz(2) A(4) by (auto simp: eq)
  have b_fields: "magic ?h b = MAGIC" "bnext ?h b = nb" "bsize ?h b = sz"
    using A(2) by (simp_all add: eq)
  have rest: "unat b + 20 + unat sz + 20 + (unat (bsize h b) - unat sz - 20) = unat b + 20 + unat (bsize h b)"
    using fit by simp
  show "seg ?h 0 33554432 (xs @ b # nb # ys) (unat (heap_end h)) 0"
    unfolding seg_append
  proof (intro exI conjI)
    show "seg ?h 0 33554432 xs (unat b) (first_or 0 (b # nb # ys))"
      using seg_xs by simp
    show "seg ?h (last (0 # xs)) (unat b) (b # nb # ys) (unat (heap_end h)) 0"
      unfolding seg.simps b_fields nb_fields prev_b A(3) rest using seg_ys nb by simp
  qed
  show "nb \<notin> set (xs @ b # ys)"
    using xs ys bnb by auto
  show "bsize ?h b = sz" and "bfree ?h = (bfree h)(nb := True)" and "heap_end ?h = heap_end h"
    and "heap_limit ?h = heap_limit h" and "heap_head ?h = heap_head h"
    by (simp_all add: eq)
  show "bsize ?h c = bsize h c" if "c \<in> set (xs @ ys)" for c
    using that xs ys by (auto simp: eq)
qed

lemma absorb_spec:
  assumes inv: "heap_shape h (xs @ b # c # ys)"
  shows "seg (absorb b h) 0 33554432 (xs @ b # ys) (unat (heap_end h)) 0"
    and "unat (bsize (absorb b h) b) = unat (bsize h b) + 20 + unat (bsize h c)"
    and "\<And>x. x \<noteq> b \<Longrightarrow> bsize (absorb b h) x = bsize h x"
proof -
  note A = heap_around [OF inv]
  note C = heap_around [of h "xs @ [b]" c ys, simplified, OF inv]
  let ?h = "absorb b h"
  have cb: "bnext h b = c" and c0: "c \<noteq> 0" and bc: "b \<noteq> c" and ub: "unat c = unat b + 20 + unat (bsize h b)"
    using A(4,5,9) heap_blocks_nonzero [OF inv] by auto
  show sz: "unat (bsize ?h b) = unat (bsize h b) + 20 + unat (bsize h c)"
    using C(7) ub by (simp add: absorb_def cb Let_def BLOCK_def unat_word_ariths)
  show "bsize ?h x = bsize h x" if "x \<noteq> b" for x
    using that by (simp add: absorb_def Let_def)
  have xs: "x \<noteq> b \<and> x \<notin> set ys" if "x \<in> set xs" for x
    using A(8) [OF that] A(9) by fastforce
  have ys: "y \<noteq> b" if "y \<in> set ys" for y
    using A(9) [of y] that by auto
  have next_ys: "bnext h c \<noteq> 0 \<Longrightarrow> bnext h c \<in> set ys"
    using C(4) by (cases ys) auto
  have seg_xs: "seg ?h 0 33554432 xs (unat b) b"
    using A(1) xs next_ys by (subst seg_cong [where h = h]) (auto simp: absorb_def Let_def cb)
  have seg_ys: "seg ?h b (unat c + 20 + unat (bsize h c)) ys (unat (heap_end h)) 0"
  proof (rule seg_other_prev [OF C(5)])
    show "bprev ?h (hd ys) = b" if "ys \<noteq> []"
      using that C(4) heap_blocks_nonzero [OF inv] by (cases ys) (auto simp: absorb_def Let_def cb)
    show "bprev ?h y = bprev h y" if "y \<in> set (tl ys)" for y
    proof (cases ys)
      case (Cons d zs)
      then have "y \<noteq> d"
        using that seg_distinct [OF C(5)] by auto
      then show ?thesis
        using that Cons C(4) by (simp add: absorb_def Let_def cb)
    qed (use that in simp)
  qed (use ys in \<open>auto simp: absorb_def Let_def cb\<close>)
  have b_fields: "magic ?h b = MAGIC" "bnext ?h b = first_or 0 ys" "bprev ?h b = last (0 # xs)"
    using next_ys ys [of "bnext h c"] A(2,3) C(4) by (auto simp: absorb_def Let_def cb)
  show "seg ?h 0 33554432 (xs @ b # ys) (unat (heap_end h)) 0"
    unfolding seg_append
  proof (intro exI conjI)
    show "seg ?h 0 33554432 xs (unat b) (first_or 0 (b # ys))"
      using seg_xs by simp
    show "seg ?h (last (0 # xs)) (unat b) (b # ys) (unat (heap_end h)) 0"
      unfolding seg.simps b_fields sz using seg_ys ub by (simp add: algebra_simps)
  qed
qed


section \<open>Growing\<close>

lemma expand_step:
  assumes "heap_end h < heap_limit h" and "need > 0" and "alloc_frame (pages h) = (f, s)"
  shows "expand need h = expand (if need > 4096 then need - 4096 else 0)
    (h\<lparr>pages := hal_paging_map (heap_end h) f (HAL_PG_PRESENT OR HAL_PG_WRITE) s,
       heap_end := heap_end h + 4096\<rparr>)"
  using assms by (simp add: expand.simps [of need h] Let_def)

lemma expand_stop: "\<not> (heap_end h < heap_limit h \<and> need > 0) \<Longrightarrow> expand need h = h"
  by (subst expand.simps, subst if_not_P) simp_all

lemma expand_keeps:
  "\<exists>s e. expand need h = h\<lparr>pages := s, heap_end := e\<rparr>"
proof (induction need h rule: expand.induct)
  case (1 need h)
  show ?case
  proof (cases "heap_end h < heap_limit h \<and> need > 0")
    case True
    obtain f s where al: "alloc_frame (pages h) = (f, s)"
      by force
    show ?thesis
      using 1 [OF True al [symmetric] refl refl] True
      by (auto simp: expand_step [OF _ _ al] simp del: word_greater_zero_iff)
  next
    case False
    have "h = h\<lparr>pages := pages h, heap_end := heap_end h\<rparr>"
      by simp
    then show ?thesis
      using False by (metis expand_stop)
  qed
qed

lemma expand_fields [frame]:
  "magic (expand need h) = magic h" "bsize (expand need h) = bsize h" "bfree (expand need h) = bfree h"
  "bnext (expand need h) = bnext h" "bprev (expand need h) = bprev h"
  "heap_head (expand need h) = heap_head h" "heap_limit (expand need h) = heap_limit h"
  using expand_keeps [of need h] by auto

lemma pages_needed_step:
  "0 < n \<Longrightarrow> 4096 + 4096 * ((n - 4096 + 4095) div 4096) = 4096 * ((n + 4095) div 4096)" for n :: nat
proof (cases "4096 \<le> n")
  case True
  then obtain m where n: "n = 4096 + m"
    by (auto dest: le_Suc_ex)
  have "(m + 4095 + 4096) div 4096 = (m + 4095) div 4096 + 1"
    by (rule div_add_self2) simp
  then have "(n + 4095) div 4096 = (m + 4095) div 4096 + 1"
    by (simp only: n add.commute add.left_commute)
  then show ?thesis
    by (simp add: n)
next
  case False
  assume "0 < n"
  then obtain m where "n = Suc m"
    by (cases n) simp_all
  with False show ?thesis by simp
qed

lemma expand_end:
  assumes "page_aligned (heap_end h)" and "page_aligned (heap_limit h)" and "unat (heap_limit h) \<le> 134217728"
    and "unat (heap_end h) \<le> unat (heap_limit h)"
  shows "page_aligned (heap_end (expand need h))"
    and "unat (heap_end (expand need h)) =
      min (unat (heap_limit h)) (unat (heap_end h) + 4096 * ((unat need + 4095) div 4096))"
proof -
  have "page_aligned (heap_end (expand need h)) \<and> unat (heap_end (expand need h)) =
      min (unat (heap_limit h)) (unat (heap_end h) + 4096 * ((unat need + 4095) div 4096))"
    using assms
  proof (induction need h rule: expand.induct)
    case (1 need h)
    show ?case
    proof (cases "heap_end h < heap_limit h \<and> need > 0")
      case False
      then have "heap_end h = heap_limit h \<or> need = 0"
        using 1(5) by (auto simp: word_less_nat_alt word_unat_eq_iff)
      then show ?thesis
        using False 1(2,5) by (auto simp: expand_stop)
    next
      case True
      obtain f s where al: "alloc_frame (pages h) = (f, s)"
        by force
      let ?need = "if need > 4096 then need - 4096 else 0"
      let ?h = "h\<lparr>pages := hal_paging_map (heap_end h) f (HAL_PG_PRESENT OR HAL_PG_WRITE) s,
        heap_end := heap_end h + 4096\<rparr>"
      have lt: "unat (heap_end h) < unat (heap_limit h)" and n0: "0 < unat need"
        using True by (simp_all add: word_less_nat_alt unat_gt_0)
      obtain i j where ij: "unat (heap_end h) = 4096 * i" "unat (heap_limit h) = 4096 * j"
        using 1(2,3) by (auto simp: page_aligned_def elim!: dvdE)
      have e: "unat (heap_end h + 4096) = unat (heap_end h) + 4096"
        using lt 1(4) by (simp add: unat_word_ariths)
      have "i < j"
        using lt ij by simp
      then have le: "unat (heap_end h) + 4096 \<le> unat (heap_limit h)"
        using ij by simp
      have n: "unat ?need = unat need - 4096"
        by (auto simp: word_less_nat_alt unat_sub word_le_nat_alt)
      have "expand need h = expand ?need ?h"
        using True by (intro expand_step [OF _ _ al]) simp_all
      moreover have "page_aligned (heap_end (expand ?need ?h)) \<and> unat (heap_end (expand ?need ?h)) =
          min (unat (heap_limit h)) (unat (heap_end h) + 4096 + 4096 * ((unat ?need + 4095) div 4096))"
      proof -
        have "page_aligned (heap_end ?h)" "unat (heap_end ?h) = unat (heap_end h) + 4096"
          using e ij by (simp_all add: page_aligned_def)
        then show ?thesis
          using 1(1) [OF True al [symmetric] refl refl] 1(3,4) le by simp
      qed
      moreover have "4096 + 4096 * ((unat ?need + 4095) div 4096) = 4096 * ((unat need + 4095) div 4096)"
        unfolding n using n0 by (rule pages_needed_step)
      ultimately show ?thesis
        by (simp only: add.assoc)
    qed
  qed
  then show "page_aligned (heap_end (expand need h))"
    and "unat (heap_end (expand need h)) =
      min (unat (heap_limit h)) (unat (heap_end h) + 4096 * ((unat need + 4095) div 4096))"
    by simp_all
qed


section \<open>Allocating and freeing\<close>

text \<open>The payload of each block in use: its address and its size.\<close>

definition alloc_map :: "vmm \<Rightarrow> u32 list \<Rightarrow> u32 \<rightharpoonup> nat" where
  "alloc_map h bs p = (if p - BLOCK \<in> set bs \<and> \<not> bfree h (p - BLOCK) then Some (unat (bsize h (p - BLOCK))) else None)"

lemma find_block_spec:
  assumes "heap_shape h (xs @ ys)" and "ys \<noteq> []"
  shows "(\<exists>us b vs. ys = us @ b # vs \<and> find_block (hd ys) sz h = Some (Inl b) \<and> bfree h b \<and> sz \<le> bsize h b)
    \<or> find_block (hd ys) sz h = Some (Inr (last ys)) \<and> (\<forall>b\<in>set ys. \<not> (bfree h b \<and> sz \<le> bsize h b))"
  using assms
proof (induction ys arbitrary: xs)
  case (Cons b ys)
  have b0: "b \<noteq> 0" and nxt: "bnext h b = first_or 0 ys"
    using heap_blocks_nonzero [OF Cons.prems(1)] heap_around(4) [OF Cons.prems(1)] by simp_all
  show ?case
  proof (cases "bfree h b \<and> sz \<le> bsize h b")
    case True
    then show ?thesis
      using b0 by (auto simp: find_block.simps [of b])
  next
    case False
    show ?thesis
    proof (cases ys)
      case Nil
      then show ?thesis
        using False b0 nxt by (auto simp: find_block.simps [of b])
    next
      case (Cons c zs)
      then have "find_block b sz h = find_block (hd ys) sz h"
        using False b0 nxt heap_blocks_nonzero [OF Cons.prems(1), of c]
        by (auto simp: find_block.simps [of b])
      moreover have "heap_shape h ((xs @ [b]) @ ys)"
        using Cons.prems(1) by simp
      from Cons.IH [OF this] Cons have "(\<exists>us b vs. ys = us @ b # vs \<and> find_block (hd ys) sz h = Some (Inl b)
            \<and> bfree h b \<and> sz \<le> bsize h b)
          \<or> find_block (hd ys) sz h = Some (Inr (last ys)) \<and> (\<forall>b\<in>set ys. \<not> (bfree h b \<and> sz \<le> bsize h b))"
        by simp
      ultimately show ?thesis
      proof (elim disjE exE conjE)
        fix us d vs
        assume "find_block b sz h = find_block (hd ys) sz h" and "ys = us @ d # vs"
          and "find_block (hd ys) sz h = Some (Inl d)" and "bfree h d" and "sz \<le> bsize h d"
        then show ?thesis
          by (intro disjI1 exI [of _ "b # us"] exI [of _ d] exI [of _ vs]) simp
      qed (use False Cons in auto)
    qed
  qed
qed simp

lemma no_adjacent_free_append:
  "no_adjacent_free h (xs @ b # ys) \<longleftrightarrow>
     no_adjacent_free h xs \<and> no_adjacent_free h ys
     \<and> (xs \<noteq> [] \<longrightarrow> \<not> (bfree h (last xs) \<and> bfree h b)) \<and> (ys \<noteq> [] \<longrightarrow> \<not> (bfree h b \<and> bfree h (hd ys)))"
  by (auto simp: no_adjacent_free_def successively_append_iff successively_Cons)

lemma no_adjacent_free_cong:
  "(\<And>b. b \<in> set bs \<Longrightarrow> bfree h' b = bfree h b) \<Longrightarrow> no_adjacent_free h' bs = no_adjacent_free h bs"
  unfolding no_adjacent_free_def by (induction bs) (auto simp: successively_Cons)

text \<open>Taking a free block that is large enough, with or without splitting it.\<close>

definition take_block :: "u32 \<Rightarrow> u32 \<Rightarrow> vmm \<Rightarrow> vmm" where
  "take_block b sz h = (let h = split b sz h in h\<lparr>bfree := (bfree h)(b := False)\<rparr>)"

lemma take_block_spec:
  assumes inv: "heap_shape h (xs @ b # ys)" and "bfree h b" and sz: "unat sz < 134217728"
    and adj: "no_adjacent_free h xs" "no_adjacent_free h ys" "ys \<noteq> [] \<Longrightarrow> \<not> bfree h (hd ys)"
  obtains bs where "heap_inv (take_block b sz h) bs"
    and "alloc_map (take_block b sz h) bs = (alloc_map h (xs @ b # ys))
          (b + BLOCK \<mapsto> unat (bsize (take_block b sz h) b))"
    and "sz \<le> bsize h b \<Longrightarrow> sz \<le> bsize (take_block b sz h) b"
    and "bsize h b < sz \<Longrightarrow> bsize (take_block b sz h) b = bsize h b"
proof (cases "unat sz + 36 \<le> unat (bsize h b)")
  case True
  define nb where "nb = b + BLOCK + sz"
  note S = split_spec [OF inv True, folded nb_def]
  note D = heap_shapeD [OF inv]
  let ?h = "take_block b sz h"
  have dist: "distinct (xs @ b # ys)"
    using seg_distinct [OF D(3)] .
  have bf: "bfree ?h = (bfree h)(nb := True, b := False)" and bs: "bsize ?h = bsize (split b sz h)"
    by (simp_all add: take_block_def Let_def S(5))
  have "seg ?h 0 33554432 (xs @ b # nb # ys) (unat (heap_end h)) 0"
    using S(1) by (subst seg_cong [where h = "split b sz h"]) (simp_all add: take_block_def Let_def)
  moreover have "no_adjacent_free ?h (xs @ b # nb # ys)"
  proof -
    have "no_adjacent_free ?h xs = no_adjacent_free h xs" "no_adjacent_free ?h ys = no_adjacent_free h ys"
      using S(2) dist by (intro no_adjacent_free_cong; auto simp: bf)+
    moreover have "ys \<noteq> [] \<Longrightarrow> \<not> bfree ?h (hd ys)"
      using adj(3) S(2) by (cases ys) (auto simp: bf)
    ultimately show ?thesis
      using adj(1,2) no_adjacent_free_append [of ?h xs b "nb # ys"] no_adjacent_free_append [of ?h "[]" nb ys]
      by (simp add: bf no_adjacent_free_def)
  qed
  ultimately have "heap_inv ?h (xs @ b # nb # ys)"
    using D unfolding heap_inv_def heap_shape_def HEAP_START_def HEAP_MAX_def
    by (simp add: take_block_def Let_def S(6-8) hd_append word_le_nat_alt)
  moreover have "alloc_map ?h (xs @ b # nb # ys) =
      (alloc_map h (xs @ b # ys))(b + BLOCK \<mapsto> unat (bsize ?h b))" (is "?m = ?m'")
  proof (rule ext)
    show "?m p = ?m' p" for p
      using S(2,4) by (cases "p - BLOCK = b") (auto simp: alloc_map_def bf bs)
  qed
  ultimately show ?thesis
    using S(3) True by (intro that [of "xs @ b # nb # ys"]) (simp_all add: bs word_less_nat_alt)
next
  case False
  let ?h = "take_block b sz h"
  note D = heap_shapeD [OF inv]
  have "bsize h b < sz + BLOCK + 16"
    using False sz by (simp add: word_less_nat_alt unat_word_ariths BLOCK_def)
  then have h: "?h = h\<lparr>bfree := (bfree h)(b := False)\<rparr>"
    by (simp add: take_block_def split_def)
  have dist: "distinct (xs @ b # ys)"
    using seg_distinct [OF D(3)] .
  have "seg ?h 0 33554432 (xs @ b # ys) (unat (heap_end h)) 0"
    using D(3) by (subst seg_cong [where h = h]) (simp_all add: h)
  moreover have "no_adjacent_free ?h (xs @ b # ys)"
  proof -
    have "no_adjacent_free ?h xs = no_adjacent_free h xs" "no_adjacent_free ?h ys = no_adjacent_free h ys"
      using dist by (intro no_adjacent_free_cong; auto simp: h)+
    then show ?thesis
      using adj unfolding no_adjacent_free_append by (simp add: h)
  qed
  ultimately have "heap_inv ?h (xs @ b # ys)"
    using D unfolding heap_inv_def heap_shape_def HEAP_START_def HEAP_MAX_def
    by (simp add: h hd_append word_le_nat_alt)
  moreover have "alloc_map ?h (xs @ b # ys) =
      (alloc_map h (xs @ b # ys))(b + BLOCK \<mapsto> unat (bsize ?h b))" (is "?m = ?m'")
  proof (rule ext)
    show "?m p = ?m' p" for p
      by (cases "p - BLOCK = b") (auto simp: alloc_map_def h)
  qed
  ultimately show ?thesis
    by (intro that [of "xs @ b # ys"]) (simp_all add: h)
qed

lemma round_up_8_bounds:
  assumes "unat sz \<le> 117440512"
  shows "unat sz \<le> unat (round_up_8 sz)" and "unat (round_up_8 sz) < 117440520"
proof -
  have "unat (sz + 7) = unat sz + 7"
    using assms by (simp add: unat_word_ariths)
  then have r: "unat (round_up_8 sz) = unat sz + 7 - (unat sz + 7) mod 8"
    using unat_and_neg_8 [of "sz + 7"] by (simp add: round_up_8_def minus_mod_eq_div_mult)
  have "(unat sz + 7) mod 8 < 8"
    by simp
  then show "unat sz \<le> unat (round_up_8 sz)" "unat (round_up_8 sz) < 117440520"
    using assms unfolding r by linarith+
qed

text \<open>The new last block of \<^verbatim>\<open>kmalloc\<close> after growing the heap.\<close>

definition new_last :: "u32 \<Rightarrow> u32 \<Rightarrow> vmm \<Rightarrow> vmm" where
  "new_last b nb h =
     h\<lparr>magic := (magic h)(nb := MAGIC), bsize := (bsize h)(nb := heap_end h - nb - BLOCK),
       bfree := (bfree h)(nb := True), bprev := (bprev h)(nb := b), bnext := (bnext h)(nb := 0, b := nb)\<rparr>"

lemma kmalloc_grow_eq:
  "kmalloc_grow b sz h =
     (let h' = expand (sz + BLOCK + 4096) h; nb = heap_end h
      in if heap_end h' = nb then (0, h') else (nb + BLOCK, take_block nb sz (new_last b nb h')))"
  by (simp add: kmalloc_grow_def take_block_def new_last_def Let_def)

lemma new_last_shape:
  assumes shape: "heap_shape h bs" and "heap_end h \<noteq> heap_end (expand need h)"
  defines "h' \<equiv> new_last (last bs) (heap_end h) (expand need h)"
  shows "heap_shape h' (bs @ [heap_end h])" and "heap_end h \<notin> set bs"
    and "bsize h' (heap_end h) = heap_end (expand need h) - heap_end h - BLOCK"
    and "\<And>b. b \<in> set bs \<Longrightarrow> bsize h' b = bsize h b"
    and "bfree h' = (bfree h)(heap_end h := True)"
proof -
  note D = heap_shapeD [OF shape]
  note E = expand_end [OF D(6,7,5,4), of need]
  let ?nb = "heap_end h" and ?e = "heap_end (expand need h)"
  have "unat ?nb \<noteq> unat ?e"
    using assms(2) by (simp add: word_unat_eq_iff)
  moreover have "unat ?nb \<le> unat ?e"
    using E(2) D(4) by simp
  ultimately have lt: "unat ?nb + 4096 \<le> unat ?e"
    using page_aligned_apart [OF D(6) E(1)] assms(2) by auto
  have sz: "unat (?e - ?nb - BLOCK) = unat ?e - unat ?nb - 20"
    using lt by (simp add: BLOCK_def unat_sub word_le_nat_alt)
  show nb: "?nb \<notin> set bs"
    using seg_bounds [OF D(3)] by fastforce
  obtain xs b where bs: "bs = xs @ [b]" and lb: "last bs = b"
    using D(1) by (metis append_butlast_last_id)
  note A = heap_around [of h xs b "[]", folded bs, OF shape]
  have nb0: "b \<noteq> ?nb" and xs: "\<And>x. x \<in> set xs \<Longrightarrow> x \<noteq> b \<and> x \<noteq> ?nb"
    using nb A(8) unfolding bs by fastforce+
  show "bsize h' ?nb = ?e - ?nb - BLOCK" "bfree h' = (bfree h)(?nb := True)"
    by (simp_all add: h'_def new_last_def frame)
  show "bsize h' c = bsize h c" if "c \<in> set bs" for c
    using that nb by (auto simp: h'_def new_last_def frame)
  have "seg h' 0 33554432 xs (unat b) b"
    using A(1) xs by (subst seg_cong [where h = h]) (simp_all add: h'_def new_last_def frame lb)
  moreover have "unat ?nb = unat b + 20 + unat (bsize h b)"
    using A(5) by simp
  ultimately have "seg h' 0 33554432 (bs @ [?nb]) (unat ?e) 0"
    using A(2,3) nb0 lt sz unfolding bs append_assoc seg_append
    by (intro exI [of _ "unat b"]) (simp add: h'_def new_last_def frame bs)
  then show "heap_shape h' (bs @ [?nb])"
    using D E unfolding heap_shape_def HEAP_START_def HEAP_MAX_def
    by (simp add: h'_def new_last_def frame word_le_nat_alt)
qed

lemma alloc_map_None: "b \<in> set bs \<Longrightarrow> bfree h b \<Longrightarrow> alloc_map h bs (b + BLOCK) = None"
  by (simp add: alloc_map_def)

lemma kmalloc_grow_spec:
  assumes inv: "heap_inv h bs" and sz: "unat sz < 117440520"
  shows "kmalloc_grow (last bs) sz h = (0, h) \<and> heap_end h = heap_limit h
    \<or> (\<exists>h' bs' n. kmalloc_grow (last bs) sz h = (heap_end h + BLOCK, h') \<and> heap_end h + BLOCK \<noteq> 0
        \<and> heap_inv h' bs' \<and> alloc_map h bs (heap_end h + BLOCK) = None
        \<and> alloc_map h' bs' = (alloc_map h bs)(heap_end h + BLOCK \<mapsto> n)
        \<and> heap_limit h' = heap_limit h
        \<and> (unat sz \<le> n \<or> heap_end h' = heap_limit h' \<and> n = unat (heap_limit h) - unat (heap_end h) - 20))"
proof -
  let ?grow = "sz + BLOCK + 4096" and ?nb = "heap_end h"
  let ?h1 = "expand ?grow h"
  have shape: "heap_shape h bs" and adj: "no_adjacent_free h bs"
    using inv by (simp_all add: heap_inv_def)
  note D = heap_shapeD [OF shape]
  note E = expand_end [OF D(6,7,5,4), of ?grow]
  have grow: "unat ?grow = unat sz + 4116"
    using sz by (simp add: unat_word_ariths BLOCK_def)
  show ?thesis
  proof (cases "heap_end ?h1 = ?nb")
    case True
    then have "unat (heap_limit h) = unat ?nb"
      using E(2) grow by (simp add: min_def split: if_splits)
    then have "heap_limit h = ?nb"
      by (simp add: word_unat_eq_iff)
    then show ?thesis
      using True by (simp add: kmalloc_grow_eq Let_def expand_stop)
  next
    case False
    let ?h2 = "new_last (last bs) ?nb ?h1"
    note N = new_last_shape [OF shape False [symmetric]]
    have k: "kmalloc_grow (last bs) sz h = (?nb + BLOCK, take_block ?nb sz ?h2)"
      using False by (simp add: kmalloc_grow_eq Let_def)
    have "no_adjacent_free ?h2 bs = no_adjacent_free h bs"
      using N(2) by (intro no_adjacent_free_cong) (auto simp: N(5))
    then have "no_adjacent_free ?h2 bs"
      using adj by simp
    moreover have "no_adjacent_free ?h2 []" "bfree ?h2 ?nb" "unat sz < 134217728"
      using N(5) sz by (simp_all add: no_adjacent_free_def)
    ultimately obtain bs' where bs': "heap_inv (take_block ?nb sz ?h2) bs'"
      "alloc_map (take_block ?nb sz ?h2) bs' = (alloc_map ?h2 (bs @ [?nb]))
          (?nb + BLOCK \<mapsto> unat (bsize (take_block ?nb sz ?h2) ?nb))"
      "sz \<le> bsize ?h2 ?nb \<Longrightarrow> sz \<le> bsize (take_block ?nb sz ?h2) ?nb"
      "bsize ?h2 ?nb < sz \<Longrightarrow> bsize (take_block ?nb sz ?h2) ?nb = bsize ?h2 ?nb"
      using take_block_spec [OF N(1), of sz] by (metis (no_types, lifting))
    have none: "alloc_map h bs (?nb + BLOCK) = None"
      using N(2) by (simp add: alloc_map_def)
    have "alloc_map ?h2 (bs @ [?nb]) = alloc_map h bs"
    proof (rule ext)
      show "alloc_map ?h2 (bs @ [?nb]) p = alloc_map h bs p" for p
        using N(2,4,5) by (auto simp: alloc_map_def)
    qed
    moreover have "?nb + BLOCK \<noteq> 0"
      using D(4,5) by (auto simp: BLOCK_def unat_word_ariths word_unat_eq_iff)
    moreover have "heap_end (take_block ?nb sz ?h2) = heap_end ?h1"
      "heap_limit (take_block ?nb sz ?h2) = heap_limit h"
      by (simp_all add: take_block_def split_def new_last_def frame Let_def)
    moreover have "unat sz \<le> unat (bsize (take_block ?nb sz ?h2) ?nb)
        \<or> heap_end ?h1 = heap_limit h
          \<and> unat (bsize (take_block ?nb sz ?h2) ?nb) = unat (heap_limit h) - unat ?nb - 20"
    proof (cases "sz \<le> bsize ?h2 ?nb")
      case True
      then show ?thesis
        using bs'(3) by (simp add: word_le_nat_alt)
    next
      case small: False
      have lt: "unat ?nb + 4096 \<le> unat (heap_end ?h1)"
        using E(2) D(4) page_aligned_apart [OF D(6) E(1)] False by auto
      then have sz2: "unat (bsize ?h2 ?nb) = unat (heap_end ?h1) - unat ?nb - 20"
        unfolding N(3) by (simp add: BLOCK_def unat_sub word_le_nat_alt)
      have "unat (heap_end ?h1) = unat (heap_limit h)"
      proof (rule ccontr)
        assume "unat (heap_end ?h1) \<noteq> unat (heap_limit h)"
        then have "unat (heap_end ?h1) = unat ?nb + 4096 * ((unat sz + 4116 + 4095) div 4096)"
          using E(2) by (simp add: grow min_def split: if_splits)
        moreover have "unat sz + 4116 \<le> 4096 * ((unat sz + 4116 + 4095) div 4096)"
          by linarith
        ultimately have "unat sz \<le> unat (bsize ?h2 ?nb)"
          using sz2 by simp
        then show False
          using small by (simp add: word_le_nat_alt)
      qed
      then show ?thesis
        using bs'(4) small sz2 by (simp add: word_unat_eq_iff)
    qed
    ultimately show ?thesis
      using k bs'(1,2) none by simp blast
  qed
qed

lemma kmalloc_spec:
  assumes inv: "heap_inv h bs" and sz: "0 < sz" "unat sz \<le> 117440512"
  shows "kmalloc sz h = Some (0, h) \<and> heap_end h = heap_limit h
    \<or> (\<exists>p h' bs' n. kmalloc sz h = Some (p, h') \<and> p \<noteq> 0 \<and> heap_inv h' bs'
        \<and> alloc_map h bs p = None \<and> alloc_map h' bs' = (alloc_map h bs)(p \<mapsto> n)
        \<and> (unat sz \<le> n \<or> heap_end h' = heap_limit h'))"
proof -
  note R = round_up_8_bounds [OF sz(2)]
  let ?sz = "round_up_8 sz"
  have shape: "heap_shape h ([] @ bs)" and adj: "no_adjacent_free h bs" and ne: "bs \<noteq> []"
    and hd: "heap_head h = hd bs"
    using inv heap_shapeD by (auto simp: heap_inv_def)
  have small: "unat ?sz < 134217728"
    using R(2) by simp
  consider (found) us b vs where "bs = us @ b # vs" "find_block (heap_head h) ?sz h = Some (Inl b)"
      "bfree h b" "?sz \<le> bsize h b"
    | (grow) "find_block (heap_head h) ?sz h = Some (Inr (last bs))"
    using find_block_spec [OF shape ne, of ?sz] hd by metis
  then show ?thesis
  proof cases
    case found
    have k: "kmalloc sz h = Some (b + BLOCK, take_block b ?sz h)"
      using sz(1) found(2) by (auto simp: kmalloc_def take_block_def Let_def)
    have "heap_shape h (us @ b # vs)"
      using shape found(1) by simp
    moreover have "no_adjacent_free h us" "no_adjacent_free h vs" "vs \<noteq> [] \<Longrightarrow> \<not> bfree h (hd vs)"
      using adj found(3) unfolding found(1) no_adjacent_free_append by simp_all
    ultimately obtain bs' where bs': "heap_inv (take_block b ?sz h) bs'"
      "alloc_map (take_block b ?sz h) bs' = (alloc_map h (us @ b # vs))
          (b + BLOCK \<mapsto> unat (bsize (take_block b ?sz h) b))"
      "?sz \<le> bsize (take_block b ?sz h) b"
      using take_block_spec [OF _ found(3) small] found(4) by metis
    moreover have "unat sz \<le> unat (bsize (take_block b ?sz h) b)"
      using bs'(3) R(1) by (simp add: word_le_nat_alt)
    moreover have "b + BLOCK \<noteq> 0"
      using heap_around(6,7) [of h us b vs] shape found(1)
      by (auto simp: BLOCK_def unat_word_ariths word_unat_eq_iff)
    ultimately show ?thesis
      using k found(1,3) alloc_map_None [of b bs h] by auto
  next
    case grow
    have k: "kmalloc sz h = Some (kmalloc_grow (last bs) ?sz h)"
      using sz(1) grow by (auto simp: kmalloc_def Let_def)
    show ?thesis
      using kmalloc_grow_spec [OF inv R(2)] R(1) unfolding k by fastforce
  qed
qed

section \<open>Freeing\<close>

definition release_block :: "u32 \<Rightarrow> vmm \<Rightarrow> vmm" where
  "release_block b h = h\<lparr>bfree := (bfree h)(b := True)\<rparr>"

lemma absorb_fields [simp]:
  "bfree (absorb b h) = bfree h" "heap_end (absorb b h) = heap_end h" "heap_head (absorb b h) = heap_head h"
  "heap_limit (absorb b h) = heap_limit h" "magic (absorb b h) = magic h"
  by (simp_all add: absorb_def Let_def)

lemma absorb_shape:
  assumes "heap_shape h (xs @ b # c # ys)" and "bfree h b" and "bfree h c"
  shows "heap_shape (absorb b h) (xs @ b # ys)"
    and "alloc_map (absorb b h) (xs @ b # ys) = alloc_map h (xs @ b # c # ys)"
proof -
  note D = heap_shapeD [OF assms(1)] and S = absorb_spec [OF assms(1)]
  show "heap_shape (absorb b h) (xs @ b # ys)"
    using D S(1) unfolding heap_shape_def HEAP_START_def HEAP_MAX_def
    by (simp add: hd_append word_le_nat_alt)
  show "alloc_map (absorb b h) (xs @ b # ys) = alloc_map h (xs @ b # c # ys)"
  proof (rule ext)
    show "alloc_map (absorb b h) (xs @ b # ys) p = alloc_map h (xs @ b # c # ys) p" for p
      using S(3) [of "p - BLOCK"] assms(2,3) by (cases "p - BLOCK = b") (auto simp: alloc_map_def)
  qed
qed

definition merge_next :: "u32 \<Rightarrow> vmm \<Rightarrow> vmm" where
  "merge_next b h = (if bnext h b \<noteq> 0 \<and> bfree h (bnext h b) then absorb b h else h)"

definition merge_prev :: "u32 \<Rightarrow> vmm \<Rightarrow> vmm" where
  "merge_prev b h = (if bprev h b \<noteq> 0 \<and> bfree h (bprev h b) then absorb (bprev h b) h else h)"

lemma coalesce_eq:
  assumes "bprev (merge_next b h) b \<noteq> b"
    and "bprev (merge_next b h) b \<noteq> 0 \<Longrightarrow> bnext (merge_next b h) (bprev (merge_next b h) b) = b"
  shows "coalesce b h = merge_prev b (merge_next b h)"
proof -
  have "coalesce b h =
      (let h = merge_next b h in
       if bprev h b \<noteq> 0 \<and> bfree h (bprev h b)
       then let p = bprev h b;
                h = h\<lparr>bsize := (bsize h)(p := bsize h p + (BLOCK + bsize h b))\<rparr>;
                h = h\<lparr>bnext := (bnext h)(p := bnext h b)\<rparr>
            in if bnext h b \<noteq> 0 then h\<lparr>bprev := (bprev h)(bnext h b := bprev h b)\<rparr> else h
       else h)"
    unfolding coalesce_def merge_next_def absorb_def Let_def
    by (rule arg_cong [where f = "\<lambda>h. if bprev h b \<noteq> 0 \<and> bfree h (bprev h b) then _ h else h"]) simp
  then show ?thesis
    using assms by (auto simp: merge_prev_def absorb_def Let_def)
qed

lemma merge_next_spec:
  assumes shape: "heap_shape h (xs @ b # ys)" and "bfree h b"
    and adj: "no_adjacent_free h ys"
  obtains zs where "heap_shape (merge_next b h) (xs @ b # zs)"
    and "alloc_map (merge_next b h) (xs @ b # zs) = alloc_map h (xs @ b # ys)"
    and "bfree (merge_next b h) = bfree h"
    and "no_adjacent_free h zs" and "zs \<noteq> [] \<Longrightarrow> \<not> bfree h (hd zs)"
proof (cases ys)
  case Nil
  then have "merge_next b h = h"
    using heap_around(4) [OF shape] by (simp add: merge_next_def)
  then show ?thesis
    using shape Nil by (intro that [of "[]"]) (simp_all add: no_adjacent_free_def)
next
  case (Cons c zs)
  have nc: "bnext h b = c" "c \<noteq> 0"
    using heap_around(4) [OF shape] heap_blocks_nonzero [OF shape, of c] by (simp_all add: Cons)
  have "no_adjacent_free h zs" "zs \<noteq> [] \<Longrightarrow> \<not> (bfree h c \<and> bfree h (hd zs))"
    using adj no_adjacent_free_append [of h "[]" c zs] by (simp_all add: Cons)
  then show ?thesis
    using that [of zs] that [of ys] absorb_shape [of h xs b c zs] shape assms(2) adj nc
    by (cases "bfree h c") (auto simp: merge_next_def Cons)
qed

lemma merge_prev_spec:
  assumes shape: "heap_shape h (xs @ b # ys)" and "bfree h b"
    and adj: "no_adjacent_free h xs" "no_adjacent_free h ys" "ys \<noteq> [] \<Longrightarrow> \<not> bfree h (hd ys)"
  obtains bs where "heap_inv (merge_prev b h) bs"
    and "alloc_map (merge_prev b h) bs = alloc_map h (xs @ b # ys)"
proof (cases xs rule: rev_cases)
  case Nil
  then have "merge_prev b h = h"
    using heap_around(3) [OF shape] by (simp add: merge_prev_def)
  then show ?thesis
    using shape adj Nil no_adjacent_free_append [of h "[]" b ys] that
    by (auto simp: heap_inv_def no_adjacent_free_def)
next
  case (snoc us p)
  have np: "bprev h b = p" "p \<noteq> 0"
    using heap_around(3) [OF shape] heap_blocks_nonzero [OF shape, of p] by (simp_all add: snoc)
  have up: "no_adjacent_free h us" "us \<noteq> [] \<Longrightarrow> \<not> (bfree h (last us) \<and> bfree h p)"
    using adj(1) no_adjacent_free_append [of h us p "[]"] by (simp_all add: snoc)
  show ?thesis
  proof (cases "bfree h p")
    case True
    have "heap_shape h (us @ p # b # ys)"
      using shape by (simp add: snoc)
    note S = absorb_shape [OF this True assms(2)]
    have "no_adjacent_free (absorb p h) (us @ p # ys)"
      using up adj(2,3) True no_adjacent_free_cong [of _ "absorb p h" h]
      by (simp add: no_adjacent_free_append)
    then show ?thesis
      using S that [of "us @ p # ys"] True np by (simp add: merge_prev_def heap_inv_def snoc)
  next
    case False
    then show ?thesis
      using that [of "xs @ b # ys"] shape adj np no_adjacent_free_append [of h xs b ys]
      by (simp add: merge_prev_def heap_inv_def snoc)
  qed
qed

lemma kfree_spec:
  assumes inv: "heap_inv h bs" and p: "alloc_map h bs p = Some n"
  obtains bs' where "heap_inv (kfree p h) bs'"
    and "alloc_map (kfree p h) bs' = (alloc_map h bs)(p := None)"
proof -
  define b where "b = p - BLOCK"
  have b: "b \<in> set bs" "\<not> bfree h b"
    using p by (auto simp: alloc_map_def b_def split: if_splits)
  then obtain xs ys where bs: "bs = xs @ b # ys"
    by (meson split_list)
  have shape: "heap_shape h (xs @ b # ys)" and adj: "no_adjacent_free h xs" "no_adjacent_free h ys"
    using inv by (simp_all add: heap_inv_def bs no_adjacent_free_append)
  note A = heap_around [OF shape]
  have "unat (b + BLOCK) \<noteq> 0"
    using A(6,7) by (simp add: BLOCK_def unat_word_ariths)
  then have "p \<noteq> 0"
    by (auto simp: b_def)
  let ?h = "release_block b h"
  have dist: "distinct bs"
    using seg_distinct [OF heap_shapeD(3) [OF shape]] by (simp add: bs)
  have shape1: "heap_shape ?h (xs @ b # ys)"
    using shape seg_cong [of "xs @ b # ys" ?h h] by (simp add: heap_shape_def release_block_def)
  have "alloc_map ?h bs = (alloc_map h bs)(p := None)"
  proof (rule ext)
    show "alloc_map ?h bs q = ((alloc_map h bs)(p := None)) q" for q
      by (cases "q = p") (auto simp: alloc_map_def release_block_def b_def)
  qed
  moreover have "no_adjacent_free ?h xs = no_adjacent_free h xs" "no_adjacent_free ?h ys = no_adjacent_free h ys"
    using dist by (intro no_adjacent_free_cong; auto simp: release_block_def bs)+
  moreover obtain zs where zs: "heap_shape (merge_next b ?h) (xs @ b # zs)"
    "alloc_map (merge_next b ?h) (xs @ b # zs) = alloc_map ?h (xs @ b # ys)"
    "bfree (merge_next b ?h) = bfree ?h" "no_adjacent_free ?h zs" "zs \<noteq> [] \<Longrightarrow> \<not> bfree ?h (hd zs)"
    using merge_next_spec [OF shape1] adj calculation by (auto simp: release_block_def)
  ultimately obtain bs' where bs': "heap_inv (merge_prev b (merge_next b ?h)) bs'"
    "alloc_map (merge_prev b (merge_next b ?h)) bs' = (alloc_map h bs)(p := None)"
    using merge_prev_spec [OF zs(1)] adj no_adjacent_free_cong [of _ "merge_next b ?h" ?h]
    by (auto simp: release_block_def bs)
  moreover have "kfree p h = merge_prev b (merge_next b ?h)"
  proof -
    note Z = heap_around [OF zs(1)]
    have "kfree p h = coalesce b ?h"
      using \<open>p \<noteq> 0\<close> A(2) by (simp add: kfree_def Let_def b_def [symmetric] release_block_def)
    also have "\<dots> = merge_prev b (merge_next b ?h)"
    proof (rule coalesce_eq)
      show "bprev (merge_next b ?h) b \<noteq> b"
        using Z(3,6,8) by (cases xs rule: rev_cases) fastforce+
      show "bnext (merge_next b ?h) (bprev (merge_next b ?h) b) = b" if "bprev (merge_next b ?h) b \<noteq> 0"
        using Z(3) zs(1) that heap_around(4) [of "merge_next b ?h" _ _ "b # zs"]
        by (cases xs rule: rev_cases) auto
    qed
    finally show ?thesis .
  qed
  ultimately show ?thesis
    using that by simp
qed


section \<open>The contract of the allocator\<close>

text \<open>
  What the users of the heap rely on: a map from the pointers in use to the number of bytes
  behind them. A request either fails and leaves the map alone, or adds a pointer that was
  not in use; the blocks of two pointers in use never overlap.
\<close>

locale heap_allocator =
  fixes rep :: "'h \<Rightarrow> (u32 \<rightharpoonup> nat) \<Rightarrow> bool"
    and malloc :: "u32 \<Rightarrow> 'h \<Rightarrow> (u32 \<times> 'h) option"
    and release :: "u32 \<Rightarrow> 'h \<Rightarrow> 'h"
    and exhausted :: "'h \<Rightarrow> bool"
    and max_size :: nat
  assumes rep_nonnull: "rep h L \<Longrightarrow> L 0 = None"
    and rep_disjoint: "rep h L \<Longrightarrow> L p = Some m \<Longrightarrow> L q = Some n \<Longrightarrow> p \<noteq> q \<Longrightarrow>
      unat p + m \<le> unat q \<or> unat q + n \<le> unat p"
    and malloc_rep: "rep h L \<Longrightarrow> 0 < sz \<Longrightarrow> unat sz \<le> max_size \<Longrightarrow>
      malloc sz h = Some (0, h) \<and> exhausted h
      \<or> (\<exists>p h' n. malloc sz h = Some (p, h') \<and> L p = None \<and> rep h' (L(p \<mapsto> n)) \<and> (unat sz \<le> n \<or> exhausted h'))"
    and release_rep: "rep h L \<Longrightarrow> L p = Some n \<Longrightarrow> rep (release p h) (L(p := None))"
begin

lemma malloc_returns:
  "rep h L \<Longrightarrow> 0 < sz \<Longrightarrow> unat sz \<le> max_size \<Longrightarrow> \<exists>p h'. malloc sz h = Some (p, h')"
  using malloc_rep by blast

lemma malloc_fresh:
  assumes "rep h L" "0 < sz" "unat sz \<le> max_size" "malloc sz h = Some (p, h')" "p \<noteq> 0"
  obtains n where "L p = None" "rep h' (L(p \<mapsto> n))" "unat sz \<le> n \<or> exhausted h'"
    and "\<And>q m. L q = Some m \<Longrightarrow> unat p + n \<le> unat q \<or> unat q + m \<le> unat p"
proof -
  obtain n where n: "L p = None" "rep h' (L(p \<mapsto> n))" "unat sz \<le> n \<or> exhausted h'"
    using malloc_rep [OF assms(1-3)] assms(4,5) by auto
  moreover have "unat p + n \<le> unat q \<or> unat q + m \<le> unat p" if "L q = Some m" for q m
    using rep_disjoint [OF n(2), of p n q m] that n(1) by (cases "q = p") auto
  ultimately show thesis
    using that by blast
qed

lemma malloc_release:
  assumes "rep h L" "0 < sz" "unat sz \<le> max_size" "malloc sz h = Some (p, h')" "p \<noteq> 0"
  shows "rep (release p h') L"
proof -
  obtain n where "L p = None" "rep h' (L(p \<mapsto> n))"
    by (rule malloc_fresh [OF assms])
  then show ?thesis
    using release_rep [of h' "L(p \<mapsto> n)" p n] by (simp add: fun_upd_idem)
qed

end

definition heap_rep :: "vmm \<Rightarrow> (u32 \<rightharpoonup> nat) \<Rightarrow> bool" where
  "heap_rep h L \<longleftrightarrow> (\<exists>bs. heap_inv h bs \<and> L = alloc_map h bs)"

definition heap_full :: "vmm \<Rightarrow> bool" where
  "heap_full h \<longleftrightarrow> heap_end h = heap_limit h"

lemma seg_disjoint:
  assumes "seg h p pos bs e nx" and "b \<in> set bs" and "c \<in> set bs" and "b \<noteq> c"
  shows "unat b + 20 + unat (bsize h b) \<le> unat c \<or> unat c + 20 + unat (bsize h c) \<le> unat b"
  using assms
proof (induction bs arbitrary: p pos)
  case (Cons a bs)
  then have "seg h a (pos + 20 + unat (bsize h a)) bs e nx" and "unat a = pos"
    by simp_all
  note B = seg_bounds [OF this(1)]
  show ?case
    using Cons B [of b] B [of c] by auto
qed simp

lemma alloc_map_bounds:
  assumes "heap_inv h bs" and "alloc_map h bs p = Some n"
  shows "p - BLOCK \<in> set bs" and "unat p = unat (p - BLOCK) + 20" and "n = unat (bsize h (p - BLOCK))"
    and "unat p + n \<le> unat (heap_end h)"
proof -
  show b: "p - BLOCK \<in> set bs" and n: "n = unat (bsize h (p - BLOCK))"
    using assms(2) by (auto simp: alloc_map_def split: if_splits)
  note D = heap_shapeD [of h bs]
  have B: "unat (p - BLOCK) + 20 + unat (bsize h (p - BLOCK)) \<le> unat (heap_end h)"
    using seg_bounds [OF D(3) b] assms(1) by (simp add: heap_inv_def)
  moreover have "unat (heap_end h) \<le> 134217728"
    using D(4,5) assms(1) by (simp add: heap_inv_def)
  ultimately have "unat ((p - BLOCK) + BLOCK) = unat (p - BLOCK) + 20"
    by (subst unat_word_ariths) (simp add: BLOCK_def)
  then show "unat p = unat (p - BLOCK) + 20"
    by simp
  then show "unat p + n \<le> unat (heap_end h)"
    using B n by simp
qed

interpretation heap: heap_allocator heap_rep kmalloc kfree heap_full 117440512
proof unfold_locales
  fix h L
  assume "heap_rep h L"
  then obtain bs where inv: "heap_inv h bs" and L: "L = alloc_map h bs"
    by (auto simp: heap_rep_def)
  show "L 0 = None"
    using alloc_map_bounds(2) [OF inv, of 0] by (cases "L 0") (auto simp: L)
  show "unat p + m \<le> unat q \<or> unat q + n \<le> unat p" if pq: "L p = Some m" "L q = Some n" "p \<noteq> q" for p q m n
  proof -
    note P = alloc_map_bounds [OF inv pq(1) [unfolded L]] and Q = alloc_map_bounds [OF inv pq(2) [unfolded L]]
    have "p - BLOCK \<noteq> q - BLOCK"
      using pq(3) by simp
    then show ?thesis
      using seg_disjoint [OF heap_shapeD(3), of h bs "p - BLOCK" "q - BLOCK"] inv P Q
      by (auto simp: heap_inv_def)
  qed
  show "kmalloc sz h = Some (0, h) \<and> heap_full h
      \<or> (\<exists>p h' n. kmalloc sz h = Some (p, h') \<and> L p = None \<and> heap_rep h' (L(p \<mapsto> n))
          \<and> (unat sz \<le> n \<or> heap_full h'))" if "0 < sz" "unat sz \<le> 117440512" for sz
    using kmalloc_spec [OF inv that]
  proof
    assume "\<exists>p h' bs' n. kmalloc sz h = Some (p, h') \<and> p \<noteq> 0 \<and> heap_inv h' bs'
        \<and> alloc_map h bs p = None \<and> alloc_map h' bs' = (alloc_map h bs)(p \<mapsto> n)
        \<and> (unat sz \<le> n \<or> heap_end h' = heap_limit h')"
    then obtain p h' bs' n where k: "kmalloc sz h = Some (p, h')" "heap_inv h' bs'" "alloc_map h bs p = None"
      "alloc_map h' bs' = (alloc_map h bs)(p \<mapsto> n)" "unat sz \<le> n \<or> heap_end h' = heap_limit h'"
      by blast
    then have "L p = None" "heap_rep h' (L(p \<mapsto> n))"
      unfolding heap_rep_def L by (auto intro: exI [of _ bs'])
    then show ?thesis
      using k(1,5) unfolding heap_full_def by blast
  qed (simp add: heap_full_def)
  show "heap_rep (kfree p h) (L(p := None))" if p: "L p = Some n" for p n
  proof -
    obtain bs' where "heap_inv (kfree p h) bs'" "alloc_map (kfree p h) bs' = (alloc_map h bs)(p := None)"
      using kfree_spec [OF inv p [unfolded L]] .
    then show ?thesis
      unfolding heap_rep_def L by (intro exI [of _ bs']) simp
  qed
qed


section \<open>Properties\<close>

lemma vmm_init_heap_inv:
  "heap_inv (vmm_init h) [HEAP_START]" "bfree (vmm_init h) HEAP_START" "bsize (vmm_init h) HEAP_START = 0x3FFFEC"
  "heap_end (vmm_init h) = 0x2400000" "heap_limit (vmm_init h) = HEAP_MAX" "heap_head (vmm_init h) = HEAP_START"
proof -
  let ?h = "h\<lparr>heap_end := HEAP_START, heap_limit := HEAP_MAX\<rparr>"
  have al: "page_aligned HEAP_START" "page_aligned HEAP_MAX"
    by (simp_all add: page_aligned_def HEAP_START_def HEAP_MAX_def)
  have "unat (heap_end (expand 0x400000 ?h)) = 0x2400000"
    using expand_end(2) [of ?h "0x400000"] al by (simp add: HEAP_START_def HEAP_MAX_def)
  then have e: "heap_end (expand 0x400000 ?h) = 0x2400000"
    by (simp add: word_unat_eq_iff)
  then have i: "heap_end (vmm_init h) = 0x2400000" "heap_limit (vmm_init h) = HEAP_MAX"
    "bsize (vmm_init h) HEAP_START = 0x3FFFEC" "bfree (vmm_init h) HEAP_START"
    "magic (vmm_init h) HEAP_START = MAGIC" "bnext (vmm_init h) HEAP_START = 0"
    "bprev (vmm_init h) HEAP_START = 0" "heap_head (vmm_init h) = HEAP_START"
    by (simp_all add: vmm_init_def Let_def frame HEAP_START_def BLOCK_def)
  then show "bfree (vmm_init h) HEAP_START" "bsize (vmm_init h) HEAP_START = 0x3FFFEC"
    "heap_end (vmm_init h) = 0x2400000" "heap_limit (vmm_init h) = HEAP_MAX" "heap_head (vmm_init h) = HEAP_START"
    by simp_all
  show "heap_inv (vmm_init h) [HEAP_START]"
    using al by (simp add: heap_inv_def heap_shape_def i no_adjacent_free_def page_aligned_def)
      (simp add: HEAP_START_def HEAP_MAX_def)
qed

lemma heap_rep_init: "heap_rep (vmm_init h) Map.empty"
proof -
  have "alloc_map (vmm_init h) [HEAP_START] = Map.empty"
    using vmm_init_heap_inv(2) by (auto simp: alloc_map_def)
  then show ?thesis
    using vmm_init_heap_inv(1) unfolding heap_rep_def by metis
qed

definition vmm_zero :: vmm where
  "vmm_zero = \<lparr>magic = (\<lambda>_. 0), bsize = (\<lambda>_. 0), bfree = (\<lambda>_. False), bnext = (\<lambda>_. 0), bprev = (\<lambda>_. 0),
     heap_head = 0, heap_end = 0, heap_limit = 0, pages = mm_small\<rparr>"



text \<open>
  C27. \<^verbatim>\<open>kfree\<close> of a pointer in use removes exactly that pointer and merges its block with
  its free neighbours: afterwards the blocks again tile the heap and no two adjacent blocks are free.
\<close>

theorem kfree_coalesces:
  assumes "heap_inv h bs" and "alloc_map h bs p = Some n"
  shows "\<exists>bs'. heap_inv (kfree p h) bs' \<and> no_adjacent_free (kfree p h) bs'
    \<and> alloc_map (kfree p h) bs' = (alloc_map h bs)(p := None)"
  using kfree_spec [OF assms] unfolding heap_inv_def by metis

theorem kfree_coalesces_witness:
  "\<exists>p h' bs. kmalloc 64 (vmm_init vmm_zero) = Some (p, h') \<and> heap_inv (kfree p h') bs
    \<and> alloc_map (kfree p h') bs p = None"
proof -
  obtain p h' bs n where "kmalloc 64 (vmm_init vmm_zero) = Some (p, h')" "heap_inv h' bs" "alloc_map h' bs p = Some n"
    using kmalloc_spec [OF vmm_init_heap_inv(1), of 64 vmm_zero] vmm_init_heap_inv(4,5) [of vmm_zero]
    by (auto simp: HEAP_MAX_def)
  then show ?thesis
    using kfree_coalesces [of h' bs p n] by fastforce
qed

text \<open>
  When no free block is large enough and the room up to the heap limit is smaller than the
  request, \<^verbatim>\<open>kmalloc\<close> does not fail: it returns a pointer to a block smaller than requested.
\<close>

theorem kmalloc_undersized:
  assumes inv: "heap_inv h bs" and "0 < sz" and "unat sz \<le> 0x7000000"
    and "\<forall>b\<in>set bs. bfree h b \<longrightarrow> bsize h b < round_up_8 sz"
    and "heap_end h < heap_limit h" and "unat (heap_limit h) < unat (heap_end h) + unat sz + 20"
  shows "\<exists>h' bs' n. kmalloc sz h = Some (heap_end h + BLOCK, h') \<and> heap_inv h' bs'
    \<and> alloc_map h' bs' (heap_end h + BLOCK) = Some n \<and> n < unat sz"
proof -
  have sz: "unat sz \<le> 117440512"
    using assms(3) by simp
  note R = round_up_8_bounds [OF sz]
  have shape: "heap_shape h ([] @ bs)" and ne: "bs \<noteq> []" and hd: "heap_head h = hd bs"
    using inv heap_shapeD by (auto simp: heap_inv_def)
  have "find_block (heap_head h) (round_up_8 sz) h = Some (Inr (last bs))"
    using find_block_spec [OF shape ne, of "round_up_8 sz"] assms(4) hd by fastforce
  then have k: "kmalloc sz h = Some (kmalloc_grow (last bs) (round_up_8 sz) h)"
    using assms(2) by (auto simp: kmalloc_def Let_def)
  obtain h' bs' n where g: "kmalloc_grow (last bs) (round_up_8 sz) h = (heap_end h + BLOCK, h')"
    "heap_inv h' bs'" "alloc_map h' bs' (heap_end h + BLOCK) = Some n" "heap_limit h' = heap_limit h"
    using kmalloc_grow_spec [OF inv R(2)] assms(5) by auto
  note B = alloc_map_bounds [OF g(2,3)]
  have "unat (heap_end h') \<le> unat (heap_limit h)"
    using heap_shapeD(4) [of h' bs'] g(2,4) by (simp add: heap_inv_def)
  then have "n < unat sz"
    using B(2,4) assms(6) by simp
  then show ?thesis
    using k g(1-3) by auto
qed

theorem kmalloc_undersized_witness:
  "\<exists>h' bs n. kmalloc 0x6000000 (vmm_init vmm_zero) = Some (0x2400014, h') \<and> heap_inv h' bs
    \<and> alloc_map h' bs 0x2400014 = Some n \<and> n < 0x6000000"
  using kmalloc_undersized [OF vmm_init_heap_inv(1) [of vmm_zero], of "0x6000000"]
    vmm_init_heap_inv(2-5) [of vmm_zero]
  by (simp add: HEAP_MAX_def BLOCK_def round_up_8_def)

text \<open>
  A request within 7 bytes of \<^verbatim>\<open>2^32\<close> wraps to size 0 when it is rounded up, and
  \<^verbatim>\<open>kmalloc\<close> hands out a block of no bytes for it.
\<close>

theorem kmalloc_rounding_wraps:
  "\<exists>h' bs. kmalloc 0xFFFFFFFF (vmm_init h) = Some (HEAP_START + BLOCK, h') \<and> heap_inv h' bs
    \<and> alloc_map h' bs (HEAP_START + BLOCK) = Some 0"
proof -
  let ?h = "vmm_init h"
  have r: "round_up_8 0xFFFFFFFF = 0"
    by code_simp
  have "find_block HEAP_START 0 ?h = Some (Inl HEAP_START)"
    using vmm_init_heap_inv(2) [of h] by (simp add: find_block.simps HEAP_START_def)
  then have k: "kmalloc 0xFFFFFFFF ?h = Some (HEAP_START + BLOCK, take_block HEAP_START 0 ?h)"
    using vmm_init_heap_inv(6) [of h] r by (simp add: kmalloc_def take_block_def Let_def)
  have shape: "heap_shape ?h ([] @ HEAP_START # [])"
    using vmm_init_heap_inv(1) [of h] by (simp add: heap_inv_def)
  obtain bs where "heap_inv (take_block HEAP_START 0 ?h) bs"
    "alloc_map (take_block HEAP_START 0 ?h) bs = (alloc_map ?h ([] @ HEAP_START # []))
        (HEAP_START + BLOCK \<mapsto> unat (bsize (take_block HEAP_START 0 ?h) HEAP_START))"
    by (rule take_block_spec [OF shape vmm_init_heap_inv(2), of 0]) (simp_all add: no_adjacent_free_def)
  moreover have "bsize (take_block HEAP_START 0 ?h) HEAP_START = 0"
    using vmm_init_heap_inv(3) [of h] by (simp add: take_block_def split_def Let_def BLOCK_def)
  ultimately show ?thesis
    using k by auto
qed

end
