(* ===== verification/Ring.thy ===== *)
theory Ring
  imports Prelude
begin

text \<open>
  Ring buffers: the slice of an array that starts at a position and wraps around its end, and
  the interface of a bounded first-in first-out queue of bytes. The pipe buffer and the keyboard
  buffer are the two implementations of it.
\<close>

section \<open>Slices\<close>

definition ring_slice :: "'a list \<Rightarrow> nat \<Rightarrow> nat \<Rightarrow> 'a list" where
  "ring_slice buf r n = map (\<lambda>i. buf ! ((r + i) mod length buf)) [0..<n]"

lemma length_ring_slice [simp]: "length (ring_slice buf r n) = n"
  by (simp add: ring_slice_def)

lemma ring_slice_0 [simp]: "ring_slice buf r 0 = []"
  by (simp add: ring_slice_def)

lemma mod_add_neq: "i < j \<Longrightarrow> j - i < m \<Longrightarrow> (r + i) mod m \<noteq> (r + j) mod m" for i j m r :: nat
proof
  assume "i < j" "j - i < m" "(r + i) mod m = (r + j) mod m"
  then have "m dvd (r + j) - (r + i)"
    by (metis add_le_cancel_left less_imp_le mod_eq_dvd_iff_nat)
  then show False
    using \<open>i < j\<close> \<open>j - i < m\<close> by (auto dest: dvd_imp_le)
qed

lemma ring_slice_put:
  assumes "n < length buf"
  shows "ring_slice (buf[(r + n) mod length buf := c]) r (Suc n) = ring_slice buf r n @ [c]"
proof (rule nth_equalityI)
  show "length (ring_slice (buf[(r + n) mod length buf := c]) r (Suc n)) = length (ring_slice buf r n @ [c])"
    by simp
  fix i
  assume "i < length (ring_slice (buf[(r + n) mod length buf := c]) r (Suc n))"
  then have i: "i < Suc n"
    by simp
  have len: "(r + i) mod length buf < length buf"
    using assms by (intro mod_less_divisor) auto
  show "ring_slice (buf[(r + n) mod length buf := c]) r (Suc n) ! i = (ring_slice buf r n @ [c]) ! i"
  proof (cases "i = n")
    case True
    then show ?thesis
      using len by (simp add: ring_slice_def nth_append del: upt_Suc)
  next
    case False
    then have "(r + n) mod length buf \<noteq> (r + i) mod length buf"
      using mod_add_neq [of i n "length buf" r] i assms by fastforce
    then show ?thesis
      using False i by (simp add: ring_slice_def nth_append del: upt_Suc)
  qed
qed

lemma ring_slice_get:
  assumes "0 < length buf"
  shows "ring_slice buf r (Suc n) = buf ! (r mod length buf) # ring_slice buf ((r + 1) mod length buf) n"
proof -
  have "[0..<Suc n] = 0 # map Suc [0..<n]"
    by (simp add: map_Suc_upt upt_conv_Cons del: upt_Suc)
  moreover have "(r + Suc i) mod length buf = ((r + 1) mod length buf + i) mod length buf" for i
    by (simp add: mod_add_left_eq)
  ultimately show ?thesis
    by (simp add: ring_slice_def del: upt_Suc)
qed

section \<open>The interface of a bounded queue\<close>

text \<open>Taking a number of bytes out of a queue, one after the other.\<close>

fun drain :: "('q \<Rightarrow> u8 \<times> 'q) \<Rightarrow> nat \<Rightarrow> 'q \<Rightarrow> u8 list \<times> 'q" where
  "drain get 0 q = ([], q)"
| "drain get (Suc n) q = (let (c, q) = get q; (cs, q) = drain get n q in (c # cs, q))"

locale bounded_queue =
  fixes inv :: "'q \<Rightarrow> bool"
    and elems :: "'q \<Rightarrow> u8 list"
    and cap :: nat
    and put :: "u8 \<Rightarrow> 'q \<Rightarrow> 'q"
    and get :: "'q \<Rightarrow> u8 \<times> 'q"
  assumes inv_cap: "inv q \<Longrightarrow> length (elems q) \<le> cap"
    and put_room: "inv q \<Longrightarrow> length (elems q) < cap \<Longrightarrow> inv (put c q) \<and> elems (put c q) = elems q @ [c]"
    and get_some: "inv q \<Longrightarrow> elems q = x # xs \<Longrightarrow> fst (get q) = x \<and> inv (snd (get q)) \<and> elems (snd (get q)) = xs"
begin

lemma put_all:
  "inv q \<Longrightarrow> length (elems q) + length xs \<le> cap \<Longrightarrow> inv (fold put xs q) \<and> elems (fold put xs q) = elems q @ xs"
proof (induction xs arbitrary: q)
  case (Cons c xs)
  then have "inv (put c q)" "elems (put c q) = elems q @ [c]"
    using put_room [of q c] by simp_all
  then show ?case
    using Cons by simp
qed simp

lemma get_all:
  "inv q \<Longrightarrow> fst (drain get (length (elems q)) q) = elems q
     \<and> inv (snd (drain get (length (elems q)) q)) \<and> elems (snd (drain get (length (elems q)) q)) = []"
proof (induction "elems q" arbitrary: q)
  case (Cons x xs)
  then have g: "fst (get q) = x" "inv (snd (get q))" "elems (snd (get q)) = xs"
    using get_some [of q x xs] by simp_all
  then show ?case
    using Cons.hyps(1) [of "snd (get q)"] Cons.hyps(2) [symmetric] by (simp add: case_prod_unfold)
qed simp

lemma put_get_all:
  assumes "inv q" and "length (elems q) + length xs \<le> cap"
  shows "fst (drain get (length (elems q) + length xs) (fold put xs q)) = elems q @ xs"
  using get_all [of "fold put xs q"] put_all [OF assms] by simp

lemma get_put_empty:
  assumes "inv q" and "elems q = []" and "0 < cap"
  shows "fst (get (put c q)) = c" and "inv (snd (get (put c q)))" and "elems (snd (get (put c q))) = []"
proof -
  have p: "inv (put c q)" "elems (put c q) = [c]"
    using put_room [of q c] assms by simp_all
  show "fst (get (put c q)) = c" "inv (snd (get (put c q)))" "elems (snd (get (put c q))) = []"
    using get_some [OF p] by simp_all
qed

end

end
