(* ===== verification/File.thy ===== *)
theory File
  imports Vmm Ring
begin

text \<open>
  Open files and pipes, \<^verbatim>\<open>kernel/fs/file.c\<close>. Both kinds of object live in the kernel heap;
  the state keeps the heap and, for each kind, the contents of the object at an address. A pipe
  reader or writer that cannot proceed yields to the other tasks; what they do to the pipe in the
  meantime is a parameter, one transformation of the pipe per yield.
\<close>

section \<open>State\<close>

datatype file_type = FT_NONE | FT_INODE | FT_CONS | FT_PIPE

record filp =
  ftype :: file_type
  refcount :: int
  ino :: u32
  offset :: int
  fflags :: int
  is_dir :: bool
  pipe_ptr :: u32
  pipe_end :: int

definition PIPE_BUF_SIZE :: u32 where
  "PIPE_BUF_SIZE = 4096"

record pipe =
  pbuf :: bytes
  rpos :: u32
  wpos :: u32
  pcount :: u32
  readers :: int
  writers :: int

record files =
  heap_of :: vmm
  filp_at :: "u32 \<Rightarrow> filp"
  pipe_at :: "u32 \<Rightarrow> pipe"

section \<open>Open files\<close>

text \<open>\<^verbatim>\<open>sizeof(struct filp)\<close> and \<^verbatim>\<open>sizeof(struct pipe)\<close>, and the all-zero objects.\<close>

definition sizeof_filp :: u32 where
  "sizeof_filp = 32"

definition sizeof_pipe :: u32 where
  "sizeof_pipe = 4116"

definition zero_filp :: filp where
  "zero_filp = \<lparr>ftype = FT_NONE, refcount = 0, ino = 0, offset = 0, fflags = 0, is_dir = False,
     pipe_ptr = 0, pipe_end = 0\<rparr>"

definition zero_pipe :: pipe where
  "zero_pipe = \<lparr>pbuf = replicate (unat PIPE_BUF_SIZE) 0, rpos = 0, wpos = 0, pcount = 0, readers = 0, writers = 0\<rparr>"

definition filp_alloc :: "files \<Rightarrow> (u32 \<times> files) option" where
  "filp_alloc s =
     (case kmalloc sizeof_filp (heap_of s) of
        None \<Rightarrow> None
      | Some (f, h) \<Rightarrow>
          let s = s\<lparr>heap_of := h\<rparr> in
          if f = 0 then Some (0, s)
          else let s = s\<lparr>filp_at := (filp_at s)(f := zero_filp)\<rparr>
               in Some (f, s\<lparr>filp_at := (filp_at s)(f := (filp_at s f)\<lparr>ftype := FT_NONE, refcount := 1\<rparr>)\<rparr>))"

definition filp_ref :: "u32 \<Rightarrow> files \<Rightarrow> files" where
  "filp_ref f s =
     (if f \<noteq> 0 then s\<lparr>filp_at := (filp_at s)(f := (filp_at s f)\<lparr>refcount := refcount (filp_at s f) + 1\<rparr>)\<rparr>
      else s)"

definition close_pipe_end :: "u32 \<Rightarrow> files \<Rightarrow> files" where
  "close_pipe_end f s =
     (let q = pipe_ptr (filp_at s f); p = pipe_at s q;
          p = (if pipe_end (filp_at s f) = 0 then p\<lparr>readers := readers p - 1\<rparr>
               else p\<lparr>writers := writers p - 1\<rparr>);
          s = s\<lparr>pipe_at := (pipe_at s)(q := p)\<rparr>
      in if readers p = 0 \<and> writers p = 0 then s\<lparr>heap_of := kfree q (heap_of s)\<rparr> else s)"

definition filp_close :: "u32 \<Rightarrow> files \<Rightarrow> files" where
  "filp_close f s =
     (if f = 0 then s
      else let s = s\<lparr>filp_at := (filp_at s)(f := (filp_at s f)\<lparr>refcount := refcount (filp_at s f) - 1\<rparr>)\<rparr>
           in if refcount (filp_at s f) > 0 then s
              else let s = (if ftype (filp_at s f) = FT_PIPE \<and> pipe_ptr (filp_at s f) \<noteq> 0
                            then close_pipe_end f s else s)
                   in s\<lparr>heap_of := kfree f (heap_of s)\<rparr>)"

section \<open>Pipes\<close>

definition pipe_create :: "files \<Rightarrow> (u32 \<times> files) option" where
  "pipe_create s =
     (case kmalloc sizeof_pipe (heap_of s) of
        None \<Rightarrow> None
      | Some (q, h) \<Rightarrow>
          let s = s\<lparr>heap_of := h\<rparr> in
          if q = 0 then Some (0, s)
          else Some (q, s\<lparr>pipe_at := (pipe_at s)(q := zero_pipe\<lparr>readers := 1, writers := 1\<rparr>)\<rparr>))"

text \<open>The bodies of the two copy loops, one byte each.\<close>

definition pipe_get :: "pipe \<Rightarrow> u8 \<times> pipe" where
  "pipe_get p = (pbuf p ! unat (rpos p), p\<lparr>rpos := (rpos p + 1) mod PIPE_BUF_SIZE, pcount := pcount p - 1\<rparr>)"

definition pipe_put :: "u8 \<Rightarrow> pipe \<Rightarrow> pipe" where
  "pipe_put c p = p\<lparr>pbuf := (pbuf p)[unat (wpos p) := c], wpos := (wpos p + 1) mod PIPE_BUF_SIZE,
     pcount := pcount p + 1\<rparr>"

text \<open>
  The inner loop of \<^verbatim>\<open>pipe_read\<close>; \<open>out\<close> holds the bytes copied so far, so that
  \<^verbatim>\<open>got\<close> is its length.
\<close>

function pipe_drain :: "u32 \<Rightarrow> bytes \<Rightarrow> pipe \<Rightarrow> bytes \<times> pipe" where
  "pipe_drain count out p =
     (if pcount p > 0 \<and> length out < unat count
      then let (c, p) = pipe_get p in pipe_drain count (out @ [c]) p
      else (out, p))"
  by pat_completeness auto
termination
  by (relation "measure (\<lambda>(count, out, p). unat count - length out)") auto

partial_function (option) pipe_read :: "(nat \<Rightarrow> pipe \<Rightarrow> pipe) \<Rightarrow> nat \<Rightarrow> u32 \<Rightarrow> pipe \<Rightarrow> (bytes \<times> pipe) option" where
  "pipe_read others i count p =
     (let (out, p) = pipe_drain count [] p in
      if out \<noteq> [] then Some (out, p)
      else if writers p = 0 then Some ([], p)
      else pipe_read others (i + 1) count (others i p))"

text \<open>The inner loop of \<^verbatim>\<open>pipe_write\<close>: \<open>inp\<close> is what is left to write.\<close>

fun pipe_fill :: "bytes \<Rightarrow> pipe \<Rightarrow> bytes \<times> pipe" where
  "pipe_fill [] p = ([], p)"
| "pipe_fill (c # inp) p = (if pcount p < PIPE_BUF_SIZE then pipe_fill inp (pipe_put c p) else (c # inp, p))"

text \<open>The result is the number of bytes written, \<^verbatim>\<open>done\<close>.\<close>

partial_function (option) pipe_write :: "(nat \<Rightarrow> pipe \<Rightarrow> pipe) \<Rightarrow> nat \<Rightarrow> nat \<Rightarrow> bytes \<Rightarrow> pipe \<Rightarrow> (nat \<times> pipe) option" where
  "pipe_write others i written inp p =
     (if inp = [] then Some (written, p)
      else if readers p = 0 then Some (written, p)
      else let (rest, p) = pipe_fill inp p;
               written = written + (length inp - length rest)
           in if rest \<noteq> [] then pipe_write others (i + 1) written rest (others i p)
              else Some (written, p))"

declare pipe_drain.simps [simp del] pipe_read.simps [code] pipe_write.simps [code]

section \<open>The pipe as a queue\<close>

definition pipe_inv :: "pipe \<Rightarrow> bool" where
  "pipe_inv p \<longleftrightarrow>
     length (pbuf p) = 4096 \<and> unat (rpos p) < 4096 \<and> unat (pcount p) \<le> 4096
     \<and> unat (wpos p) = (unat (rpos p) + unat (pcount p)) mod 4096"

definition pipe_bytes :: "pipe \<Rightarrow> bytes" where
  "pipe_bytes p = ring_slice (pbuf p) (unat (rpos p)) (unat (pcount p))"

lemma unat_next_pos: "unat x < 4096 \<Longrightarrow> unat ((x + 1) mod PIPE_BUF_SIZE) = (unat x + 1) mod 4096"
  by (simp add: PIPE_BUF_SIZE_def unat_mod unat_word_ariths)

lemma length_pipe_bytes [simp]: "length (pipe_bytes p) = unat (pcount p)"
  by (simp add: pipe_bytes_def)

interpretation pipeq: bounded_queue pipe_inv pipe_bytes 4096 pipe_put pipe_get
proof unfold_locales
  fix p
  assume inv: "pipe_inv p"
  then show "length (pipe_bytes p) \<le> 4096"
    by (simp add: pipe_inv_def)
  fix c
  assume "length (pipe_bytes p) < 4096"
  then have c: "unat (pcount p) < 4096" "unat (pcount p + 1) = unat (pcount p) + 1"
    by (simp_all add: unat_word_ariths)
  have w: "unat (wpos p) = (unat (rpos p) + unat (pcount p)) mod length (pbuf p)"
    using inv by (simp add: pipe_inv_def)
  have "unat (wpos p) < 4096"
    using inv by (simp add: pipe_inv_def)
  note nxt = unat_next_pos [OF this]
  have "pipe_inv (pipe_put c p)"
    using inv c nxt by (simp add: pipe_inv_def pipe_put_def mod_Suc_eq)
  moreover have "pipe_bytes (pipe_put c p) = pipe_bytes p @ [c]"
    using ring_slice_put [of "unat (pcount p)" "pbuf p" "unat (rpos p)" c] inv c w
    by (simp add: pipe_bytes_def pipe_put_def pipe_inv_def)
  ultimately show "pipe_inv (pipe_put c p) \<and> pipe_bytes (pipe_put c p) = pipe_bytes p @ [c]"
    by simp
next
  fix p x xs
  assume inv: "pipe_inv p" and e: "pipe_bytes p = x # xs"
  have "unat (pcount p) = Suc (length xs)"
    using arg_cong [OF e, of length] by simp
  then have c: "unat (pcount p) = Suc (unat (pcount p - 1))"
    by (subst unat_minus_one) auto
  have r: "unat (rpos p) < 4096" and len: "length (pbuf p) = 4096"
    using inv by (simp_all add: pipe_inv_def)
  note nxt = unat_next_pos [OF r]
  have "pipe_bytes p = pbuf p ! unat (rpos p) # pipe_bytes (snd (pipe_get p))"
    using ring_slice_get [of "pbuf p" "unat (rpos p)" "unat (pcount p - 1)"] len r nxt
    by (simp add: pipe_bytes_def pipe_get_def c)
  moreover have "pipe_inv (snd (pipe_get p))"
    using inv c nxt by (simp add: pipe_inv_def pipe_get_def mod_add_left_eq)
  ultimately show "fst (pipe_get p) = x \<and> pipe_inv (snd (pipe_get p)) \<and> pipe_bytes (snd (pipe_get p)) = xs"
    using e by (simp add: pipe_get_def)
qed

lemma pipe_drain_spec:
  assumes "pipe_inv p" and "length out \<le> unat count"
  shows "fst (pipe_drain count out p) = out @ take (unat count - length out) (pipe_bytes p)"
    and "pipe_inv (snd (pipe_drain count out p))"
    and "pipe_bytes (snd (pipe_drain count out p)) = drop (unat count - length out) (pipe_bytes p)"
    and "writers (snd (pipe_drain count out p)) = writers p"
    and "readers (snd (pipe_drain count out p)) = readers p"
proof -
  let ?P = "\<lambda>count out p r. fst r = out @ take (unat count - length out) (pipe_bytes p) \<and> pipe_inv (snd r)
    \<and> pipe_bytes (snd r) = drop (unat count - length out) (pipe_bytes p) \<and> writers (snd r) = writers p
    \<and> readers (snd r) = readers p"
  have "?P count out p (pipe_drain count out p)"
    using assms
  proof (induction count out p rule: pipe_drain.induct)
    case (1 count out p)
    show ?case
    proof (cases "pcount p > 0 \<and> length out < unat count")
      case True
      obtain c q where g: "pipe_get p = (c, q)"
        by force
      obtain x xs where e: "pipe_bytes p = x # xs"
        using True by (cases "pipe_bytes p") (auto simp: word_less_nat_alt dest: arg_cong [of _ _ length])
      have q: "c = x" "pipe_inv q" "pipe_bytes q = xs"
        using pipeq.get_some [OF 1(2) e] by (simp_all add: g)
      have rw: "writers q = writers p" "readers q = readers p"
        using g by (auto simp: pipe_get_def)
      have "?P count (out @ [c]) q (pipe_drain count (out @ [c]) q)"
        using 1(1) [OF True g [symmetric] refl] q(2) True by simp
      moreover have "pipe_drain count out p = pipe_drain count (out @ [c]) q"
        using True g by (simp add: pipe_drain.simps [of count out p])
      moreover obtain k where "unat count - length out = Suc k" "unat count - Suc (length out) = k"
        using True by (metis Suc_diff_Suc)
      ultimately show ?thesis
        using q rw by (simp add: e)
    next
      case False
      then have "pipe_bytes p = [] \<or> unat count = length out"
        using 1(3) by (auto simp: pipe_bytes_def word_gt_0)
      then show ?thesis
        using False 1(2) by (auto simp: pipe_drain.simps [of count out p])
    qed
  qed
  then show "fst (pipe_drain count out p) = out @ take (unat count - length out) (pipe_bytes p)"
    "pipe_inv (snd (pipe_drain count out p))"
    "pipe_bytes (snd (pipe_drain count out p)) = drop (unat count - length out) (pipe_bytes p)"
    "writers (snd (pipe_drain count out p)) = writers p" "readers (snd (pipe_drain count out p)) = readers p"
    by blast+
qed

lemma pipe_fill_spec:
  fixes inp :: bytes
  assumes "pipe_inv p"
  defines "k \<equiv> min (length inp) (4096 - unat (pcount p))"
  shows "fst (pipe_fill inp p) = drop k inp" and "pipe_inv (snd (pipe_fill inp p))"
    and "pipe_bytes (snd (pipe_fill inp p)) = pipe_bytes p @ take k inp"
    and "readers (snd (pipe_fill inp p)) = readers p" and "writers (snd (pipe_fill inp p)) = writers p"
proof -
  let ?k = "\<lambda>inp p. min (length inp) (4096 - unat (pcount p))"
  have "fst (pipe_fill inp p) = drop (?k inp p) inp \<and> pipe_inv (snd (pipe_fill inp p))
      \<and> pipe_bytes (snd (pipe_fill inp p)) = pipe_bytes p @ take (?k inp p) inp
      \<and> readers (snd (pipe_fill inp p)) = readers p \<and> writers (snd (pipe_fill inp p)) = writers p"
    using assms(1)
  proof (induction inp p rule: pipe_fill.induct)
    case (2 c inp p)
    show ?case
    proof (cases "pcount p < PIPE_BUF_SIZE")
      case True
      then have room: "unat (pcount p) < 4096"
        by (simp add: PIPE_BUF_SIZE_def word_less_nat_alt)
      then have q: "pipe_inv (pipe_put c p)" "pipe_bytes (pipe_put c p) = pipe_bytes p @ [c]"
        using pipeq.put_room [OF 2(2), of c] by simp_all
      have "unat (pcount (pipe_put c p)) = Suc (unat (pcount p))"
        using arg_cong [OF q(2), of length] by simp
      then have "?k (c # inp) p = Suc (?k inp (pipe_put c p))"
        using room by simp
      then show ?thesis
        using 2(1) [OF True q(1)] True q(2) by (simp add: pipe_put_def)
    next
      case False
      then have "unat (pcount p) \<ge> 4096"
        by (simp add: PIPE_BUF_SIZE_def word_less_nat_alt)
      then show ?thesis
        using False 2(2) by simp
    qed
  qed simp
  then show "fst (pipe_fill inp p) = drop k inp" and "pipe_inv (snd (pipe_fill inp p))"
    and "pipe_bytes (snd (pipe_fill inp p)) = pipe_bytes p @ take k inp"
    and "readers (snd (pipe_fill inp p)) = readers p" and "writers (snd (pipe_fill inp p)) = writers p"
    by (simp_all add: k_def)
qed

lemma pipe_bytes_empty [simp]: "pipe_bytes p = [] \<longleftrightarrow> pcount p = 0"
proof -
  have "pipe_bytes p = [] \<longleftrightarrow> length (pipe_bytes p) = 0"
    by (simp del: length_pipe_bytes)
  then show ?thesis
    by (simp add: unat_eq_zero del: length_0_conv)
qed

lemma zero_pipe_inv: "pipe_inv (zero_pipe\<lparr>readers := r, writers := w\<rparr>)" "pipe_bytes (zero_pipe\<lparr>readers := r, writers := w\<rparr>) = []"
  unfolding pipe_inv_def zero_pipe_def by (simp_all add: PIPE_BUF_SIZE_def pipe_bytes_def)

section \<open>Interleaved readers and writers\<close>

text \<open>
  The two bursts are what runs with interrupts off; between them any task may run. A history is
  any sequence of bursts; \<open>pipe_run\<close> collects the bytes accepted and the bytes delivered.
\<close>

datatype pipe_burst = Write_burst bytes | Read_burst u32

fun pipe_run :: "pipe_burst list \<Rightarrow> pipe \<Rightarrow> bytes \<times> bytes \<times> pipe" where
  "pipe_run [] p = ([], [], p)"
| "pipe_run (Write_burst inp # bs) p =
     (let (rest, p) = pipe_fill inp p; (ins, outs, p) = pipe_run bs p
      in (take (length inp - length rest) inp @ ins, outs, p))"
| "pipe_run (Read_burst count # bs) p =
     (let (out, p) = pipe_drain count [] p; (ins, outs, p) = pipe_run bs p
      in (ins, out @ outs, p))"

lemma pipe_run_fifo:
  assumes "pipe_inv p" and "pipe_run bs p = (ins, outs, p')"
  shows "pipe_inv p' \<and> pipe_bytes p @ ins = outs @ pipe_bytes p'"
  using assms
proof (induction bs p arbitrary: ins outs rule: pipe_run.induct)
  case (2 inp bs p)
  obtain rest q where f: "pipe_fill inp p = (rest, q)"
    by force
  obtain ins' outs' where r: "pipe_run bs q = (ins', outs', p')" "outs = outs'"
    "ins = take (length inp - length rest) inp @ ins'"
    using 2(3) f by (auto split: prod.splits)
  let ?k = "min (length inp) (4096 - unat (pcount p))"
  have "rest = drop ?k inp" "pipe_inv q" "pipe_bytes q = pipe_bytes p @ take ?k inp"
    using pipe_fill_spec [OF 2(2), of inp] f by simp_all
  moreover from this have "pipe_inv p' \<and> pipe_bytes q @ ins' = outs' @ pipe_bytes p'"
    using 2(1) [OF f [symmetric] refl _ r(1)] by simp
  ultimately show ?case
    using r by simp
next
  case (3 count bs p)
  obtain out q where d: "pipe_drain count [] p = (out, q)"
    by force
  obtain ins' outs' where r: "pipe_run bs q = (ins', outs', p')" "outs = out @ outs'" "ins = ins'"
    using 3(3) d by (auto split: prod.splits)
  have "out = take (unat count) (pipe_bytes p)" "pipe_inv q" "pipe_bytes q = drop (unat count) (pipe_bytes p)"
    using pipe_drain_spec [OF 3(2), of "[]" count] d by simp_all
  moreover from this have "pipe_inv p' \<and> pipe_bytes q @ ins' = outs' @ pipe_bytes p'"
    using 3(1) [OF d [symmetric] refl _ r(1)] by simp
  ultimately show ?case
    using r by (metis append.assoc append_take_drop_id)
qed simp

section \<open>Blocking\<close>

text \<open>The pipe as a waiting task finds it after a number of yields, the first of them the \<open>i\<close>-th.\<close>

fun pipe_after :: "(nat \<Rightarrow> pipe \<Rightarrow> pipe) \<Rightarrow> nat \<Rightarrow> nat \<Rightarrow> pipe \<Rightarrow> pipe" where
  "pipe_after others i 0 p = p"
| "pipe_after others i (Suc n) p = pipe_after others (i + 1) n (others i p)"

lemma pipe_drain_empty: "pcount p = 0 \<or> count = 0 \<Longrightarrow> pipe_drain count [] p = ([], p)"
  by (auto simp: pipe_drain.simps [of count "[]" p])

lemma pipe_read_waits:
  assumes "\<forall>k<n. pcount (pipe_after others i k p) = 0 \<and> writers (pipe_after others i k p) \<noteq> 0"
  shows "pipe_read others i count p = pipe_read others (i + n) count (pipe_after others i n p)"
  using assms
proof (induction n arbitrary: i p)
  case (Suc n)
  have "pcount p = 0" "writers p \<noteq> 0"
    using Suc.prems by (auto dest: spec [of _ 0])
  then have "pipe_read others i count p = pipe_read others (i + 1) count (others i p)"
    by (simp add: pipe_read.simps [of others i] pipe_drain_empty)
  moreover have "\<forall>k<n. pcount (pipe_after others (i + 1) k (others i p)) = 0
      \<and> writers (pipe_after others (i + 1) k (others i p)) \<noteq> 0"
    using Suc.prems by (auto dest: spec [of _ "Suc _"])
  ultimately show ?case
    using Suc.IH [of "i + 1" "others i p"] by simp
qed simp

lemma pipe_read_none:
  assumes "pipe_read others i count p = Some r" and "count = 0"
  shows "\<exists>n. writers (pipe_after others i n p) = 0"
  using assms
proof (induction others i count p r rule: pipe_read.raw_induct [rotated 1, consumes 1, case_names step])
  case (step rd others i count p r)
  show ?case
  proof (cases "writers p = 0")
    case True
    then show ?thesis
      by (intro exI [of _ 0]) simp
  next
    case False
    then have "rd others (i + 1) count (others i p) = Some r"
      using step(2,3) by (simp add: pipe_drain_empty split: if_splits)
    then obtain n where "writers (pipe_after others (i + 1) n (others i p)) = 0"
      using step(1,3) by blast
    then show ?thesis
      by (intro exI [of _ "Suc n"]) simp
  qed
qed


lemma pipe_write_room:
  assumes others: "\<And>i p. pipe_inv p \<Longrightarrow> readers p \<noteq> 0 \<Longrightarrow>
      pipe_inv (others i p) \<and> readers (others i p) \<noteq> 0 \<and> unat (pcount (others i p)) < 4096"
    and "pipe_inv p" "readers p \<noteq> 0" "unat (pcount p) < 4096"
  shows "\<exists>p'. pipe_write others i w inp p = Some (w + length inp, p')"
  using assms(2-4)
proof (induction "length inp" arbitrary: i w inp p rule: less_induct)
  case less
  show ?case
  proof (cases "inp = []")
    case True
    then show ?thesis
      by (simp add: pipe_write.simps [of others i])
  next
    case False
    obtain rest q where f: "pipe_fill inp p = (rest, q)"
      by force
    let ?k = "min (length inp) (4096 - unat (pcount p))"
    have q: "rest = drop ?k inp" "pipe_inv q" "readers q \<noteq> 0"
      using pipe_fill_spec [OF less(2), of inp] f less(3) by simp_all
    have "0 < ?k"
      using False less(4) by simp
    then have shorter: "length rest < length inp" and k: "length inp - length rest + length rest = length inp"
      using q(1) False by auto
    show ?thesis
    proof (cases "rest = []")
      case True
      then show ?thesis
        using False less(3) f by (simp add: pipe_write.simps [of others i])
    next
      case more: False
      have "\<exists>p'. pipe_write others (i + 1) (w + (length inp - length rest)) rest (others i q)
          = Some (w + (length inp - length rest) + length rest, p')"
        using shorter others [OF q(2,3), of i] by (intro less(1)) simp_all
      then show ?thesis
        using False less(3) f more k by (simp add: pipe_write.simps [of others i w inp] add.assoc)
    qed
  qed
qed

section \<open>Properties\<close>

text \<open>
  C22. Pipes are first-in first-out and lose nothing: however the bursts of readers and writers are
  interleaved, the bytes accepted from writers are the bytes delivered to readers followed by
  the bytes still in the buffer.
\<close>

theorem pipe_fifo:
  assumes "pipe_run bs (zero_pipe\<lparr>readers := r, writers := w\<rparr>) = (ins, outs, p)"
  shows "ins = outs @ pipe_bytes p \<and> length (pipe_bytes p) \<le> 4096"
  using pipe_run_fifo [OF zero_pipe_inv(1) assms] pipeq.inv_cap [of p] by (simp add: zero_pipe_inv)

theorem pipe_fifo_witness:
  "\<exists>ins outs p. pipe_run [Write_burst [1, 2, 3], Read_burst 2, Write_burst [4]]
      (zero_pipe\<lparr>readers := 1, writers := 1\<rparr>) = (ins, outs, p) \<and> ins = outs @ pipe_bytes p"
proof -
  obtain ins outs p where e: "pipe_run [Write_burst [1, 2, 3], Read_burst 2, Write_burst [4]]
      (zero_pipe\<lparr>readers := 1, writers := 1\<rparr>) = (ins, outs, p)"
    by (metis prod_cases3)
  then show ?thesis
    using pipe_fifo [OF e] by blast
qed



text \<open>
  A read of zero bytes from a pipe never returns while the pipe has a writer.
\<close>

theorem pipe_read_zero_hangs:
  assumes "\<forall>n. writers (pipe_after others 0 n p) \<noteq> 0"
  shows "pipe_read others 0 0 p = None"
  using pipe_read_none [of others 0 0 p] assms by (cases "pipe_read others 0 0 p") auto

theorem pipe_read_zero_hangs_witness:
  "pipe_read (\<lambda>i p. p) 0 0 (zero_pipe\<lparr>readers := 1, writers := 1\<rparr>) = None"
proof (rule pipe_read_zero_hangs, rule allI)
  have "pipe_after (\<lambda>i p. p) i n p = p" for i n p
    by (induction n arbitrary: i) simp_all
  then show "writers (pipe_after (\<lambda>i p. p) 0 n (zero_pipe\<lparr>readers := 1, writers := 1\<rparr>)) \<noteq> 0" for n
    by simp
qed

text \<open>
  C35. As long as the other tasks keep a reader and make room in the pipe whenever the writer
  yields, \<^verbatim>\<open>pipe_write\<close> returns with every byte written, however many there are.
\<close>

theorem pipe_write_completes:
  assumes "\<And>i p. pipe_inv p \<Longrightarrow> readers p \<noteq> 0 \<Longrightarrow>
      pipe_inv (others i p) \<and> readers (others i p) \<noteq> 0 \<and> unat (pcount (others i p)) < 4096"
    and "pipe_inv p" and "readers p \<noteq> 0"
  shows "\<exists>p'. pipe_write others 0 0 inp p = Some (length inp, p')"
proof (cases "unat (pcount p) < 4096 \<or> inp = []")
  case True
  then show ?thesis
    using pipe_write_room [where others = others and i = 0 and w = 0 and inp = inp, OF assms]
    by (cases "inp = []") (simp_all add: pipe_write.simps [of others 0 0 "[]"])
next
  case False
  then have "pipe_fill inp p = (inp, p)"
    by (cases inp) (auto simp: PIPE_BUF_SIZE_def word_less_nat_alt)
  then have "pipe_write others 0 0 inp p = pipe_write others 1 0 inp (others 0 p)"
    using False assms(3) by (simp add: pipe_write.simps [of others 0 0])
  then show ?thesis
    using pipe_write_room [where others = others and p = "others 0 p" and i = 1 and w = 0 and inp = inp, OF assms(1)]
      assms(1) [OF assms(2,3), of 0] by simp
qed

theorem pipe_write_completes_witness:
  "\<forall>n. \<exists>p'. pipe_write (\<lambda>i p. snd (pipe_drain 4096 [] p)) 0 0 (replicate n 7)
    (zero_pipe\<lparr>readers := 1, writers := 1\<rparr>) = Some (n, p')"
proof (rule allI)
  fix n
  have "\<exists>p'. pipe_write (\<lambda>i p. snd (pipe_drain 4096 [] p)) 0 0 (replicate n 7) (zero_pipe\<lparr>readers := 1, writers := 1\<rparr>)
      = Some (length (replicate n (7 :: u8)), p')"
  proof (rule pipe_write_completes)
    fix i :: nat and p
    assume p: "pipe_inv p" "readers p \<noteq> 0"
    note D = pipe_drain_spec [OF p(1), of "[]" 4096, simplified]
    have "length (pipe_bytes (snd (pipe_drain 4096 [] p))) = unat (pcount p) - 4096"
      using D(3) by simp
    then show "pipe_inv (snd (pipe_drain 4096 [] p)) \<and> readers (snd (pipe_drain 4096 [] p)) \<noteq> 0
        \<and> unat (pcount (snd (pipe_drain 4096 [] p))) < 4096"
      using D p by (simp add: pipe_inv_def)
  qed (use zero_pipe_inv [of 1 1] in simp_all)
  then show "\<exists>p'. pipe_write (\<lambda>i p. snd (pipe_drain 4096 [] p)) 0 0 (replicate n 7)
      (zero_pipe\<lparr>readers := 1, writers := 1\<rparr>) = Some (n, p')"
    by simp
qed

text \<open>
  Open files are reference counted: taking and dropping a reference changes nothing, and dropping
  the last reference to a pipe end frees the file, takes the end off the pipe, and frees the pipe
  exactly when no end of it is left.
\<close>

theorem filp_close_last_pipe_end:
  assumes "heap_rep (heap_of s) L" and "L f = Some n" and "L q = Some m" and "q \<noteq> f"
    and "refcount (filp_at s f) = 1" and "ftype (filp_at s f) = FT_PIPE" and "pipe_ptr (filp_at s f) = q"
    and "p = (if pipe_end (filp_at s f) = 0 then (pipe_at s q)\<lparr>readers := readers (pipe_at s q) - 1\<rparr>
              else (pipe_at s q)\<lparr>writers := writers (pipe_at s q) - 1\<rparr>)"
  shows "filp_close f (filp_ref f s) = s \<and> pipe_at (filp_close f s) = (pipe_at s)(q := p)
    \<and> heap_rep (heap_of (filp_close f s))
        (if readers p = 0 \<and> writers p = 0 then L(q := None, f := None) else L(f := None))"
proof -
  have f0: "f \<noteq> 0" and q0: "q \<noteq> 0"
    using heap.rep_nonnull [OF assms(1)] assms(2,3) by auto
  have "filp_close f (filp_ref f s) = s"
  proof -
    have "(filp_at s f)\<lparr>refcount := 1\<rparr> = filp_at s f"
      using assms(5) by (intro filp.equality) simp_all
    then show ?thesis
      using f0 assms(5) by (intro files.equality) (simp_all add: filp_close_def filp_ref_def Let_def fun_upd_idem)
  qed
  moreover have "heap_rep (kfree f (kfree q (heap_of s))) (L(q := None, f := None))"
    using heap.release_rep [OF heap.release_rep [OF assms(1,3)], of f n] assms(2,4) by auto
  moreover have "heap_rep (kfree f (heap_of s)) (L(f := None))"
    using heap.release_rep [OF assms(1,2)] .
  ultimately show ?thesis
    using f0 q0 assms(4-8) by (auto simp: filp_close_def close_pipe_end_def Let_def)
qed


text \<open>A heap with two blocks in use, the first for a file, the second for its pipe.\<close>

definition two_block_heap :: vmm where
  "two_block_heap = \<lparr>magic = (\<lambda>_. MAGIC), bsize = (\<lambda>b. if b = 0x2000000 then 32 else 8120), bfree = (\<lambda>_. False),
     bnext = (\<lambda>b. if b = 0x2000000 then 0x2000034 else 0), bprev = (\<lambda>b. if b = 0x2000000 then 0 else 0x2000000),
     heap_head = 0x2000000, heap_end = 0x2002000, heap_limit = 0x8000000, pages = mm_small\<rparr>"

definition piped_files :: files where
  "piped_files = \<lparr>heap_of = two_block_heap,
     filp_at = (\<lambda>_. zero_filp\<lparr>ftype := FT_PIPE, refcount := 1, pipe_ptr := 0x2000048\<rparr>),
     pipe_at = (\<lambda>_. zero_pipe\<lparr>readers := 1\<rparr>)\<rparr>"

lemma two_block_heap_rep:
  "heap_rep two_block_heap (alloc_map two_block_heap [0x2000000, 0x2000034])"
  "alloc_map two_block_heap [0x2000000, 0x2000034] 0x2000014 = Some 32"
  "alloc_map two_block_heap [0x2000000, 0x2000034] 0x2000048 = Some 8120"
proof -
  have "heap_inv two_block_heap [0x2000000, 0x2000034]"
    by (simp add: heap_inv_def heap_shape_def two_block_heap_def no_adjacent_free_def page_aligned_def
        HEAP_START_def HEAP_MAX_def)
  then show "heap_rep two_block_heap (alloc_map two_block_heap [0x2000000, 0x2000034])"
    unfolding heap_rep_def by blast
qed (simp_all add: alloc_map_def two_block_heap_def BLOCK_def)

theorem filp_close_last_pipe_end_witness:
  "heap_rep (heap_of (filp_close 0x2000014 piped_files))
     ((alloc_map two_block_heap [0x2000000, 0x2000034])(0x2000048 := None, 0x2000014 := None))"
  using filp_close_last_pipe_end [of piped_files _ "0x2000014" 32 "0x2000048" 8120 "zero_pipe"] two_block_heap_rep
  by (simp add: piped_files_def zero_filp_def zero_pipe_def)

end
