(* ===== verification/Objects.thy ===== *)
theory Objects
  imports File
begin

text \<open>
  The graph of kernel objects behind the descriptor tables: which heap blocks are open files, which are pipes,
  and how often they are referred to. A descriptor map \<open>D\<close> gives the open file of a slot of a table; the
  invariant says that every file and every pipe that can be reached from it is an allocated block of its own, with
  reference counts that are at least the number of references. Then nothing that can still be reached is ever freed.
\<close>

section \<open>The invariant\<close>

type_synonym 'k fdmap = "'k \<rightharpoonup> u32"

definition refs :: "'k fdmap \<Rightarrow> u32 \<Rightarrow> 'k set" where
  "refs D f = {k. D k = Some f}"

definition pipe_users :: "'k fdmap \<Rightarrow> files \<Rightarrow> u32 \<Rightarrow> bool \<Rightarrow> u32 set" where
  "pipe_users D w q e = {f \<in> ran D. ftype (filp_at w f) = FT_PIPE \<and> pipe_ptr (filp_at w f) = q
     \<and> (pipe_end (filp_at w f) = 0) = e}"

definition pipe_ok :: "'k fdmap \<Rightarrow> files \<Rightarrow> (u32 \<rightharpoonup> nat) \<Rightarrow> u32 set \<Rightarrow> u32 \<Rightarrow> bool" where
  "pipe_ok D w L X q \<longleftrightarrow> q \<in> dom L \<and> q \<notin> X \<and> q \<notin> ran D
     \<and> int (card (pipe_users D w q True)) \<le> readers (pipe_at w q)
     \<and> int (card (pipe_users D w q False)) \<le> writers (pipe_at w q)"

definition filp_ok :: "'k fdmap \<Rightarrow> files \<Rightarrow> (u32 \<rightharpoonup> nat) \<Rightarrow> u32 set \<Rightarrow> u32 \<Rightarrow> bool" where
  "filp_ok D w L X f \<longleftrightarrow> f \<in> dom L \<and> f \<notin> X \<and> int (card (refs D f)) \<le> refcount (filp_at w f)
     \<and> (ftype (filp_at w f) = FT_PIPE \<longrightarrow> pipe_ok D w L X (pipe_ptr (filp_at w f)))"

text \<open>\<open>X\<close> are the blocks the rest of the kernel owns.\<close>

definition obj_ok :: "'k fdmap \<Rightarrow> files \<Rightarrow> (u32 \<rightharpoonup> nat) \<Rightarrow> u32 set \<Rightarrow> bool" where
  "obj_ok D w L X \<longleftrightarrow> heap_rep (heap_of w) L \<and> finite (dom D) \<and> X \<subseteq> dom L \<and> (\<forall>f\<in>ran D. filp_ok D w L X f)"

section \<open>Counting references\<close>

lemma finite_refs [simp]: "finite (dom D) \<Longrightarrow> finite (refs D f)"
  by (rule finite_subset [of _ "dom D"]) (auto simp: refs_def)

lemma finite_pipe_users [simp]: "finite (dom D) \<Longrightarrow> finite (pipe_users D w q e)"
  by (rule finite_subset [of _ "ran D"]) (auto simp: pipe_users_def finite_ran)

lemma refs_drop: "refs (D(k := None)) f = refs D f - {k}"
  by (auto simp: refs_def)

lemma refs_add: "D k = None \<Longrightarrow> refs (D(k \<mapsto> g)) f = (if f = g then insert k (refs D f) else refs D f)"
  by (auto simp: refs_def)

lemma refs_empty_iff: "refs D f = {} \<longleftrightarrow> f \<notin> ran D"
  by (auto simp: refs_def ran_def)

lemma ran_drop: "ran (D(k := None)) \<subseteq> ran D"
  by (auto simp: ran_def)

lemma ran_drop_insert: "D k = Some f \<Longrightarrow> ran D = insert f (ran (D(k := None)))"
  unfolding ran_def by (rule set_eqI, simp) (metis option.inject)

lemma obj_okD:
  assumes "obj_ok D w L X"
  shows "heap_rep (heap_of w) L" "finite (dom D)" "X \<subseteq> dom L" "f \<in> ran D \<Longrightarrow> filp_ok D w L X f"
  using assms by (simp_all add: obj_ok_def)

lemma obj_ok_nonnull:
  assumes "obj_ok D w L X"
  shows "0 \<notin> ran D" and "0 \<notin> X"
  using obj_okD [OF assms] heap.rep_nonnull [OF obj_okD(1) [OF assms]] by (auto simp: filp_ok_def)

lemma pipe_users_mono:
  assumes "ran D' \<subseteq> ran D"
  shows "pipe_users D' w q e \<subseteq> pipe_users D w q e"
  using assms by (auto simp: pipe_users_def)

lemma obj_ok_mono:
  assumes "obj_ok D w L X" and "\<And>k f. D' k = Some f \<Longrightarrow> D k = Some f" and "X' \<subseteq> X"
  shows "obj_ok D' w L X'"
proof -
  have dom: "dom D' \<subseteq> dom D" and ran: "ran D' \<subseteq> ran D"
    using assms(2) by (fastforce simp: ran_def)+
  note fin = obj_okD(2) [OF assms(1)]
  have "card (refs D' f) \<le> card (refs D f)" for f
    using assms(2) fin by (intro card_mono finite_refs) (auto simp: refs_def)
  moreover have "card (pipe_users D' w q e) \<le> card (pipe_users D w q e)" for q e
    using fin by (intro card_mono pipe_users_mono ran) simp
  ultimately have "filp_ok D' w L X' f" if "f \<in> ran D'" for f
    using obj_okD(4) [OF assms(1), of f] that ran assms(3)
    unfolding filp_ok_def pipe_ok_def by (meson of_nat_mono order_trans subsetD)
  then show ?thesis
    using assms obj_okD [OF assms(1)] finite_subset [OF dom] unfolding obj_ok_def by auto
qed

lemma obj_ok_drop: "obj_ok D w L X \<Longrightarrow> obj_ok (D(k := None)) w L X"
  by (erule obj_ok_mono) (auto split: if_splits)

section \<open>Changing objects\<close>

text \<open>An open file that is not referred to may change, and so may the data of a pipe.\<close>

definition filp_core :: "filp \<Rightarrow> file_type \<times> int \<times> u32 \<times> int" where
  "filp_core x = (ftype x, refcount x, pipe_ptr x, pipe_end x)"

lemma obj_ok_cong:
  assumes "obj_ok D w L X" and "heap_rep (heap_of w') L"
    and "\<And>f. f \<in> ran D \<Longrightarrow> filp_core (filp_at w' f) = filp_core (filp_at w f)"
    and "\<And>q. readers (pipe_at w' q) = readers (pipe_at w q)" "\<And>q. writers (pipe_at w' q) = writers (pipe_at w q)"
  shows "obj_ok D w' L X"
proof -
  have "pipe_users D w' q e = pipe_users D w q e" for q e
    using assms(3) by (auto simp: pipe_users_def filp_core_def)
  then show ?thesis
    using assms by (auto simp: obj_ok_def filp_ok_def pipe_ok_def filp_core_def)
qed

lemma obj_ok_refcount:
  assumes "obj_ok D w L X" and "int (card (refs D f)) \<le> r"
  shows "obj_ok D (w\<lparr>filp_at := (filp_at w)(f := (filp_at w f)\<lparr>refcount := r\<rparr>)\<rparr>) L X"
proof -
  have "pipe_users D (w\<lparr>filp_at := (filp_at w)(f := (filp_at w f)\<lparr>refcount := r\<rparr>)\<rparr>) q e = pipe_users D w q e" for q e
    by (auto simp: pipe_users_def)
  then show ?thesis
    using assms by (auto simp: obj_ok_def filp_ok_def pipe_ok_def)
qed

text \<open>Freeing a block nothing refers to.\<close>

lemma obj_ok_free:
  assumes "obj_ok D w L X" and "b \<in> dom L" and "b \<notin> ran D" and "b \<notin> X"
    and "\<And>f. f \<in> ran D \<Longrightarrow> ftype (filp_at w f) = FT_PIPE \<Longrightarrow> pipe_ptr (filp_at w f) \<noteq> b"
  shows "obj_ok D (w\<lparr>heap_of := kfree b (heap_of w)\<rparr>) (L(b := None)) X"
proof -
  obtain n where "L b = Some n"
    using assms(2) by blast
  then have "heap_rep (kfree b (heap_of w)) (L(b := None))"
    using heap.release_rep obj_okD(1) [OF assms(1)] by blast
  moreover have "pipe_users D (w\<lparr>heap_of := h\<rparr>) q e = pipe_users D w q e" for q e h
    by (simp add: pipe_users_def)
  moreover have "f \<noteq> b" if "f \<in> ran D" for f
    using assms(3) that by blast
  ultimately show ?thesis
    using assms by (auto simp: obj_ok_def filp_ok_def pipe_ok_def)
qed

text \<open>Closing an end of a pipe, for a file that was the last of the users it counts for.\<close>

lemma obj_ok_pipe_end:
  assumes "obj_ok D w L X" and "f \<notin> ran D" and "q = pipe_ptr (filp_at w f)" and "q \<in> dom L" and "q \<notin> X" and "q \<notin> ran D"
    and "int (card (pipe_users D w q True)) + (if pipe_end (filp_at w f) = 0 then 1 else 0) \<le> readers (pipe_at w q)"
    and "int (card (pipe_users D w q False)) + (if pipe_end (filp_at w f) = 0 then 0 else 1) \<le> writers (pipe_at w q)"
  shows "\<exists>L'. obj_ok D (close_pipe_end f w) L' X \<and> (L' = L \<or> L' = L(q := None))"
proof -
  define p where "p = (if pipe_end (filp_at w f) = 0 then (pipe_at w q)\<lparr>readers := readers (pipe_at w q) - 1\<rparr>
    else (pipe_at w q)\<lparr>writers := writers (pipe_at w q) - 1\<rparr>)"
  define v where "v = w\<lparr>pipe_at := (pipe_at w)(q := p)\<rparr>"
  have v: "filp_at v = filp_at w" "heap_of v = heap_of w" "pipe_at v = (pipe_at w)(q := p)"
    by (simp_all add: v_def)
  have pu: "pipe_users D v r e = pipe_users D w r e" for r e
    by (simp add: pipe_users_def v)
  have p: "int (card (pipe_users D w q True)) \<le> readers p" "int (card (pipe_users D w q False)) \<le> writers p"
    using assms(7,8) by (auto simp: p_def)
  have ok: "obj_ok D v L X"
    using assms(1) p by (auto simp: obj_ok_def filp_ok_def pipe_ok_def v pu)
  have e: "close_pipe_end f w = (if readers p = 0 \<and> writers p = 0 then v\<lparr>heap_of := kfree q (heap_of v)\<rparr> else v)"
    by (simp add: close_pipe_end_def Let_def assms(3) [symmetric] p_def [symmetric] v_def [symmetric])
  show ?thesis
  proof (cases "readers p = 0 \<and> writers p = 0")
    case True
    then have "pipe_users D w q d = {}" for d
      using p obj_okD(2) [OF assms(1)] by (cases d) auto
    then have "pipe_ptr (filp_at v g) \<noteq> q" if "g \<in> ran D" "ftype (filp_at v g) = FT_PIPE" for g
      using that v by (auto simp: pipe_users_def)
    then have "obj_ok D (v\<lparr>heap_of := kfree q (heap_of v)\<rparr>) (L(q := None)) X"
      using obj_ok_free [OF ok assms(4,6,5)] by blast
    then show ?thesis
      using True e by auto
  qed (use ok e in auto)
qed

section \<open>The operations on open files\<close>

lemma obj_ok_close:
  assumes ok: "obj_ok D w L X" and k: "D k = Some f"
  shows "\<exists>L'. obj_ok (D(k := None)) (filp_close f w) L' X"
proof -
  let ?D = "D(k := None)"
  define v where "v = w\<lparr>filp_at := (filp_at w)(f := (filp_at w f)\<lparr>refcount := refcount (filp_at w f) - 1\<rparr>)\<rparr>"
  have f: "f \<in> ran D" "filp_ok D w L X f" "f \<noteq> 0"
    using k obj_okD(4) [OF ok] obj_ok_nonnull(1) [OF ok] by (auto intro: ranI)
  have "k \<in> refs D f"
    using k by (simp add: refs_def)
  moreover have "finite (refs D f)"
    using obj_okD(2) [OF ok] by simp
  ultimately have "card (refs ?D f) = card (refs D f) - 1" and "card (refs D f) > 0"
    by (auto simp: refs_drop card_gt_0_iff)
  then have c: "int (card (refs ?D f)) \<le> refcount (filp_at w f) - 1"
    using f(2) by (simp add: filp_ok_def)
  have v: "obj_ok ?D v L X"
    unfolding v_def by (rule obj_ok_refcount [OF obj_ok_drop [OF ok] c])
  have vf: "filp_at v f = (filp_at w f)\<lparr>refcount := refcount (filp_at w f) - 1\<rparr>" "pipe_at v = pipe_at w"
    "\<And>g. ftype (filp_at v g) = ftype (filp_at w g)" "\<And>g. pipe_ptr (filp_at v g) = pipe_ptr (filp_at w g)"
    "\<And>g. pipe_end (filp_at v g) = pipe_end (filp_at w g)"
    by (simp_all add: v_def)
  show ?thesis
  proof (cases "refcount (filp_at w f) - 1 > 0")
    case True
    then show ?thesis
      using v f(3) by (auto simp: filp_close_def v_def [symmetric] vf Let_def)
  next
    case False
    then have "card (refs ?D f) = 0"
      using c by linarith
    then have "refs ?D f = {}"
      using finite_refs [OF obj_okD(2) [OF v]] by simp
    then have gone: "f \<notin> ran ?D"
      by (simp add: refs_empty_iff)
    define q where "q = pipe_ptr (filp_at w f)"
    define u where "u = (if ftype (filp_at w f) = FT_PIPE \<and> q \<noteq> 0 then close_pipe_end f v else v)"
    have fL: "f \<in> dom L" "f \<notin> X"
      using f(2) by (auto simp: filp_ok_def)
    have other: "pipe_ptr (filp_at w g) \<noteq> f" if "g \<in> ran D" "ftype (filp_at w g) = FT_PIPE" for g
      using obj_okD(4) [OF ok that(1)] that(2) f(1) by (auto simp: filp_ok_def pipe_ok_def)
    have "\<exists>L'. obj_ok ?D u L' X \<and> (L' = L \<or> (L' = L(q := None) \<and> q \<noteq> f))"
    proof (cases "ftype (filp_at w f) = FT_PIPE \<and> q \<noteq> 0")
      case True
      then have q: "pipe_ok D w L X q"
        using f(2) by (simp add: filp_ok_def q_def)
      have users: "pipe_users D w q e = (if (pipe_end (filp_at w f) = 0) = e then insert f (pipe_users ?D v q e)
          else pipe_users ?D v q e)" for e
        using True gone unfolding pipe_users_def q_def vf ran_drop_insert [of D, OF k] by auto
      have fin: "finite (pipe_users ?D v q e)" and nf: "f \<notin> pipe_users ?D v q e" for e
        using obj_okD(2) [OF v] gone by (auto simp: pipe_users_def finite_ran)
      have "q \<noteq> f"
        using other [OF f(1)] True by (simp add: q_def)
      moreover have "\<exists>L'. obj_ok ?D (close_pipe_end f v) L' X \<and> (L' = L \<or> L' = L(q := None))"
      proof (rule obj_ok_pipe_end [OF v gone])
        show "q = pipe_ptr (filp_at v f)"
          by (simp add: q_def vf)
        show "q \<in> dom L" "q \<notin> X" "q \<notin> ran ?D"
          using q ran_drop [of D k] by (auto simp: pipe_ok_def)
        show "int (card (pipe_users ?D v q True)) + (if pipe_end (filp_at v f) = 0 then 1 else 0) \<le> readers (pipe_at v q)"
          "int (card (pipe_users ?D v q False)) + (if pipe_end (filp_at v f) = 0 then 0 else 1) \<le> writers (pipe_at v q)"
          using q users [of True] users [of False] fin nf by (auto simp: pipe_ok_def vf)
      qed
      ultimately show ?thesis
        using True by (auto simp: u_def)
    qed (use v in \<open>auto simp: u_def\<close>)
    then obtain L' where L': "obj_ok ?D u L' X" "L' = L \<or> (L' = L(q := None) \<and> q \<noteq> f)"
      by blast
    have uf: "filp_at u = filp_at v"
      by (simp add: u_def close_pipe_end_def Let_def)
    have "obj_ok ?D (u\<lparr>heap_of := kfree f (heap_of u)\<rparr>) (L'(f := None)) X"
    proof (rule obj_ok_free [OF L'(1) _ gone fL(2)])
      show "f \<in> dom L'"
        using L'(2) fL(1) by auto
      show "pipe_ptr (filp_at u g) \<noteq> f" if "g \<in> ran ?D" "ftype (filp_at u g) = FT_PIPE" for g
        using other [of g] that ran_drop [of D k] by (auto simp: uf vf)
    qed
    moreover have "filp_close f w = u\<lparr>heap_of := kfree f (heap_of u)\<rparr>"
      using False f(3) by (simp add: filp_close_def v_def [symmetric] vf Let_def u_def q_def)
    ultimately show ?thesis
      by metis
  qed
qed

text \<open>A further reference to an open file, or the first one to a file that is counted already.\<close>

lemma obj_ok_add:
  assumes ok: "obj_ok D w L X" and k: "D k = None" and f: "f \<in> ran D \<or> ftype (filp_at w f) \<noteq> FT_PIPE"
    and L: "f \<in> dom L" "f \<notin> X" "int (card (refs D f)) < refcount (filp_at w f)"
    and np: "\<And>g. g \<in> ran D \<Longrightarrow> ftype (filp_at w g) = FT_PIPE \<Longrightarrow> pipe_ptr (filp_at w g) \<noteq> f"
  shows "obj_ok (D(k \<mapsto> f)) w L X"
proof -
  have ran: "ran (D(k \<mapsto> f)) = insert f (ran D)"
    using k by simp
  have users: "pipe_users (D(k \<mapsto> f)) w q e = pipe_users D w q e" for q e
    using f unfolding pipe_users_def ran by auto
  have card: "card (refs (D(k \<mapsto> f)) g) = (if g = f then Suc (card (refs D f)) else card (refs D g))" for g
  proof -
    have "k \<notin> refs D f" "finite (refs D f)"
      using k obj_okD(2) [OF ok] by (simp_all add: refs_def) (auto intro: finite_subset [of _ "dom D"])
    then show ?thesis
      using k by (simp add: refs_add)
  qed
  have pipes: "pipe_ok (D(k \<mapsto> f)) w L X q" if "pipe_ok D w L X q" "q \<noteq> f" for q
    using that unfolding pipe_ok_def users ran by auto
  have "filp_ok (D(k \<mapsto> f)) w L X g" if g: "g \<in> insert f (ran D)" for g
  proof (cases "g \<in> ran D")
    case True
    then show ?thesis
      using obj_okD(4) [OF ok True] np [OF True] L(3) pipes unfolding filp_ok_def card by auto
  next
    case False
    then have "g = f" "ftype (filp_at w f) \<noteq> FT_PIPE"
      using g f by auto
    then show ?thesis
      using L unfolding filp_ok_def card by auto
  qed
  then show ?thesis
    using obj_okD [OF ok] unfolding obj_ok_def ran by simp
qed

lemma obj_ok_ref:
  assumes ok: "obj_ok D w L X" and k: "D k = None" and f: "f \<in> ran D"
  shows "obj_ok (D(k \<mapsto> f)) (filp_ref f w) L X"
proof -
  let ?w = "w\<lparr>filp_at := (filp_at w)(f := (filp_at w f)\<lparr>refcount := refcount (filp_at w f) + 1\<rparr>)\<rparr>"
  have F: "filp_ok D w L X f" "f \<noteq> 0"
    using obj_okD(4) [OF ok f] obj_ok_nonnull(1) [OF ok] f by auto
  have np: "pipe_ptr (filp_at w g) \<noteq> f" if "g \<in> ran D" "ftype (filp_at w g) = FT_PIPE" for g
    using obj_okD(4) [OF ok that(1)] that(2) f by (auto simp: filp_ok_def pipe_ok_def)
  have w: "obj_ok D ?w L X"
    using F(1) by (intro obj_ok_refcount [OF ok]) (simp add: filp_ok_def)
  have "obj_ok (D(k \<mapsto> f)) ?w L X"
  proof (rule obj_ok_add)
    show "pipe_ptr (filp_at ?w g) \<noteq> f" if "g \<in> ran D" "ftype (filp_at ?w g) = FT_PIPE" for g
      using np [OF that(1)] that(2) by (simp split: if_splits)
  qed (use w k f F(1) in \<open>auto simp: filp_ok_def\<close>)
  then show ?thesis
    using F(2) by (simp add: filp_ref_def)
qed

text \<open>New blocks: allocating only extends the heap, and no object that can be reached changes.\<close>

lemma obj_ok_extend:
  assumes ok: "obj_ok D w L X" and rep: "heap_rep h (L(p \<mapsto> n))" and p: "L p = None"
  shows "obj_ok D (w\<lparr>heap_of := h\<rparr>) (L(p \<mapsto> n)) (insert p X)" and "p \<notin> ran D" and "p \<notin> X"
    and "\<And>g. g \<in> ran D \<Longrightarrow> ftype (filp_at w g) = FT_PIPE \<Longrightarrow> pipe_ptr (filp_at w g) \<noteq> p"
proof -
  have F: "filp_ok D w L X f" if "f \<in> ran D" for f
    using obj_okD(4) [OF ok that] .
  show "p \<notin> ran D" "p \<notin> X"
    using F obj_okD(3) [OF ok] p by (auto simp: filp_ok_def)
  show np: "pipe_ptr (filp_at w g) \<noteq> p" if "g \<in> ran D" "ftype (filp_at w g) = FT_PIPE" for g
    using F [OF that(1)] that(2) p by (auto simp: filp_ok_def pipe_ok_def)
  have users: "pipe_users D (w\<lparr>heap_of := h\<rparr>) q e = pipe_users D w q e" for q e
    by (simp add: pipe_users_def)
  have "filp_ok D (w\<lparr>heap_of := h\<rparr>) (L(p \<mapsto> n)) (insert p X) f" if "f \<in> ran D" for f
    using F [OF that] np [OF that] \<open>p \<notin> ran D\<close> that unfolding filp_ok_def pipe_ok_def users by auto
  then show "obj_ok D (w\<lparr>heap_of := h\<rparr>) (L(p \<mapsto> n)) (insert p X)"
    using obj_okD [OF ok] rep unfolding obj_ok_def by auto
qed

text \<open>What an allocation gives: the null pointer and no change of the invariant, or a block of its own.\<close>

lemma obj_ok_kmalloc:
  assumes ok: "obj_ok D w L X" and sz: "0 < sz" "unat sz \<le> 117440512" and m: "kmalloc sz (heap_of w) = Some (p, h)"
  obtains "p = 0" "obj_ok D (w\<lparr>heap_of := h\<rparr>) L X"
  | n where "p \<noteq> 0" "L p = None" "obj_ok D (w\<lparr>heap_of := h\<rparr>) (L(p \<mapsto> n)) (insert p X)" "p \<notin> ran D" "p \<notin> X"
      "\<And>g. g \<in> ran D \<Longrightarrow> ftype (filp_at w g) = FT_PIPE \<Longrightarrow> pipe_ptr (filp_at w g) \<noteq> p"
proof -
  note rep = obj_okD(1) [OF ok]
  show thesis
  proof (cases "p = 0")
    case True
    have "h = heap_of w"
      using heap.malloc_rep [OF rep sz] m True heap.rep_nonnull by fastforce
    then show thesis
      using ok True by (intro that(1)) simp_all
  next
    case False
    obtain n where "L p = None" "heap_rep h (L(p \<mapsto> n))"
      by (rule heap.malloc_fresh [OF rep sz m False])
    then show thesis
      using that(2) [OF False] obj_ok_extend [OF ok] by blast
  qed
qed

lemma obj_ok_filp_alloc:
  assumes ok: "obj_ok D w L X" and k: "D k = None" and a: "filp_alloc w = Some (f, v)"
  obtains "f = 0" "obj_ok D v L X"
  | L' where "f \<noteq> 0" "obj_ok (D(k \<mapsto> f)) v L' X" "f \<notin> ran D" "filp_at v f = zero_filp\<lparr>refcount := 1\<rparr>"
proof -
  obtain h where m: "kmalloc sizeof_filp (heap_of w) = Some (f, h)"
    using a by (auto simp: filp_alloc_def Let_def split: option.splits if_splits prod.splits)
  have sz: "0 < sizeof_filp" "unat sizeof_filp \<le> 117440512"
    by (simp_all add: sizeof_filp_def)
  from ok sz m show thesis
  proof (cases rule: obj_ok_kmalloc)
    case 1
    then show thesis
      using a m that(1) by (simp add: filp_alloc_def)
  next
    case (2 n)
    let ?x = "zero_filp\<lparr>refcount := 1\<rparr>"
    let ?v = "w\<lparr>heap_of := h, filp_at := (filp_at w)(f := ?x)\<rparr>"
    have v: "v = ?v"
      using a m 2(1) by (simp add: filp_alloc_def Let_def zero_filp_def)
    have "obj_ok D ?v (L(f \<mapsto> n)) (insert f X)"
      using 2(4) obj_okD(1) [OF 2(3)] by (intro obj_ok_cong [OF 2(3)]) auto
    then have "obj_ok D ?v (L(f \<mapsto> n)) X"
      by (rule obj_ok_mono) auto
    moreover have "refs D f = {}"
      using 2(4) by (simp add: refs_empty_iff)
    moreover have "pipe_ptr (filp_at ?v g) \<noteq> f" if "g \<in> ran D" "ftype (filp_at ?v g) = FT_PIPE" for g
      using 2(4,6) that by (auto split: if_splits)
    ultimately have "obj_ok (D(k \<mapsto> f)) ?v (L(f \<mapsto> n)) X"
      using 2(5) k by (intro obj_ok_add) (auto simp: zero_filp_def)
    then show thesis
      using that(2) [OF 2(1)] 2(4) v by simp
  qed
qed

lemma obj_ok_pipe_create:
  assumes ok: "obj_ok D w L X" and c: "pipe_create w = Some (q, v)"
  obtains "q = 0" "obj_ok D v L X"
  | L' where "q \<noteq> 0" "obj_ok D v L' (insert q X)" "q \<notin> X" "filp_at v = filp_at w"
      "readers (pipe_at v q) = 1" "writers (pipe_at v q) = 1"
proof -
  obtain h where m: "kmalloc sizeof_pipe (heap_of w) = Some (q, h)"
    using c by (auto simp: pipe_create_def Let_def split: option.splits if_splits prod.splits)
  have sz: "0 < sizeof_pipe" "unat sizeof_pipe \<le> 117440512"
    by (simp_all add: sizeof_pipe_def)
  from ok sz m show thesis
  proof (cases rule: obj_ok_kmalloc)
    case 1
    then show thesis
      using c m that(1) by (simp add: pipe_create_def)
  next
    case (2 n)
    let ?v = "w\<lparr>heap_of := h, pipe_at := (pipe_at w)(q := zero_pipe\<lparr>readers := 1, writers := 1\<rparr>)\<rparr>"
    have v: "v = ?v"
      using c m 2(1) by (simp add: pipe_create_def Let_def)
    have "filp_ok D ?v (L(q \<mapsto> n)) (insert q X) f" if "f \<in> ran D" for f
    proof -
      have "pipe_users D ?v r e = pipe_users D (w\<lparr>heap_of := h\<rparr>) r e" for r e
        by (simp add: pipe_users_def)
      then show ?thesis
        using obj_okD(4) [OF 2(3) that] 2(6) [OF that] by (auto simp: filp_ok_def pipe_ok_def)
    qed
    then have "obj_ok D ?v (L(q \<mapsto> n)) (insert q X)"
      using obj_okD [OF 2(3)] by (simp add: obj_ok_def)
    then show thesis
      using that(2) [OF 2(1)] 2(5) v by simp
  qed
qed

text \<open>Making open files the ends of a new pipe.\<close>

lemma obj_ok_attach:
  assumes ok: "obj_ok D w L (insert q X)" and q: "q \<notin> X" and f: "g \<noteq> f \<or> g \<notin> ran D"
    and ends: "1 \<le> readers (pipe_at w q)" "1 \<le> writers (pipe_at w q)"
    and x: "ftype x = FT_PIPE" "pipe_ptr x = q" "pipe_end x = 0" "refcount x = refcount (filp_at w f)"
    and y: "ftype y = FT_PIPE" "pipe_ptr y = q" "pipe_end y = 1" "refcount y = refcount (filp_at w g)"
  shows "obj_ok D (w\<lparr>filp_at := (filp_at w)(f := x, g := y)\<rparr>) L X"
proof -
  let ?v = "w\<lparr>filp_at := (filp_at w)(f := x, g := y)\<rparr>"
  have old: "ftype (filp_at w a) = FT_PIPE \<Longrightarrow> pipe_ptr (filp_at w a) \<noteq> q" if "a \<in> ran D" for a
    using obj_okD(4) [OF ok that] by (auto simp: filp_ok_def pipe_ok_def)
  have "pipe_users D ?v q True \<subseteq> {f}" "pipe_users D ?v q False \<subseteq> {g}"
    using old x y by (auto simp: pipe_users_def split: if_splits)
  then have "card (pipe_users D ?v q True) \<le> 1" "card (pipe_users D ?v q False) \<le> 1"
    using card_mono [of "{f}"] card_mono [of "{g}"] by fastforce+
  moreover have "q \<notin> ran D" "q \<in> dom L"
    using obj_okD(3,4) [OF ok] by (auto simp: filp_ok_def)
  ultimately have pq: "pipe_ok D ?v L X q"
    using q ends by (auto simp: pipe_ok_def)
  have pr: "pipe_ok D ?v L X r" if "pipe_ok D w L (insert q X) r" for r
  proof -
    have "r \<noteq> q"
      using that by (auto simp: pipe_ok_def)
    then have "card (pipe_users D ?v r e) \<le> card (pipe_users D w r e)" for e
      using x y obj_okD(2) [OF ok] by (intro card_mono) (auto simp: pipe_users_def finite_ran split: if_splits)
    then show ?thesis
      using that unfolding pipe_ok_def by (auto intro: order_trans [OF of_nat_mono])
  qed
  have "filp_ok D ?v L X a" if "a \<in> ran D" for a
    using obj_okD(4) [OF ok that] pq pr x y f that by (auto simp: filp_ok_def)
  then show ?thesis
    using obj_okD [OF ok] by (auto simp: obj_ok_def)
qed

end
