(* ===== verification/CString.thy ===== *)
theory CString
  imports Prelude
begin

text \<open>
  The freestanding byte and string routines, \<^verbatim>\<open>kernel/lib/string.c\<close>. A pointer
  into a buffer is the list of the bytes from there to the end of the buffer, so that
  \<^verbatim>\<open>*p++\<close> is a step from \<open>x # xs\<close> to \<open>xs\<close>, and a read or a write past
  the end of the buffer is the result \<open>None\<close>. \<^verbatim>\<open>memmove\<close> is the one routine whose
  arguments may overlap; it works on one buffer with two offsets. The abstraction \<open>cstr\<close>
  is the string a buffer holds.
\<close>

section \<open>Memory routines\<close>

fun memset :: "bytes \<Rightarrow> u8 \<Rightarrow> nat \<Rightarrow> bytes option" where
  "memset d c 0 = Some d"
| "memset [] c (Suc n) = None"
| "memset (x # d) c (Suc n) = map_option ((#) c) (memset d c n)"

fun memcpy :: "bytes \<Rightarrow> bytes \<Rightarrow> nat \<Rightarrow> bytes option" where
  "memcpy d s 0 = Some d"
| "memcpy (x # d) (y # s) (Suc n) = map_option ((#) y) (memcpy d s n)"
| "memcpy d s (Suc n) = None"

text \<open>The two loops of \<^verbatim>\<open>memmove\<close>: upwards, and downwards from the ends.\<close>

fun move_up :: "bytes \<Rightarrow> nat \<Rightarrow> nat \<Rightarrow> nat \<Rightarrow> bytes option" where
  "move_up m d s 0 = Some m"
| "move_up m d s (Suc n) =
     (if d < length m \<and> s < length m then move_up (m[d := m ! s]) (d + 1) (s + 1) n else None)"

fun move_down :: "bytes \<Rightarrow> nat \<Rightarrow> nat \<Rightarrow> nat \<Rightarrow> bytes option" where
  "move_down m d s 0 = Some m"
| "move_down m d s (Suc n) =
     (if d - 1 < length m \<and> s - 1 < length m \<and> 0 < d \<and> 0 < s
      then move_down (m[d - 1 := m ! (s - 1)]) (d - 1) (s - 1) n else None)"

definition memmove :: "bytes \<Rightarrow> nat \<Rightarrow> nat \<Rightarrow> nat \<Rightarrow> bytes option" where
  "memmove m d s n = (if d < s then move_up m d s n else move_down m (d + n) (s + n) n)"

fun memcmp :: "bytes \<Rightarrow> bytes \<Rightarrow> nat \<Rightarrow> int option" where
  "memcmp a b 0 = Some 0"
| "memcmp (x # a) (y # b) (Suc n) = (if x \<noteq> y then Some (uint x - uint y) else memcmp a b n)"
| "memcmp a b (Suc n) = None"

section \<open>String routines\<close>

fun strlen :: "bytes \<Rightarrow> nat option" where
  "strlen [] = None"
| "strlen (x # s) = (if x \<noteq> 0 then map_option Suc (strlen s) else Some 0)"

fun strcmp :: "bytes \<Rightarrow> bytes \<Rightarrow> int option" where
  "strcmp (x # a) (y # b) = (if x \<noteq> 0 \<and> x = y then strcmp a b else Some (uint x - uint y))"
| "strcmp a b = None"

fun strncmp :: "bytes \<Rightarrow> bytes \<Rightarrow> nat \<Rightarrow> int option" where
  "strncmp a b 0 = Some 0"
| "strncmp (x # a) (y # b) (Suc n) =
     (if x \<noteq> 0 \<and> x = y then strncmp a b n else Some (uint x - uint y))"
| "strncmp a b (Suc n) = None"

fun strcpy :: "bytes \<Rightarrow> bytes \<Rightarrow> bytes option" where
  "strcpy (x # d) (y # s) = (if y \<noteq> 0 then map_option ((#) y) (strcpy d s) else Some (y # d))"
| "strcpy d s = None"

text \<open>
  \<^verbatim>\<open>strncpy\<close>: the first loop stores each byte before it tests it, so that the
  terminator is stored too and then overwritten by the second loop, which pads with zeros.
\<close>

fun strncpy :: "bytes \<Rightarrow> bytes \<Rightarrow> nat \<Rightarrow> bytes option" where
  "strncpy d s 0 = Some d"
| "strncpy (x # d) (y # s) (Suc n) =
     (if y \<noteq> 0 then map_option ((#) y) (strncpy d s n) else memset (y # d) 0 (Suc n))"
| "strncpy d s (Suc n) = None"

text \<open>The result pointer of a search is the offset from the start, \<open>None\<close> inside for NULL.\<close>

fun strchr :: "bytes \<Rightarrow> u8 \<Rightarrow> nat option option" where
  "strchr [] c = None"
| "strchr (x # s) c =
     (if x \<noteq> 0 then (if x = c then Some (Some 0) else map_option (map_option Suc) (strchr s c))
      else if c = 0 then Some (Some 0) else Some None)"

fun strrchr_loop :: "bytes \<Rightarrow> u8 \<Rightarrow> nat \<Rightarrow> nat option \<Rightarrow> nat option option" where
  "strrchr_loop [] c i lst = None"
| "strrchr_loop (x # s) c i lst =
     (if x \<noteq> 0 then strrchr_loop s c (i + 1) (if x = c then Some i else lst)
      else if c = 0 then Some (Some i) else Some lst)"

definition strrchr :: "bytes \<Rightarrow> u8 \<Rightarrow> nat option option" where
  "strrchr s c = strrchr_loop s c 0 None"

section \<open>What they compute\<close>

definition cstr :: "bytes \<Rightarrow> bytes" where
  "cstr b = takeWhile (\<lambda>x. x \<noteq> 0) b"

definition terminated :: "bytes \<Rightarrow> bool" where
  "terminated b \<longleftrightarrow> 0 \<in> set b"

definition put_bytes :: "bytes \<Rightarrow> nat \<Rightarrow> bytes \<Rightarrow> bytes" where
  "put_bytes d i s = take i d @ s @ drop (i + length s) d"

lemma cstr_simps [simp]:
  "cstr [] = []"
  "cstr (x # b) = (if x = 0 then [] else x # cstr b)"
  by (simp_all add: cstr_def)

lemma terminated_simps [simp]:
  "\<not> terminated []"
  "terminated (x # b) \<longleftrightarrow> x = 0 \<or> terminated b"
  by (auto simp: terminated_def)

lemma zero_notin_cstr [simp]: "0 \<notin> set (cstr b)"
  by (induction b) auto

lemma cstr_no_zero: "0 \<notin> set s \<Longrightarrow> cstr (s @ 0 # r) = s"
  by (induction s) auto

lemma length_cstr_less: "terminated b \<Longrightarrow> length (cstr b) < length b"
  by (induction b) auto

lemma length_put_bytes [simp]:
  "i + length s \<le> length d \<Longrightarrow> length (put_bytes d i s) = length d"
  by (simp add: put_bytes_def)

lemma memset_eq:
  "memset d c n = (if n \<le> length d then Some (replicate n c @ drop n d) else None)"
  by (induction d c n rule: memset.induct) auto

lemma memcpy_eq:
  "memcpy d s n =
     (if n \<le> length d \<and> n \<le> length s then Some (take n s @ drop n d) else None)"
  by (induction d s n rule: memcpy.induct) auto

text \<open>Copying to offset \<open>i\<close> of a buffer is \<open>put_bytes\<close>.\<close>

lemma memcpy_put_bytes:
  assumes "i + n \<le> length d" and "n \<le> length s"
  shows "map_option (\<lambda>t. take i d @ t) (memcpy (drop i d) s n) = Some (put_bytes d i (take n s))"
  using assms by (auto simp: memcpy_eq put_bytes_def add.commute min_def)

lemma strlen_eq: "strlen b = (if terminated b then Some (length (cstr b)) else None)"
  by (induction b) auto

lemma move_up_eq:
  assumes "d \<le> s" and "s + n \<le> length m"
  shows "move_up m d s n = Some (put_bytes m d (take n (drop s m)))"
  using assms
proof (induction n arbitrary: m d s)
  case 0
  then show ?case by (simp add: put_bytes_def)
next
  case (Suc n)
  let ?m = "m[d := m ! s]"
  have "drop (s + 1) ?m = drop (s + 1) m"
    using Suc.prems(1) by simp
  moreover have "put_bytes ?m (d + 1) (take n (drop (s + 1) m)) = put_bytes m d (take (Suc n) (drop s m))"
    using Suc.prems
    by (simp add: put_bytes_def take_Suc_conv_app_nth Cons_nth_drop_Suc [symmetric])
  moreover have "move_up ?m (d + 1) (s + 1) n = Some (put_bytes ?m (d + 1) (take n (drop (s + 1) ?m)))"
    using Suc.prems by (intro Suc.IH) auto
  ultimately show ?case
    using Suc.prems by simp
qed

lemma move_down_eq:
  assumes "s \<le> d" and "d + n \<le> length m"
  shows "move_down m (d + n) (s + n) n = Some (put_bytes m d (take n (drop s m)))"
  using assms
proof (induction n arbitrary: m)
  case 0
  then show ?case by (simp add: put_bytes_def)
next
  case (Suc n)
  let ?m = "m[d + n := m ! (s + n)]"
  have "take n (drop s ?m) = take n (drop s m)"
    using Suc.prems(1) by (simp add: drop_update_swap)
  moreover have "put_bytes ?m d (take n (drop s m)) = put_bytes m d (take (Suc n) (drop s m))"
    using Suc.prems
    by (simp add: put_bytes_def take_Suc_conv_app_nth upd_conv_take_nth_drop)
  moreover have "move_down ?m (d + n) (s + n) n = Some (put_bytes ?m d (take n (drop s ?m)))"
    using Suc.prems by (intro Suc.IH) auto
  ultimately show ?case
    using Suc.prems by simp
qed

text \<open>Comparison is the lexicographic order of the strings, byte by byte unsigned.\<close>

definition byte_less :: "(u8 \<times> u8) set" where
  "byte_less = {(x, y). x < y}"

lemma strcmp_spec:
  assumes "terminated a" and "terminated b"
  shows "\<exists>r. strcmp a b = Some r \<and> (r = 0 \<longleftrightarrow> cstr a = cstr b)
    \<and> (r < 0 \<longleftrightarrow> (cstr a, cstr b) \<in> lexord byte_less)"
  using assms
proof (induction a b rule: strcmp.induct)
  case (1 x a y b)
  show ?case
  proof (cases "x \<noteq> 0 \<and> x = y")
    case True
    then show ?thesis
      using 1 by (auto simp: byte_less_def)
  next
    case False
    have "uint x - uint y = 0 \<longleftrightarrow> x = y" and "uint x - uint y < 0 \<longleftrightarrow> x < y"
      by (simp_all add: word_less_def word_uint_eq_iff)
    then show ?thesis
      using False by (auto simp: byte_less_def word_gt_0)
  qed
qed auto

lemma strncmp_eq_0:
  assumes "n \<le> length a \<or> terminated a" and "n \<le> length b \<or> terminated b"
  shows "\<exists>r. strncmp a b n = Some r \<and> (r = 0 \<longleftrightarrow> take n (cstr a) = take n (cstr b))"
  using assms
proof (induction a b n rule: strncmp.induct)
  case (2 x a y b n)
  have "uint x - uint y = 0 \<longleftrightarrow> x = y"
    by (simp add: word_uint_eq_iff)
  then show ?case
    using 2 by auto
qed auto

lemma strcpy_eq:
  assumes "terminated s" and "length (cstr s) < length d"
  shows "strcpy d s = Some (cstr s @ 0 # drop (Suc (length (cstr s))) d)"
  using assms by (induction d s rule: strcpy.induct) auto

lemma strncpy_eq:
  assumes "n \<le> length d" and "n \<le> length s \<or> terminated s"
  shows "strncpy d s n = Some (take n (cstr s) @ replicate (n - length (cstr s)) 0 @ drop n d)"
  using assms
proof (induction d s n rule: strncpy.induct)
  case (2 x d y s n)
  then show ?case
    by (auto simp: memset_eq)
qed auto

lemma strchr_spec:
  assumes "terminated s" and "c \<noteq> 0"
  shows "strchr s c = Some (if c \<in> set (cstr s) then Some (length (takeWhile (\<lambda>x. x \<noteq> c) (cstr s))) else None)"
  using assms by (induction s) auto

lemma strrchr_loop_spec:
  assumes "terminated s" and "c \<noteq> 0"
  shows "strrchr_loop s c i l = Some (if c \<in> set (cstr s)
    then Some (i + length (cstr s) - Suc (length (takeWhile (\<lambda>x. x \<noteq> c) (rev (cstr s))))) else l)"
  using assms
proof (induction s arbitrary: i l)
  case (Cons x s)
  show ?case
  proof (cases "x = 0")
    case False
    have len: "length (takeWhile (\<lambda>x. x \<noteq> c) (rev (cstr s))) < length (cstr s)" if "c \<in> set (cstr s)"
      using length_takeWhile_less [of "rev (cstr s)" "\<lambda>x. x \<noteq> c"] that by simp
    show ?thesis
      using Cons False len
      by (auto simp: takeWhile_append)
  qed (use Cons.prems in auto)
qed simp

section \<open>Properties\<close>

text \<open>
  C33. \<^verbatim>\<open>memmove\<close> copies the old source bytes to the destination and leaves the
  rest of the buffer alone, however the two ranges overlap.
\<close>

theorem memmove_overlap:
  assumes "d + n \<le> length m" and "s + n \<le> length m"
  shows "memmove m d s n = Some (take d m @ take n (drop s m) @ drop (d + n) m)"
proof -
  have "memmove m d s n = Some (put_bytes m d (take n (drop s m)))"
    using assms move_up_eq [of d s n m] move_down_eq [of s d n m] by (auto simp: memmove_def)
  then show ?thesis
    using assms by (simp add: put_bytes_def)
qed

theorem memmove_overlap_witness:
  "memmove [1, 2, 3, 4, 5] 1 0 3 = Some [1, 1, 2, 3, 5]"
  using memmove_overlap [of 1 3 "[1, 2, 3, 4, 5]" 0] by simp

text \<open>
  On two terminated strings \<^verbatim>\<open>strcmp\<close> stays inside both buffers, returns zero
  exactly for equal strings, and its sign is the lexicographic order of the unsigned bytes.
\<close>

theorem strcmp_lexicographic:
  assumes "terminated a" and "terminated b"
  shows "\<exists>r. strcmp a b = Some r \<and> (r = 0 \<longleftrightarrow> cstr a = cstr b)
    \<and> (r < 0 \<longleftrightarrow> (cstr a, cstr b) \<in> lexord byte_less)
    \<and> (r > 0 \<longleftrightarrow> (cstr b, cstr a) \<in> lexord byte_less)"
proof -
  obtain r where r: "strcmp a b = Some r" "r = 0 \<longleftrightarrow> cstr a = cstr b"
    "r < 0 \<longleftrightarrow> (cstr a, cstr b) \<in> lexord byte_less"
    using strcmp_spec [OF assms] by blast
  have asym: "(cstr b, cstr a) \<in> lexord byte_less \<Longrightarrow> (cstr a, cstr b) \<notin> lexord byte_less"
    by (rule lexord_asymmetric) (auto simp: byte_less_def asym_on_def)
  have irr: "(t, t) \<notin> lexord byte_less" for t
    by (rule lexord_irreflexive) (auto simp: byte_less_def)
  have lin: "(cstr a, cstr b) \<in> lexord byte_less \<or> cstr a = cstr b \<or> (cstr b, cstr a) \<in> lexord byte_less"
    by (rule lexord_linear) (auto simp: byte_less_def)
  show ?thesis
    using r asym irr lin by (metis linorder_neqE_linordered_idom order_less_asym)
qed

theorem strcmp_lexicographic_witness:
  "\<exists>r. strcmp [47, 98, 0] [47, 99, 0] = Some r \<and> r < 0"
  using strcmp_lexicographic [of "[47, 98, 0]" "[47, 99, 0]"] by auto

text \<open>
  \<^verbatim>\<open>strncpy(dst, src, n)\<close> writes exactly \<open>n\<close> bytes: the string cut at \<open>n\<close>,
  padded with zeros; the result is terminated within those bytes exactly when the string is
  shorter than \<open>n\<close>.
\<close>

theorem strncpy_pads_and_truncates:
  assumes "n \<le> length d" and "terminated s" and "strncpy d s n = Some d'"
  shows "take n d' = take n (cstr s) @ replicate (n - length (cstr s)) 0 \<and> drop n d' = drop n d
    \<and> (terminated (take n d') \<longleftrightarrow> length (cstr s) < n)"
proof -
  have d': "d' = (take n (cstr s) @ replicate (n - length (cstr s)) 0) @ drop n d"
    using assms strncpy_eq [of n d s] by simp
  have len: "length (take n (cstr s) @ replicate (n - length (cstr s)) 0) = n"
    by simp
  have "take n d' = take n (cstr s) @ replicate (n - length (cstr s)) 0"
    using len by (simp only: d' append_eq_conv_conj [symmetric]) simp
  moreover have "drop n d' = drop n d"
    using len by (simp add: d')
  moreover have "0 \<notin> set (take n (cstr s))"
    using zero_notin_cstr [of s] by (meson in_set_takeD)
  ultimately show ?thesis
    by (auto simp: terminated_def)
qed

theorem strncpy_pads_and_truncates_witness:
  "strncpy [9, 9, 9, 9] [104, 105, 33, 0] 2 = Some [104, 105, 9, 9]
    \<and> \<not> terminated (take 2 [104, 105, 9, 9 :: u8])"
proof -
  have e: "strncpy [9, 9, 9, 9] [104, 105, 33, 0] 2 = Some [104, 105, 9, 9]"
    unfolding numeral_2_eq_2 by simp
  show ?thesis
    using e strncpy_pads_and_truncates [OF _ _ e] by simp
qed

end
