(* ===== verification/Sched.thy ===== *)
theory Sched
  imports File CString
begin

text \<open>
  The scheduler, \<^verbatim>\<open>kernel/sched/sched.c\<close>, with the initial contexts of
  \<^verbatim>\<open>kernel/i386/context.c\<close> it sets up. Task structures live in the kernel heap and are kept
  by address; the run queue is the circular list through their \<^verbatim>\<open>next\<close> fields, the table
  \<^verbatim>\<open>tasks[]\<close> is a list of 64 addresses. The addresses of the static \<^verbatim>\<open>idle_task\<close>,
  of its stack and of \<^verbatim>\<open>context_trampoline\<close> are chosen by the linker and are fields of the state.
  A loop that follows \<^verbatim>\<open>next\<close> is a partial function: \<open>None\<close> means it does not end.
\<close>

unbundle bit_operations_syntax

section \<open>State\<close>

datatype task_state = TASK_UNUSED | TASK_READY | TASK_RUNNING | TASK_BLOCKED | TASK_ZOMBIE

record task =
  pid :: int
  ppid :: int
  tname :: bytes
  tstate :: task_state
  ctx :: u32
  kstack :: u32
  time_slice :: u32
  tnext :: u32
  uid :: u16
  gid :: u16
  exit_code :: int
  addrspace :: u32
  tfiles :: "u32 list"
  cwd :: bytes
  parent :: u32
  waiting :: bool
  user :: bool
  tentry :: u32
  user_stack :: u32
  brk :: u32
  tty_raw :: bool
  tty_echo :: bool

record sched =
  tasks :: "u32 list"
  current :: u32
  task_list :: u32
  next_pid :: int
  started :: bool
  idle_task :: u32
  idle_stack :: u32
  context_trampoline :: u32
  task_at :: "u32 \<Rightarrow> task"
  objs :: files
  kstacks :: mem
  esp :: u32
  tss_esp0 :: u32

definition MAX_TASKS :: nat where
  "MAX_TASKS = 64"

definition MAX_FILES :: nat where
  "MAX_FILES = 32"

definition KSTACK_SIZE :: u32 where
  "KSTACK_SIZE = 32768"

definition QUANTUM :: u32 where
  "QUANTUM = 5"

text \<open>\<^verbatim>\<open>sizeof(struct task)\<close> and the all-zero task.\<close>

definition sizeof_task :: u32 where
  "sizeof_task = 488"

definition zero_task :: task where
  "zero_task = \<lparr>pid = 0, ppid = 0, tname = replicate 32 0, tstate = TASK_UNUSED, ctx = 0, kstack = 0,
     time_slice = 0, tnext = 0, uid = 0, gid = 0, exit_code = 0, addrspace = 0,
     tfiles = replicate MAX_FILES 0, cwd = replicate 256 0, parent = 0, waiting = False, user = False,
     tentry = 0, user_stack = 0, brk = 0, tty_raw = False, tty_echo = False\<rparr>"

definition modify_task :: "u32 \<Rightarrow> (task \<Rightarrow> task) \<Rightarrow> sched \<Rightarrow> sched" where
  "modify_task t f s = s\<lparr>task_at := (task_at s)(t := f (task_at s t))\<rparr>"

definition the_mm :: "sched \<Rightarrow> mm" where
  "the_mm s = pages (heap_of (objs s))"

definition modify_heap :: "(vmm \<Rightarrow> vmm) \<Rightarrow> sched \<Rightarrow> sched" where
  "modify_heap f s = s\<lparr>objs := (objs s)\<lparr>heap_of := f (heap_of (objs s))\<rparr>\<rparr>"

definition modify_mm :: "(mm \<Rightarrow> mm) \<Rightarrow> sched \<Rightarrow> sched" where
  "modify_mm f s = modify_heap (\<lambda>h. h\<lparr>pages := f (pages h)\<rparr>) s"

section \<open>Contexts\<close>

text \<open>
  \<^verbatim>\<open>hal_context_init\<close> for the context pointer of a task: below the stack top it leaves the
  entry point and a zero, and below them the registers the context switch pops.
\<close>

definition hal_context_init :: "u32 \<Rightarrow> u32 \<Rightarrow> u32 \<Rightarrow> sched \<Rightarrow> sched" where
  "hal_context_init t stack_top entry_fn s =
     (let m = kstacks s;
          sp = stack_top - 4; m = store32 sp entry_fn m;
          sp = sp - 4; m = store32 sp 0 m;
          c = sp - 20;
          m = store32 (c + 16) (context_trampoline s) m;
          m = store32 (c + 12) 0 m;
          m = store32 (c + 8) 0 m;
          m = store32 (c + 4) 0 m;
          m = store32 c 0 m
      in modify_task t (\<lambda>x. x\<lparr>ctx := c\<rparr>) (s\<lparr>kstacks := m\<rparr>))"

text \<open>
  \<^verbatim>\<open>hal_context_switch\<close>: the stack pointer, with the callee-saved registers pushed, goes to the
  old context pointer, and the CPU goes on with the new one.
\<close>

definition hal_context_switch :: "u32 \<Rightarrow> u32 \<Rightarrow> sched \<Rightarrow> sched" where
  "hal_context_switch prev new_ctx s = (modify_task prev (\<lambda>x. x\<lparr>ctx := esp s\<rparr>) s)\<lparr>esp := new_ctx\<rparr>"

definition hal_tss_set_kernel_stack :: "u32 \<Rightarrow> sched \<Rightarrow> sched" where
  "hal_tss_set_kernel_stack stack_top s = s\<lparr>tss_esp0 := stack_top\<rparr>"

section \<open>Creating tasks\<close>

text \<open>The name "idle" and the path "/" as C strings.\<close>

definition str_idle :: bytes where
  "str_idle = [105, 100, 108, 101, 0]"

definition str_root :: bytes where
  "str_root = [47, 0]"

definition sched_init :: "u32 \<Rightarrow> sched \<Rightarrow> sched option" where
  "sched_init idle_entry s =
     (let s = s\<lparr>tasks := replicate MAX_TASKS 0, task_list := 0, current := 0, next_pid := 1, started := False\<rparr>;
          idle = zero_task\<lparr>pid := 0\<rparr>
      in case strcpy (tname idle) str_idle of
           None \<Rightarrow> None
         | Some n \<Rightarrow>
             let idle = idle\<lparr>tname := n, tstate := TASK_READY, kstack := idle_stack s, time_slice := QUANTUM,
                          addrspace := hal_paging_kernel_dir (the_mm s)\<rparr>;
                 s = modify_task (idle_task s) (\<lambda>_. idle) s
             in Some (hal_context_init (idle_task s) (idle_stack s + 16384) idle_entry s))"

text \<open>The first free slot of \<^verbatim>\<open>tasks[]\<close>; \<open>MAX_TASKS\<close> if there is none.\<close>

fun free_slot :: "u32 list \<Rightarrow> nat" where
  "free_slot [] = 0"
| "free_slot (t # ts) = (if t = 0 then 0 else Suc (free_slot ts))"

definition sched_alloc :: "bytes \<Rightarrow> sched \<Rightarrow> (u32 \<times> sched) option" where
  "sched_alloc name s =
     (case kmalloc sizeof_task (heap_of (objs s)) of
        None \<Rightarrow> None
      | Some (t, h) \<Rightarrow>
          let s = modify_heap (\<lambda>_. h) s in
          if t = 0 then Some (0, s)
          else
            let new = zero_task\<lparr>pid := next_pid s\<rparr>; s = s\<lparr>next_pid := next_pid s + 1\<rparr> in
            case strncpy (tname new) name 31 of
              None \<Rightarrow> None
            | Some n \<Rightarrow>
                (case strcpy (cwd new) str_root of
                   None \<Rightarrow> None
                 | Some d \<Rightarrow>
                     let new = new\<lparr>tname := n, tstate := TASK_READY, time_slice := QUANTUM, uid := 0, gid := 0,
                           addrspace := hal_paging_kernel_dir (the_mm s), tty_echo := True,
                           tty_raw := False, cwd := d\<rparr>
                     in case kmalloc KSTACK_SIZE (heap_of (objs s)) of
                          None \<Rightarrow> None
                        | Some (k, h) \<Rightarrow>
                            let s = modify_heap (\<lambda>_. h) s;
                                s = modify_task t (\<lambda>_. new\<lparr>kstack := k\<rparr>) s;
                                slot = free_slot (tasks s)
                            in Some (t, if slot < length (tasks s) then s\<lparr>tasks := (tasks s)[slot := t]\<rparr> else s)))"

partial_function (option) ring_last :: "u32 \<Rightarrow> sched \<Rightarrow> u32 option" where
  "ring_last p s =
     (if tnext (task_at s p) \<noteq> task_list s then ring_last (tnext (task_at s p)) s else Some p)"

definition sched_add :: "u32 \<Rightarrow> sched \<Rightarrow> sched option" where
  "sched_add t s =
     (if task_list s = 0
      then Some (modify_task t (\<lambda>x. x\<lparr>tnext := t\<rparr>) (s\<lparr>task_list := t\<rparr>))
      else case ring_last (task_list s) s of
             None \<Rightarrow> None
           | Some p \<Rightarrow>
               let s = modify_task p (\<lambda>x. x\<lparr>tnext := t\<rparr>) s
               in Some (modify_task t (\<lambda>x. x\<lparr>tnext := task_list s\<rparr>) s))"

definition sched_create :: "bytes \<Rightarrow> u32 \<Rightarrow> sched \<Rightarrow> (u32 \<times> sched) option" where
  "sched_create name entry_fn s =
     (case sched_alloc name s of
        None \<Rightarrow> None
      | Some (t, s) \<Rightarrow>
          if t = 0 then Some (0, s)
          else case sched_add t (hal_context_init t (kstack (task_at s t) + KSTACK_SIZE) entry_fn s) of
                 None \<Rightarrow> None
               | Some s \<Rightarrow> Some (t, s))"

section \<open>Looking up and removing tasks\<close>

fun find_pid :: "int \<Rightarrow> u32 list \<Rightarrow> sched \<Rightarrow> u32" where
  "find_pid p [] s = 0"
| "find_pid p (t # ts) s = (if t \<noteq> 0 \<and> pid (task_at s t) = p then t else find_pid p ts s)"

definition sched_find :: "int \<Rightarrow> sched \<Rightarrow> u32" where
  "sched_find p s = find_pid p (tasks s) s"

definition sched_find_slot :: "int \<Rightarrow> sched \<Rightarrow> u32" where
  "sched_find_slot i s = (if i < 0 \<or> i \<ge> int MAX_TASKS then 0 else tasks s ! nat i)"

text \<open>The task before \<open>t\<close> in the ring, searched from \<open>p\<close>.\<close>

partial_function (option) ring_prev :: "u32 \<Rightarrow> u32 \<Rightarrow> sched \<Rightarrow> u32 option option" where
  "ring_prev t p s =
     (if tnext (task_at s p) = t then Some (Some p)
      else let p = tnext (task_at s p)
           in if p \<noteq> task_list s then ring_prev t p s else Some None)"

definition ring_unlink :: "u32 \<Rightarrow> sched \<Rightarrow> sched option" where
  "ring_unlink t s =
     (if task_list s = 0 then Some s
      else case ring_prev t (task_list s) s of
             None \<Rightarrow> None
           | Some None \<Rightarrow> Some s
           | Some (Some p) \<Rightarrow>
               let s = modify_task p (\<lambda>x. x\<lparr>tnext := tnext (task_at s t)\<rparr>) s
               in Some (if task_list s = t
                        then s\<lparr>task_list := (if tnext (task_at s t) = t then 0 else tnext (task_at s t))\<rparr>
                        else s))"

definition sched_reap :: "u32 \<Rightarrow> sched \<Rightarrow> sched option" where
  "sched_reap t s =
     (case ring_unlink t s of
        None \<Rightarrow> None
      | Some s \<Rightarrow>
          let s = s\<lparr>tasks := map (\<lambda>x. if x = t then 0 else x) (tasks s)\<rparr>;
              s = (if addrspace (task_at s t) \<noteq> 0 \<and> addrspace (task_at s t) \<noteq> hal_paging_kernel_dir (the_mm s)
                   then modify_mm (hal_addrspace_destroy (addrspace (task_at s t))) s else s);
              s = (if kstack (task_at s t) \<noteq> 0 then modify_heap (kfree (kstack (task_at s t))) s else s)
          in Some (modify_heap (kfree t) s))"

section \<open>Switching\<close>

definition runnable :: "task \<Rightarrow> bool" where
  "runnable x \<longleftrightarrow> tstate x = TASK_READY \<or> tstate x = TASK_RUNNING"

partial_function (option) pick_loop :: "u32 \<Rightarrow> u32 \<Rightarrow> sched \<Rightarrow> u32 option" where
  "pick_loop start t s =
     (if runnable (task_at s t) then Some t
      else let t = tnext (task_at s t)
           in if t \<noteq> start then pick_loop start t s else Some (idle_task s))"

definition pick_next :: "sched \<Rightarrow> u32 option" where
  "pick_next s =
     (let start = (if current s \<noteq> 0 then tnext (task_at s (current s)) else task_list s)
      in if start = 0 then Some (idle_task s) else pick_loop start start s)"

definition switch_to :: "u32 \<Rightarrow> sched \<Rightarrow> sched" where
  "switch_to nxt s =
     (let prev = current s;
          s = s\<lparr>current := nxt\<rparr>;
          s = modify_task nxt (\<lambda>x. x\<lparr>tstate := TASK_RUNNING, time_slice := QUANTUM\<rparr>) s;
          s = hal_tss_set_kernel_stack (kstack (task_at s nxt) + KSTACK_SIZE) s;
          s = (if addrspace (task_at s nxt) \<noteq> 0 \<and> addrspace (task_at s nxt) \<noteq> hal_addrspace_current (the_mm s)
               then modify_mm (hal_paging_switch (addrspace (task_at s nxt))) s else s)
      in hal_context_switch prev (ctx (task_at s nxt)) s)"

definition sched_start :: "sched \<Rightarrow> sched" where
  "sched_start s =
     (let s = s\<lparr>started := True\<rparr>;
          s = s\<lparr>current := (if task_list s \<noteq> 0 then task_list s else idle_task s)\<rparr>;
          c = current s;
          s = modify_task c (\<lambda>x. x\<lparr>tstate := TASK_RUNNING\<rparr>) s;
          s = hal_tss_set_kernel_stack (kstack (task_at s c) + KSTACK_SIZE) s;
          s = (if addrspace (task_at s c) \<noteq> 0 then modify_mm (hal_paging_switch (addrspace (task_at s c))) s else s)
      in s\<lparr>esp := ctx (task_at s c)\<rparr>)"

text \<open>A running task that gives up the CPU becomes ready again.\<close>

definition demote :: "sched \<Rightarrow> sched" where
  "demote s =
     (if tstate (task_at s (current s)) = TASK_RUNNING
      then modify_task (current s) (\<lambda>x. x\<lparr>tstate := TASK_READY\<rparr>) s else s)"

definition sched_yield :: "sched \<Rightarrow> sched option" where
  "sched_yield s =
     (if \<not> started s then Some s
      else case pick_next s of
             None \<Rightarrow> None
           | Some nxt \<Rightarrow> Some (if nxt \<noteq> current s then switch_to nxt (demote s) else s))"

definition sched_tick :: "sched \<Rightarrow> sched option" where
  "sched_tick s =
     (if \<not> started s \<or> current s = 0 then Some s
      else let s = (if time_slice (task_at s (current s)) > 0
                    then modify_task (current s) (\<lambda>x. x\<lparr>time_slice := time_slice x - 1\<rparr>) s else s)
           in if time_slice (task_at s (current s)) = 0
              then case pick_next s of
                     None \<Rightarrow> None
                   | Some nxt \<Rightarrow>
                       Some (if nxt \<noteq> current s then switch_to nxt (demote s)
                             else modify_task (current s) (\<lambda>x. x\<lparr>time_slice := QUANTUM\<rparr>) s)
              else Some s)"

section \<open>Blocking and exit\<close>

definition sched_wakeup_parent :: "u32 \<Rightarrow> sched \<Rightarrow> sched" where
  "sched_wakeup_parent t s =
     (let p = parent (task_at s t)
      in if p \<noteq> 0 \<and> tstate (task_at s p) = TASK_BLOCKED \<and> waiting (task_at s p)
         then modify_task p (\<lambda>x. x\<lparr>waiting := False, tstate := TASK_READY\<rparr>) s else s)"

fun orphan_children :: "u32 \<Rightarrow> u32 list \<Rightarrow> sched \<Rightarrow> sched" where
  "orphan_children c [] s = s"
| "orphan_children c (t # ts) s =
     orphan_children c ts
       (if t \<noteq> 0 \<and> parent (task_at s t) = c
        then modify_task t (\<lambda>x. x\<lparr>parent := 0, ppid := 1\<rparr>) s else s)"

text \<open>Closing the files of a task, slot by slot; the first argument counts the slots left.\<close>

fun close_files :: "nat \<Rightarrow> nat \<Rightarrow> u32 \<Rightarrow> sched \<Rightarrow> sched" where
  "close_files 0 i c s = s"
| "close_files (Suc n) i c s =
     close_files n (i + 1) c
       (if tfiles (task_at s c) ! i \<noteq> 0
        then modify_task c (\<lambda>x. x\<lparr>tfiles := (tfiles x)[i := 0]\<rparr>)
               (s\<lparr>objs := filp_close (tfiles (task_at s c) ! i) (objs s)\<rparr>)
        else s)"

definition sched_exit :: "int \<Rightarrow> sched \<Rightarrow> sched option" where
  "sched_exit code s =
     (let c = current s;
          s = modify_task c (\<lambda>x. x\<lparr>exit_code := code, tstate := TASK_ZOMBIE\<rparr>) s;
          s = orphan_children c (tasks s) s;
          s = close_files MAX_FILES 0 c s;
          s = sched_wakeup_parent c s
      in case pick_next s of None \<Rightarrow> None | Some nxt \<Rightarrow> Some (switch_to nxt s))"

definition sched_block :: "sched \<Rightarrow> sched option" where
  "sched_block s =
     (let s = modify_task (current s) (\<lambda>x. x\<lparr>tstate := TASK_BLOCKED\<rparr>) s
      in case pick_next s of
           None \<Rightarrow> None
         | Some nxt \<Rightarrow> Some (if nxt \<noteq> current s then switch_to nxt s else s))"

definition sched_unblock :: "u32 \<Rightarrow> sched \<Rightarrow> sched" where
  "sched_unblock t s =
     (if tstate (task_at s t) = TASK_BLOCKED then modify_task t (\<lambda>x. x\<lparr>tstate := TASK_READY\<rparr>) s else s)"

declare ring_last.simps [code] ring_prev.simps [code] pick_loop.simps [code]

section \<open>The run queue as a ring\<close>

fun chain :: "sched \<Rightarrow> u32 list \<Rightarrow> u32 \<Rightarrow> bool" where
  "chain s [] nx \<longleftrightarrow> True"
| "chain s (t # ts) nx \<longleftrightarrow> tnext (task_at s t) = first_or nx ts \<and> chain s ts nx"

definition ring :: "sched \<Rightarrow> u32 list \<Rightarrow> bool" where
  "ring s ts \<longleftrightarrow>
     (if ts = [] then task_list s = 0
      else task_list s = hd ts \<and> chain s ts (hd ts) \<and> distinct ts \<and> 0 \<notin> set ts)"

lemma chain_append: "chain s (xs @ ys) nx \<longleftrightarrow> chain s xs (first_or nx ys) \<and> chain s ys nx"
  by (induction xs) (auto simp: first_or_append)

lemma chain_cong:
  "(\<And>t. t \<in> set ts \<Longrightarrow> tnext (task_at s' t) = tnext (task_at s t)) \<Longrightarrow> chain s' ts nx = chain s ts nx"
  by (induction ts) simp_all

lemma chain_rotate:
  assumes "chain s (xs @ ys) (hd (xs @ ys))" and "xs \<noteq> []" and "ys \<noteq> []"
  shows "chain s (ys @ xs) (hd ys)"
  using assms by (cases xs; cases ys) (auto simp: chain_append first_or_append)

lemma ring_cong:
  assumes "\<And>t. tnext (task_at s' t) = tnext (task_at s t)" and "task_list s' = task_list s"
  shows "ring s' ts = ring s ts"
  using assms chain_cong [of ts s' s] by (auto simp: ring_def)

text \<open>Which fields the small updates leave alone.\<close>

lemma modify_task_simps [simp]:
  "task_at (modify_task t f s) u = (if u = t then f (task_at s t) else task_at s u)"
  "current (modify_task t f s) = current s" "task_list (modify_task t f s) = task_list s"
  "tasks (modify_task t f s) = tasks s" "started (modify_task t f s) = started s"
  "idle_task (modify_task t f s) = idle_task s" "objs (modify_task t f s) = objs s"
  "next_pid (modify_task t f s) = next_pid s" "tss_esp0 (modify_task t f s) = tss_esp0 s"
  by (simp_all add: modify_task_def)

lemma modify_heap_simps [simp]:
  "task_at (modify_heap f s) = task_at s" "current (modify_heap f s) = current s"
  "task_list (modify_heap f s) = task_list s" "tasks (modify_heap f s) = tasks s"
  "started (modify_heap f s) = started s" "idle_task (modify_heap f s) = idle_task s"
  "task_at (modify_mm g s) = task_at s" "current (modify_mm g s) = current s"
  "task_list (modify_mm g s) = task_list s" "tasks (modify_mm g s) = tasks s"
  "started (modify_mm g s) = started s" "idle_task (modify_mm g s) = idle_task s"
  by (simp_all add: modify_heap_def modify_mm_def)

lemma switch_to_simps:
  "current (switch_to nxt s) = nxt" "task_list (switch_to nxt s) = task_list s"
  "tasks (switch_to nxt s) = tasks s" "started (switch_to nxt s) = started s"
  "idle_task (switch_to nxt s) = idle_task s"
  "tnext (task_at (switch_to nxt s) t) = tnext (task_at s t)"
  "tstate (task_at (switch_to nxt s) t) = (if t = nxt then TASK_RUNNING else tstate (task_at s t))"
  "time_slice (task_at (switch_to nxt s) t) = (if t = nxt then QUANTUM else time_slice (task_at s t))"
  "parent (task_at (switch_to nxt s) t) = parent (task_at s t)"
  "exit_code (task_at (switch_to nxt s) t) = exit_code (task_at s t)"
  "tfiles (task_at (switch_to nxt s) t) = tfiles (task_at s t)"
  by (simp_all add: switch_to_def hal_context_switch_def hal_tss_set_kernel_stack_def Let_def)

lemma demote_simps:
  "current (demote s) = current s" "task_list (demote s) = task_list s" "tasks (demote s) = tasks s"
  "started (demote s) = started s" "idle_task (demote s) = idle_task s"
  "tnext (task_at (demote s) t) = tnext (task_at s t)"
  "tstate (task_at (demote s) t) =
     (if t = current s \<and> tstate (task_at s t) = TASK_RUNNING then TASK_READY else tstate (task_at s t))"
  by (auto simp: demote_def)

lemmas switch_simps = switch_to_simps demote_simps

section \<open>Picking the next task\<close>

lemma pick_loop_spec:
  assumes "chain s (t # us) start" and "start \<notin> set us"
  shows "pick_loop start t s =
    Some (case find (\<lambda>u. runnable (task_at s u)) (t # us) of Some u \<Rightarrow> u | None \<Rightarrow> idle_task s)"
  using assms
proof (induction us arbitrary: t)
  case Nil
  then show ?case
    by (simp add: pick_loop.simps [of start t])
next
  case (Cons u us)
  show ?case
  proof (cases "runnable (task_at s t)")
    case False
    then have "pick_loop start t s = pick_loop start u s"
      using Cons.prems by (subst pick_loop.simps) auto
    then show ?thesis
      using Cons False by simp
  qed (simp add: pick_loop.simps [of start t])
qed

text \<open>The tasks after \<open>c\<close> in ring order, \<open>c\<close> itself last.\<close>

definition after :: "u32 \<Rightarrow> u32 list \<Rightarrow> u32 list" where
  "after c ts = tl (dropWhile (\<lambda>t. t \<noteq> c) ts) @ takeWhile (\<lambda>t. t \<noteq> c) ts @ [c]"

lemma after_split: "c \<notin> set xs \<Longrightarrow> after c (xs @ c # ys) = ys @ xs @ [c]"
proof -
  assume "c \<notin> set xs"
  then have "takeWhile (\<lambda>t. t \<noteq> c) (xs @ c # ys) = xs" "dropWhile (\<lambda>t. t \<noteq> c) (xs @ c # ys) = c # ys"
    by (induction xs) auto
  then show ?thesis
    by (simp add: after_def)
qed

lemma after_props:
  assumes "c \<in> set ts" and "distinct ts"
  shows "set (after c ts) = set ts" and "distinct (after c ts)" and "length (after c ts) = length ts"
proof -
  obtain xs ys where ts: "ts = xs @ c # ys" and "c \<notin> set xs"
    using split_list_first [OF assms(1)] by blast
  then show "set (after c ts) = set ts" "distinct (after c ts)" "length (after c ts) = length ts"
    using assms(2) by (auto simp: after_split)
qed

lemma chain_after:
  assumes "ring s ts" and "c \<in> set ts"
  shows "chain s (after c ts) (hd (after c ts))" and "tnext (task_at s c) = hd (after c ts)"
proof -
  obtain xs ys where ts: "ts = xs @ c # ys" and c: "c \<notin> set xs"
    using split_list_first [OF assms(2)] by blast
  have ch: "chain s (xs @ c # ys) (hd (xs @ c # ys))"
    using assms by (auto simp: ring_def ts split: if_splits)
  have af: "after c ts = ys @ xs @ [c]"
    using after_split [OF c] by (simp add: ts)
  show "chain s (after c ts) (hd (after c ts))"
    using chain_rotate [of s "xs @ [c]" ys] ch unfolding af by (cases "ys = []") (simp_all add: hd_append)
  show "tnext (task_at s c) = hd (after c ts)"
    using ch unfolding af by (cases ys; cases xs) (auto simp: chain_append)
qed

lemma pick_next_spec:
  assumes "ring s ts" and "current s \<in> set ts"
  shows "pick_next s = Some (case find (\<lambda>u. runnable (task_at s u)) (after (current s) ts) of
    Some u \<Rightarrow> u | None \<Rightarrow> idle_task s)"
proof -
  have d: "distinct ts" and z: "0 \<notin> set ts"
    using assms by (auto simp: ring_def split: if_splits)
  note A = after_props [OF assms(2) d] and C = chain_after [OF assms]
  obtain t us where tu: "after (current s) ts = t # us"
    using A(1) assms(2) by (cases "after (current s) ts") auto
  have "t \<in> set ts"
    using A(1) tu by (metis list.set_intros(1))
  then have "current s \<noteq> 0" "t \<noteq> 0"
    using assms(2) z by auto
  moreover have "chain s (t # us) t" "t \<notin> set us"
    using C(1) A(2) by (simp_all add: tu)
  ultimately show ?thesis
    using pick_loop_spec [of s t us t] C(2) by (simp add: pick_next_def tu)
qed

section \<open>Adding and removing\<close>

lemma ring_last_spec:
  assumes "chain s (p # us) (task_list s)" and "task_list s \<notin> set us"
  shows "ring_last p s = Some (last (p # us))"
  using assms
proof (induction us arbitrary: p)
  case Nil
  then show ?case
    by (simp add: ring_last.simps [of p])
next
  case (Cons u us)
  then have "ring_last p s = ring_last u s"
    by (subst ring_last.simps) auto
  then show ?case
    using Cons by simp
qed

lemma sched_add_spec:
  assumes "ring s ts" and "t \<notin> set ts" and "t \<noteq> 0"
  obtains s' where "sched_add t s = Some s'" and "ring s' (ts @ [t])" and "current s' = current s"
    and "idle_task s' = idle_task s" and "started s' = started s"
    and "\<And>u. tstate (task_at s' u) = tstate (task_at s u)"
    and "\<And>u. u \<notin> set (ts @ [t]) \<Longrightarrow> tnext (task_at s' u) = tnext (task_at s u)"
proof (cases ts rule: rev_cases)
  case Nil
  then show ?thesis
    using assms that [of "modify_task t (\<lambda>x. x\<lparr>tnext := t\<rparr>) (s\<lparr>task_list := t\<rparr>)"]
    by (simp add: ring_def sched_add_def)
next
  case (snoc us l)
  let ?s1 = "modify_task l (\<lambda>x. x\<lparr>tnext := t\<rparr>) s"
  let ?s2 = "modify_task t (\<lambda>x. x\<lparr>tnext := task_list s\<rparr>) ?s1"
  have tl: "task_list s = hd ts" and ch: "chain s ts (hd ts)" and d: "distinct ts" and z: "0 \<notin> set ts"
    using assms(1) by (simp_all add: ring_def snoc split: if_splits)
  have "ring_last (task_list s) s = Some l"
  proof -
    have "ts \<noteq> []"
      by (simp add: snoc)
    then obtain a as where as: "ts = a # as"
      by (meson neq_Nil_conv)
    then have "ring_last a s = Some (last ts)"
      using ring_last_spec [of s a as] tl ch d by simp
    moreover have "last ts = l" "task_list s = a"
      using tl by (simp add: snoc, simp add: as)
    ultimately show ?thesis by simp
  qed
  moreover have "task_list s \<noteq> 0"
  proof -
    have "hd ts \<in> set ts"
      by (cases us) (simp_all add: snoc)
    then show ?thesis
      using z tl by metis
  qed
  ultimately have "sched_add t s = Some ?s2"
    by (simp add: sched_add_def Let_def)
  moreover have "ring ?s2 (ts @ [t])"
  proof -
    have "chain s us l"
      using ch by (simp add: snoc chain_append)
    moreover have "chain ?s2 us l = chain s us l"
      using d assms(2) by (intro chain_cong) (auto simp: snoc)
    ultimately have "chain ?s2 (us @ [l, t]) (task_list s)"
      using assms(2) by (auto simp: chain_append snoc)
    then show ?thesis
      using d z assms(2,3) tl by (auto simp: ring_def snoc hd_append)
  qed
  ultimately show ?thesis
    by (rule that) (simp_all add: snoc)
qed

lemma ring_prev_spec:
  assumes "chain s (p # us) (task_list s)" and "task_list s \<notin> set us" and "t \<in> set us \<or> t = task_list s"
  shows "\<exists>vs q ws. p # us = vs @ q # ws \<and> ring_prev t p s = Some (Some q) \<and> first_or (task_list s) ws = t"
  using assms
proof (induction us arbitrary: p)
  case Nil
  then show ?case
    by (intro exI [of _ "[]"] exI [of _ p], subst ring_prev.simps) simp
next
  case (Cons u us)
  show ?case
  proof (cases "u = t")
    case True
    then show ?thesis
      using Cons.prems by (intro exI [of _ "[]"]) (simp add: ring_prev.simps [of t p])
  next
    case False
    then have "ring_prev t p s = ring_prev t u s"
      using Cons.prems by (subst ring_prev.simps) auto
    moreover obtain vs q ws where "u # us = vs @ q # ws" "ring_prev t u s = Some (Some q)"
      "first_or (task_list s) ws = t"
      using Cons.IH [of u] Cons.prems False by auto
    ultimately show ?thesis
      by (intro exI [of _ "p # vs"] exI [of _ q] exI [of _ ws]) simp
  qed
qed


lemma chain_unlink:
  assumes "chain s (xs @ t # ys) nx" and "distinct (xs @ t # ys)" and "xs \<noteq> []"
  shows "chain (modify_task (last xs) (\<lambda>x. x\<lparr>tnext := tnext (task_at s t)\<rparr>) s) (xs @ ys) nx"
proof -
  obtain us p where xs: "xs = us @ [p]"
    using assms(3) by (metis append_butlast_last_id)
  let ?s = "modify_task p (\<lambda>x. x\<lparr>tnext := tnext (task_at s t)\<rparr>) s"
  have "chain ?s us p = chain s us p" "chain ?s ys nx = chain s ys nx"
    using assms(2) by (intro chain_cong; auto simp: xs)+
  then show ?thesis
    using assms(1) by (auto simp: xs chain_append)
qed

lemma ring_unlink_spec:
  assumes "ring s (xs @ t # ys)"
  obtains s' where "ring_unlink t s = Some s'" and "ring s' (xs @ ys)"
    and "current s' = current s" and "idle_task s' = idle_task s" and "started s' = started s"
    and "\<And>u. (task_at s' u)\<lparr>tnext := 0\<rparr> = (task_at s u)\<lparr>tnext := 0\<rparr>"
    and "\<And>u. u \<notin> set (xs @ t # ys) \<Longrightarrow> tnext (task_at s' u) = tnext (task_at s u)"
proof -
  let ?ts = "xs @ t # ys"
  have tl: "task_list s = hd ?ts" and ch: "chain s ?ts (hd ?ts)" and d: "distinct ?ts" and z: "0 \<notin> set ?ts"
    using assms by (simp_all add: ring_def)
  have tl0: "task_list s \<noteq> 0"
    using z tl by (cases xs) auto
  consider (single) "xs = []" "ys = []" | (first) "xs = []" "ys \<noteq> []" | (inner) "xs \<noteq> []"
    by blast
  then show ?thesis
  proof cases
    case single
    then have "ring_unlink t s = Some ((modify_task t (\<lambda>x. x\<lparr>tnext := t\<rparr>) s)\<lparr>task_list := 0\<rparr>)"
      using tl tl0 ch by (simp add: ring_unlink_def ring_prev.simps [of t t])
    then show ?thesis
      by (rule that) (simp_all add: single ring_def)
  next
    case first
    let ?s = "modify_task (last ys) (\<lambda>x. x\<lparr>tnext := tnext (task_at s t)\<rparr>) s"
    obtain y ys' where ys: "ys = y # ys'"
      using first(2) by (cases ys) simp_all
    have "last ys \<in> set ys"
      using first(2) by simp
    then have nt: "tnext (task_at s t) = hd ys" "hd ys \<noteq> t" "hd ys \<noteq> 0" "last ys \<noteq> t" "task_list s = t"
      using ch first(1) d z tl by (auto simp: ys)
    obtain vs q ws where q: "t # ys = vs @ q # ws" "ring_prev t t s = Some (Some q)" "first_or t ws = t"
      using ring_prev_spec [of s t ys t] ch d first nt(5) by auto
    have "ws = []"
      using q(1,3) d first by (cases vs; cases ws) auto
    then have "q = last ys"
      using q(1) first by (metis last.simps last_snoc)
    then have u: "ring_unlink t s = Some (?s\<lparr>task_list := hd ys\<rparr>)"
      using q(2) nt tl0 by (simp add: ring_unlink_def Let_def)
    have "chain s (ys @ [t]) (hd ys)"
      using chain_rotate [of s "[t]" ys] ch first by simp
    then have "chain ?s ys (hd ys)"
      using chain_unlink [of s ys t "[]" "hd ys"] d first by auto
    then have "chain (?s\<lparr>task_list := hd ys\<rparr>) ys (hd ys)"
      by (subst chain_cong [where s = ?s]) simp_all
    then have "ring (?s\<lparr>task_list := hd ys\<rparr>) (xs @ ys)"
      using d z first by (simp add: ring_def)
    then show ?thesis
      using \<open>last ys \<in> set ys\<close> by (intro that [OF u]) (auto simp: nt(4))
  next
    case inner
    let ?s = "modify_task (last xs) (\<lambda>x. x\<lparr>tnext := tnext (task_at s t)\<rparr>) s"
    have tl': "task_list s = hd xs" "t \<noteq> task_list s" "last xs \<noteq> t"
      using tl inner d by (cases xs rule: rev_cases; auto simp: hd_append split: if_splits)+
    obtain vs q ws where q: "?ts = vs @ q # ws" "ring_prev t (task_list s) s = Some (Some q)"
      "first_or (task_list s) ws = t"
      using ring_prev_spec [of s "hd xs" "tl xs @ t # ys" t] ch d inner tl' by (cases xs) auto
    obtain ws' where ws: "ws = t # ws'"
      using q(3) tl'(2) by (cases ws) auto
    then have "xs @ t # ys = (vs @ [q]) @ t # ws'"
      using q(1) by simp
    then have "xs = vs @ [q]"
      using d by (subst (asm) append_Cons_eq_iff) auto
    then have u: "ring_unlink t s = Some ?s"
      using q(2) tl' tl0 by (simp add: ring_unlink_def Let_def)
    have "chain ?s (xs @ ys) (hd xs)"
      using chain_unlink [of s xs t ys] ch d inner by (simp add: hd_append)
    then have "ring ?s (xs @ ys)"
      using d z inner tl' by (simp add: ring_def hd_append)
    then show ?thesis
      using last_in_set [OF inner] by (intro that [OF u]) (auto simp: tl'(3))
  qed
qed


section \<open>Round robin\<close>

lemma find_SomeD:
  assumes "find P xs = Some y"
  obtains us vs where "xs = us @ y # vs" and "P y" and "\<And>u. u \<in> set us \<Longrightarrow> \<not> P u"
  using assms unfolding find_Some_iff
  by (metis (no_types, lifting) Cons_nth_drop_Suc append_take_drop_id in_set_conv_nth length_take
      min_less_iff_conj nth_take)

definition runs :: "sched \<Rightarrow> u32 \<Rightarrow> bool" where
  "runs s t \<longleftrightarrow> runnable (task_at s t)"

lemma sched_yield_spec:
  assumes "ring s ts" and "current s \<in> set ts" and "started s" and "t \<in> set ts" and "runs s t"
  obtains s' where "sched_yield s = Some s'" and "ring s' ts" and "started s'" and "idle_task s' = idle_task s"
    and "find (runs s) (after (current s) ts) = Some (current s')"
    and "\<And>u. runs s' u = runs s u"
proof -
  have d: "distinct ts"
    using assms by (auto simp: ring_def split: if_splits)
  obtain n where n: "find (runs s) (after (current s) ts) = Some n"
    using after_props(1) [OF assms(2) d] assms(4,5)
    by (cases "find (runs s) (after (current s) ts)") (auto simp: find_None_iff)
  have run: "runs s n"
    using n by (auto simp: find_Some_iff)
  have p: "pick_next s = Some n"
    using pick_next_spec [OF assms(1,2)] n by (simp add: runs_def [abs_def])
  show ?thesis
  proof (cases "n = current s")
    case True
    then have "sched_yield s = Some s"
      using assms(3) p by (simp add: sched_yield_def)
    then show ?thesis
      using that assms(1,3) n True by blast
  next
    case False
    let ?s = "switch_to n (demote s)"
    have "sched_yield s = Some ?s"
      using assms(3) p False by (simp add: sched_yield_def)
    moreover have "ring ?s ts"
      using assms(1) ring_cong [of ?s s ts] by (simp add: switch_simps)
    moreover have "runs ?s u = runs s u" for u
      using run by (auto simp: runs_def runnable_def switch_simps)
    ultimately show ?thesis
      using that [of ?s] assms(3) n by (simp add: switch_simps)
  qed
qed

fun yields :: "nat \<Rightarrow> sched \<Rightarrow> sched option" where
  "yields 0 s = Some s"
| "yields (Suc n) s = (case sched_yield s of None \<Rightarrow> None | Some s' \<Rightarrow> yields n s')"

lemma after_later:
  assumes "c \<in> set ts" and "distinct ts" and "after c ts = us @ e # rs" and "rs \<noteq> []"
  shows "\<exists>ws. after e ts = rs @ ws"
proof -
  obtain xs ys where ts: "ts = xs @ c # ys" and c: "c \<notin> set xs"
    using split_list_first [OF assms(1)] by blast
  have "us @ e # rs = ys @ xs @ [c]"
    using after_split [OF c, of ys] assms(3) by (simp add: ts)
  then consider zs where "us = ys @ zs" "zs @ e # rs = xs @ [c]"
    | zs where "ys = us @ e # zs" "rs = zs @ xs @ [c]"
    using assms(4) by (auto simp: append_eq_append_conv2 Cons_eq_append_conv)
  then show ?thesis
  proof cases
    case 1
    obtain rs' x where rs: "rs = rs' @ [x]"
      using assms(4) by (metis append_butlast_last_id)
    then have "xs = zs @ e # rs'" "x = c"
      using 1(2) by simp_all
    moreover from this have "e \<notin> set zs"
      using assms(2) by (simp add: ts)
    ultimately show ?thesis
      using after_split [of e zs "rs' @ c # ys"] by (simp add: ts rs)
  next
    case 2
    then have "e \<notin> set (xs @ c # us)"
      using assms(2) by (auto simp: ts)
    then show ?thesis
      using after_split [of e "xs @ c # us" zs] 2 by (simp add: ts)
  qed
qed

lemma yields_reach:
  assumes "ring s ts" and "current s \<in> set ts" and "started s" and "runs s t"
    and "after (current s) ts = us @ t # vs"
  shows "\<exists>n s'. n \<le> Suc (length us) \<and> 0 < n \<and> yields n s = Some s' \<and> current s' = t"
  using assms
proof (induction "length us" arbitrary: s us vs rule: less_induct)
  case less
  have d: "distinct ts"
    using less.prems by (auto simp: ring_def split: if_splits)
  note A = after_props [OF less.prems(2) d]
  have "t \<in> set ts"
    using A(1) less.prems(5) by (metis in_set_conv_decomp)
  then obtain s' where s': "sched_yield s = Some s'" "ring s' ts" "started s'"
    "find (runs s) (after (current s) ts) = Some (current s')" "\<And>u. runs s' u = runs s u"
    using sched_yield_spec [OF less.prems(1-3) _ less.prems(4)] by metis
  show ?case
  proof (cases "current s' = t")
    case True
    then show ?thesis
      using s'(1) by (intro exI [of _ "Suc 0"] exI [of _ s']) simp
  next
    case False
    obtain ps qs where ps: "after (current s) ts = ps @ current s' # qs" "\<And>u. u \<in> set ps \<Longrightarrow> \<not> runs s u"
      by (rule find_SomeD [OF s'(4)]) blast
    have "t \<notin> set ps"
      using ps(2) less.prems(4) by blast
    moreover have "t \<in> set (ps @ current s' # qs)"
      using ps(1) less.prems(5) by (metis in_set_conv_decomp)
    ultimately have "t \<in> set qs"
      using False by simp
    then obtain ms rs where qs: "qs = ms @ t # rs"
      by (meson split_list)
    have "us @ t # vs = (ps @ current s' # ms) @ t # rs"
      using ps(1) less.prems(5) qs by simp
    then have ms: "us = ps @ current s' # ms"
      using A(2) less.prems(5) by (subst (asm) append_Cons_eq_iff) auto
    obtain ws where "after (current s') ts = ms @ t # ws"
      using after_later [OF less.prems(2) d ps(1)] qs by auto
    moreover have "current s' \<in> set ts"
      using A(1) ps(1) by (metis in_set_conv_decomp)
    moreover have "runs s' t"
      using s'(5) less.prems(4) by simp
    ultimately have "\<exists>n s''. n \<le> Suc (length ms) \<and> 0 < n \<and> yields n s' = Some s'' \<and> current s'' = t"
      using s'(2,3) ms by (intro less.hyps) simp_all
    then obtain n s'' where "n \<le> Suc (length ms)" "yields n s' = Some s''" "current s'' = t"
      by blast
    then show ?thesis
      using s'(1) ms by (intro exI [of _ "Suc n"] exI [of _ s'']) simp
  qed
qed


section \<open>The scheduler as a transition system\<close>

definition sched_inv :: "sched \<Rightarrow> u32 list \<Rightarrow> bool" where
  "sched_inv s ts \<longleftrightarrow>
     ring s ts \<and> idle_task s \<noteq> 0 \<and> idle_task s \<notin> set ts \<and> tnext (task_at s (idle_task s)) = 0
     \<and> (current s \<in> set ts \<or> current s = idle_task s)
     \<and> (\<forall>t\<in>set ts. tstate (task_at s t) = TASK_RUNNING \<longrightarrow> t = current s)"

inductive sched_step :: "sched \<Rightarrow> sched \<Rightarrow> bool" where
  yield: "sched_yield s = Some s' \<Longrightarrow> sched_step s s'"
| tick: "sched_tick s = Some s' \<Longrightarrow> sched_step s s'"
| block: "current s \<noteq> idle_task s \<Longrightarrow> sched_block s = Some s' \<Longrightarrow> sched_step s s'"
| exit: "current s \<noteq> idle_task s \<Longrightarrow> sched_exit code s = Some s' \<Longrightarrow> sched_step s s'"
| unblock: "sched_step s (sched_unblock t s)"
| wakeup: "sched_step s (sched_wakeup_parent t s)"
| add: "t \<noteq> 0 \<Longrightarrow> t \<noteq> idle_task s \<Longrightarrow> tstate (task_at s t) = TASK_READY \<Longrightarrow> \<forall>ts. ring s ts \<longrightarrow> t \<notin> set ts \<Longrightarrow>
    sched_add t s = Some s' \<Longrightarrow> sched_step s s'"
| reap: "t \<noteq> current s \<Longrightarrow> \<forall>ts. ring s ts \<longrightarrow> t \<in> set ts \<Longrightarrow> sched_reap t s = Some s' \<Longrightarrow> sched_step s s'"

inductive_cases sched_stepE: "sched_step s s'"

lemma sched_inv_cong:
  assumes "sched_inv s ts" and "task_list s' = task_list s" and "current s' = current s"
    and "idle_task s' = idle_task s" and "\<And>t. tnext (task_at s' t) = tnext (task_at s t)"
    and "\<And>t. tstate (task_at s' t) = TASK_RUNNING \<Longrightarrow> tstate (task_at s t) = TASK_RUNNING"
  shows "sched_inv s' ts"
  using assms ring_cong [of s' s ts] by (auto simp: sched_inv_def)

lemma pick_next_inv:
  assumes "sched_inv s ts"
  obtains n where "pick_next s = Some n" and "n \<in> set ts \<and> runnable (task_at s n) \<or> n = idle_task s"
    and "current s = idle_task s \<Longrightarrow> n = idle_task s"
proof (cases "current s = idle_task s")
  case True
  then have "pick_next s = Some (idle_task s)"
    using assms by (simp add: sched_inv_def pick_next_def)
  then show ?thesis
    using that True by blast
next
  case False
  then have c: "current s \<in> set ts" and r: "ring s ts" and "distinct ts"
    using assms by (auto simp: sched_inv_def ring_def split: if_splits)
  note A = after_props [OF c \<open>distinct ts\<close>]
  show ?thesis
  proof (cases "find (\<lambda>u. runnable (task_at s u)) (after (current s) ts)")
    case None
    then show ?thesis
      using that pick_next_spec [OF r c] False by auto
  next
    case (Some n)
    then have "n \<in> set (after (current s) ts)" "runnable (task_at s n)"
      by (auto simp: find_Some_iff)
    then show ?thesis
      using that pick_next_spec [OF r c] Some A(1) False by auto
  qed
qed

lemma switch_to_inv:
  assumes "sched_inv s ts" and "n \<in> set ts \<or> n = idle_task s"
    and "current s = idle_task s \<or> tstate (task_at s (current s)) \<noteq> TASK_RUNNING"
  shows "sched_inv (switch_to n s) ts"
  using assms ring_cong [of "switch_to n s" s ts] by (auto simp: sched_inv_def switch_simps)

lemma demote_inv:
  assumes "sched_inv s ts"
  shows "sched_inv (demote s) ts" and "tstate (task_at (demote s) (current s)) \<noteq> TASK_RUNNING"
  using assms by (auto intro!: sched_inv_cong [OF assms] simp: switch_simps split: if_splits)

lemma sched_yield_inv:
  assumes "sched_inv s ts"
  obtains s' where "sched_yield s = Some s'" and "sched_inv s' ts"
proof -
  obtain n where n: "pick_next s = Some n" "n \<in> set ts \<or> n = idle_task s"
    using pick_next_inv [OF assms] by blast
  have "sched_inv (switch_to n (demote s)) ts"
    using demote_inv [OF assms] n(2) by (intro switch_to_inv) (auto simp: switch_simps)
  then show ?thesis
    using that n(1) assms by (cases "started s"; cases "n = current s") (auto simp: sched_yield_def)
qed

lemma sched_tick_inv:
  assumes "sched_inv s ts"
  obtains s' where "sched_tick s = Some s'" and "sched_inv s' ts"
proof (cases "\<not> started s \<or> current s = 0")
  case True
  then show ?thesis
    using that assms by (simp add: sched_tick_def)
next
  case False
  define s1 where "s1 = (if time_slice (task_at s (current s)) > 0
    then modify_task (current s) (\<lambda>x. x\<lparr>time_slice := time_slice x - 1\<rparr>) s else s)"
  have inv: "sched_inv s1 ts"
    by (rule sched_inv_cong [OF assms]) (auto simp: s1_def split: if_splits)
  have c: "current s1 = current s"
    by (simp add: s1_def)
  obtain n where n: "pick_next s1 = Some n" "n \<in> set ts \<or> n = idle_task s1"
    using pick_next_inv [OF inv] by blast
  have a: "sched_inv (switch_to n (demote s1)) ts"
    using demote_inv [OF inv] n(2) by (intro switch_to_inv) (auto simp: switch_simps)
  have b: "sched_inv (modify_task (current s1) (\<lambda>x. x\<lparr>time_slice := QUANTUM\<rparr>) s1) ts"
    by (rule sched_inv_cong [OF inv]) (auto split: if_splits)
  have "sched_tick s = (if time_slice (task_at s1 (current s1)) = 0
      then Some (if n \<noteq> current s1 then switch_to n (demote s1)
                 else modify_task (current s1) (\<lambda>x. x\<lparr>time_slice := QUANTUM\<rparr>) s1)
      else Some s1)"
    using False n(1) by (simp add: sched_tick_def s1_def [symmetric] Let_def c)
  then show ?thesis
    using that a b inv by (auto split: if_splits)
qed

lemma sched_block_inv:
  assumes "sched_inv s ts" and "current s \<noteq> idle_task s"
  obtains s' where "sched_block s = Some s'" and "sched_inv s' ts"
proof -
  define s1 where "s1 = modify_task (current s) (\<lambda>x. x\<lparr>tstate := TASK_BLOCKED\<rparr>) s"
  have inv: "sched_inv s1 ts"
    by (rule sched_inv_cong [OF assms(1)]) (auto simp: s1_def split: if_splits)
  obtain n where n: "pick_next s1 = Some n" "n \<in> set ts \<or> n = idle_task s1"
    using pick_next_inv [OF inv] by blast
  have "sched_inv (switch_to n s1) ts"
    using n(2) by (intro switch_to_inv [OF inv]) (auto simp: s1_def)
  then show ?thesis
    using that n(1) inv by (auto simp: sched_block_def s1_def [symmetric] Let_def)
qed

lemma orphan_children_frame:
  "tnext (task_at (orphan_children c ts s) t) = tnext (task_at s t)"
  "tstate (task_at (orphan_children c ts s) t) = tstate (task_at s t)"
  "exit_code (task_at (orphan_children c ts s) t) = exit_code (task_at s t)"
  "current (orphan_children c ts s) = current s" "task_list (orphan_children c ts s) = task_list s"
  "idle_task (orphan_children c ts s) = idle_task s" "tasks (orphan_children c ts s) = tasks s"
  "waiting (task_at (orphan_children c ts s) t) = waiting (task_at s t)"
  "tfiles (task_at (orphan_children c ts s) t) = tfiles (task_at s t)"
  by (induction ts arbitrary: s) simp_all

lemma close_files_frame:
  "tnext (task_at (close_files n i c s) t) = tnext (task_at s t)"
  "tstate (task_at (close_files n i c s) t) = tstate (task_at s t)"
  "exit_code (task_at (close_files n i c s) t) = exit_code (task_at s t)"
  "current (close_files n i c s) = current s" "task_list (close_files n i c s) = task_list s"
  "idle_task (close_files n i c s) = idle_task s" "tasks (close_files n i c s) = tasks s"
  "waiting (task_at (close_files n i c s) t) = waiting (task_at s t)"
  "parent (task_at (close_files n i c s) t) = parent (task_at s t)"
  by (induction n arbitrary: i s) simp_all


lemma wakeup_frame:
  "tnext (task_at (sched_wakeup_parent p s) t) = tnext (task_at s t)"
  "exit_code (task_at (sched_wakeup_parent p s) t) = exit_code (task_at s t)"
  "current (sched_wakeup_parent p s) = current s" "task_list (sched_wakeup_parent p s) = task_list s"
  "idle_task (sched_wakeup_parent p s) = idle_task s" "tasks (sched_wakeup_parent p s) = tasks s"
  "started (sched_wakeup_parent p s) = started s"
  "tstate (task_at (sched_wakeup_parent p s) t) =
     (if t = parent (task_at s p) \<and> t \<noteq> 0 \<and> tstate (task_at s t) = TASK_BLOCKED \<and> waiting (task_at s t)
      then TASK_READY else tstate (task_at s t))"
  "parent (task_at (sched_wakeup_parent p s) t) = parent (task_at s t)"
  by (auto simp: sched_wakeup_parent_def Let_def)

text \<open>The state in which \<^verbatim>\<open>sched_exit\<close> picks the next task.\<close>

definition exit_prepare :: "int \<Rightarrow> sched \<Rightarrow> sched" where
  "exit_prepare code s =
     (let c = current s;
          s = modify_task c (\<lambda>x. x\<lparr>exit_code := code, tstate := TASK_ZOMBIE\<rparr>) s;
          s = orphan_children c (tasks s) s;
          s = close_files MAX_FILES 0 c s
      in sched_wakeup_parent c s)"

lemma sched_exit_eq:
  "sched_exit code s =
     (case pick_next (exit_prepare code s) of None \<Rightarrow> None | Some nxt \<Rightarrow> Some (switch_to nxt (exit_prepare code s)))"
  by (simp only: sched_exit_def exit_prepare_def Let_def)

lemma exit_prepare_frame:
  "tnext (task_at (exit_prepare code s) t) = tnext (task_at s t)"
  "current (exit_prepare code s) = current s" "task_list (exit_prepare code s) = task_list s"
  "idle_task (exit_prepare code s) = idle_task s"
  "tstate (task_at (exit_prepare code s) (current s)) = TASK_ZOMBIE"
  "exit_code (task_at (exit_prepare code s) (current s)) = code"
  "tstate (task_at (exit_prepare code s) t) = TASK_RUNNING \<Longrightarrow> tstate (task_at s t) = TASK_RUNNING"
  unfolding exit_prepare_def Let_def
  by (auto simp: wakeup_frame close_files_frame orphan_children_frame split: if_splits)

lemma sched_exit_inv:
  assumes "sched_inv s ts" and "current s \<noteq> idle_task s"
  obtains n where "sched_exit code s = Some (switch_to n (exit_prepare code s))"
    and "pick_next (exit_prepare code s) = Some n"
    and "sched_inv (switch_to n (exit_prepare code s)) ts" and "n \<noteq> current s"
proof -
  let ?s = "exit_prepare code s"
  have inv: "sched_inv ?s ts"
    by (rule sched_inv_cong [OF assms(1)]) (auto simp: exit_prepare_frame)
  obtain n where n: "pick_next ?s = Some n" "n \<in> set ts \<and> runnable (task_at ?s n) \<or> n = idle_task ?s"
    using pick_next_inv [OF inv] by blast
  then have "sched_inv (switch_to n ?s) ts"
    by (intro switch_to_inv [OF inv]) (auto simp: exit_prepare_frame)
  moreover have "n \<noteq> current s"
    using n(2) assms(2) by (auto simp: exit_prepare_frame runnable_def)
  ultimately show ?thesis
    using that n(1) by (simp add: sched_exit_eq)
qed

lemma sched_add_inv:
  assumes "sched_inv s ts" and "t \<noteq> 0" "t \<noteq> idle_task s" "tstate (task_at s t) = TASK_READY" "t \<notin> set ts"
  obtains s' where "sched_add t s = Some s'" and "sched_inv s' (ts @ [t])"
proof -
  have "ring s ts"
    using assms(1) by (simp add: sched_inv_def)
  then obtain s' where s': "sched_add t s = Some s'" "ring s' (ts @ [t])" "current s' = current s"
    "idle_task s' = idle_task s" "\<And>u. tstate (task_at s' u) = tstate (task_at s u)"
    "\<And>u. u \<notin> set (ts @ [t]) \<Longrightarrow> tnext (task_at s' u) = tnext (task_at s u)"
    by (rule sched_add_spec [OF _ assms(5,2)]) blast
  have "tnext (task_at s' (idle_task s)) = 0"
    using s'(6) assms by (simp add: sched_inv_def)
  then have "sched_inv s' (ts @ [t])"
    using assms s' by (auto simp: sched_inv_def)
  then show ?thesis
    using that s'(1) by blast
qed


lemma sched_reap_inv:
  assumes "sched_inv s ts" and "t \<in> set ts" and "t \<noteq> current s"
  obtains s' where "sched_reap t s = Some s'" and "sched_inv s' (remove1 t ts)"
proof -
  obtain xs ys where ts: "ts = xs @ t # ys" "t \<notin> set xs"
    using split_list_first [OF assms(2)] by blast
  have r: "ring s (xs @ t # ys)"
    using assms(1) by (simp add: sched_inv_def ts)
  then obtain s1 where s1: "ring_unlink t s = Some s1" "ring s1 (xs @ ys)" "current s1 = current s"
    "idle_task s1 = idle_task s" "\<And>u. (task_at s1 u)\<lparr>tnext := 0\<rparr> = (task_at s u)\<lparr>tnext := 0\<rparr>"
    "\<And>u. u \<notin> set (xs @ t # ys) \<Longrightarrow> tnext (task_at s1 u) = tnext (task_at s u)"
    by (rule ring_unlink_spec) blast
  have st: "tstate (task_at s1 u) = tstate (task_at s u)" for u
    using arg_cong [OF s1(5) [of u], of tstate] by simp
  have inv: "sched_inv s1 (xs @ ys)"
    using assms(1,3) s1 st by (auto simp: sched_inv_def ts)
  obtain s' where s': "sched_reap t s = Some s'" "task_at s' = task_at s1" "current s' = current s1"
    "task_list s' = task_list s1" "idle_task s' = idle_task s1"
    by (simp add: sched_reap_def s1(1) Let_def)
  have "sched_inv s' (xs @ ys)"
    by (rule sched_inv_cong [OF inv]) (simp_all add: s')
  moreover have "remove1 t ts = xs @ ys"
    using ts by (simp add: remove1_append)
  ultimately show ?thesis
    using that s'(1) by simp
qed

lemma sched_step_preserves_inv:
  assumes "sched_step s s'" and "sched_inv s ts"
  shows "\<exists>ts'. sched_inv s' ts'"
  using assms(1)
proof cases
  case yield
  then show ?thesis
    using sched_yield_inv [OF assms(2)] by (metis option.inject)
next
  case tick
  then show ?thesis
    using sched_tick_inv [OF assms(2)] by (metis option.inject)
next
  case block
  then show ?thesis
    using sched_block_inv [OF assms(2)] by (metis option.inject)
next
  case (exit code)
  then show ?thesis
    using sched_exit_inv [OF assms(2)] by (metis option.inject)
next
  case (unblock t)
  have "sched_inv s' ts"
    using unblock by (intro sched_inv_cong [OF assms(2)]) (auto simp: sched_unblock_def split: if_splits)
  then show ?thesis by blast
next
  case (wakeup t)
  have "sched_inv s' ts"
    using wakeup by (intro sched_inv_cong [OF assms(2)]) (auto simp: wakeup_frame split: if_splits)
  then show ?thesis by blast
next
  case (add t)
  moreover have "t \<notin> set ts"
    using add(4) assms(2) by (simp add: sched_inv_def)
  ultimately show ?thesis
    using sched_add_inv [OF assms(2)] by (metis option.inject)
next
  case (reap t)
  moreover have "t \<in> set ts"
    using reap(2) assms(2) by (simp add: sched_inv_def)
  ultimately show ?thesis
    using sched_reap_inv [OF assms(2)] by (metis option.inject)
qed

section \<open>Exit\<close>

lemma orphan_children_parent:
  assumes "t \<in> set ts" and "t \<noteq> 0" and "parent (task_at s t) = c" and "c \<noteq> 0"
  shows "parent (task_at (orphan_children c ts s) t) = 0 \<and> ppid (task_at (orphan_children c ts s) t) = 1"
proof -
  have keep: "parent (task_at s t) = 0 \<and> ppid (task_at s t) = 1 \<Longrightarrow>
      parent (task_at (orphan_children c us s) t) = 0 \<and> ppid (task_at (orphan_children c us s) t) = 1" for us s
    using assms(4) by (induction us arbitrary: s) simp_all
  show ?thesis
    using assms(1,3)
  proof (induction ts arbitrary: s)
    case (Cons u ts)
    show ?case
    proof (cases "u = t")
      case True
      then show ?thesis
        using Cons.prems assms(2) by (simp add: keep)
    next
      case False
      then show ?thesis
        using Cons by simp
    qed
  qed simp
qed

lemma orphan_children_other:
  "parent (task_at s t) \<noteq> c \<Longrightarrow> parent (task_at (orphan_children c ts s) t) = parent (task_at s t)"
proof (induction ts arbitrary: s)
  case (Cons u ts)
  let ?s = "if u \<noteq> 0 \<and> parent (task_at s u) = c then modify_task u (\<lambda>x. x\<lparr>parent := 0, ppid := 1\<rparr>) s else s"
  have "parent (task_at ?s t) = parent (task_at s t)"
    using Cons.prems by auto
  then show ?case
    using Cons.IH [of ?s] Cons.prems by simp
qed simp

lemma wakeup_ppid: "ppid (task_at (sched_wakeup_parent p s) t) = ppid (task_at s t)"
  "tfiles (task_at (sched_wakeup_parent p s) t) = tfiles (task_at s t)"
  by (simp_all add: sched_wakeup_parent_def Let_def)

lemma close_files_ppid: "ppid (task_at (close_files n i c s) t) = ppid (task_at s t)"
  by (induction n arbitrary: i s) simp_all

lemma switch_to_ppid: "ppid (task_at (switch_to n s) t) = ppid (task_at s t)"
  by (simp add: switch_to_def hal_context_switch_def hal_tss_set_kernel_stack_def Let_def)

lemma close_files_slots:
  assumes "i + n = length (tfiles (task_at s c))" and "\<forall>j<i. tfiles (task_at s c) ! j = 0"
  shows "\<forall>j<i + n. tfiles (task_at (close_files n i c s) c) ! j = 0"
  using assms
proof (induction n arbitrary: i s)
  case (Suc n)
  let ?s = "if tfiles (task_at s c) ! i \<noteq> 0
    then modify_task c (\<lambda>x. x\<lparr>tfiles := (tfiles x)[i := 0]\<rparr>)
           (s\<lparr>objs := filp_close (tfiles (task_at s c) ! i) (objs s)\<rparr>) else s"
  have "\<forall>j<i + 1. tfiles (task_at ?s c) ! j = 0"
    using Suc.prems by (auto simp: nth_list_update less_Suc_eq)
  then show ?case
    using Suc.IH [of "i + 1" ?s] Suc.prems(1) by simp
qed simp

section \<open>Preemption\<close>

fun ticks :: "nat \<Rightarrow> sched \<Rightarrow> sched option" where
  "ticks 0 s = Some s"
| "ticks (Suc n) s = (case sched_tick s of None \<Rightarrow> None | Some s' \<Rightarrow> ticks n s')"

lemma tick_counts:
  assumes "started s" and "current s \<noteq> 0" and "time_slice (task_at s (current s)) > 1"
  shows "sched_tick s = Some (modify_task (current s) (\<lambda>x. x\<lparr>time_slice := time_slice x - 1\<rparr>) s)"
proof -
  have "time_slice (task_at s (current s)) \<noteq> 0" "time_slice (task_at s (current s)) - 1 \<noteq> 0"
    using assms(3) by (auto simp: word_less_nat_alt)
  then show ?thesis
    using assms by (simp add: sched_tick_def Let_def word_gt_0)
qed

lemma ticks_count:
  assumes "started s" and "current s \<noteq> 0" and "n < unat (time_slice (task_at s (current s)))"
  shows "ticks n s = Some (modify_task (current s) (\<lambda>x. x\<lparr>time_slice := time_slice x - of_nat n\<rparr>) s)"
  using assms
proof (induction n arbitrary: s)
  case 0
  have "(task_at s (current s))\<lparr>time_slice := time_slice (task_at s (current s))\<rparr> = task_at s (current s)"
    by simp
  then show ?case
    by (simp add: modify_task_def)
next
  case (Suc n)
  let ?s = "modify_task (current s) (\<lambda>x. x\<lparr>time_slice := time_slice x - 1\<rparr>) s"
  have "1 < time_slice (task_at s (current s))"
    using Suc.prems(3) by (simp add: word_less_nat_alt)
  then have t: "sched_tick s = Some ?s"
    using Suc.prems by (intro tick_counts)
  have "unat (time_slice (task_at s (current s)) - 1) = unat (time_slice (task_at s (current s))) - 1"
    using Suc.prems(3) by (intro unat_minus_one) auto
  then have "ticks n ?s = Some (modify_task (current s) (\<lambda>x. x\<lparr>time_slice := time_slice x - of_nat n\<rparr>) ?s)"
    using Suc.IH [of ?s] Suc.prems by simp
  then show ?case
    using t by (simp add: modify_task_def diff_diff_eq)
qed

lemma ticks_snoc: "ticks (Suc n) s = (case ticks n s of None \<Rightarrow> None | Some s' \<Rightarrow> sched_tick s')"
proof (induction n arbitrary: s)
  case (Suc n)
  show ?case
  proof (cases "sched_tick s")
    case (Some s1)
    have "ticks (Suc (Suc n)) s = ticks (Suc n) s1"
      by (simp only: ticks.simps Some option.case)
    also have "\<dots> = (case ticks n s1 of None \<Rightarrow> None | Some s' \<Rightarrow> sched_tick s')"
      by (rule Suc.IH)
    finally show ?thesis
      by (simp only: ticks.simps Some option.case)
  qed simp
qed (simp split: option.splits)

text \<open>The tick that uses up the slice.\<close>

lemma tick_last:
  assumes "ring s ts" and "current s \<in> set ts" and "started s" and "runnable (task_at s (current s))"
    and "time_slice (task_at s (current s)) = 1"
  obtains s' where "sched_tick s = Some s'"
    and "find (\<lambda>t. runnable (task_at s t)) (after (current s) ts) = Some (current s')"
    and "time_slice (task_at s' (current s')) = QUANTUM"
proof -
  let ?s = "modify_task (current s) (\<lambda>x. x\<lparr>time_slice := time_slice x - 1\<rparr>) s"
  have c0: "current s \<noteq> 0" and d: "distinct ts"
    using assms(1,2) by (auto simp: ring_def split: if_splits)
  have r: "ring ?s ts" and run: "\<And>t. runnable (task_at ?s t) = runnable (task_at s t)"
    using assms(1) ring_cong [of ?s s ts] by (auto simp: runnable_def)
  have "current s \<in> set (after (current s) ts)"
    using after_props(1) [OF assms(2) d] assms(2) by simp
  then obtain n where n: "find (\<lambda>t. runnable (task_at s t)) (after (current s) ts) = Some n"
    using assms(4) by (cases "find (\<lambda>t. runnable (task_at s t)) (after (current s) ts)") (auto simp: find_None_iff)
  then have p: "pick_next ?s = Some n"
    using pick_next_spec [OF r] assms(2) by (simp add: run del: modify_task_simps(1))
  have "sched_tick s = Some (if n \<noteq> current s then switch_to n (demote ?s)
      else modify_task (current s) (\<lambda>x. x\<lparr>time_slice := QUANTUM\<rparr>) ?s)"
    using assms(3,5) c0 p by (simp add: sched_tick_def Let_def)
  then show ?thesis
    by (rule that) (simp_all add: n switch_simps)
qed

section \<open>Properties\<close>

text \<open>Two tasks, the first one running.\<close>

definition two_tasks :: sched where
  "two_tasks = \<lparr>tasks = [0x1000, 0x2000], current = 0x1000, task_list = 0x1000, next_pid = 3, started = True,
     idle_task = 0x500, idle_stack = 0x600, context_trampoline = 0x700,
     task_at = (\<lambda>t. if t = 0x1000 then zero_task\<lparr>pid := 1, tstate := TASK_RUNNING, time_slice := 5, tnext := 0x2000\<rparr>
                    else if t = 0x2000 then zero_task\<lparr>pid := 2, tstate := TASK_READY, tnext := 0x1000, parent := 0x1000\<rparr>
                    else zero_task),
     objs = piped_files, kstacks = (\<lambda>_. 0), esp = 0, tss_esp0 = 0\<rparr>"

lemma two_tasks_ring: "ring two_tasks [0x1000, 0x2000]"
  by (simp add: ring_def two_tasks_def)

lemma two_tasks_inv: "sched_inv two_tasks [0x1000, 0x2000]"
  using two_tasks_ring by (simp add: sched_inv_def) (simp add: two_tasks_def zero_task_def)



text \<open>
  C32. In every state reachable by scheduler operations the run queue is a ring of distinct tasks, at
  most the current task is in the running state, the current task is in the ring or is the idle
  task, and every walk along the ring ends: yielding, a timer tick, blocking and exiting return.
\<close>

theorem sched_reachable_inv:
  assumes "sched_inv s ts" and "sched_step\<^sup>*\<^sup>* s s'"
  shows "(\<exists>ts'. sched_inv s' ts') \<and> sched_yield s' \<noteq> None \<and> sched_tick s' \<noteq> None
    \<and> (current s' \<noteq> idle_task s' \<longrightarrow> sched_block s' \<noteq> None \<and> sched_exit code s' \<noteq> None)"
proof -
  have "\<exists>ts'. sched_inv s' ts'"
    using assms(2,1)
  proof (induction rule: rtranclp_induct)
    case (step a b)
    then show ?case
      using sched_step_preserves_inv by blast
  qed blast
  then obtain ts' where inv: "sched_inv s' ts'"
    by blast
  obtain y where y: "sched_yield s' = Some y"
    by (rule sched_yield_inv [OF inv])
  obtain k where k: "sched_tick s' = Some k"
    by (rule sched_tick_inv [OF inv])
  have "sched_block s' \<noteq> None \<and> sched_exit code s' \<noteq> None" if c: "current s' \<noteq> idle_task s'"
  proof -
    obtain b where "sched_block s' = Some b"
      by (rule sched_block_inv [OF inv c])
    moreover obtain e where "sched_exit code s' = Some e"
      by (rule sched_exit_inv [OF inv c, of code])
    ultimately show ?thesis by simp
  qed
  then show ?thesis
    using inv y k by blast
qed

theorem sched_reachable_inv_witness:
  "\<exists>s'. sched_yield two_tasks = Some s' \<and> sched_tick s' \<noteq> None \<and> (\<exists>ts. sched_inv s' ts)"
proof -
  obtain s' where s': "sched_yield two_tasks = Some s'"
    using sched_yield_inv [OF two_tasks_inv] by blast
  then have "sched_step\<^sup>*\<^sup>* two_tasks s'"
    by (intro r_into_rtranclp sched_step.yield)
  then show ?thesis
    using sched_reachable_inv [OF two_tasks_inv, of s' 0] s' by blast
qed

text \<open>
  The idle task is never left: from a state in which it runs, no sequence of scheduler
  operations, waking tasks up and adding new ones included, makes another task current.
\<close>

theorem sched_idle_forever:
  assumes "sched_inv s ts" and "current s = idle_task s" and "sched_step\<^sup>*\<^sup>* s s'"
  shows "current s' = idle_task s'"
proof -
  have "(\<exists>ts'. sched_inv s' ts') \<and> current s' = idle_task s'"
    using assms(3,1,2)
  proof (induction rule: rtranclp_induct)
    case (step a b)
    then obtain us where inv: "sched_inv a us" and c: "current a = idle_task a"
      by blast
    have p: "pick_next a = Some (idle_task a)"
      using inv c by (simp add: sched_inv_def pick_next_def)
    have "current b = idle_task b"
      using step(2)
    proof cases
      case yield
      then show ?thesis
        using p c by (auto simp: sched_yield_def split: if_splits)
    next
      case tick
      have "pick_next (modify_task (current a) (\<lambda>x. x\<lparr>time_slice := time_slice x - 1\<rparr>) a) = Some (idle_task a)"
        using inv c by (simp add: sched_inv_def pick_next_def)
      then show ?thesis
        using tick p c by (auto simp: sched_tick_def Let_def split: if_splits)
    next
      case (add t)
      moreover have "t \<notin> set us" "ring a us"
        using add(4) inv by (simp_all add: sched_inv_def)
      ultimately show ?thesis
        using sched_add_spec [of a us t] c by (metis option.inject)
    next
      case (reap t)
      then obtain a1 where "ring_unlink t a = Some a1"
        by (auto simp: sched_reap_def split: option.splits)
      then have "current a1 = current a" "idle_task a1 = idle_task a"
        by (auto simp: ring_unlink_def Let_def split: if_splits option.splits)
      then show ?thesis
        using reap(3) \<open>ring_unlink t a = Some a1\<close> c by (auto simp: sched_reap_def Let_def)
    qed (use c in \<open>auto simp: sched_unblock_def wakeup_frame\<close>)
    then show ?case
      using sched_step_preserves_inv [OF step(2) inv] by blast
  qed blast
  then show ?thesis by blast
qed

definition idle_runs :: sched where
  "idle_runs = two_tasks\<lparr>current := 0x500, task_at := (\<lambda>t. (task_at two_tasks t)\<lparr>tstate := TASK_READY\<rparr>)\<rparr>"

theorem sched_idle_forever_witness:
  "runnable (task_at idle_runs 0x1000)
    \<and> (\<exists>s'. sched_yield idle_runs = Some s' \<and> current s' = idle_task s')"
proof -
  have "ring idle_runs [0x1000, 0x2000]"
    by (simp add: ring_def idle_runs_def two_tasks_def)
  then have inv: "sched_inv idle_runs [0x1000, 0x2000]"
    by (simp add: sched_inv_def) (simp add: idle_runs_def two_tasks_def zero_task_def)
  obtain s' where s': "sched_yield idle_runs = Some s'"
    by (rule sched_yield_inv [OF inv])
  then have "sched_step\<^sup>*\<^sup>* idle_runs s'"
    by (intro r_into_rtranclp sched_step.yield)
  moreover have "current idle_runs = idle_task idle_runs"
    by (simp add: idle_runs_def two_tasks_def)
  ultimately show ?thesis
    using sched_idle_forever [OF inv, of s'] s' by (simp add: idle_runs_def runnable_def)
qed

text \<open>
  C36. \<^verbatim>\<open>sched_exit\<close> leaves a zombie with the exit code and no open file, hands its children to
  nobody with parent id 1, makes a waiting parent ready, and runs another task.
\<close>

theorem sched_exit_effect:
  assumes "sched_inv s ts" and "current s \<noteq> idle_task s" and "c = current s" and "c \<noteq> 0"
    and "length (tfiles (task_at s c)) = MAX_FILES"
  shows "\<exists>s'. sched_exit code s = Some s' \<and> current s' \<noteq> c
    \<and> tstate (task_at s' c) = TASK_ZOMBIE \<and> exit_code (task_at s' c) = code
    \<and> (\<forall>j<MAX_FILES. tfiles (task_at s' c) ! j = 0)
    \<and> (\<forall>t\<in>set (tasks s). t \<noteq> 0 \<and> parent (task_at s t) = c \<longrightarrow>
         parent (task_at s' t) = 0 \<and> ppid (task_at s' t) = 1)
    \<and> (\<forall>p. p = parent (task_at s c) \<and> p \<noteq> 0 \<and> p \<noteq> c \<and> tstate (task_at s p) = TASK_BLOCKED \<and> waiting (task_at s p) \<longrightarrow>
         runnable (task_at s' p))"
proof -
  obtain n where n: "sched_exit code s = Some (switch_to n (exit_prepare code s))" "n \<noteq> current s"
    by (rule sched_exit_inv [OF assms(1,2)])
  let ?z = "modify_task c (\<lambda>x. x\<lparr>exit_code := code, tstate := TASK_ZOMBIE\<rparr>) s"
  let ?o = "orphan_children c (tasks s) ?z"
  have prep: "exit_prepare code s = sched_wakeup_parent c (close_files MAX_FILES 0 c ?o)"
    by (simp add: exit_prepare_def Let_def assms(3))
  have "\<forall>j<0 + MAX_FILES. tfiles (task_at (close_files MAX_FILES 0 c ?o) c) ! j = 0"
    using assms(5) by (intro close_files_slots) (simp_all add: orphan_children_frame)
  moreover have "parent (task_at ?o t) = 0 \<and> ppid (task_at ?o t) = 1"
    if "t \<in> set (tasks s)" "t \<noteq> 0" "parent (task_at s t) = c" for t
    using that assms(4) by (intro orphan_children_parent) auto
  moreover have "runnable (task_at (exit_prepare code s) p)"
    if "p = parent (task_at s c)" "p \<noteq> 0" "p \<noteq> c" "tstate (task_at s p) = TASK_BLOCKED" "waiting (task_at s p)" for p
    using that orphan_children_other [of ?z c c "tasks s"]
    by (simp add: prep runnable_def wakeup_frame close_files_frame orphan_children_frame)
  ultimately show ?thesis
    using n exit_prepare_frame(5,6) [of code s] unfolding n(1) prep assms(3) [symmetric]
    by (auto simp: switch_simps switch_to_ppid wakeup_frame wakeup_ppid close_files_frame close_files_ppid runnable_def)
qed

theorem sched_exit_effect_witness:
  "\<exists>s'. sched_exit 7 two_tasks = Some s' \<and> current s' \<noteq> 0x1000 \<and> tstate (task_at s' 0x1000) = TASK_ZOMBIE
    \<and> exit_code (task_at s' 0x1000) = 7 \<and> ppid (task_at s' 0x2000) = 1"
proof -
  have "current two_tasks = 0x1000" "current two_tasks \<noteq> idle_task two_tasks" "0x2000 \<in> set (tasks two_tasks)"
    "parent (task_at two_tasks 0x2000) = 0x1000" "length (tfiles (task_at two_tasks 0x1000)) = MAX_FILES"
    by (simp_all add: two_tasks_def zero_task_def MAX_FILES_def)
  note facts = this
  have "(0x1000 :: u32) \<noteq> 0"
    by simp
  from sched_exit_effect [OF two_tasks_inv facts(2) facts(1) [symmetric] this facts(5), of 7]
  obtain s' where s': "sched_exit 7 two_tasks = Some s'" "current s' \<noteq> 0x1000"
    "tstate (task_at s' 0x1000) = TASK_ZOMBIE" "exit_code (task_at s' 0x1000) = 7"
    "\<forall>t\<in>set (tasks two_tasks). t \<noteq> 0 \<and> parent (task_at two_tasks t) = 0x1000 \<longrightarrow>
      parent (task_at s' t) = 0 \<and> ppid (task_at s' t) = 1"
    by (elim exE conjE) (rule that)
  have "ppid (task_at s' 0x2000) = 1"
    using bspec [OF s'(5) facts(3)] facts(4) by simp
  then show ?thesis
    using s'(1-4) by blast
qed

text \<open>
  A task keeps the CPU for exactly its time slice: it stays current for fewer ticks than that, and
  the tick that uses the slice up switches to the next runnable task in ring order, which
  starts with a full quantum.
\<close>

theorem sched_tick_quantum:
  assumes "ring s ts" and "current s \<in> set ts" and "started s" and "runnable (task_at s (current s))"
    and "k = unat (time_slice (task_at s (current s)))" and "0 < k"
  shows "(\<forall>n<k. \<exists>s'. ticks n s = Some s' \<and> current s' = current s)
    \<and> (\<exists>s'. ticks k s = Some s'
        \<and> find (\<lambda>t. runnable (task_at s t)) (after (current s) ts) = Some (current s')
        \<and> time_slice (task_at s' (current s')) = QUANTUM)"
proof -
  let ?c = "current s"
  have c0: "?c \<noteq> 0" and d: "distinct ts"
    using assms(1,2) by (auto simp: ring_def split: if_splits)
  have "\<exists>s'. ticks n s = Some s' \<and> current s' = ?c" if "n < k" for n
    using ticks_count [OF assms(3) c0, of n] that assms(5) by simp
  moreover have "\<exists>s'. ticks k s = Some s' \<and> find (\<lambda>t. runnable (task_at s t)) (after ?c ts) = Some (current s')
      \<and> time_slice (task_at s' (current s')) = QUANTUM"
  proof -
    obtain m where m: "k = Suc m"
      using assms(6) by (cases k) simp_all
    let ?s = "modify_task ?c (\<lambda>x. x\<lparr>time_slice := time_slice x - of_nat m\<rparr>) s"
    have t: "ticks m s = Some ?s"
      using ticks_count [OF assms(3) c0, of m] m assms(5) by simp
    have "time_slice (task_at s ?c) - of_nat m = (1 :: u32)"
    proof -
      have "time_slice (task_at s ?c) = of_nat k"
        using assms(5) by simp
      then show ?thesis
        by (simp add: m)
    qed
    moreover have "ring ?s ts" "\<And>t. runnable (task_at ?s t) = runnable (task_at s t)"
      using assms(1) ring_cong [of ?s s ts] by (auto simp: runnable_def)
    ultimately obtain s' where "sched_tick ?s = Some s'"
      "find (\<lambda>t. runnable (task_at s t)) (after ?c ts) = Some (current s')"
      "time_slice (task_at s' (current s')) = QUANTUM"
      using tick_last [of ?s ts] assms(2-4) by (auto simp del: modify_task_simps(1)) (auto)
    then show ?thesis
      unfolding m ticks_snoc t by simp
  qed
  ultimately show ?thesis
    by blast
qed

theorem sched_tick_quantum_witness:
  "\<exists>s'. ticks 5 two_tasks = Some s' \<and> current s' = 0x2000"
proof -
  have c: "current two_tasks = 0x1000" and t: "time_slice (task_at two_tasks 0x1000) = 5"
    "started two_tasks" "runnable (task_at two_tasks 0x1000)" "runnable (task_at two_tasks 0x2000)"
    by (simp_all add: two_tasks_def runnable_def)
  moreover have "after 0x1000 [0x1000, 0x2000] = [0x2000, 0x1000]"
    by (simp add: after_def)
  ultimately show ?thesis
    using sched_tick_quantum [OF two_tasks_ring, of 5] by auto
qed

end
