(* ===== verification/TaskObjects.thy ===== *)
theory TaskObjects
  imports Objects Sched
begin

text \<open>
  The object graph of a scheduler state: the descriptor map is the tables of the tasks in \<^verbatim>\<open>tasks[]\<close>,
  and the blocks of these tasks and of their kernel stacks are the other blocks the kernel owns.
\<close>

section \<open>The invariant of a scheduler state\<close>

definition live_tasks :: "sched \<Rightarrow> u32 set" where
  "live_tasks c = set (tasks c) - {0}"

definition fd_slot :: "sched \<Rightarrow> (u32 \<times> nat) fdmap" where
  "fd_slot c = (\<lambda>(t, i). if t \<in> live_tasks c \<and> i < MAX_FILES \<and> tfiles (task_at c t) ! i \<noteq> 0
     then Some (tfiles (task_at c t) ! i) else None)"

definition stack_of :: "sched \<Rightarrow> u32 \<Rightarrow> u32" where
  "stack_of c t = kstack (task_at c t)"

definition task_blocks :: "sched \<Rightarrow> u32 set" where
  "task_blocks c = live_tasks c \<union> (stack_of c ` live_tasks c - {0})"

definition tables_ok :: "sched \<Rightarrow> bool" where
  "tables_ok c \<longleftrightarrow> length (tasks c) = MAX_TASKS \<and> (\<forall>t\<in>live_tasks c. length (tfiles (task_at c t)) = MAX_FILES
     \<and> (stack_of c t \<noteq> 0 \<longrightarrow> stack_of c t \<notin> live_tasks c
          \<and> (\<forall>u\<in>live_tasks c. stack_of c u = stack_of c t \<longrightarrow> u = t)))"

definition sys_inv :: "sched \<Rightarrow> (u32 \<rightharpoonup> nat) \<Rightarrow> bool" where
  "sys_inv c L \<longleftrightarrow> obj_ok (fd_slot c) (objs c) L (task_blocks c) \<and> tables_ok c"

text \<open>Two states with the same objects: tables, kernel stacks and reference counts agree.\<close>

definition same_objs :: "sched \<Rightarrow> sched \<Rightarrow> bool" where
  "same_objs c d \<longleftrightarrow> tasks d = tasks c
     \<and> (\<forall>t. tfiles (task_at d t) = tfiles (task_at c t) \<and> kstack (task_at d t) = kstack (task_at c t))
     \<and> (\<forall>f. filp_core (filp_at (objs d) f) = filp_core (filp_at (objs c) f))
     \<and> (\<forall>q. readers (pipe_at (objs d) q) = readers (pipe_at (objs c) q)
          \<and> writers (pipe_at (objs d) q) = writers (pipe_at (objs c) q))
     \<and> (\<forall>L. heap_rep (heap_of (objs c)) L \<longrightarrow> heap_rep (heap_of (objs d)) L)"

named_theorems same_intros \<open>operations that keep the objects\<close>

lemma same_objs_refl [same_intros]: "same_objs c c"
  by (simp add: same_objs_def)

lemma same_objs_trans: "same_objs c d \<Longrightarrow> same_objs d e \<Longrightarrow> same_objs c e"
  by (simp add: same_objs_def)

lemma same_objs_inv:
  assumes "sys_inv c L" and s: "same_objs c d"
  shows "sys_inv d L"
proof -
  have t: "tasks d = tasks c" "\<And>t. tfiles (task_at d t) = tfiles (task_at c t)"
    "\<And>t. kstack (task_at d t) = kstack (task_at c t)"
    using s by (simp_all add: same_objs_def)
  have l: "live_tasks d = live_tasks c" "stack_of d = stack_of c"
    by (simp_all add: live_tasks_def stack_of_def [abs_def] t)
  then have "fd_slot d = fd_slot c" "task_blocks d = task_blocks c"
    by (simp_all add: fd_slot_def task_blocks_def t cong: if_cong)
  moreover have "tables_ok d"
    using assms by (simp add: sys_inv_def tables_ok_def t l)
  moreover have ok: "obj_ok (fd_slot c) (objs c) L (task_blocks c)"
    using assms(1) by (simp add: sys_inv_def)
  moreover have "obj_ok (fd_slot c) (objs d) L (task_blocks c)"
    using s obj_okD(1) [OF ok] by (intro obj_ok_cong [OF ok]) (simp_all add: same_objs_def)
  ultimately show ?thesis
    by (simp add: sys_inv_def)
qed

section \<open>Operations that keep the objects\<close>

lemma seg_pages [simp]: "seg (h\<lparr>pages := m\<rparr>) p pos bs e nx = seg h p pos bs e nx"
  by (induction bs arbitrary: p pos) auto

lemma heap_rep_pages [simp]: "heap_rep (h\<lparr>pages := m\<rparr>) L = heap_rep h L"
  by (simp add: heap_rep_def heap_inv_def heap_shape_def no_adjacent_free_def alloc_map_def [abs_def] cong: if_cong)

lemma same_modify_task:
  assumes "tfiles (f (task_at d t)) = tfiles (task_at d t)" "kstack (f (task_at d t)) = kstack (task_at d t)"
    and "same_objs c d"
  shows "same_objs c (modify_task t f d)"
  using assms by (simp add: same_objs_def)

lemma same_modify_mm [same_intros]: "same_objs c d \<Longrightarrow> same_objs c (modify_mm g d)"
  by (simp add: same_objs_def modify_mm_def modify_heap_def)

lemma same_fields [same_intros]:
  "same_objs c d \<Longrightarrow> same_objs c (d\<lparr>current := t\<rparr>)"
  "same_objs c d \<Longrightarrow> same_objs c (d\<lparr>task_list := t\<rparr>)"
  "same_objs c d \<Longrightarrow> same_objs c (d\<lparr>esp := x\<rparr>)"
  "same_objs c d \<Longrightarrow> same_objs c (d\<lparr>tss_esp0 := x\<rparr>)"
  "same_objs c d \<Longrightarrow> same_objs c (d\<lparr>kstacks := m\<rparr>)"
  by (simp_all add: same_objs_def)

lemma same_tss [same_intros]: "same_objs c d \<Longrightarrow> same_objs c (hal_tss_set_kernel_stack x d)"
  by (simp add: same_objs_def hal_tss_set_kernel_stack_def)

lemma same_switch_to [same_intros]:
  assumes "same_objs c d"
  shows "same_objs c (switch_to n d)"
  unfolding switch_to_def hal_context_switch_def Let_def if_distrib [of "same_objs c"]
  by (auto intro!: same_intros same_modify_task assms split: if_split)

lemma same_demote [same_intros]: "same_objs c d \<Longrightarrow> same_objs c (demote d)"
  by (auto simp: demote_def intro!: same_modify_task)

lemma same_yield: "sched_yield d = Some e \<Longrightarrow> same_objs c d \<Longrightarrow> same_objs c e"
  by (auto simp: sched_yield_def split: if_splits option.splits intro: same_intros)

lemma same_tick:
  assumes "sched_tick d = Some e" and "same_objs c d"
  shows "same_objs c e"
proof -
  have "same_objs c (modify_task t (\<lambda>x. x\<lparr>time_slice := n x\<rparr>) d')" if "same_objs c d'" for t n d'
    using that by (rule same_modify_task [rotated 2]) simp_all
  then show ?thesis
    using assms by (auto simp: sched_tick_def Let_def split: if_splits option.splits intro!: same_intros)
qed

lemma same_block: "sched_block d = Some e \<Longrightarrow> same_objs c d \<Longrightarrow> same_objs c e"
  by (auto simp: sched_block_def Let_def split: if_splits option.splits intro!: same_intros same_modify_task)

lemma same_wakeup [same_intros]: "same_objs c d \<Longrightarrow> same_objs c (sched_wakeup_parent t d)"
  by (auto simp: sched_wakeup_parent_def Let_def intro!: same_modify_task)

lemma same_orphan [same_intros]: "same_objs c d \<Longrightarrow> same_objs c (orphan_children t ts d)"
  by (induction ts arbitrary: d) (simp_all add: same_modify_task)

lemma same_add: "sched_add t d = Some e \<Longrightarrow> same_objs c d \<Longrightarrow> same_objs c e"
  by (auto simp: sched_add_def Let_def split: if_splits option.splits intro!: same_intros same_modify_task)

lemma same_unlink: "ring_unlink t d = Some e \<Longrightarrow> same_objs c d \<Longrightarrow> same_objs c e"
  by (auto simp: ring_unlink_def Let_def split: if_splits option.splits intro!: same_intros same_modify_task)

section \<open>Descriptor slots\<close>

definition set_slot :: "u32 \<Rightarrow> nat \<Rightarrow> u32 \<Rightarrow> sched \<Rightarrow> sched" where
  "set_slot t i f c = modify_task t (\<lambda>x. x\<lparr>tfiles := (tfiles x)[i := f]\<rparr>) c"

lemma set_slot_frame [simp]:
  "live_tasks (set_slot t i f c) = live_tasks c" "stack_of (set_slot t i f c) = stack_of c"
  "task_blocks (set_slot t i f c) = task_blocks c" "objs (set_slot t i f c) = objs c"
  "tables_ok (set_slot t i f c) = tables_ok c" "tasks (set_slot t i f c) = tasks c"
  by (auto simp: set_slot_def live_tasks_def stack_of_def task_blocks_def tables_ok_def fun_eq_iff)

lemma objs_frame [simp]:
  "live_tasks (c\<lparr>objs := w\<rparr>) = live_tasks c" "stack_of (c\<lparr>objs := w\<rparr>) = stack_of c"
  "task_blocks (c\<lparr>objs := w\<rparr>) = task_blocks c" "fd_slot (c\<lparr>objs := w\<rparr>) = fd_slot c"
  "tables_ok (c\<lparr>objs := w\<rparr>) = tables_ok c"
  by (auto simp: live_tasks_def stack_of_def task_blocks_def tables_ok_def fd_slot_def fun_eq_iff)

lemma fd_slot_set_slot:
  assumes "t \<in> live_tasks c" and "tables_ok c" and "i < MAX_FILES"
  shows "fd_slot (set_slot t i f c) = (fd_slot c)((t, i) := if f = 0 then None else Some f)"
proof (rule ext)
  fix k :: "u32 \<times> nat"
  obtain u j where k: "k = (u, j)"
    by (cases k)
  have "i < length (tfiles (task_at c t))"
    using assms by (simp add: tables_ok_def)
  then have "tfiles (task_at (set_slot t i f c) u) ! j = (if u = t \<and> j = i then f else tfiles (task_at c u) ! j)"
    by (simp add: set_slot_def nth_list_update_if)
  then show "fd_slot (set_slot t i f c) k = ((fd_slot c)((t, i) := if f = 0 then None else Some f)) k"
    using assms(1,3) by (auto simp: fd_slot_def k)
qed

lemma fd_slot_set_slot_dead:
  assumes "t \<notin> live_tasks c"
  shows "fd_slot (set_slot t i f c) = fd_slot c"
proof (rule ext)
  fix k :: "u32 \<times> nat"
  obtain u j where k: "k = (u, j)"
    by (cases k)
  have "task_at (set_slot t i f c) u = task_at c u" if "u \<in> live_tasks c"
    using that assms by (auto simp: set_slot_def)
  then show "fd_slot (set_slot t i f c) k = fd_slot c k"
    by (auto simp: fd_slot_def k)
qed

lemma fd_slot_eq:
  assumes "t \<in> live_tasks c" and "i < MAX_FILES"
  shows "fd_slot c (t, i) = (if tfiles (task_at c t) ! i = 0 then None else Some (tfiles (task_at c t) ! i))"
  using assms by (simp add: fd_slot_def)

text \<open>Closing, sharing and opening, on the slots of a task.\<close>

lemma sys_inv_close_slot:
  assumes inv: "sys_inv c L" and t: "t \<in> live_tasks c" "i < MAX_FILES" and f: "f = tfiles (task_at c t) ! i" "f \<noteq> 0"
  shows "\<exists>L'. sys_inv (set_slot t i 0 (c\<lparr>objs := filp_close f (objs c)\<rparr>)) L'"
proof -
  have ok: "obj_ok (fd_slot c) (objs c) L (task_blocks c)" and tab: "tables_ok c"
    using inv by (simp_all add: sys_inv_def)
  have "fd_slot c (t, i) = Some f"
    using t f by (simp add: fd_slot_eq)
  then obtain L' where "obj_ok ((fd_slot c)((t, i) := None)) (filp_close f (objs c)) L' (task_blocks c)"
    using obj_ok_close [OF ok] by blast
  then show ?thesis
    using t tab by (auto simp: sys_inv_def fd_slot_set_slot)
qed

lemma sys_inv_share_slot:
  assumes inv: "sys_inv c L" and t: "t \<in> live_tasks c" "i < MAX_FILES" "tfiles (task_at c t) ! i = 0"
    and u: "u \<in> live_tasks c" "j < MAX_FILES" "f = tfiles (task_at c u) ! j" "f \<noteq> 0"
  shows "sys_inv (set_slot t i f (c\<lparr>objs := filp_ref f (objs c)\<rparr>)) L"
proof -
  have ok: "obj_ok (fd_slot c) (objs c) L (task_blocks c)" and tab: "tables_ok c"
    using inv by (simp_all add: sys_inv_def)
  have "fd_slot c (u, j) = Some f" "fd_slot c (t, i) = None"
    using t u by (simp_all add: fd_slot_eq)
  then have "obj_ok ((fd_slot c)((t, i) \<mapsto> f)) (filp_ref f (objs c)) L (task_blocks c)"
    using ok by (intro obj_ok_ref) (auto intro: ranI)
  then show ?thesis
    using t u(4) tab by (simp add: sys_inv_def fd_slot_set_slot)
qed

lemma sys_inv_ref:
  assumes inv: "sys_inv c L" and f: "f \<in> ran (fd_slot c)"
  shows "sys_inv (c\<lparr>objs := filp_ref f (objs c)\<rparr>) L"
proof -
  have ok: "obj_ok (fd_slot c) (objs c) L (task_blocks c)"
    using inv by (simp add: sys_inv_def)
  have "obj_ok (fd_slot c) (filp_ref f (objs c)) L (task_blocks c)"
    using obj_ok_refcount [OF ok, of f "refcount (filp_at (objs c) f) + 1"] obj_okD(4) [OF ok f] ok
    by (auto simp: filp_ref_def filp_ok_def)
  then show ?thesis
    using inv by (simp add: sys_inv_def)
qed

lemma sys_inv_alloc_slot:
  assumes inv: "sys_inv c L" and t: "t \<in> live_tasks c" "i < MAX_FILES" "tfiles (task_at c t) ! i = 0"
    and a: "filp_alloc (objs c) = Some (f, w)" and x: "f \<noteq> 0 \<Longrightarrow> ftype x \<noteq> FT_PIPE" "f \<noteq> 0 \<Longrightarrow> refcount x = refcount (filp_at w f)"
  shows "\<exists>L'. sys_inv (set_slot t i f (c\<lparr>objs := w\<lparr>filp_at := (filp_at w)(f := x)\<rparr>\<rparr>)) L'"
proof -
  have ok: "obj_ok (fd_slot c) (objs c) L (task_blocks c)" and tab: "tables_ok c"
    using inv by (simp_all add: sys_inv_def)
  have k: "fd_slot c (t, i) = None"
    using t by (simp add: fd_slot_eq)
  from ok k a show ?thesis
  proof (cases rule: obj_ok_filp_alloc)
    case 1
    then have "obj_ok (fd_slot c) (w\<lparr>filp_at := (filp_at w)(f := x)\<rparr>) L (task_blocks c)"
      using obj_ok_nonnull(1) [OF 1(2)] obj_okD(1) [OF 1(2)] by (intro obj_ok_cong [OF 1(2)]) auto
    then show ?thesis
      using 1(1) t(1,2) tab k by (auto simp: sys_inv_def fd_slot_set_slot fun_upd_idem)
  next
    case (2 L')
    let ?D = "(fd_slot c)((t, i) \<mapsto> f)"
    have "pipe_users ?D (w\<lparr>filp_at := (filp_at w)(f := x)\<rparr>) q e \<subseteq> pipe_users ?D w q e" for q e
      using x(1) [OF 2(1)] by (auto simp: pipe_users_def split: if_splits)
    then have "card (pipe_users ?D (w\<lparr>filp_at := (filp_at w)(f := x)\<rparr>) q e) \<le> card (pipe_users ?D w q e)" for q e
      using obj_okD(2) [OF 2(2)] by (intro card_mono finite_pipe_users) auto
    then have "filp_ok ?D (w\<lparr>filp_at := (filp_at w)(f := x)\<rparr>) L' (task_blocks c) g" if "g \<in> ran ?D" for g
      using obj_okD(4) [OF 2(2) that] x 2(1)
      by (auto simp: filp_ok_def pipe_ok_def intro: order_trans [OF of_nat_mono])
    then have "obj_ok ?D (w\<lparr>filp_at := (filp_at w)(f := x)\<rparr>) L' (task_blocks c)"
      using obj_okD(1-3) [OF 2(2)] by (simp add: obj_ok_def)
    then show ?thesis
      using 2(1) t(1,2) tab by (auto simp: sys_inv_def fd_slot_set_slot)
  qed
qed

lemma sys_inv_alloc_null:
  assumes inv: "sys_inv c L" and a: "filp_alloc (objs c) = Some (0, w)"
  shows "sys_inv (c\<lparr>objs := w\<rparr>) L"
proof -
  have ok: "obj_ok (fd_slot c) (objs c) L (task_blocks c)" and tab: "tables_ok c"
    using inv by (simp_all add: sys_inv_def)
  have "fd_slot c (0, 0) = None"
    by (simp add: fd_slot_def live_tasks_def)
  from ok this a show ?thesis
    by (cases rule: obj_ok_filp_alloc) (use tab in \<open>simp_all add: sys_inv_def\<close>)
qed

section \<open>Tasks\<close>

lemma free_slot_free: "free_slot ts < length ts \<Longrightarrow> ts ! free_slot ts = 0"
  by (induction ts) auto

lemma sys_inv_heap:
  assumes "obj_ok (fd_slot c) ((objs c)\<lparr>heap_of := h\<rparr>) L (task_blocks c)" and "tables_ok c"
  shows "sys_inv (modify_heap (\<lambda>_. h) c) L"
  using assms by (simp add: sys_inv_def modify_heap_def)

text \<open>A new task enters the table with empty slots and a kernel stack of its own.\<close>

lemma sys_inv_new_task:
  assumes ok: "obj_ok (fd_slot c) (objs d) L (insert t (if k = 0 then task_blocks c else insert k (task_blocks c)))"
    and tab: "tables_ok c" and t: "t \<notin> task_blocks c" "t \<noteq> 0" "t \<noteq> k" and k: "k \<noteq> 0 \<Longrightarrow> k \<notin> task_blocks c"
    and d: "\<And>u. u \<noteq> t \<Longrightarrow> task_at d u = task_at c u" "tfiles (task_at d t) = replicate MAX_FILES 0"
      "kstack (task_at d t) = k"
    and live: "live_tasks d = live_tasks c \<or> live_tasks d = insert t (live_tasks c)"
    and len: "length (tasks d) = length (tasks c)"
  shows "sys_inv d L"
proof -
  have new: "t \<notin> live_tasks c"
    using t(1) by (simp add: task_blocks_def)
  then have old: "task_at d u = task_at c u" if "u \<in> live_tasks c" for u
    using d(1) that by metis
  have st: "stack_of d u = stack_of c u" if "u \<in> live_tasks c" for u
    using old [OF that] by (simp add: stack_of_def)
  have slots: "fd_slot d = fd_slot c"
  proof (rule ext)
    fix p :: "u32 \<times> nat"
    obtain u j where p: "p = (u, j)"
      by (cases p)
    show "fd_slot d p = fd_slot c p"
      using live old new d(2) by (cases "u = t") (auto simp: fd_slot_def p)
  qed
  have "task_blocks d \<subseteq> insert t (if k = 0 then task_blocks c else insert k (task_blocks c))"
    using live st d(3) by (auto simp: task_blocks_def stack_of_def)
  then have "obj_ok (fd_slot d) (objs d) L (task_blocks d)"
    using ok unfolding slots by (rule obj_ok_mono [rotated 2]) simp
  moreover have "tables_ok d"
  proof -
    have T: "length (tfiles (task_at c u)) = MAX_FILES"
      "stack_of c u \<noteq> 0 \<Longrightarrow> stack_of c u \<notin> live_tasks c"
      "stack_of c u \<noteq> 0 \<Longrightarrow> v \<in> live_tasks c \<Longrightarrow> stack_of c v = stack_of c u \<Longrightarrow> v = u"
      "stack_of c u \<noteq> 0 \<Longrightarrow> stack_of c u \<noteq> t \<and> stack_of c u \<noteq> k" if "u \<in> live_tasks c" for u v
      using tab that t(1) k unfolding tables_ok_def task_blocks_def by (auto intro: imageI)
    have kl: "k \<notin> live_tasks c" if "k \<noteq> 0"
      using k [OF that] by (simp add: task_blocks_def)
    have tt: "stack_of d t = k" "length (tfiles (task_at d t)) = MAX_FILES"
      using d(2,3) by (simp_all add: stack_of_def)
    show ?thesis
      unfolding tables_ok_def
    proof (intro ballI conjI impI)
      show "length (tasks d) = MAX_TASKS"
        using tab len by (simp add: tables_ok_def)
    next
      fix u v
      assume u: "u \<in> live_tasks d"
      then have u': "u = t \<or> u \<in> live_tasks c"
        using live by auto
      show "length (tfiles (task_at d u)) = MAX_FILES"
        using u' T(1) tt(2) old by auto
      assume s: "stack_of d u \<noteq> 0"
      show "stack_of d u \<notin> live_tasks d"
        using u' T(2,4) st tt(1) kl t(3) live s by auto
      assume v: "v \<in> live_tasks d" "stack_of d v = stack_of d u"
      then have "v = t \<or> v \<in> live_tasks c"
        using live by auto
      then show "v = u"
        using u' T(3,4) st tt(1) v(2) s by metis
    qed
  qed
  ultimately show ?thesis
    by (simp add: sys_inv_def)
qed

lemma live_tasks_update:
  assumes "i < length (tasks c)" and "tasks c ! i = 0" and "t \<noteq> 0"
  shows "set ((tasks c)[i := t]) - {0} = insert t (set (tasks c) - {0})"
proof -
  have "tasks c = take i (tasks c) @ 0 # drop (Suc i) (tasks c)"
    using assms(1,2) by (metis id_take_nth_drop)
  then have "set (tasks c) = insert 0 (set (take i (tasks c)) \<union> set (drop (Suc i) (tasks c)))"
    by (metis Un_insert_right list.simps(15) set_append)
  moreover have "set ((tasks c)[i := t]) = insert t (set (take i (tasks c)) \<union> set (drop (Suc i) (tasks c)))"
    using assms(1) by (simp add: upd_conv_take_nth_drop)
  ultimately show ?thesis
    using assms(3) by auto
qed

lemma sys_inv_sched_alloc:
  assumes inv: "sys_inv c L" and a: "sched_alloc name c = Some (t, d)"
  shows "\<exists>L'. sys_inv d L'" and "current d = current c"
    and "t \<noteq> 0 \<Longrightarrow> t \<notin> live_tasks c" and "t \<noteq> 0 \<Longrightarrow> tfiles (task_at d t) = replicate MAX_FILES 0"
    and "\<And>u. u \<in> live_tasks c \<Longrightarrow> u \<in> live_tasks d \<and> task_at d u = task_at c u"
proof -
  have ok: "obj_ok (fd_slot c) (objs c) L (task_blocks c)" and tab: "tables_ok c"
    using inv by (simp_all add: sys_inv_def)
  obtain h where m: "kmalloc sizeof_task (heap_of (objs c)) = Some (t, h)"
    using a by (auto simp: sched_alloc_def Let_def split: option.splits if_splits prod.splits)
  have sz: "0 < sizeof_task" "unat sizeof_task \<le> 117440512" "0 < KSTACK_SIZE" "unat KSTACK_SIZE \<le> 117440512"
    by (simp_all add: sizeof_task_def KSTACK_SIZE_def)
  have "(\<exists>L'. sys_inv d L') \<and> current d = current c \<and> (t \<noteq> 0 \<longrightarrow> t \<notin> live_tasks c)
    \<and> (t \<noteq> 0 \<longrightarrow> tfiles (task_at d t) = replicate MAX_FILES 0)
    \<and> (\<forall>u\<in>live_tasks c. u \<in> live_tasks d \<and> task_at d u = task_at c u)"
    using ok sz(1,2) m
  proof (cases rule: obj_ok_kmalloc)
    case 1
    then have "d = modify_heap (\<lambda>_. h) c"
      using a m by (simp add: sched_alloc_def)
    then show ?thesis
      using 1 tab sys_inv_heap by (auto simp: live_tasks_def)
  next
    case (2 n)
    let ?c = "modify_heap (\<lambda>_. h) c"
    have "\<exists>k h2. kmalloc KSTACK_SIZE h = Some (k, h2) \<and> objs d = (objs c)\<lparr>heap_of := h2\<rparr>
      \<and> (tasks d = tasks c \<or> free_slot (tasks c) < length (tasks c) \<and> tasks d = (tasks c)[free_slot (tasks c) := t])
      \<and> (\<forall>u. u \<noteq> t \<longrightarrow> task_at d u = task_at c u) \<and> tfiles (task_at d t) = replicate MAX_FILES 0
      \<and> kstack (task_at d t) = k \<and> current d = current c"
      using a m 2(1) unfolding sched_alloc_def
      by (auto simp: Let_def zero_task_def modify_heap_def split: option.splits prod.splits if_splits)
    then obtain k h2 where d: "kmalloc KSTACK_SIZE h = Some (k, h2)" and D: "objs d = (objs c)\<lparr>heap_of := h2\<rparr>"
      "tasks d = tasks c \<or> free_slot (tasks c) < length (tasks c) \<and> tasks d = (tasks c)[free_slot (tasks c) := t]"
      "\<And>u. u \<noteq> t \<Longrightarrow> task_at d u = task_at c u" "tfiles (task_at d t) = replicate MAX_FILES 0"
      "kstack (task_at d t) = k" "current d = current c"
      by metis
    have d': "kmalloc KSTACK_SIZE (heap_of ((objs c)\<lparr>heap_of := h\<rparr>)) = Some (k, h2)"
      using d by simp
    obtain L2 where L2: "obj_ok (fd_slot c) ((objs c)\<lparr>heap_of := h2\<rparr>) L2
        (insert t (if k = 0 then task_blocks c else insert k (task_blocks c)))" "k \<noteq> 0 \<Longrightarrow> k \<notin> task_blocks c \<and> k \<noteq> t"
      using 2(3) sz(3,4) d'
    proof (cases rule: obj_ok_kmalloc)
      case 1
      then show thesis
        using that by simp
    next
      case (2 n)
      then show thesis
        using that by (simp add: insert_commute)
    qed
    have live: "live_tasks d = live_tasks c \<or> live_tasks d = insert t (live_tasks c)"
      unfolding live_tasks_def using D(2) live_tasks_update [OF _ free_slot_free 2(1)] by metis
    have "sys_inv d L2"
      using L2 D 2(1,5) tab live by (intro sys_inv_new_task [where c = c and t = t and k = k]) auto
    moreover have "t \<notin> live_tasks c"
      using 2(5) by (simp add: task_blocks_def)
    moreover from this have "task_at d u = task_at c u" if "u \<in> live_tasks c" for u
      using D(3) [of u] that by metis
    ultimately show ?thesis
      using D live by auto
  qed
  then show "\<exists>L'. sys_inv d L'" "current d = current c" "t \<noteq> 0 \<Longrightarrow> t \<notin> live_tasks c"
    "t \<noteq> 0 \<Longrightarrow> tfiles (task_at d t) = replicate MAX_FILES 0"
    "\<And>u. u \<in> live_tasks c \<Longrightarrow> u \<in> live_tasks d \<and> task_at d u = task_at c u"
    by blast+
qed

text \<open>Reaping takes a task off the table and frees its stack and itself.\<close>

lemma sys_inv_remove:
  assumes inv: "sys_inv c L" and t: "t \<in> live_tasks c"
    and d: "objs d = objs c" "task_at d = task_at c" "live_tasks d = live_tasks c - {t}"
      "length (tasks d) = length (tasks c)"
  shows "sys_inv d L" and "b \<in> task_blocks c \<Longrightarrow> b \<in> dom L \<and> b \<notin> ran (fd_slot d)"
    and "b \<in> task_blocks c \<Longrightarrow> g \<in> ran (fd_slot d) \<Longrightarrow> ftype (filp_at (objs d) g) = FT_PIPE \<Longrightarrow>
      pipe_ptr (filp_at (objs d) g) \<noteq> b"
    and "t \<notin> task_blocks d" and "stack_of c t \<notin> task_blocks d \<or> stack_of c t = 0"
proof -
  have ok: "obj_ok (fd_slot c) (objs c) L (task_blocks c)" and tab: "tables_ok c"
    using inv by (simp_all add: sys_inv_def)
  have sub: "fd_slot d k = Some f \<Longrightarrow> fd_slot c k = Some f" for k f
    using d by (auto simp: fd_slot_def split: prod.splits if_splits)
  then have ran: "ran (fd_slot d) \<subseteq> ran (fd_slot c)"
    unfolding ran_def by blast
  have st: "stack_of d = stack_of c"
    by (simp add: stack_of_def [abs_def] d(2))
  have "task_blocks d \<subseteq> task_blocks c"
    using d(3) by (auto simp: task_blocks_def st)
  then have "obj_ok (fd_slot d) (objs d) L (task_blocks d)"
    unfolding d(1) using ok sub by (intro obj_ok_mono [OF ok]) auto
  moreover have "tables_ok d"
    using tab unfolding tables_ok_def st d(2-4) by blast
  ultimately show "sys_inv d L"
    by (simp add: sys_inv_def)
  show "b \<in> dom L \<and> b \<notin> ran (fd_slot d)" if "b \<in> task_blocks c"
    using that obj_okD(3,4) [OF ok] ran by (auto simp: filp_ok_def)
  show "pipe_ptr (filp_at (objs d) g) \<noteq> b"
    if "b \<in> task_blocks c" "g \<in> ran (fd_slot d)" "ftype (filp_at (objs d) g) = FT_PIPE"
    using that obj_okD(4) [OF ok, of g] ran d(1) by (auto simp: filp_ok_def pipe_ok_def)
  show "t \<notin> task_blocks d"
    using tab t d(3) unfolding task_blocks_def tables_ok_def st by (auto simp: image_iff)
  show "stack_of c t \<notin> task_blocks d \<or> stack_of c t = 0"
    using tab t d(3) unfolding task_blocks_def tables_ok_def st by (auto simp: image_iff)
qed

lemma sys_inv_kfree:
  assumes inv: "sys_inv c L" and b: "b \<in> dom L" "b \<notin> ran (fd_slot c)" "b \<notin> task_blocks c"
    and p: "\<And>g. g \<in> ran (fd_slot c) \<Longrightarrow> ftype (filp_at (objs c) g) = FT_PIPE \<Longrightarrow> pipe_ptr (filp_at (objs c) g) \<noteq> b"
  shows "sys_inv (modify_heap (kfree b) c) (L(b := None))"
proof -
  have ok: "obj_ok (fd_slot c) (objs c) L (task_blocks c)" and tab: "tables_ok c"
    using inv by (simp_all add: sys_inv_def)
  have "obj_ok (fd_slot c) ((objs c)\<lparr>heap_of := kfree b (heap_of (objs c))\<rparr>) (L(b := None)) (task_blocks c)"
    using obj_ok_free [OF ok b p] .
  then show ?thesis
    using tab by (simp add: sys_inv_def modify_heap_def)
qed

lemma heap_frame [simp]:
  "fd_slot (modify_heap g c) = fd_slot c" "task_blocks (modify_heap g c) = task_blocks c"
  "filp_at (objs (modify_heap g c)) = filp_at (objs c)"
  by (simp_all add: modify_heap_def)

lemma same_objs_simps:
  assumes "same_objs c d"
  shows "live_tasks d = live_tasks c" "stack_of d = stack_of c" "tasks d = tasks c"
    "tfiles (task_at d t) = tfiles (task_at c t)" "kstack (task_at d t) = kstack (task_at c t)"
  using assms by (auto simp: same_objs_def live_tasks_def stack_of_def [abs_def])

lemma sys_inv_reap:
  assumes inv: "sys_inv c L" and t: "t \<in> live_tasks c" and r: "sched_reap t c = Some e"
  shows "\<exists>L'. sys_inv e L'"
proof -
  obtain c1 where u: "ring_unlink t c = Some c1"
    using r by (auto simp: sched_reap_def split: option.splits)
  have s1: "same_objs c c1"
    by (rule same_unlink [OF u same_objs_refl])
  have inv1: "sys_inv c1 L"
    by (rule same_objs_inv [OF inv s1])
  define c2 where "c2 = c1\<lparr>tasks := map (\<lambda>x. if x = t then 0 else x) (tasks c1)\<rparr>"
  have t1: "t \<in> live_tasks c1" "t \<noteq> 0"
    using t by (simp_all add: same_objs_simps [OF s1]) (simp add: live_tasks_def)
  have c2: "objs c2 = objs c1" "task_at c2 = task_at c1" "live_tasks c2 = live_tasks c1 - {t}"
    "length (tasks c2) = length (tasks c1)"
    by (auto simp: c2_def live_tasks_def)
  note R = sys_inv_remove [OF inv1 t1(1) c2]
  define c3 where "c3 = (if addrspace (task_at c2 t) \<noteq> 0 \<and> addrspace (task_at c2 t) \<noteq> hal_paging_kernel_dir (the_mm c2)
    then modify_mm (hal_addrspace_destroy (addrspace (task_at c2 t))) c2 else c2)"
  have s3: "same_objs c2 c3"
    by (auto simp: c3_def intro: same_intros)
  have c3: "fd_slot c3 = fd_slot c2" "task_blocks c3 = task_blocks c2" "filp_at (objs c3) = filp_at (objs c2)"
    "task_at c3 = task_at c2"
    by (simp_all add: c3_def modify_mm_def)
  have inv3: "sys_inv c3 L"
    by (rule same_objs_inv [OF R(1) s3])
  let ?k = "stack_of c1 t"
  have k: "kstack (task_at c3 t) = ?k"
    by (simp add: c3 c2 stack_of_def)
  have tb: "t \<in> task_blocks c1"
    using t1 by (simp add: task_blocks_def)
  have "e = modify_heap (kfree t) (if ?k \<noteq> 0 then modify_heap (kfree ?k) c3 else c3)"
    using r unfolding sched_reap_def u option.case Let_def c2_def [symmetric] c3_def [symmetric] k by simp
  moreover have "\<exists>L'. sys_inv (modify_heap (kfree t) (if ?k \<noteq> 0 then modify_heap (kfree ?k) c3 else c3)) L'"
  proof (cases "?k = 0")
    case True
    then show ?thesis
      using sys_inv_kfree [OF inv3, of t] R(2,3) [OF tb] R(4) by (auto simp: c3)
  next
    case False
    have kb: "?k \<in> task_blocks c1"
      using t1 False by (simp add: task_blocks_def)
    have "?k \<noteq> t"
      using inv1 t1 False by (auto simp: sys_inv_def tables_ok_def)
    have "sys_inv (modify_heap (kfree ?k) c3) (L(?k := None))"
      using sys_inv_kfree [OF inv3, of ?k] R(2,3) [OF kb] R(5) False by (auto simp: c3)
    from sys_inv_kfree [OF this, of t]
    have "sys_inv (modify_heap (kfree t) (modify_heap (kfree ?k) c3)) (L(?k := None, t := None))"
      using R(2,3) [OF tb] R(4) \<open>?k \<noteq> t\<close> by (auto simp: c3)
    then show ?thesis
      using False by auto
  qed
  ultimately show ?thesis
    by simp
qed

section \<open>Exit\<close>

lemma sys_inv_close_files:
  assumes "sys_inv c L" and "t \<in> live_tasks c" and "i + n = MAX_FILES"
  shows "\<exists>L'. sys_inv (close_files n i t c) L'"
  using assms
proof (induction n arbitrary: i c L)
  case (Suc n)
  let ?f = "tfiles (task_at c t) ! i"
  show ?case
  proof (cases "?f = 0")
    case True
    then show ?thesis
      using Suc.IH [OF Suc.prems(1,2), of "i + 1"] Suc.prems(3) by simp
  next
    case False
    let ?c = "set_slot t i 0 (c\<lparr>objs := filp_close ?f (objs c)\<rparr>)"
    obtain L' where "sys_inv ?c L'"
      using sys_inv_close_slot [OF Suc.prems(1,2) _ refl False] Suc.prems(3) by auto
    then have "\<exists>L'. sys_inv (close_files n (i + 1) t ?c) L'"
      using Suc.prems(2,3) by (intro Suc.IH) auto
    then show ?thesis
      using False by (simp add: set_slot_def)
  qed
qed auto

lemma sys_inv_exit:
  assumes inv: "sys_inv c L" and t: "current c \<in> live_tasks c" and e: "sched_exit code c = Some d"
  shows "\<exists>L'. sys_inv d L'"
proof -
  let ?t = "current c"
  define c1 where "c1 = orphan_children ?t (tasks c) (modify_task ?t (\<lambda>x. x\<lparr>exit_code := code, tstate := TASK_ZOMBIE\<rparr>) c)"
  have s1: "same_objs c c1"
    unfolding c1_def by (intro same_intros same_modify_task) simp_all
  obtain L1 where L1: "sys_inv (close_files MAX_FILES 0 ?t c1) L1"
    using sys_inv_close_files [OF same_objs_inv [OF inv s1], of ?t 0 MAX_FILES] t by (auto simp: same_objs_simps [OF s1])
  obtain n where "d = switch_to n (sched_wakeup_parent ?t (close_files MAX_FILES 0 ?t c1))"
    using e by (auto simp: sched_exit_def Let_def c1_def split: option.splits)
  then have "same_objs (close_files MAX_FILES 0 ?t c1) d"
    by (simp add: same_intros)
  then show ?thesis
    using same_objs_inv [OF L1] by blast
qed

section \<open>The state after start-up\<close>

lemma sys_inv_empty:
  assumes "heap_rep (heap_of (objs c)) Map.empty" and "tasks c = replicate MAX_TASKS 0"
  shows "sys_inv c Map.empty"
proof -
  have "live_tasks c = {}"
    using assms(2) by (auto simp: live_tasks_def)
  then show ?thesis
    using assms by (auto simp: sys_inv_def obj_ok_def fd_slot_def task_blocks_def tables_ok_def dom_def ran_def)
qed

end
