(* ===== verification/Keyboard.thy ===== *)
theory Keyboard
  imports Sched
begin

text \<open>
  The keyboard driver, \<^verbatim>\<open>kernel/drivers/keyboard.c\<close>: the decoder of scan codes, the ring buffer of typed
  characters, and the interrupt key, which reaches into the scheduler. The byte the interrupt handler reads
  from the data port is an argument of the handler; draining the port in \<^verbatim>\<open>keyboard_init\<close> has no
  effect on the state.
\<close>

unbundle bit_operations_syntax

section \<open>State\<close>

record kbd =
  kbuf :: bytes
  khead :: u32
  ktail :: u32
  kshift :: bool
  kctrl :: bool
  kcaps :: bool
  kextended :: bool
  foreground :: int
  ksched :: sched

definition KBUF_SIZE :: u32 where
  "KBUF_SIZE = 256"

definition map_lower :: bytes where
  "map_lower =
     [0, 27, 0x31, 0x32, 0x33, 0x34, 0x35, 0x36, 0x37, 0x38, 0x39, 0x30, 0x2D, 0x3D, 8,
      9, 0x71, 0x77, 0x65, 0x72, 0x74, 0x79, 0x75, 0x69, 0x6F, 0x70, 0x5B, 0x5D, 10,
      0, 0x61, 0x73, 0x64, 0x66, 0x67, 0x68, 0x6A, 0x6B, 0x6C, 0x3B, 0x27, 0x60,
      0, 0x5C, 0x7A, 0x78, 0x63, 0x76, 0x62, 0x6E, 0x6D, 0x2C, 0x2E, 0x2F, 0,
      0x2A, 0, 0x20, 0] @ replicate 69 0"

definition map_upper :: bytes where
  "map_upper =
     [0, 27, 0x21, 0x40, 0x23, 0x24, 0x25, 0x5E, 0x26, 0x2A, 0x28, 0x29, 0x5F, 0x2B, 8,
      9, 0x51, 0x57, 0x45, 0x52, 0x54, 0x59, 0x55, 0x49, 0x4F, 0x50, 0x7B, 0x7D, 10,
      0, 0x41, 0x53, 0x44, 0x46, 0x47, 0x48, 0x4A, 0x4B, 0x4C, 0x3A, 0x22, 0x7E,
      0, 0x7C, 0x5A, 0x58, 0x43, 0x56, 0x42, 0x4E, 0x4D, 0x3C, 0x3E, 0x3F, 0,
      0x2A, 0, 0x20, 0] @ replicate 69 0"

section \<open>Operations\<close>

fun kill_children :: "nat list \<Rightarrow> u32 \<Rightarrow> sched \<Rightarrow> bool \<times> sched" where
  "kill_children [] owner s = (False, s)"
| "kill_children (i # is) owner s =
     (let t = sched_find_slot (int i) s in
      if t = 0 \<or> parent (task_at s t) \<noteq> owner \<or> tstate (task_at s t) = TASK_ZOMBIE
      then kill_children is owner s
      else let s = modify_task t (\<lambda>x. x\<lparr>exit_code := 130, tstate := TASK_ZOMBIE\<rparr>) s;
               s = sched_wakeup_parent t s;
               (_, s) = kill_children is owner s
           in (True, s))"

definition interrupt_foreground :: "kbd \<Rightarrow> bool \<times> kbd" where
  "interrupt_foreground k =
     (let owner = sched_find (foreground k) (ksched k) in
      if owner = 0 then (False, k)
      else let (killed, s) = kill_children [0..<MAX_TASKS] owner (ksched k) in (killed, k\<lparr>ksched := s\<rparr>))"

text \<open>The part of \<^verbatim>\<open>keyboard_enqueue\<close> that stores a character; a full buffer drops it.\<close>

definition kbd_store :: "u8 \<Rightarrow> kbd \<Rightarrow> kbd" where
  "kbd_store c k =
     (let nxt = (khead k + 1) mod KBUF_SIZE in
      if nxt \<noteq> ktail k then k\<lparr>kbuf := (kbuf k)[unat (khead k) := c], khead := nxt\<rparr> else k)"

definition keyboard_enqueue :: "u8 \<Rightarrow> kbd \<Rightarrow> kbd" where
  "keyboard_enqueue c k =
     (let (killed, k) = (if c = 3 then interrupt_foreground k else (False, k))
      in if killed then k else kbd_store c k)"

definition keyboard_set_foreground :: "int \<Rightarrow> kbd \<Rightarrow> kbd" where
  "keyboard_set_foreground p k = k\<lparr>foreground := p\<rparr>"

definition enqueue_escape :: "u8 \<Rightarrow> kbd \<Rightarrow> kbd" where
  "enqueue_escape code k = keyboard_enqueue code (keyboard_enqueue 0x5B (keyboard_enqueue 27 k))"

definition kbd_handler :: "u8 \<Rightarrow> kbd \<Rightarrow> kbd" where
  "kbd_handler sc k =
     (if sc = 0xE0 then k\<lparr>kextended := True\<rparr>
      else if sc AND 0x80 \<noteq> 0
      then let code = sc AND 0x7F;
               k = (if code = 0x2A \<or> code = 0x36 then k\<lparr>kshift := False\<rparr>
                    else if code = 0x1D then k\<lparr>kctrl := False\<rparr> else k)
           in k\<lparr>kextended := False\<rparr>
      else if kextended k
      then let k = k\<lparr>kextended := False\<rparr> in
        if sc = 0x48 then enqueue_escape 0x41 k
        else if sc = 0x50 then enqueue_escape 0x42 k
        else if sc = 0x4D then enqueue_escape 0x43 k
        else if sc = 0x4B then enqueue_escape 0x44 k
        else if sc = 0x53 then keyboard_enqueue 0x7E (enqueue_escape 0x33 k)
        else k
      else if sc = 0x2A \<or> sc = 0x36 then k\<lparr>kshift := True\<rparr>
      else if sc = 0x1D then k\<lparr>kctrl := True\<rparr>
      else if sc = 0x3A then k\<lparr>kcaps := \<not> kcaps k\<rparr>
      else if sc \<ge> 128 then k
      else let c = (if kshift k \<noteq> kcaps k then map_upper ! unat sc else map_lower ! unat sc) in
        if c = 0 then k
        else let c = (if kctrl k \<and> 0x41 \<le> c \<and> c \<le> 0x5A then c - 0x41 + 1
                      else if kctrl k \<and> 0x61 \<le> c \<and> c \<le> 0x7A then c - 0x61 + 1 else c)
             in keyboard_enqueue c k)"

definition keyboard_init :: "kbd \<Rightarrow> kbd" where
  "keyboard_init k =
     k\<lparr>khead := 0, ktail := 0, kshift := False, kctrl := False, kcaps := False, kextended := False, foreground := 0\<rparr>"

definition keyboard_available :: "kbd \<Rightarrow> int" where
  "keyboard_available k = (if khead k \<noteq> ktail k then 1 else 0)"

definition keyboard_getchar :: "kbd \<Rightarrow> int \<times> kbd" where
  "keyboard_getchar k =
     (if khead k = ktail k then (- 1, k)
      else let c = kbuf k ! unat (ktail k)
           in (uint c, k\<lparr>ktail := (ktail k + 1) mod KBUF_SIZE\<rparr>))"

section \<open>The buffer as a bounded queue\<close>

definition kbd_inv :: "kbd \<Rightarrow> bool" where
  "kbd_inv k \<longleftrightarrow> length (kbuf k) = 256 \<and> unat (khead k) < 256 \<and> unat (ktail k) < 256"

definition kbd_count :: "kbd \<Rightarrow> nat" where
  "kbd_count k = (unat (khead k) + 256 - unat (ktail k)) mod 256"

definition kbd_chars :: "kbd \<Rightarrow> bytes" where
  "kbd_chars k = ring_slice (kbuf k) (unat (ktail k)) (kbd_count k)"

definition kbd_take :: "kbd \<Rightarrow> u8 \<times> kbd" where
  "kbd_take k = (let (c, k) = keyboard_getchar k in (word_of_int c, k))"

lemma unat_next: "unat h < 256 \<Longrightarrow> unat ((h + 1) mod KBUF_SIZE) = (unat h + 1) mod 256"
  by (simp add: KBUF_SIZE_def unat_mod unat_word_ariths)

lemma kbd_count_facts:
  assumes "kbd_inv k"
  shows "kbd_count k \<le> 255" "(unat (ktail k) + kbd_count k) mod 256 = unat (khead k)"
    "kbd_count k = 0 \<longleftrightarrow> khead k = ktail k" "(khead k + 1) mod KBUF_SIZE = ktail k \<longleftrightarrow> kbd_count k = 255"
proof -
  have h: "unat (khead k) < 256" and t: "unat (ktail k) < 256"
    using assms by (simp_all add: kbd_inv_def)
  show "kbd_count k \<le> 255"
    by (simp add: kbd_count_def less_Suc_eq_le [symmetric])
  have c: "kbd_count k = (if unat (ktail k) \<le> unat (khead k) then unat (khead k) - unat (ktail k)
      else unat (khead k) + 256 - unat (ktail k))"
    using h t by (auto simp: kbd_count_def mod_if)
  show "(unat (ktail k) + kbd_count k) mod 256 = unat (khead k)"
    unfolding c using h t by (auto simp: mod_if)
  show "kbd_count k = 0 \<longleftrightarrow> khead k = ktail k"
    unfolding c using h t by (auto simp: word_unat_eq_iff)
  have "(khead k + 1) mod KBUF_SIZE = ktail k \<longleftrightarrow> (unat (khead k) + 1) mod 256 = unat (ktail k)"
    using unat_next [OF h] by (simp add: word_unat_eq_iff)
  also have "\<dots> \<longleftrightarrow> kbd_count k = 255"
    unfolding c using h t by (auto simp: mod_if)
  finally show "(khead k + 1) mod KBUF_SIZE = ktail k \<longleftrightarrow> kbd_count k = 255" .
qed

lemma kbd_store_room:
  assumes "kbd_inv k" and "kbd_count k < 255"
  shows "kbd_inv (kbd_store c k)" "kbd_chars (kbd_store c k) = kbd_chars k @ [c]"
proof -
  note F = kbd_count_facts [OF assms(1)]
  have h: "unat (khead k) < 256" and t: "unat (ktail k) < 256" and len: "length (kbuf k) = 256"
    using assms(1) by (simp_all add: kbd_inv_def)
  let ?k = "k\<lparr>kbuf := (kbuf k)[unat (khead k) := c], khead := (khead k + 1) mod KBUF_SIZE\<rparr>"
  have st: "kbd_store c k = ?k"
    using F(4) assms(2) by (simp add: kbd_store_def Let_def)
  show inv: "kbd_inv (kbd_store c k)"
    using assms(1) by (simp add: st kbd_inv_def unat_next)
  have "kbd_count ?k = Suc (kbd_count k)"
  proof -
    have "(unat (ktail k) + Suc (kbd_count k)) mod 256 = (unat (khead k) + 1) mod 256"
      using F(2) by (metis add_Suc_right Suc_eq_plus1 mod_Suc_eq)
    then have "(unat (khead k) + 1) mod 256 + 256 - unat (ktail k) =
        (unat (ktail k) + Suc (kbd_count k)) mod 256 + 256 - unat (ktail k)"
      by simp
    moreover have "((unat (ktail k) + Suc (kbd_count k)) mod 256 + 256 - unat (ktail k)) mod 256 = Suc (kbd_count k)"
      using t assms(2) by (auto simp: mod_if)
    ultimately show ?thesis
      using h by (simp add: kbd_count_def [of ?k] unat_next)
  qed
  moreover have "(kbuf k)[unat (khead k) := c] = (kbuf k)[(unat (ktail k) + kbd_count k) mod length (kbuf k) := c]"
    using F(2) len by simp
  ultimately show "kbd_chars (kbd_store c k) = kbd_chars k @ [c]"
    using ring_slice_put [of "kbd_count k" "kbuf k" "unat (ktail k)" c] assms(2) len by (simp add: st kbd_chars_def)
qed

lemma kbd_take_some:
  assumes "kbd_inv k" and "kbd_chars k = x # xs"
  shows "fst (kbd_take k) = x" "kbd_inv (snd (kbd_take k))" "kbd_chars (snd (kbd_take k)) = xs"
proof -
  note F = kbd_count_facts [OF assms(1)]
  have h: "unat (khead k) < 256" and t: "unat (ktail k) < 256" and len: "length (kbuf k) = 256"
    using assms(1) by (simp_all add: kbd_inv_def)
  have n: "kbd_count k = Suc (length xs)"
    using assms(2) by (metis kbd_chars_def length_Cons length_ring_slice)
  let ?k = "k\<lparr>ktail := (ktail k + 1) mod KBUF_SIZE\<rparr>"
  have tk: "kbd_take k = (kbuf k ! unat (ktail k), ?k)"
    using F(3) n by (simp add: kbd_take_def keyboard_getchar_def)
  have sl: "ring_slice (kbuf k) (unat (ktail k)) (Suc (length xs)) =
      kbuf k ! unat (ktail k) # ring_slice (kbuf k) ((unat (ktail k) + 1) mod 256) (length xs)"
    using ring_slice_get [of "kbuf k" "unat (ktail k)" "length xs"] t len by simp
  then have x: "kbuf k ! unat (ktail k) = x" "ring_slice (kbuf k) ((unat (ktail k) + 1) mod 256) (length xs) = xs"
    using assms(2) by (simp_all add: kbd_chars_def n)
  have "kbd_count ?k = length xs"
  proof -
    have "unat (khead k) = (unat (ktail k) + Suc (length xs)) mod 256" "length xs < 255"
      using F(1,2) n by simp_all
    then have "(unat (khead k) + 256 - (unat (ktail k) + 1) mod 256) mod 256 = length xs"
      using t by (auto simp: mod_if)
    then show ?thesis
      using t by (simp add: kbd_count_def [of ?k] unat_next)
  qed
  then show "kbd_chars (snd (kbd_take k)) = xs"
    using t x(2) by (simp add: tk kbd_chars_def unat_next)
  show "fst (kbd_take k) = x" "kbd_inv (snd (kbd_take k))"
    using assms(1) t x(1) by (simp_all add: tk kbd_inv_def unat_next)
qed

interpretation kbdq: bounded_queue kbd_inv kbd_chars 255 kbd_store kbd_take
  using kbd_store_room kbd_take_some kbd_count_facts(1)
  by unfold_locales (simp_all add: kbd_chars_def)

section \<open>The interrupt key\<close>

definition live_child :: "u32 \<Rightarrow> sched \<Rightarrow> u32 \<Rightarrow> bool" where
  "live_child owner s t \<longleftrightarrow> t \<noteq> 0 \<and> parent (task_at s t) = owner \<and> tstate (task_at s t) \<noteq> TASK_ZOMBIE"

definition killed :: "task \<Rightarrow> task" where
  "killed x = x\<lparr>exit_code := 130, tstate := TASK_ZOMBIE\<rparr>"

lemma wakeup_parent_facts:
  "tasks (sched_wakeup_parent t s) = tasks s" "objs (sched_wakeup_parent t s) = objs s"
  "u \<noteq> parent (task_at s t) \<Longrightarrow> task_at (sched_wakeup_parent t s) u = task_at s u"
  "parent (task_at (sched_wakeup_parent t s) u) = parent (task_at s u)"
  by (simp_all add: sched_wakeup_parent_def modify_task_def Let_def)

lemma kill_children_spec:
  assumes "length (tasks s) = 64" and "set is \<subseteq> {0..<64}" and "parent (task_at s owner) \<noteq> owner"
    and "kill_children is owner s = (b, s')"
  shows "tasks s' = tasks s \<and> objs s' = objs s \<and> (b \<longleftrightarrow> (\<exists>i \<in> set is. live_child owner s (tasks s ! i)))
    \<and> (\<forall>t. t \<noteq> owner \<longrightarrow> task_at s' t =
         (if live_child owner s t \<and> (\<exists>i \<in> set is. tasks s ! i = t) then killed (task_at s t) else task_at s t))"
  using assms
proof (induction "is" owner s arbitrary: b s' rule: kill_children.induct)
  case (1 owner s)
  then show ?case
    by simp
next
  case (2 i "is" owner s)
  have t: "sched_find_slot (int i) s = tasks s ! i"
    using "2.prems"(2) by (simp add: sched_find_slot_def MAX_TASKS_def)
  let ?t = "tasks s ! i"
  show ?case
  proof (cases "live_child owner s ?t")
    case False
    then have cond: "?t = 0 \<or> parent (task_at s ?t) \<noteq> owner \<or> tstate (task_at s ?t) = TASK_ZOMBIE"
      by (auto simp: live_child_def)
    then have k: "kill_children is owner s = (b, s')"
      using "2.prems"(4) by (auto simp: t Let_def)
    have "tasks s' = tasks s \<and> objs s' = objs s \<and> (b \<longleftrightarrow> (\<exists>i \<in> set is. live_child owner s (tasks s ! i)))
      \<and> (\<forall>t. t \<noteq> owner \<longrightarrow> task_at s' t =
         (if live_child owner s t \<and> (\<exists>i \<in> set is. tasks s ! i = t) then killed (task_at s t) else task_at s t))"
      by (rule "2.IH"(1) [OF refl _ "2.prems"(1) _ "2.prems"(3) k]) (use cond "2.prems"(2) in \<open>auto simp: t\<close>)
    then show ?thesis
      using False by auto
  next
    case True
    then have cond: "\<not> (?t = 0 \<or> parent (task_at s ?t) \<noteq> owner \<or> tstate (task_at s ?t) = TASK_ZOMBIE)"
      and p: "parent (task_at s ?t) = owner"
      by (auto simp: live_child_def)
    have ne: "?t \<noteq> owner"
      using p "2.prems"(3) by auto
    define s1 where "s1 = modify_task ?t (\<lambda>x. x\<lparr>exit_code := 130, tstate := TASK_ZOMBIE\<rparr>) s"
    define s2 where "s2 = sched_wakeup_parent ?t s1"
    obtain b2 where k: "kill_children is owner s2 = (b2, s')" "b"
      using "2.prems"(4) cond by (auto simp: t Let_def s1_def s2_def split: prod.splits)
    have s1: "task_at s1 u = (if u = ?t then killed (task_at s u) else task_at s u)" "tasks s1 = tasks s" "objs s1 = objs s"
        "parent (task_at s1 u) = parent (task_at s u)" for u
      by (simp_all add: s1_def modify_task_def killed_def)
    have s2: "u \<noteq> owner \<Longrightarrow> task_at s2 u = task_at s1 u" "tasks s2 = tasks s" "objs s2 = objs s"
        "parent (task_at s2 u) = parent (task_at s u)" for u
      using wakeup_parent_facts(1,2,4) [of ?t s1] wakeup_parent_facts(3) [where t = ?t and s = s1 and u = u] s1 p
      by (simp_all add: s2_def killed_def)
    have "tasks s' = tasks s2 \<and> objs s' = objs s2 \<and> (b2 \<longleftrightarrow> (\<exists>i \<in> set is. live_child owner s2 (tasks s2 ! i)))
      \<and> (\<forall>t. t \<noteq> owner \<longrightarrow> task_at s' t =
         (if live_child owner s2 t \<and> (\<exists>i \<in> set is. tasks s2 ! i = t) then killed (task_at s2 t) else task_at s2 t))"
    proof (rule "2.IH"(2) [OF refl _ s1_def [folded t] s2_def [folded t] _ _ _ k(1)])
    qed (use cond "2.prems"(1-3) s2 in \<open>auto simp: t\<close>)
    moreover have "live_child owner s2 u \<longleftrightarrow> u \<noteq> ?t \<and> live_child owner s u" if "u \<noteq> owner" for u
      using that s1 s2 by (simp add: live_child_def killed_def)
    ultimately show ?thesis
      using True k(2) ne s1 s2 by auto
  qed
qed

section \<open>Properties\<close>

text \<open>
  C29. The keyboard buffer is a first-in first-out queue of 255 characters: what is typed while there
  is room comes out of \<^verbatim>\<open>keyboard_getchar\<close> in order, after what was there before.
\<close>

theorem keyboard_fifo:
  assumes "kbd_inv k" and "3 \<notin> set xs" and "length (kbd_chars k) + length xs \<le> 255"
  shows "fst (drain kbd_take (length (kbd_chars k) + length xs) (fold keyboard_enqueue xs k)) = kbd_chars k @ xs"
proof -
  have "fold keyboard_enqueue xs k = fold kbd_store xs k"
    using assms(2) by (induction xs arbitrary: k) (auto simp: keyboard_enqueue_def)
  then show ?thesis
    using kbdq.put_get_all [OF assms(1,3)] by simp
qed

definition quiet_kbd :: "sched \<Rightarrow> kbd" where
  "quiet_kbd s = \<lparr>kbuf = replicate 256 0, khead = 254, ktail = 254, kshift = False, kctrl = False, kcaps = False,
     kextended = False, foreground = 0, ksched = s\<rparr>"

theorem keyboard_fifo_witness:
  "\<forall>s. fst (drain kbd_take 3 (fold keyboard_enqueue [0x6C, 0x73, 10] (quiet_kbd s))) = [0x6C, 0x73, 10]"
proof
  fix s
  have "kbd_inv (quiet_kbd s)" "kbd_chars (quiet_kbd s) = []"
    by (simp_all add: quiet_kbd_def kbd_inv_def kbd_chars_def kbd_count_def)
  then show "fst (drain kbd_take 3 (fold keyboard_enqueue [0x6C, 0x73, 10] (quiet_kbd s))) = [0x6C, 0x73, 10]"
    using keyboard_fifo [of "quiet_kbd s" "[0x6C, 0x73, 10]"] by (simp add: numeral_3_eq_3)
qed


definition shell_kbd :: kbd where
  "shell_kbd = (quiet_kbd (two_tasks\<lparr>tasks := [0x1000, 0x2000] @ replicate 62 0\<rparr>))\<lparr>kctrl := True, foreground := 1\<rparr>"


end
