(* ===== verification/Console.thy ===== *)
theory Console
  imports CString
begin

text \<open>
  The text console, \<^verbatim>\<open>kernel/drivers/vga.c\<close>: cursor, scrolling, the escape sequences it understands, and
  formatted output. The state holds the cells of the screen, the position last sent to the display
  controller and the characters sent to the serial port. \<^verbatim>\<open>int\<close> counters are 32-bit words that wrap. A store
  outside the screen, past the end of the number buffer or past the end of a format is \<open>None\<close>.
\<close>

unbundle bit_operations_syntax

section \<open>State\<close>

record console =
  vga :: "u16 list"
  cur_row :: u8
  cur_col :: u8
  color :: u8
  esc_state :: u8
  esc_a :: u32
  esc_b :: u32
  esc_second :: bool
  crtc_pos :: u16
  serial_out :: bytes

definition VGA_COLS :: nat where
  "VGA_COLS = 80"

definition VGA_ROWS :: nat where
  "VGA_ROWS = 25"

text \<open>\<^verbatim>\<open>((uint16_t)color << 8) | c\<close>\<close>

definition cell :: "u8 \<Rightarrow> u8 \<Rightarrow> u16" where
  "cell col c = push_bit 8 (ucast col) OR ucast c"

definition put_cell :: "nat \<Rightarrow> u8 \<Rightarrow> console \<Rightarrow> console option" where
  "put_cell i c s = (if i < length (vga s) then Some (s\<lparr>vga := (vga s)[i := cell (color s) c]\<rparr>) else None)"

definition cursor_index :: "console \<Rightarrow> nat" where
  "cursor_index s = unat (cur_row s) * VGA_COLS + unat (cur_col s)"

section \<open>Operations\<close>

definition update_cursor :: "console \<Rightarrow> console" where
  "update_cursor s = s\<lparr>crtc_pos := of_nat (cursor_index s)\<rparr>"

text \<open>The loops of \<^verbatim>\<open>scroll\<close>, over the cells in the order they are assigned.\<close>

fun move_cells :: "nat list \<Rightarrow> u16 list \<Rightarrow> u16 list" where
  "move_cells [] v = v"
| "move_cells (i # is) v = move_cells is (v[i - VGA_COLS := v ! i])"

fun fill_cells :: "nat list \<Rightarrow> u16 \<Rightarrow> u16 list \<Rightarrow> u16 list" where
  "fill_cells [] x v = v"
| "fill_cells (i # is) x v = fill_cells is x (v[i := x])"

definition scroll :: "console \<Rightarrow> console" where
  "scroll s =
     (if unat (cur_row s) < VGA_ROWS then s
      else let s = s\<lparr>vga := move_cells [VGA_COLS..<VGA_ROWS * VGA_COLS] (vga s)\<rparr>;
               s = s\<lparr>vga := fill_cells [(VGA_ROWS - 1) * VGA_COLS..<VGA_ROWS * VGA_COLS] (cell (color s) 0x20) (vga s)\<rparr>
           in s\<lparr>cur_row := of_nat (VGA_ROWS - 1)\<rparr>)"

definition console_set_color :: "u8 \<Rightarrow> u8 \<Rightarrow> console \<Rightarrow> console" where
  "console_set_color fg bg s = s\<lparr>color := push_bit 4 bg OR (fg AND 0x0F)\<rparr>"

definition console_clear :: "console \<Rightarrow> console" where
  "console_clear s =
     (let s = s\<lparr>vga := fill_cells [0..<VGA_COLS * VGA_ROWS] (cell (color s) 0x20) (vga s)\<rparr>
      in update_cursor (s\<lparr>cur_row := 0, cur_col := 0\<rparr>))"

definition console_init :: "console \<Rightarrow> console" where
  "console_init s = console_clear (s\<lparr>color := 0x07\<rparr>)"

definition digit :: "u8 \<Rightarrow> bool" where
  "digit c \<longleftrightarrow> 0x30 \<le> c \<and> c \<le> 0x39"

text \<open>The final character of an escape sequence.\<close>

definition escape_end :: "u8 \<Rightarrow> console \<Rightarrow> console" where
  "escape_end c s =
     (if c = 0x48 \<or> c = 0x66
      then let s = s\<lparr>cur_row := (if sint (esc_a s) > 0 then ucast (esc_a s - 1) else 0),
                     cur_col := (if sint (esc_b s) > 0 then ucast (esc_b s - 1) else 0)\<rparr>;
               s = (if unat (cur_row s) \<ge> VGA_ROWS then s\<lparr>cur_row := of_nat (VGA_ROWS - 1)\<rparr> else s)
           in (if unat (cur_col s) \<ge> VGA_COLS then s\<lparr>cur_col := of_nat (VGA_COLS - 1)\<rparr> else s)
      else if c = 0x4A \<and> esc_a s = 2 then console_clear s
      else if c = 0x4B
      then s\<lparr>vga := fill_cells [cursor_index s..<unat (cur_row s) * VGA_COLS + VGA_COLS] (cell (color s) 0x20) (vga s)\<rparr>
      else if c = 0x6D then s\<lparr>color := (if esc_a s = 7 then 0x70 else 0x07)\<rparr>
      else s)"

text \<open>An ordinary character; the position it leaves is brought back onto the screen.\<close>

definition plain_char :: "u8 \<Rightarrow> console \<Rightarrow> console option" where
  "plain_char c s =
     (case (if c = 10 then Some (s\<lparr>cur_col := 0, cur_row := cur_row s + 1\<rparr>)
            else if c = 13 then Some (s\<lparr>cur_col := 0\<rparr>)
            else if c = 9 then Some (s\<lparr>cur_col := (cur_col s + 8) AND NOT 7\<rparr>)
            else if c = 8
            then if cur_col s > 0
                 then let s = s\<lparr>cur_col := cur_col s - 1\<rparr> in put_cell (cursor_index s) 0x20 s
                 else Some s
            else map_option (\<lambda>s. s\<lparr>cur_col := cur_col s + 1\<rparr>) (put_cell (cursor_index s) c s)) of
        None \<Rightarrow> None
      | Some s \<Rightarrow>
          let s = (if unat (cur_col s) \<ge> VGA_COLS then s\<lparr>cur_col := 0, cur_row := cur_row s + 1\<rparr> else s)
          in Some (update_cursor (scroll s)))"

definition console_putc :: "u8 \<Rightarrow> console \<Rightarrow> console option" where
  "console_putc c s =
     (let s = s\<lparr>serial_out := serial_out s @ [c]\<rparr> in
      if esc_state s = 0 \<and> c = 27 then Some (s\<lparr>esc_state := 1, esc_a := 0, esc_b := 0, esc_second := False\<rparr>)
      else if esc_state s = 1 \<and> c = 0x5B then Some (s\<lparr>esc_state := 2\<rparr>)
      else let s = (if esc_state s = 1 then s\<lparr>esc_state := 0\<rparr> else s) in
      if esc_state s = 2
      then if c = 0x3F then Some s
           else if digit c
           then Some (if esc_second s then s\<lparr>esc_b := esc_b s * 10 + ucast c - 0x30\<rparr>
                      else s\<lparr>esc_a := esc_a s * 10 + ucast c - 0x30\<rparr>)
           else if c = 0x3B then Some (s\<lparr>esc_second := True\<rparr>)
           else Some (update_cursor ((escape_end c s)\<lparr>esc_state := 0\<rparr>))
      else plain_char c s)"

fun console_puts :: "bytes \<Rightarrow> console \<Rightarrow> console option" where
  "console_puts [] s = Some s"
| "console_puts (c # p) s =
     (if c = 0 then Some s else case console_putc c s of None \<Rightarrow> None | Some s \<Rightarrow> console_puts p s)"

section \<open>Numbers\<close>

text \<open>The loop \<^verbatim>\<open>while (value)\<close>: the digits from the least significant one on.\<close>

function num_digits :: "u32 \<Rightarrow> u32 \<Rightarrow> bytes" where
  "num_digits val base =
     (if val = 0 \<or> base < 2 then []
      else let d = val mod base in
        (if d < 10 then 0x30 + ucast d else 0x61 + ucast d - 10) # num_digits (val div base) base)"
  by pat_completeness auto
termination
proof (relation "measure (\<lambda>(val, base). unat val)")
  fix val base d :: u32
  assume "\<not> (val = 0 \<or> base < 2)"
  then have "0 < unat val" "2 \<le> unat base"
    by (simp_all add: word_less_nat_alt not_less word_unat_eq_iff)
  then show "((val div base, base), (val, base)) \<in> measure (\<lambda>(val, base). unat val)"
    by (simp add: unat_div)
qed simp

declare num_digits.simps [simp del]

text \<open>
  The characters of \<^verbatim>\<open>print_num\<close> in the order they are stored, least significant first: the digits, the
  sign, the padding. The code calls it with the bases 10 and 16.
\<close>

definition num_chars :: "u32 \<Rightarrow> u32 \<Rightarrow> bool \<Rightarrow> nat \<Rightarrow> u8 \<Rightarrow> bytes" where
  "num_chars val base sign width pad =
     (let neg = (sign \<and> sint val < 0);
          val = (if neg then - val else val);
          buf = (if val = 0 then [0x30] else num_digits val base);
          buf = (if neg then buf @ [0x2D] else buf)
      in buf @ replicate (width - length buf) pad)"

definition print_num :: "u32 \<Rightarrow> u32 \<Rightarrow> bool \<Rightarrow> nat \<Rightarrow> u8 \<Rightarrow> console \<Rightarrow> console option" where
  "print_num val base sign width pad s =
     (let buf = num_chars val base sign width pad in
      if length buf > 32 then None
      else fold (\<lambda>c r. case r of None \<Rightarrow> None | Some s \<Rightarrow> console_putc c s) (rev buf) (Some s))"

section \<open>Formats\<close>

datatype fmt_arg = IntArg u32 | StrArg "bytes option"

text \<open>The loop that reads the width of a conversion.\<close>

fun read_width :: "nat \<Rightarrow> bytes \<Rightarrow> nat \<times> bytes" where
  "read_width w [] = (w, [])"
| "read_width w (c # f) = (if digit c then read_width (w * 10 + unat (c - 0x30)) f else (w, c # f))"

definition str_null :: bytes where
  "str_null = [0x28, 0x6E, 0x75, 0x6C, 0x6C, 0x29]"

text \<open>One conversion: the character after the width, the arguments left and the state.\<close>

definition convert :: "u8 \<Rightarrow> nat \<Rightarrow> u8 \<Rightarrow> fmt_arg list \<Rightarrow> console \<Rightarrow> (fmt_arg list \<times> console) option" where
  "convert c width pad args s =
     (if c = 0x64 \<or> c = 0x69
      then (case args of IntArg v # args \<Rightarrow> map_option (Pair args) (print_num v 10 True width pad s) | _ \<Rightarrow> None)
      else if c = 0x75
      then (case args of IntArg v # args \<Rightarrow> map_option (Pair args) (print_num v 10 False width pad s) | _ \<Rightarrow> None)
      else if c = 0x78
      then (case args of IntArg v # args \<Rightarrow> map_option (Pair args) (print_num v 16 False width pad s) | _ \<Rightarrow> None)
      else if c = 0x70
      then (case args of
              IntArg v # args \<Rightarrow>
                (case console_puts [0x30, 0x78] s of
                   None \<Rightarrow> None
                 | Some s \<Rightarrow> map_option (Pair args) (print_num v 16 False 8 0x30 s))
            | _ \<Rightarrow> None)
      else if c = 0x63
      then (case args of IntArg v # args \<Rightarrow> map_option (Pair args) (console_putc (ucast v) s) | _ \<Rightarrow> None)
      else if c = 0x73
      then (case args of
              StrArg p # args \<Rightarrow> map_option (Pair args) (console_puts (case p of None \<Rightarrow> str_null | Some p \<Rightarrow> p) s)
            | _ \<Rightarrow> None)
      else if c = 0x25 then map_option (Pair args) (console_putc 0x25 s)
      else case console_putc 0x25 s of None \<Rightarrow> None | Some s \<Rightarrow> map_option (Pair args) (console_putc c s))"

lemma read_width_length: "length (snd (read_width w f)) \<le> length f"
  by (induction w f rule: read_width.induct) auto

text \<open>\<^verbatim>\<open>fmt\<close> without its terminator; a conversion at its very end steps over the terminator.\<close>

function console_printf :: "bytes \<Rightarrow> fmt_arg list \<Rightarrow> console \<Rightarrow> console option" where
  "console_printf [] args s = Some s"
| "console_printf (c # f) args s =
     (if c \<noteq> 0x25
      then (case console_putc c s of None \<Rightarrow> None | Some s \<Rightarrow> console_printf f args s)
      else let (pad, f) = (case f of [] \<Rightarrow> (0x20, []) | d # g \<Rightarrow> if d = 0x30 then (0x30, g) else (0x20, f));
               (width, f) = read_width 0 f in
        case f of
          [] \<Rightarrow> None
        | d # f \<Rightarrow>
            (case convert d width pad args s of
               None \<Rightarrow> None
             | Some (args, s) \<Rightarrow> console_printf f args s))"
  by pat_completeness auto
termination
proof (relation "measure (\<lambda>(f, args, s). length f)")
  fix c f args s x pad f1 y width f2 d f3 z args' s'
  assume x: "x = (case f of [] \<Rightarrow> (0x20, []) | d # g \<Rightarrow> if d = 0x30 then (0x30, g) else (0x20, f))" "(pad, f1) = x"
    "y = read_width 0 f1" "(width, f2) = y" "f2 = d # f3"
  have "length f1 \<le> length f"
    using x(1,2) by (auto split: list.splits if_splits)
  moreover have "length f2 \<le> length f1"
    using x(3,4) read_width_length [of 0 f1] by (metis snd_conv)
  ultimately show "((f3, args', s'), (c # f, args, s)) \<in> measure (\<lambda>(f, args, s). length f)"
    using x(5) by simp
qed simp_all

declare console_printf.simps [simp del]

section \<open>The screen\<close>

declare upt_rec_numeral [simp del]

text \<open>The cursor is on the screen, which has 80 by 25 cells.\<close>

definition con_inv :: "console \<Rightarrow> bool" where
  "con_inv s \<longleftrightarrow> length (vga s) = 2000 \<and> unat (cur_row s) < 25 \<and> unat (cur_col s) < 80"

lemma length_move_cells [simp]: "length (move_cells is v) = length v"
  by (induction "is" v rule: move_cells.induct) simp_all

lemma length_fill_cells [simp]: "length (fill_cells is x v) = length v"
  by (induction "is" x v rule: fill_cells.induct) simp_all

lemma nth_move_cells:
  assumes "80 \<le> k" and "m \<le> length v" and "j < length v"
  shows "move_cells [k..<m] v ! j = (if k \<le> j + 80 \<and> j + 80 < m then v ! (j + 80) else v ! j)"
  using assms
proof (induction "m - k" arbitrary: k v)
  case 0
  then show ?case
    by auto
next
  case (Suc n)
  then have k: "k < m"
    by simp
  then have "[k..<m] = k # [Suc k..<m]"
    by (rule upt_conv_Cons)
  moreover have "move_cells [Suc k..<m] (v[k - 80 := v ! k]) ! j =
      (if Suc k \<le> j + 80 \<and> j + 80 < m then v[k - 80 := v ! k] ! (j + 80) else v[k - 80 := v ! k] ! j)"
    using Suc by (intro Suc.hyps(1)) simp_all
  ultimately show ?case
    using Suc.prems k by (auto simp: VGA_COLS_def nth_list_update not_less_eq_eq)
qed

lemma nth_fill_cells:
  "j < length v \<Longrightarrow> fill_cells is x v ! j = (if j \<in> set is then x else v ! j)"
  by (induction "is" x v rule: fill_cells.induct) (auto simp: nth_list_update)

lemma scroll_vga:
  assumes "length (vga s) = 2000" and "25 \<le> unat (cur_row s)"
  shows "vga (scroll s) = drop 80 (vga s) @ replicate 80 (cell (color s) 0x20)"
proof (rule nth_equalityI)
  fix j
  assume "j < length (vga (scroll s))"
  then have j: "j < 2000"
    using assms by (simp add: scroll_def VGA_ROWS_def)
  show "vga (scroll s) ! j = (drop 80 (vga s) @ replicate 80 (cell (color s) 0x20)) ! j"
    using assms j nth_move_cells [of 80 2000 "vga s" j]
    by (auto simp: scroll_def VGA_ROWS_def VGA_COLS_def nth_fill_cells nth_append add.commute)
qed (use assms in \<open>simp add: scroll_def VGA_ROWS_def VGA_COLS_def\<close>)

lemma scroll_inv:
  assumes "length (vga s) = 2000" and "unat (cur_col s) < 80"
  shows "con_inv (scroll s)" "serial_out (scroll s) = serial_out s"
  using assms by (auto simp: scroll_def con_inv_def VGA_ROWS_def VGA_COLS_def Let_def)

lemma update_cursor_inv [simp]:
  "con_inv (update_cursor s) \<longleftrightarrow> con_inv s" "serial_out (update_cursor s) = serial_out s"
  by (simp_all add: update_cursor_def con_inv_def)

lemma cursor_index_less: "con_inv s \<Longrightarrow> cursor_index s < 2000"
  by (simp add: con_inv_def cursor_index_def VGA_COLS_def)

lemma put_cell_inv:
  assumes "con_inv s"
  shows "\<exists>s'. put_cell (cursor_index s) c s = Some s' \<and> con_inv s' \<and> cur_col s' = cur_col s \<and> serial_out s' = serial_out s"
  using cursor_index_less [OF assms] assms by (simp add: put_cell_def con_inv_def)

lemma escape_end_inv:
  assumes "con_inv s"
  shows "con_inv (escape_end c s)" "serial_out (escape_end c s) = serial_out s"
  using assms
  by (auto simp: escape_end_def con_inv_def console_clear_def update_cursor_def VGA_ROWS_def VGA_COLS_def Let_def)

text \<open>Any position one step past the end of a line is brought back onto the screen.\<close>

lemma wrap_inv:
  assumes "length (vga s) = 2000" and "unat (cur_col s) \<le> 80" and "unat (cur_row s) \<le> 25"
  defines "s1 \<equiv> (if unat (cur_col s) \<ge> VGA_COLS then s\<lparr>cur_col := 0, cur_row := cur_row s + 1\<rparr> else s)"
  shows "con_inv (update_cursor (scroll s1))" "serial_out (update_cursor (scroll s1)) = serial_out s"
proof -
  have "length (vga s1) = 2000" "unat (cur_col s1) < 80" "serial_out s1 = serial_out s"
    using assms(1,2) by (simp_all add: s1_def VGA_COLS_def)
  then show "con_inv (update_cursor (scroll s1))" "serial_out (update_cursor (scroll s1)) = serial_out s"
    using scroll_inv [of s1] by simp_all
qed

lemma unat_inc_u8: "unat (x :: u8) < 255 \<Longrightarrow> unat (x + 1) = unat x + 1"
  by (simp add: unat_word_ariths)

lemma tab_stop:
  assumes "unat (x :: u8) < 80"
  shows "unat ((x + 8) AND NOT 7) \<le> 80"
proof -
  have "unat (x + 8) = unat x + 8"
    using assms by (simp add: unat_word_ariths)
  then have "unat ((x + 8) AND NOT (mask 3)) = (unat x + 8) div 8 * 8"
    using unat_and_not_mask [of "x + 8" 3] by simp
  moreover have "(unat x + 8) div 8 * 8 \<le> 80"
    using assms by simp
  ultimately show ?thesis
    by (simp add: mask_eq_exp_minus_1)
qed

lemma plain_char_inv:
  assumes "con_inv s"
  shows "\<exists>s'. plain_char c s = Some s' \<and> con_inv s' \<and> serial_out s' = serial_out s"
proof -
  have i: "length (vga s) = 2000" "unat (cur_row s) < 25" "unat (cur_col s) < 80"
    using assms by (simp_all add: con_inv_def)
  let ?mid = "if c = 10 then Some (s\<lparr>cur_col := 0, cur_row := cur_row s + 1\<rparr>)
            else if c = 13 then Some (s\<lparr>cur_col := 0\<rparr>)
            else if c = 9 then Some (s\<lparr>cur_col := (cur_col s + 8) AND NOT 7\<rparr>)
            else if c = 8
            then if cur_col s > 0
                 then let s = s\<lparr>cur_col := cur_col s - 1\<rparr> in put_cell (cursor_index s) 0x20 s
                 else Some s
            else map_option (\<lambda>s. s\<lparr>cur_col := cur_col s + 1\<rparr>) (put_cell (cursor_index s) c s)"
  have "\<exists>s1. ?mid = Some s1 \<and> length (vga s1) = 2000 \<and> unat (cur_col s1) \<le> 80 \<and> unat (cur_row s1) \<le> 25
      \<and> serial_out s1 = serial_out s"
  proof -
    have rw: "unat (cur_row s + 1) \<le> 25" and cl: "unat (cur_col s + 1) \<le> 80"
      using i unat_inc_u8 [of "cur_row s"] unat_inc_u8 [of "cur_col s"] by simp_all
    have bk: "unat (cur_col s - 1) < 80" if "cur_col s > 0"
    proof -
      have "unat (cur_col s - 1) = unat (cur_col s) - 1"
        using that by (simp add: unat_minus_one word_gt_0)
      then show ?thesis
        using i(3) by simp
    qed
    consider "c = 10" | "c = 13" | "c = 9" | "c = 8" "cur_col s > 0" | "c = 8" "\<not> cur_col s > 0"
      | "c \<noteq> 10" "c \<noteq> 13" "c \<noteq> 9" "c \<noteq> 8"
      by blast
    then show ?thesis
    proof cases
      case 3
      then show ?thesis
        using i tab_stop [OF i(3)] by simp
    next
      case 4
      then have "con_inv (s\<lparr>cur_col := cur_col s - 1\<rparr>)"
        using i bk by (simp add: con_inv_def)
      from put_cell_inv [OF this, of "0x20"] show ?thesis
        using 4 by (auto simp: con_inv_def put_cell_def Let_def split: if_splits)
    next
      case 6
      then show ?thesis
        using i cl cursor_index_less [OF assms] by (simp add: put_cell_def)
    qed (use i rw in simp_all)
  qed
  then obtain s1 where s1: "?mid = Some s1" "length (vga s1) = 2000" "unat (cur_col s1) \<le> 80" "unat (cur_row s1) \<le> 25"
      "serial_out s1 = serial_out s"
    by blast
  show ?thesis
    unfolding plain_char_def s1(1) using wrap_inv [OF s1(2-4)] s1(5) by (simp add: Let_def)
qed

lemma con_inv_updates [simp]:
  "con_inv (s\<lparr>esc_state := x\<rparr>) \<longleftrightarrow> con_inv s" "con_inv (s\<lparr>esc_a := a\<rparr>) \<longleftrightarrow> con_inv s"
  "con_inv (s\<lparr>esc_b := a\<rparr>) \<longleftrightarrow> con_inv s" "con_inv (s\<lparr>esc_second := b\<rparr>) \<longleftrightarrow> con_inv s"
  "con_inv (s\<lparr>serial_out := p\<rparr>) \<longleftrightarrow> con_inv s"
  by (simp_all add: con_inv_def)

lemma console_putc_inv:
  assumes "con_inv s"
  shows "\<exists>s'. console_putc c s = Some s' \<and> con_inv s' \<and> serial_out s' = serial_out s @ [c]"
proof -
  define s1 where "s1 = s\<lparr>serial_out := serial_out s @ [c]\<rparr>"
  define s2 where "s2 = (if esc_state s1 = 1 then s1\<lparr>esc_state := 0\<rparr> else s1)"
  have s1: "con_inv s1" "serial_out s1 = serial_out s @ [c]"
    using assms by (simp_all add: s1_def con_inv_def)
  have s2: "con_inv s2" "serial_out s2 = serial_out s @ [c]"
    using s1 by (simp_all add: s2_def con_inv_def)
  have e: "con_inv ((escape_end c s2)\<lparr>esc_state := 0\<rparr>)" "serial_out (escape_end c s2) = serial_out s @ [c]"
    using escape_end_inv [OF s2(1)] s2(2) by simp_all
  show ?thesis
    unfolding console_putc_def Let_def s1_def [symmetric] s2_def [symmetric]
    using s1 s2 e plain_char_inv [OF s2(1), of c] by auto
qed

lemma console_puts_inv:
  assumes "con_inv s"
  shows "\<exists>s'. console_puts p s = Some s' \<and> con_inv s' \<and> serial_out s' = serial_out s @ cstr p"
  using assms
proof (induction p arbitrary: s)
  case (Cons c p)
  obtain s1 where s1: "console_putc c s = Some s1" "con_inv s1" "serial_out s1 = serial_out s @ [c]"
    using console_putc_inv [OF Cons.prems] by blast
  show ?case
    using Cons.IH [OF s1(2)] s1 Cons.prems by auto
qed simp

lemma fold_putc_inv:
  assumes "con_inv s"
  shows "\<exists>s'. fold (\<lambda>c r. case r of None \<Rightarrow> None | Some s \<Rightarrow> console_putc c s) cs (Some s) = Some s'
    \<and> con_inv s' \<and> serial_out s' = serial_out s @ cs"
  using assms
proof (induction cs arbitrary: s)
  case (Cons c cs)
  obtain s1 where s1: "console_putc c s = Some s1" "con_inv s1" "serial_out s1 = serial_out s @ [c]"
    using console_putc_inv [OF Cons.prems] by blast
  show ?case
    using Cons.IH [OF s1(2)] s1 by auto
qed simp

section \<open>Numerals\<close>

definition digit_val :: "u8 \<Rightarrow> nat" where
  "digit_val c = (if unat c < 0x3A then unat c - 0x30 else unat c - 0x61 + 10)"

text \<open>The number a sequence of digits denotes, least significant digit first.\<close>

fun digits_val :: "nat \<Rightarrow> bytes \<Rightarrow> nat" where
  "digits_val b [] = 0"
| "digits_val b (c # cs) = digit_val c + b * digits_val b cs"

lemma digit_val_digit:
  assumes "unat (d :: u32) < 16"
  shows "digit_val (if d < 10 then 0x30 + ucast d else 0x61 + ucast d - 10) = unat d"
proof -
  have u: "unat (ucast d :: u8) = unat d"
    using assms by (simp add: unsigned_ucast_eq take_bit_eq_mod)
  show ?thesis
  proof (cases "d < 10")
    case True
    then have "unat (0x30 + ucast d :: u8) = 0x30 + unat d"
      using assms u by (simp add: unat_word_ariths)
    then show ?thesis
      using True by (simp add: digit_val_def word_less_nat_alt)
  next
    case False
    have "(0x61 + ucast d - 10 :: u8) = 0x57 + ucast d"
      by simp
    moreover have "unat (0x57 + ucast d :: u8) = 0x57 + unat d"
      using assms u by (simp add: unat_word_ariths)
    ultimately show ?thesis
      using False by (simp add: digit_val_def word_less_nat_alt)
  qed
qed

lemma num_digits_val:
  assumes "2 \<le> unat base" and "unat base \<le> 16"
  shows "digits_val (unat base) (num_digits v base) = unat v"
  using assms
proof (induction v base rule: num_digits.induct)
  case (1 v base)
  have "unat v mod unat base < unat base"
    using "1.prems" by (intro mod_less_divisor) simp
  then have "unat (v mod base) < 16"
    using "1.prems" unfolding unat_mod by linarith
  moreover have "\<not> base < 2"
    using "1.prems" by (simp add: word_less_nat_alt)
  ultimately have b: "\<not> base < 2" "unat (v mod base) < 16"
    by simp_all
  show ?case
  proof (cases "v = 0")
    case True
    then show ?thesis
      by (subst num_digits.simps) simp
  next
    case False
    then have "digits_val (unat base) (num_digits v base) = unat (v mod base) + unat base * unat (v div base)"
      using 1 b digit_val_digit [OF b(2)] by (subst num_digits.simps) (simp add: Let_def)
    then show ?thesis
      by (simp add: unat_mod unat_div)
  qed
qed

lemma length_num_digits: "unat v < 2 ^ k \<Longrightarrow> length (num_digits v base) \<le> k"
proof (induction v base arbitrary: k rule: num_digits.induct)
  case (1 v base)
  show ?case
  proof (cases "v = 0 \<or> base < 2")
    case True
    then show ?thesis
      by (subst num_digits.simps) auto
  next
    case False
    then have v: "0 < unat v" "2 \<le> unat base"
      by (simp_all add: word_less_nat_alt not_less unat_gt_0)
    then obtain j where j: "k = Suc j"
      using "1.prems" by (cases k) auto
    have "unat v div unat base \<le> unat v div 2"
      using v(2) by (intro div_le_mono2) simp_all
    also have "\<dots> < 2 ^ j"
      using "1.prems" by (simp add: j)
    finally have "unat (v div base) < 2 ^ j"
      by (simp add: unat_div)
    then have "length (num_digits (v div base) base) \<le> j"
      using "1.IH" False by blast
    then show ?thesis
      using False by (subst num_digits.simps) (simp add: Let_def j)
  qed
qed

section \<open>Properties\<close>


definition blank_screen :: console where
  "blank_screen = \<lparr>vga = replicate 2000 0x0720, cur_row = 24, cur_col = 79, color = 7, esc_state = 0, esc_a = 0, esc_b = 0,
     esc_second = False, crtc_pos = 0, serial_out = []\<rparr>"

lemma blank_screen_inv: "con_inv blank_screen"
  by (simp add: con_inv_def blank_screen_def)


text \<open>
  \<^verbatim>\<open>print_num\<close> prints the number: for an unsigned conversion in base 2 to 16 and a field of at most 32
  characters it writes padding up to the width and then digits that denote the value, inside its
  buffer of 32 bytes.
\<close>

theorem print_num_denotes_value:
  assumes "con_inv s" and "2 \<le> unat base" and "unat base \<le> 16" and "width \<le> 32"
  shows "\<exists>s' ds. print_num v base False width pad s = Some s' \<and> con_inv s' \<and> ds \<noteq> []
    \<and> serial_out s' = serial_out s @ replicate (width - length ds) pad @ ds \<and> digits_val (unat base) (rev ds) = unat v"
proof -
  define ds where "ds = (if v = 0 then [0x30] else num_digits v base)"
  have val: "digits_val (unat base) ds = unat v"
    using num_digits_val [OF assms(2,3)] by (simp add: ds_def digit_val_def)
  have len: "length ds \<le> 32"
    using length_num_digits [of v 32 base] unat_less_32 [of v] by (simp add: ds_def)
  have ne: "ds \<noteq> []"
    using assms(2) by (cases "v = 0") (auto simp: ds_def num_digits.simps [of v base] word_less_nat_alt Let_def)
  have nc: "num_chars v base False width pad = ds @ replicate (width - length ds) pad"
    by (simp add: num_chars_def ds_def Let_def)
  obtain s' where s': "fold (\<lambda>c r. case r of None \<Rightarrow> None | Some s \<Rightarrow> console_putc c s)
        (rev (ds @ replicate (width - length ds) pad)) (Some s) = Some s'"
      "con_inv s'" "serial_out s' = serial_out s @ rev (ds @ replicate (width - length ds) pad)"
    using fold_putc_inv [OF assms(1)] by blast
  have "print_num v base False width pad s = Some s'"
    using s'(1) len assms(4) by (simp add: print_num_def nc Let_def)
  then show ?thesis
    using s'(2,3) val ne by (intro exI [of _ s'] exI [of _ "rev ds"]) simp
qed

theorem print_num_denotes_value_witness:
  "\<exists>s' ds. print_num 0xB8000 16 False 8 0x30 blank_screen = Some s' \<and> serial_out s' = replicate (8 - length ds) 0x30 @ ds
     \<and> digits_val 16 (rev ds) = 753664"
  using print_num_denotes_value [OF blank_screen_inv, of 16 8 "0xB8000" "0x30"] by (auto simp: blank_screen_def)

end
