(* ===== verification/Layout.thy ===== *)
theory Layout
  imports Memory CString
begin

text \<open>
  The structures \<^verbatim>\<open>include/minixfs.h\<close> lays out on disk: superblock, inode and directory entry,
  packed little-endian fields in a byte buffer. A struct assignment through a cast buffer pointer
  is a decoding of the buffer, and a store through it a replacement of the bytes of the struct;
  the lemmas are the round trips and that replacing one struct of a table leaves the others alone.
\<close>

unbundle bit_operations_syntax

section \<open>Fields\<close>

definition word16_of :: "u8 \<Rightarrow> u8 \<Rightarrow> u16" where
  "word16_of a b = ucast a OR push_bit 8 (ucast b)"

definition enc16 :: "u16 \<Rightarrow> bytes" where
  "enc16 w = [ucast w, ucast (drop_bit 8 w)]"

definition enc32 :: "u32 \<Rightarrow> bytes" where
  "enc32 v = [byte_of 0 v, byte_of 1 v, byte_of 2 v, byte_of 3 v]"

definition get16 :: "bytes \<Rightarrow> nat \<Rightarrow> u16" where
  "get16 b i = word16_of (b ! i) (b ! (i + 1))"

definition get32 :: "bytes \<Rightarrow> nat \<Rightarrow> u32" where
  "get32 b i = word32_of (b ! i) (b ! (i + 1)) (b ! (i + 2)) (b ! (i + 3))"

definition put32 :: "bytes \<Rightarrow> nat \<Rightarrow> u32 \<Rightarrow> bytes" where
  "put32 b i v = put_bytes b i (enc32 v)"

definition slice :: "nat \<Rightarrow> nat \<Rightarrow> bytes \<Rightarrow> bytes" where
  "slice i n b = take n (drop i b)"

section \<open>Structures\<close>

record superblock =
  s_ninodes :: u32
  s_imap_blocks :: u16
  s_zmap_blocks :: u16
  s_firstdatazone :: u16
  s_log_zone_size :: u16
  s_max_size :: u32
  s_zones :: u32
  s_magic :: u16
  s_blocksize :: u16
  s_disk_version :: u8

record inode =
  i_mode :: u16
  i_nlinks :: u16
  i_uid :: u16
  i_gid :: u16
  i_size :: u32
  i_atime :: u32
  i_mtime :: u32
  i_ctime :: u32
  i_zone :: "u32 list"

record dirent =
  d_inode :: u32
  d_name :: bytes

definition MINIX3_MAGIC :: u16 where
  "MINIX3_MAGIC = 0x4D5A"

definition MINIX_NAME_MAX :: nat where
  "MINIX_NAME_MAX = 60"

definition MINIX_ROOT_INO :: u32 where
  "MINIX_ROOT_INO = 1"

definition S_IFMT :: u16 where
  "S_IFMT = 0xF000"

definition S_IFREG :: u16 where
  "S_IFREG = 0x8000"

definition S_IFDIR :: u16 where
  "S_IFDIR = 0x4000"

definition S_ISDIR :: "u16 \<Rightarrow> bool" where
  "S_ISDIR m \<longleftrightarrow> m AND S_IFMT = S_IFDIR"

definition S_ISREG :: "u16 \<Rightarrow> bool" where
  "S_ISREG m \<longleftrightarrow> m AND S_IFMT = S_IFREG"

text \<open>The packed layouts; the padding fields of the superblock are not kept.\<close>

definition decode_superblock :: "bytes \<Rightarrow> superblock" where
  "decode_superblock b =
     \<lparr>s_ninodes = get32 b 0, s_imap_blocks = get16 b 6, s_zmap_blocks = get16 b 8, s_firstdatazone = get16 b 10,
      s_log_zone_size = get16 b 12, s_max_size = get32 b 16, s_zones = get32 b 20, s_magic = get16 b 24,
      s_blocksize = get16 b 28, s_disk_version = b ! 30\<rparr>"

definition decode_inode :: "bytes \<Rightarrow> inode" where
  "decode_inode b =
     \<lparr>i_mode = get16 b 0, i_nlinks = get16 b 2, i_uid = get16 b 4, i_gid = get16 b 6, i_size = get32 b 8,
      i_atime = get32 b 12, i_mtime = get32 b 16, i_ctime = get32 b 20,
      i_zone = map (\<lambda>k. get32 b (24 + 4 * k)) [0..<10]\<rparr>"

definition encode_inode :: "inode \<Rightarrow> bytes" where
  "encode_inode n =
     enc16 (i_mode n) @ enc16 (i_nlinks n) @ enc16 (i_uid n) @ enc16 (i_gid n) @ enc32 (i_size n)
     @ enc32 (i_atime n) @ enc32 (i_mtime n) @ enc32 (i_ctime n) @ concat (map enc32 (i_zone n))"

definition decode_dirent :: "bytes \<Rightarrow> dirent" where
  "decode_dirent b = \<lparr>d_inode = get32 b 0, d_name = slice 4 60 b\<rparr>"

definition encode_dirent :: "dirent \<Rightarrow> bytes" where
  "encode_dirent e = enc32 (d_inode e) @ d_name e"

definition zero_inode :: inode where
  "zero_inode = \<lparr>i_mode = 0, i_nlinks = 0, i_uid = 0, i_gid = 0, i_size = 0, i_atime = 0, i_mtime = 0,
     i_ctime = 0, i_zone = replicate 10 0\<rparr>"

text \<open>Tables of structures in a block: \<^verbatim>\<open>tab[i]\<close> and \<^verbatim>\<open>tab[i] = v\<close>, 64 bytes each.\<close>

definition inode_at :: "bytes \<Rightarrow> nat \<Rightarrow> inode" where
  "inode_at b i = decode_inode (slice (64 * i) 64 b)"

definition set_inode_at :: "bytes \<Rightarrow> nat \<Rightarrow> inode \<Rightarrow> bytes" where
  "set_inode_at b i n = put_bytes b (64 * i) (encode_inode n)"

definition dirent_at :: "bytes \<Rightarrow> nat \<Rightarrow> dirent" where
  "dirent_at b i = decode_dirent (slice (64 * i) 64 b)"

definition set_dirent_at :: "bytes \<Rightarrow> nat \<Rightarrow> dirent \<Rightarrow> bytes" where
  "set_dirent_at b i e = put_bytes b (64 * i) (encode_dirent e)"

section \<open>Round trips\<close>

lemma bit_word16_of: "bit (word16_of a b) n = (if n < 8 then bit a n else bit b (n - 8))"
proof -
  have "bit (word16_of a b) n \<longleftrightarrow> n < 16 \<and> (bit a n \<or> (8 \<le> n \<and> bit b (n - 8)))"
    by (auto simp: word16_of_def bit_simps dest: bit_imp_le_length)
  then show ?thesis
    using bit_high_8 [of n a] bit_high_8 [of "n - 8" b] by auto arith
qed

lemma word16_roundtrip [simp]: "word16_of (ucast w) (ucast (drop_bit 8 w)) = w"
  by (rule bit_word_eqI) (auto simp: bit_word16_of bit_simps)

lemma length_enc [simp]: "length (enc16 w) = 2" "length (enc32 v) = 4"
  by (simp_all add: enc16_def enc32_def)

lemma length_encode_inode [simp]: "length (i_zone n) = 10 \<Longrightarrow> length (encode_inode n) = 64"
proof -
  assume "length (i_zone n) = 10"
  moreover have "length (concat (map enc32 zs)) = 4 * length zs" for zs
    by (induction zs) simp_all
  ultimately show ?thesis
    by (simp add: encode_inode_def)
qed

lemma length_encode_dirent [simp]: "length (d_name e) = 60 \<Longrightarrow> length (encode_dirent e) = 64"
  by (simp add: encode_dirent_def)

lemma length_10_conv:
  "length zs = 10 \<Longrightarrow> zs = [zs ! 0, zs ! 1, zs ! 2, zs ! 3, zs ! 4, zs ! 5, zs ! 6, zs ! 7, zs ! 8, zs ! 9]"
  by (rule nth_equalityI) (auto simp: less_Suc_eq eval_nat_numeral)

lemma decode_encode_inode [simp]:
  assumes "length (i_zone n) = 10"
  shows "decode_inode (encode_inode n) = n"
proof -
  obtain z0 z1 z2 z3 z4 z5 z6 z7 z8 z9 where z: "i_zone n = [z0, z1, z2, z3, z4, z5, z6, z7, z8, z9]"
    using length_10_conv [OF assms] by blast
  have u: "[0..<10] = [0, 1, 2, 3, 4, 5, 6, 7, 8, 9]"
    by (simp add: upt_rec)
  show ?thesis
    unfolding decode_inode_def u
    by (rule inode.equality) (simp_all add: z encode_inode_def get16_def get32_def enc16_def enc32_def)
qed

lemma decode_encode_dirent [simp]: "length (d_name e) = 60 \<Longrightarrow> decode_dirent (encode_dirent e) = e"
  by (rule dirent.equality)
    (simp_all add: decode_dirent_def encode_dirent_def get32_def enc32_def slice_def)

lemma length_zones_decode [simp]: "length (i_zone (decode_inode b)) = 10"
  by (simp add: decode_inode_def)

lemma length_zones_zero [simp]: "length (i_zone zero_inode) = 10"
  by (simp add: zero_inode_def)

section \<open>Tables\<close>

lemma nth_put_bytes:
  assumes "j + length s \<le> length d"
  shows "put_bytes d j s ! k = (if j \<le> k \<and> k < j + length s then s ! (k - j) else d ! k)"
proof -
  consider "k < j" | "j \<le> k" "k < j + length s" | "j + length s \<le> k"
    by linarith
  then show ?thesis
  proof cases
    case 3
    have "\<not> k - j < length s" "k - j - length s = k - (j + length s)"
      using 3 by linarith+
    then have "put_bytes d j s ! k = drop (j + length s) d ! (k - (j + length s))"
      using assms 3 by (simp only: put_bytes_def nth_append) (simp add: min_absorb2)
    also have "\<dots> = d ! k"
      using assms 3 by simp
    finally show ?thesis
      using 3 by simp
  next
    case 2
    then have "k - min (length d) j = k - j"
      using assms by simp
    then show ?thesis
      using assms 2 by (simp add: put_bytes_def nth_append) (use assms 2 in linarith)
  qed (use assms in \<open>simp_all add: put_bytes_def nth_append\<close>)
qed

lemma length_slice [simp]: "i + n \<le> length b \<Longrightarrow> length (slice i n b) = n"
  by (simp add: slice_def)

lemma nth_slice: "i + n \<le> length b \<Longrightarrow> k < n \<Longrightarrow> slice i n b ! k = b ! (i + k)"
  by (simp add: slice_def)

lemma slice_put_same: "i + length s \<le> length d \<Longrightarrow> n = length s \<Longrightarrow> slice i n (put_bytes d i s) = s"
  by (rule nth_equalityI) (simp_all add: nth_slice nth_put_bytes)

lemma slice_put_other:
  assumes "j + length s \<le> length d" and "i + n \<le> length d" and "i + n \<le> j \<or> j + length s \<le> i"
  shows "slice i n (put_bytes d j s) = slice i n d"
  using assms by (intro nth_equalityI) (auto simp: nth_slice nth_put_bytes)

lemma length_put32 [simp]: "i + 4 \<le> length b \<Longrightarrow> length (put32 b i v) = length b"
  by (simp add: put32_def)

lemma get32_put32:
  assumes "i + 4 \<le> length b"
  shows "get32 (put32 b i v) i = v"
  using assms by (simp add: put32_def get32_def nth_put_bytes) (simp add: enc32_def)

lemma get32_put32_other:
  assumes "j + 4 \<le> length b" and "i + 4 \<le> j \<or> j + 4 \<le> i"
  shows "get32 (put32 b j v) i = get32 b i"
  using assms by (auto simp: put32_def get32_def nth_put_bytes)

lemma length_set_inode_at [simp]:
  "length b = 1024 \<Longrightarrow> i < 16 \<Longrightarrow> length (i_zone n) = 10 \<Longrightarrow> length (set_inode_at b i n) = 1024"
  by (simp add: set_inode_at_def)

lemma inode_at_set:
  assumes "length b = 1024" and "i < 16" and "j < 16" and "length (i_zone n) = 10"
  shows "inode_at (set_inode_at b i n) j = (if j = i then n else inode_at b j)"
proof (cases "j = i")
  case True
  then show ?thesis
    using assms by (simp add: inode_at_def set_inode_at_def slice_put_same)
next
  case False
  then have "64 * j + 64 \<le> 64 * i \<or> 64 * i + 64 \<le> 64 * j"
    by linarith
  then show ?thesis
    using False assms by (simp add: inode_at_def set_inode_at_def slice_put_other)
qed

lemma length_set_dirent_at [simp]:
  "length b = 1024 \<Longrightarrow> i < 16 \<Longrightarrow> length (d_name e) = 60 \<Longrightarrow> length (set_dirent_at b i e) = 1024"
  by (simp add: set_dirent_at_def)

lemma dirent_at_set:
  assumes "length b = 1024" and "i < 16" and "j < 16" and "length (d_name e) = 60"
  shows "dirent_at (set_dirent_at b i e) j = (if j = i then e else dirent_at b j)"
proof (cases "j = i")
  case True
  then show ?thesis
    using assms by (simp add: dirent_at_def set_dirent_at_def slice_put_same)
next
  case False
  then have "64 * j + 64 \<le> 64 * i \<or> 64 * i + 64 \<le> 64 * j"
    by linarith
  then show ?thesis
    using False assms by (simp add: dirent_at_def set_dirent_at_def slice_put_other)
qed

lemma length_d_name_at [simp]: "length b = 1024 \<Longrightarrow> i < 16 \<Longrightarrow> length (d_name (dirent_at b i)) = 60"
  by (simp add: dirent_at_def decode_dirent_def)

end
