(* ===== verification/Disk.thy ===== *)
theory Disk
  imports Prelude
begin

text \<open>
  The disk as the file system sees it, the contract of \<^verbatim>\<open>kernel/drivers/ata.c\<close>: sectors of 512
  bytes, some of which may be bad. A transfer goes sector by sector and stops at the first bad one,
  leaving what it has transferred. Only the low 28 bits of a sector number reach the drive.
\<close>

unbundle bit_operations_syntax

record disk =
  sector :: "u32 \<Rightarrow> bytes"
  bad :: "u32 \<Rightarrow> bool"

definition lba28 :: "u32 \<Rightarrow> u32" where
  "lba28 l = l AND 0x0FFFFFFF"

fun read_sectors :: "nat \<Rightarrow> u32 \<Rightarrow> bytes \<Rightarrow> disk \<Rightarrow> bool \<times> bytes" where
  "read_sectors 0 l buf d = (True, buf)"
| "read_sectors (Suc n) l buf d =
     (if bad d (lba28 l) then (False, buf)
      else let (ok, rest) = read_sectors n (l + 1) (drop 512 buf) d in (ok, sector d (lba28 l) @ rest))"

fun write_sectors :: "nat \<Rightarrow> u32 \<Rightarrow> bytes \<Rightarrow> disk \<Rightarrow> bool \<times> disk" where
  "write_sectors 0 l buf d = (True, d)"
| "write_sectors (Suc n) l buf d =
     (if bad d (lba28 l) then (False, d)
      else write_sectors n (l + 1) (drop 512 buf) (d\<lparr>sector := (sector d)(lba28 l := take 512 buf)\<rparr>))"

definition disk_read :: "u32 \<Rightarrow> u32 \<Rightarrow> bytes \<Rightarrow> disk \<Rightarrow> int \<times> bytes" where
  "disk_read lba count buf d =
     (let (ok, buf) = read_sectors (unat count) lba buf d in (if ok then sint count else - 1, buf))"

definition disk_write :: "u32 \<Rightarrow> u32 \<Rightarrow> bytes \<Rightarrow> disk \<Rightarrow> int \<times> disk" where
  "disk_write lba count buf d =
     (let (ok, d) = write_sectors (unat count) lba buf d in (if ok then sint count else - 1, d))"

section \<open>Blocks\<close>

definition disk_wf :: "disk \<Rightarrow> bool" where
  "disk_wf d \<longleftrightarrow> (\<forall>l. length (sector d l) = 512)"

text \<open>The contents of a 1024-byte block, and whether both of its sectors are good.\<close>

definition block :: "disk \<Rightarrow> u32 \<Rightarrow> bytes" where
  "block d b = sector d (lba28 (b * 2)) @ sector d (lba28 (b * 2 + 1))"

definition good :: "disk \<Rightarrow> u32 \<Rightarrow> bool" where
  "good d b \<longleftrightarrow> \<not> bad d (lba28 (b * 2)) \<and> \<not> bad d (lba28 (b * 2 + 1))"

text \<open>Block numbers the 28 bits can tell apart.\<close>

definition addressable :: "u32 \<Rightarrow> bool" where
  "addressable b \<longleftrightarrow> unat b < 134217728"

lemma sectors_2:
  "read_sectors 2 l buf d =
     (if bad d (lba28 l) then (False, buf)
      else if bad d (lba28 (l + 1)) then (False, sector d (lba28 l) @ drop 512 buf)
      else (True, sector d (lba28 l) @ sector d (lba28 (l + 1)) @ drop 1024 buf))"
  "write_sectors 2 l buf d =
     (if bad d (lba28 l) then (False, d)
      else let d1 = d\<lparr>sector := (sector d)(lba28 l := take 512 buf)\<rparr> in
        if bad d (lba28 (l + 1)) then (False, d1)
        else (True, d1\<lparr>sector := (sector d1)(lba28 (l + 1) := take 512 (drop 512 buf))\<rparr>))"
  by (simp_all add: numeral_2_eq_2)

lemma lba28_small: "unat l < 268435456 \<Longrightarrow> lba28 l = l"
proof -
  assume "unat l < 268435456"
  then have "unat (l AND mask 28) = unat l"
    by (simp add: unat_and_mask)
  then have "l AND mask 28 = l"
    by (simp only: word_unat_eq_iff)
  then show ?thesis
    by (simp add: lba28_def mask_eq_exp_minus_1)
qed

lemma addressable_lba:
  assumes "addressable b"
  shows "lba28 (b * 2) = b * 2" and "lba28 (b * 2 + 1) = b * 2 + 1"
    and "unat (b * 2) = 2 * unat b" and "unat (b * 2 + 1) = 2 * unat b + 1"
proof -
  show u: "unat (b * 2) = 2 * unat b" "unat (b * 2 + 1) = 2 * unat b + 1"
    using assms by (simp_all add: addressable_def unat_word_ariths)
  show "lba28 (b * 2) = b * 2" "lba28 (b * 2 + 1) = b * 2 + 1"
    using assms u by (intro lba28_small; simp add: addressable_def)+
qed

lemma sint_2 [simp]: "sint (2 :: u32) = 2"
  by code_simp

lemma disk_read_block:
  assumes "good d b" and "length buf = 1024"
  shows "disk_read (b * 2) 2 buf d = (2, block d b)"
  using assms by (simp add: disk_read_def good_def block_def sectors_2)

lemma disk_read_block_bad: "\<not> good d b \<Longrightarrow> fst (disk_read (b * 2) 2 buf d) = - 1"
  by (auto simp: disk_read_def good_def sectors_2)

lemma disk_write_block:
  assumes "disk_wf d" "good d b" and "addressable b" and "length buf = 1024"
    and "disk_write (b * 2) 2 buf d = (r, d')"
  shows "r = 2" and "disk_wf d'" and "bad d' = bad d" and "block d' b = buf"
    and "\<And>c. addressable c \<Longrightarrow> c \<noteq> b \<Longrightarrow> block d' c = block d c"
proof -
  note A = addressable_lba [OF assms(3)]
  have ne: "b * 2 \<noteq> b * 2 + 1"
    by simp
  have r: "r = 2" and d': "d' = d\<lparr>sector := (sector d)(b * 2 := take 512 buf, b * 2 + 1 := drop 512 buf)\<rparr>"
    using assms(2,4,5) by (auto simp: disk_write_def good_def A sectors_2)
  show "r = 2" by (rule r)
  show "disk_wf d'" "bad d' = bad d"
    using assms(1,4) by (auto simp: d' disk_wf_def)
  show "block d' b = buf"
    using ne by (simp add: block_def d' A)
  show "block d' c = block d c" if "addressable c" "c \<noteq> b" for c
  proof -
    note C = addressable_lba [OF that(1)]
    have "unat c \<noteq> unat b"
      using that(2) by (simp add: word_unat_eq_iff)
    then have "unat (c * 2) \<noteq> unat (b * 2)" "unat (c * 2) \<noteq> unat (b * 2 + 1)"
      "unat (c * 2 + 1) \<noteq> unat (b * 2)" "unat (c * 2 + 1) \<noteq> unat (b * 2 + 1)"
      unfolding A(3,4) C(3,4) by presburger+
    then have "c * 2 \<noteq> b * 2" "c * 2 \<noteq> b * 2 + 1" "c * 2 + 1 \<noteq> b * 2" "c * 2 + 1 \<noteq> b * 2 + 1"
      by metis+
    then show ?thesis
      by (simp add: block_def d' C)
  qed
qed

end
