(* ===== verification/MinixFs.thy ===== *)
theory MinixFs
  imports Layout Disk
begin

text \<open>
  The file system, \<^verbatim>\<open>kernel/fs/minixfs.c\<close>. The record \<open>fs\<close> holds the file's static variables and
  the disk below. A buffer on the C stack starts with unspecified bytes, \<open>junk\<close>; where the code
  ignores the result of a read, the buffer then keeps what it held. A path is the list of the
  characters of the C string, and reading at its end gives the terminator. A result code is an \<open>int\<close>;
  a routine that also writes through an out pointer returns an \<open>option\<close>, \<open>None\<close> for \<open>-1\<close>.
\<close>

unbundle bit_operations_syntax

record fs =
  sb :: superblock
  imap_start :: u32
  zmap_start :: u32
  inode_start :: u32
  data_start :: u32
  mounted :: bool
  dsk :: disk
  junk :: bytes

section \<open>Blocks and inodes\<close>

definition block_read :: "u32 \<Rightarrow> bytes \<Rightarrow> fs \<Rightarrow> int \<times> bytes" where
  "block_read b buf s = disk_read (b * 2) 2 buf (dsk s)"

definition block_write :: "u32 \<Rightarrow> bytes \<Rightarrow> fs \<Rightarrow> int \<times> fs" where
  "block_write b buf s = (let (r, d) = disk_write (b * 2) 2 buf (dsk s) in (r, s\<lparr>dsk := d\<rparr>))"

definition inode_block :: "u32 \<Rightarrow> fs \<Rightarrow> u32" where
  "inode_block ino s = inode_start s + (ino - 1) div 16"

definition inode_index :: "u32 \<Rightarrow> nat" where
  "inode_index ino = unat ((ino - 1) mod 16)"

definition read_inode :: "u32 \<Rightarrow> fs \<Rightarrow> inode option" where
  "read_inode ino s =
     (if ino < 1 then None
      else let (r, buf) = block_read (inode_block ino s) (junk s) s in
        if r < 0 then None else Some (inode_at buf (inode_index ino)))"

definition write_inode :: "u32 \<Rightarrow> inode \<Rightarrow> fs \<Rightarrow> int \<times> fs" where
  "write_inode ino n s =
     (if ino < 1 then (- 1, s)
      else let (r, buf) = block_read (inode_block ino s) (junk s) s in
        if r < 0 then (- 1, s)
        else block_write (inode_block ino s) (set_inode_at buf (inode_index ino) n) s)"

text \<open>A call \<^verbatim>\<open>read_inode(ino, &in)\<close> whose result is ignored: on failure \<^verbatim>\<open>in\<close> keeps its value.\<close>

definition read_inode_into :: "inode \<Rightarrow> u32 \<Rightarrow> fs \<Rightarrow> inode" where
  "read_inode_into n ino s = (case read_inode ino s of None \<Rightarrow> n | Some n \<Rightarrow> n)"

definition junk_inode :: "fs \<Rightarrow> inode" where
  "junk_inode s = decode_inode (junk s)"

section \<open>Bitmaps\<close>

text \<open>The measure of a loop \<^verbatim>\<open>for (b = 0; b < n; b++)\<close>.\<close>

lemma count_up_less: "b < n \<Longrightarrow> unat n - unat (b + 1) < unat n - unat b" for b n :: u32
  using unat_add_no_wrap [of b 1] unat_less_32 [of n] by (auto simp: word_less_nat_alt)

function first_clear :: "bytes \<Rightarrow> nat \<Rightarrow> nat option" where
  "first_clear buf i =
     (if i < 1024 * 8
      then if \<not> bit (buf ! (i div 8)) (i mod 8) then Some i else first_clear buf (i + 1)
      else None)"
  by pat_completeness auto
termination
  by (relation "measure (\<lambda>(buf, i). 1024 * 8 - i)") auto

declare first_clear.simps [simp del]

definition set_bit_at :: "bytes \<Rightarrow> nat \<Rightarrow> bytes" where
  "set_bit_at buf i = buf[i div 8 := buf ! (i div 8) OR push_bit (i mod 8) 1]"

definition clear_bit_at :: "bytes \<Rightarrow> nat \<Rightarrow> bytes" where
  "clear_bit_at buf i = buf[i div 8 := buf ! (i div 8) AND NOT (push_bit (i mod 8) 1)]"

function find_free_loop :: "u32 \<Rightarrow> u32 \<Rightarrow> u32 \<Rightarrow> bytes \<Rightarrow> fs \<Rightarrow> u32 option \<times> fs" where
  "find_free_loop map_start map_blocks b buf s =
     (if b < map_blocks
      then let (r, buf) = block_read (map_start + b) buf s in
        if r < 0 then (None, s)
        else case first_clear buf 0 of
          Some i \<Rightarrow>
            (let (r, s) = block_write (map_start + b) (set_bit_at buf i) s in
             if r < 0 then (None, s) else (Some (b * 1024 * 8 + of_nat i), s))
        | None \<Rightarrow> find_free_loop map_start map_blocks (b + 1) buf s
      else (None, s))"
  by pat_completeness auto
termination
  by (relation "measure (\<lambda>(m, n, b, buf, s). unat n - unat b)") (auto intro: count_up_less)

declare find_free_loop.simps [simp del]

definition bitmap_find_free :: "u32 \<Rightarrow> u32 \<Rightarrow> fs \<Rightarrow> u32 option \<times> fs" where
  "bitmap_find_free map_start map_blocks s = find_free_loop map_start map_blocks 0 (junk s) s"

definition bitmap_clear :: "u32 \<Rightarrow> u32 \<Rightarrow> fs \<Rightarrow> int \<times> fs" where
  "bitmap_clear map_start num s =
     (let block = num div (1024 * 8); rem = num mod (1024 * 8);
          (r, buf) = block_read (map_start + block) (junk s) s in
      if r < 0 then (- 1, s) else block_write (map_start + block) (clear_bit_at buf (unat rem)) s)"

definition alloc_inode :: "fs \<Rightarrow> u32 \<times> fs" where
  "alloc_inode s =
     (case bitmap_find_free (imap_start s) (ucast (s_imap_blocks (sb s))) s of
        (None, s) \<Rightarrow> (0, s)
      | (Some num, s) \<Rightarrow> (num, s))"

definition alloc_zone :: "fs \<Rightarrow> u32 \<times> fs" where
  "alloc_zone s =
     (case bitmap_find_free (zmap_start s) (ucast (s_zmap_blocks (sb s))) s of
        (None, s) \<Rightarrow> (0, s)
      | (Some num, s) \<Rightarrow>
          (let zone = num + ucast (s_firstdatazone (sb s)) - 1;
               (_, s) = block_write zone (replicate 1024 0) s
           in (zone, s)))"

definition free_inode :: "u32 \<Rightarrow> fs \<Rightarrow> fs" where
  "free_inode ino s = snd (bitmap_clear (imap_start s) ino s)"

definition free_zone :: "u32 \<Rightarrow> fs \<Rightarrow> fs" where
  "free_zone zone s =
     (if zone < ucast (s_firstdatazone (sb s)) then s
      else snd (bitmap_clear (zmap_start s) (zone - ucast (s_firstdatazone (sb s)) + 1) s))"

section \<open>The blocks of a file\<close>

text \<open>The three stanzas \<^verbatim>\<open>if (in->i_zone[k] == 0) { in->i_zone[k] = alloc_zone(); write_inode(ino, in); }\<close>.\<close>

definition ensure_zone :: "nat \<Rightarrow> u32 \<Rightarrow> inode \<Rightarrow> fs \<Rightarrow> inode \<times> fs" where
  "ensure_zone k ino n s =
     (if i_zone n ! k = 0
      then let (z, s) = alloc_zone s;
               n = n\<lparr>i_zone := (i_zone n)[k := z]\<rparr>;
               (_, s) = write_inode ino n s
           in (n, s)
      else (n, s))"

text \<open>The three stanzas that read an indirect block and look up, or fill, one of its 256 entries.\<close>

definition table_zone :: "u32 \<Rightarrow> nat \<Rightarrow> bool \<Rightarrow> fs \<Rightarrow> u32 \<times> fs" where
  "table_zone t i alloc s =
     (let (_, ind) = block_read t (junk s) s; e = get32 ind (4 * i) in
      if e = 0 \<and> alloc
      then let (z, s) = alloc_zone s; (_, s) = block_write t (put32 ind (4 * i) z) s in (z, s)
      else (e, s))"

definition map_block :: "inode \<Rightarrow> u32 \<Rightarrow> bool \<Rightarrow> u32 \<Rightarrow> fs \<Rightarrow> u32 \<times> inode \<times> fs" where
  "map_block n fileblock alloc ino s =
     (if fileblock < 7
      then let (n, s) = (if alloc then ensure_zone (unat fileblock) ino n s else (n, s))
           in (i_zone n ! unat fileblock, n, s)
      else let fileblock = fileblock - 7 in
      if fileblock < 256
      then if i_zone n ! 7 = 0 \<and> \<not> alloc then (0, n, s)
           else let (n, s) = ensure_zone 7 ino n s;
                    (z, s) = table_zone (i_zone n ! 7) (unat fileblock) alloc s
                in (z, n, s)
      else let fileblock = fileblock - 256; dbl_idx = fileblock div 256; sng_idx = fileblock mod 256 in
      if dbl_idx \<ge> 256 then (0, n, s)
      else if i_zone n ! 8 = 0 \<and> \<not> alloc then (0, n, s)
      else let (n, s) = ensure_zone 8 ino n s;
               (d, s) = table_zone (i_zone n ! 8) (unat dbl_idx) alloc s
           in if d = 0 \<and> \<not> alloc then (0, n, s)
              else let (z, s) = table_zone d (unat sng_idx) alloc s in (z, n, s))"

section \<open>Mounting\<close>

definition minixfs_mount :: "fs \<Rightarrow> int \<times> fs" where
  "minixfs_mount s =
     (let (r, buf) = block_read 1 (junk s) s in
      if r < 0 then (- 1, s)
      else let s = s\<lparr>sb := decode_superblock buf\<rparr> in
        if s_magic (sb s) \<noteq> MINIX3_MAGIC then (- 1, s)
        else let s = s\<lparr>imap_start := 2\<rparr>;
                 s = s\<lparr>zmap_start := imap_start s + ucast (s_imap_blocks (sb s))\<rparr>;
                 s = s\<lparr>inode_start := zmap_start s + ucast (s_zmap_blocks (sb s))\<rparr>;
                 s = s\<lparr>data_start := ucast (s_firstdatazone (sb s))\<rparr>
             in (0, s\<lparr>mounted := True\<rparr>))"

section \<open>Directories\<close>

definition dir_nblocks :: "inode \<Rightarrow> u32" where
  "dir_nblocks n = (i_size n + 1024 - 1) div 1024"

text \<open>\<^verbatim>\<open>strncmp(de[i].name, name, MINIX_NAME_MAX) == 0\<close>\<close>

definition name_is :: "bytes \<Rightarrow> bytes \<Rightarrow> bool" where
  "name_is field name \<longleftrightarrow> strncmp field (name @ [0]) MINIX_NAME_MAX = Some 0"

text \<open>\<^verbatim>\<open>strncpy(de[i].name, name, MINIX_NAME_MAX)\<close>, which stays inside both its arguments.\<close>

definition name_field :: "bytes \<Rightarrow> bytes \<Rightarrow> bytes" where
  "name_field field name = (case strncpy field (name @ [0]) MINIX_NAME_MAX of Some f \<Rightarrow> f | None \<Rightarrow> field)"

text \<open>The loop over the 16 entries of a block, up to the first that satisfies \<open>P\<close>.\<close>

function find_entry :: "(dirent \<Rightarrow> bool) \<Rightarrow> bytes \<Rightarrow> nat \<Rightarrow> nat option" where
  "find_entry P buf i =
     (if i < 16 then if P (dirent_at buf i) then Some i else find_entry P buf (i + 1) else None)"
  by pat_completeness auto
termination
  by (relation "measure (\<lambda>(P, buf, i). 16 - i)") auto

declare find_entry.simps [simp del]

text \<open>
  The loop over the blocks of a directory that \<^verbatim>\<open>dir_lookup\<close>, \<^verbatim>\<open>dir_remove\<close> and \<^verbatim>\<open>dir_is_empty\<close>
  share. It calls \<^verbatim>\<open>map_block\<close> without allocation, which leaves the inode and the disk as they are.
\<close>

function scan_dir :: "(dirent \<Rightarrow> bool) \<Rightarrow> inode \<Rightarrow> u32 \<Rightarrow> u32 \<Rightarrow> u32 \<Rightarrow> bytes \<Rightarrow> fs \<Rightarrow> (u32 \<times> bytes \<times> nat) option"
where
  "scan_dir P n dir nblocks b buf s =
     (if b < nblocks
      then let (zone, _, _) = map_block n b False dir s in
        if zone = 0 then scan_dir P n dir nblocks (b + 1) buf s
        else let (_, buf) = block_read zone buf s in
          case find_entry P buf 0 of
            Some i \<Rightarrow> Some (zone, buf, i)
          | None \<Rightarrow> scan_dir P n dir nblocks (b + 1) buf s
      else None)"
  by pat_completeness auto
termination
  by (relation "measure (\<lambda>(P, n, dir, nblocks, b, buf, s). unat nblocks - unat b)")
    (auto intro: count_up_less)

declare scan_dir.simps [simp del]

definition dir_lookup :: "u32 \<Rightarrow> bytes \<Rightarrow> fs \<Rightarrow> u32 option" where
  "dir_lookup dir name s =
     (case read_inode dir s of
        None \<Rightarrow> None
      | Some n \<Rightarrow>
          if \<not> S_ISDIR (i_mode n) then None
          else case scan_dir (\<lambda>e. d_inode e \<noteq> 0 \<and> name_is (d_name e) name) n dir (dir_nblocks n) 0 (junk s) s of
            None \<Rightarrow> None
          | Some (zone, buf, i) \<Rightarrow> Some (d_inode (dirent_at buf i)))"

function dir_add_loop :: "u32 \<Rightarrow> bytes \<Rightarrow> u32 \<Rightarrow> u32 \<Rightarrow> u32 \<Rightarrow> inode \<Rightarrow> bytes \<Rightarrow> fs \<Rightarrow> bool \<times> inode \<times> fs" where
  "dir_add_loop dir name ino nblocks b n buf s =
     (if b < nblocks
      then let (zone, n, s) = map_block n b True dir s;
               (_, buf) = block_read zone buf s in
        case find_entry (\<lambda>e. d_inode e = 0) buf 0 of
          Some i \<Rightarrow>
            (let e = dirent_at buf i;
                 buf = set_dirent_at buf i \<lparr>d_inode = ino, d_name = name_field (d_name e) name\<rparr>;
                 (_, s) = block_write zone buf s
             in (True, n, s))
        | None \<Rightarrow> dir_add_loop dir name ino nblocks (b + 1) n buf s
      else (False, n, s))"
  by pat_completeness auto
termination
  by (relation "measure (\<lambda>(dir, name, ino, nblocks, b, n, buf, s). unat nblocks - unat b)")
    (auto intro: count_up_less)

declare dir_add_loop.simps [simp del]

definition dir_add :: "u32 \<Rightarrow> bytes \<Rightarrow> u32 \<Rightarrow> fs \<Rightarrow> int \<times> fs" where
  "dir_add dir name ino s =
     (case read_inode dir s of
        None \<Rightarrow> (- 1, s)
      | Some n \<Rightarrow>
          let nblocks = dir_nblocks n;
              (added, n, s) = dir_add_loop dir name ino nblocks 0 n (junk s) s in
          if added then (0, s)
          else let (zone, n, s) = map_block n nblocks True dir s in
            if zone = 0 then (- 1, s)
            else let buf = replicate 1024 0;
                     buf = set_dirent_at buf 0 \<lparr>d_inode = ino, d_name = name_field (replicate 60 0) name\<rparr>;
                     (_, s) = block_write zone buf s;
                     n = n\<lparr>i_size := (nblocks + 1) * 1024\<rparr>;
                     (_, s) = write_inode dir n s
                 in (0, s))"

definition dir_remove :: "u32 \<Rightarrow> bytes \<Rightarrow> fs \<Rightarrow> int \<times> fs" where
  "dir_remove dir name s =
     (case read_inode dir s of
        None \<Rightarrow> (- 1, s)
      | Some n \<Rightarrow>
          case scan_dir (\<lambda>e. d_inode e \<noteq> 0 \<and> name_is (d_name e) name) n dir (dir_nblocks n) 0 (junk s) s of
            None \<Rightarrow> (- 1, s)
          | Some (zone, buf, i) \<Rightarrow>
              let buf = set_dirent_at buf i \<lparr>d_inode = 0, d_name = replicate 60 0\<rparr>;
                  (_, s) = block_write zone buf s
              in (0, s))"

section \<open>Paths\<close>

definition slash :: u8 where
  "slash = 0x2F"

text \<open>The loop that copies a component, keeping at most 60 characters, and the one that skips slashes.\<close>

fun scan_comp :: "bytes \<Rightarrow> bytes \<Rightarrow> bytes \<times> bytes" where
  "scan_comp cmp [] = (cmp, [])"
| "scan_comp cmp (c # p) =
     (if c \<noteq> 0 \<and> c \<noteq> slash
      then scan_comp (if length cmp < MINIX_NAME_MAX then cmp @ [c] else cmp) p
      else (cmp, c # p))"

fun skip_slashes :: "bytes \<Rightarrow> bytes" where
  "skip_slashes [] = []"
| "skip_slashes (c # p) = (if c = slash then skip_slashes p else c # p)"

definition at_end :: "bytes \<Rightarrow> bool" where
  "at_end p \<longleftrightarrow> (case p of [] \<Rightarrow> True | c # _ \<Rightarrow> c = 0)"

lemma scan_comp_length: "length (snd (scan_comp cmp p)) \<le> length p"
  by (induction cmp p rule: scan_comp.induct) auto

lemma skip_slashes_length: "length (skip_slashes p) \<le> length p"
  by (induction p rule: skip_slashes.induct) auto

lemma scan_step_less:
  assumes "\<not> at_end p"
  shows "length (skip_slashes (snd (scan_comp cmp p))) < length p"
proof (cases p)
  case (Cons c q)
  show ?thesis
  proof (cases "c = slash")
    case True
    then show ?thesis
      using skip_slashes_length [of q] by (simp add: Cons)
  next
    case False
    let ?cmp = "if length cmp < MINIX_NAME_MAX then cmp @ [c] else cmp"
    have "c \<noteq> 0"
      using assms by (simp add: Cons at_end_def)
    then show ?thesis
      using False skip_slashes_length [of "snd (scan_comp ?cmp q)"] scan_comp_length [of ?cmp q]
      by (simp add: Cons)
  qed
qed (use assms in \<open>simp add: at_end_def\<close>)

lemma scan_at_end: "at_end p \<Longrightarrow> scan_comp cmp p = (cmp, p) \<and> skip_slashes p = p"
  by (cases p) (auto simp: at_end_def slash_def)

function split_loop :: "u32 \<Rightarrow> bytes \<Rightarrow> fs \<Rightarrow> (u32 \<times> bytes) option" where
  "split_loop cur p s =
     (let (cmp, p1) = scan_comp [] p; p2 = skip_slashes p1 in
      if at_end p2
      then if cmp = [] then Some (MINIX_ROOT_INO, []) else Some (cur, cmp)
      else case dir_lookup cur cmp s of
        None \<Rightarrow> None
      | Some nxt \<Rightarrow> split_loop nxt p2 s)"
  by pat_completeness auto
termination
proof (relation "measure (\<lambda>(cur, p, s). length p)")
  fix cur p s x cmp p1 p2 nxt
  assume "x = scan_comp [] p" "(cmp, p1) = x" "p2 = skip_slashes p1" "\<not> at_end p2"
  then have "p2 = skip_slashes (snd (scan_comp [] p))" "\<not> at_end p2"
    by (metis snd_conv)+
  then show "((nxt, p2, s), (cur, p, s)) \<in> measure (\<lambda>(cur, p, s). length p)"
    using scan_at_end [of p "[]"] scan_step_less [of p "[]"] by (cases "at_end p") auto
qed simp

declare split_loop.simps [simp del]

definition split_path :: "bytes \<Rightarrow> fs \<Rightarrow> (u32 \<times> bytes) option" where
  "split_path path s =
     (case path of
        [] \<Rightarrow> None
      | c # p \<Rightarrow> if c \<noteq> slash then None else split_loop MINIX_ROOT_INO p s)"

function resolve_loop :: "u32 \<Rightarrow> bytes \<Rightarrow> fs \<Rightarrow> u32" where
  "resolve_loop cur p s =
     (if at_end p then cur
      else let (cmp, p1) = scan_comp [] p; p2 = skip_slashes p1 in
        if cmp = [] then cur
        else case dir_lookup cur cmp s of
          None \<Rightarrow> 0
        | Some nxt \<Rightarrow> resolve_loop nxt p2 s)"
  by pat_completeness auto
termination
proof (relation "measure (\<lambda>(cur, p, s). length p)")
  fix cur p s x cmp p1 p2 nxt
  assume "\<not> at_end p" "x = scan_comp [] p" "(cmp, p1) = x" "p2 = skip_slashes p1"
  then show "((nxt, p2, s), (cur, p, s)) \<in> measure (\<lambda>(cur, p, s). length p)"
    using scan_step_less [of p "[]"] by (cases "scan_comp [] p") auto
qed simp

declare resolve_loop.simps [simp del]

text \<open>\<^verbatim>\<open>path + 1\<close> steps over the first character, whatever it is; an empty path has no such position.\<close>

definition minixfs_resolve :: "bytes \<Rightarrow> fs \<Rightarrow> u32" where
  "minixfs_resolve path s =
     (if \<not> mounted s then 0
      else if strcmp (path @ [0]) [slash, 0] = Some 0 then MINIX_ROOT_INO
      else resolve_loop MINIX_ROOT_INO (drop 1 path) s)"

section \<open>Permissions\<close>

definition minixfs_check_perm :: "u32 \<Rightarrow> u32 \<Rightarrow> u16 \<Rightarrow> u16 \<Rightarrow> fs \<Rightarrow> int" where
  "minixfs_check_perm ino want uid gid s =
     (case read_inode ino s of
        None \<Rightarrow> - 1
      | Some n \<Rightarrow>
          if uid = 0 then 0
          else let perm = (if i_uid n = uid then drop_bit 6 (ucast (i_mode n)) AND 7
                           else if i_gid n = gid then drop_bit 3 (ucast (i_mode n)) AND 7
                           else ucast (i_mode n) AND 7 :: u32)
               in if perm AND want = want then 0 else - 1)"

section \<open>Creating and opening\<close>

definition minixfs_creat :: "bytes \<Rightarrow> u16 \<Rightarrow> fs \<Rightarrow> int \<times> fs" where
  "minixfs_creat path mode s =
     (case split_path path s of
        None \<Rightarrow> (- 1, s)
      | Some (parent, leaf) \<Rightarrow>
          if leaf = [] then (- 1, s)
          else case dir_lookup parent leaf s of
            Some existing \<Rightarrow> (sint existing, s)
          | None \<Rightarrow>
              let (ino, s) = alloc_inode s in
              if ino = 0 then (- 1, s)
              else let n = zero_inode\<lparr>i_mode := S_IFREG OR (mode AND 0xFFF), i_nlinks := 1\<rparr>;
                       (_, s) = write_inode ino n s;
                       (r, s) = dir_add parent leaf ino s
                   in if r < 0 then (- 1, free_inode ino s) else (sint ino, s))"

definition O_CREAT :: u32 where
  "O_CREAT = 0x0100"

definition O_TRUNC :: u32 where
  "O_TRUNC = 0x0200"

text \<open>The loop \<^verbatim>\<open>for (i = 0; i < 7; i++) if (in.i_zone[i]) { free_zone(in.i_zone[i]); in.i_zone[i] = 0; }\<close>.\<close>

fun trunc_zones :: "nat list \<Rightarrow> inode \<Rightarrow> fs \<Rightarrow> inode \<times> fs" where
  "trunc_zones [] n s = (n, s)"
| "trunc_zones (i # is) n s =
     (if i_zone n ! i \<noteq> 0
      then trunc_zones is (n\<lparr>i_zone := (i_zone n)[i := 0]\<rparr>) (free_zone (i_zone n ! i) s)
      else trunc_zones is n s)"

definition minixfs_open :: "bytes \<Rightarrow> u32 \<Rightarrow> u16 \<Rightarrow> fs \<Rightarrow> int \<times> fs" where
  "minixfs_open path flags mode s =
     (let ino = minixfs_resolve path s in
      if ino = 0
      then if flags AND O_CREAT \<noteq> 0 then minixfs_creat path mode s else (- 1, s)
      else if flags AND O_TRUNC \<noteq> 0
      then let n = read_inode_into (junk_inode s) ino s in
        if S_ISREG (i_mode n)
        then let (n, s) = trunc_zones [0..<7] n s;
                 n = n\<lparr>i_size := 0\<rparr>;
                 (_, s) = write_inode ino n s
             in (sint ino, s)
        else (sint ino, s)
      else (sint ino, s))"

section \<open>Reading and writing\<close>

definition fs_chunk :: "u32 \<Rightarrow> u32 \<Rightarrow> u32 \<Rightarrow> u32" where
  "fs_chunk blkoff count done =
     (let chunk = 1024 - blkoff in if chunk > count - done then count - done else chunk)"

lemma fs_chunk_progress:
  assumes "done < count" and "unat blkoff < 1024"
  shows "unat (fs_chunk blkoff count done) = min (1024 - unat blkoff) (unat count - unat done)"
    and "unat (done + fs_chunk blkoff count done) = unat done + min (1024 - unat blkoff) (unat count - unat done)"
proof -
  have sub: "unat (1024 - blkoff) = 1024 - unat blkoff" "unat (count - done) = unat count - unat done"
    using assms by (simp_all add: unat_sub word_le_nat_alt word_less_nat_alt)
  then show c: "unat (fs_chunk blkoff count done) = min (1024 - unat blkoff) (unat count - unat done)"
    by (auto simp: fs_chunk_def Let_def word_less_nat_alt)
  have "unat done + min (1024 - unat blkoff) (unat count - unat done) < 4294967296"
    using assms(1) unat_less_32 [of count] unfolding word_less_nat_alt by linarith
  then show "unat (done + fs_chunk blkoff count done) = unat done + min (1024 - unat blkoff) (unat count - unat done)"
    using unat_add_no_wrap [of "done" "fs_chunk blkoff count done"] c by simp
qed

lemma unat_mod_1024: "unat (w mod 1024 :: u32) < 1024"
  by (simp add: unat_mod)

lemma fs_chunk_less:
  assumes "done < count"
  shows "unat count - unat (done + fs_chunk (w mod 1024) count done) < unat count - unat done"
  using fs_chunk_progress [OF assms unat_mod_1024 [of w]] unat_mod_1024 [of w] assms
  by (auto simp: word_less_nat_alt min_def)

text \<open>The bytes the loop of \<^verbatim>\<open>minixfs_read\<close> stores through \<^verbatim>\<open>out\<close>, from \<^verbatim>\<open>out + done\<close> on.\<close>

function fs_read_loop :: "u32 \<Rightarrow> inode \<Rightarrow> u32 \<Rightarrow> u32 \<Rightarrow> u32 \<Rightarrow> bytes \<Rightarrow> fs \<Rightarrow> bytes" where
  "fs_read_loop ino n count offset done blk s =
     (if done < count
      then let fileblock = (offset + done) div 1024;
               blkoff = (offset + done) mod 1024;
               (zone, _, _) = map_block n fileblock False ino s;
               chunk = fs_chunk blkoff count done
           in if zone = 0
              then replicate (unat chunk) 0 @ fs_read_loop ino n count offset (done + chunk) blk s
              else let (_, blk) = block_read zone blk s in
                slice (unat blkoff) (unat chunk) blk @ fs_read_loop ino n count offset (done + chunk) blk s
      else [])"
  by pat_completeness auto
termination
  by (relation "measure (\<lambda>(ino, n, count, offset, done, blk, s). unat count - unat done)")
    (auto intro: fs_chunk_less)

declare fs_read_loop.simps [simp del]

definition minixfs_read :: "u32 \<Rightarrow> u32 \<Rightarrow> u32 \<Rightarrow> fs \<Rightarrow> int \<times> bytes" where
  "minixfs_read ino count offset s =
     (case read_inode ino s of
        None \<Rightarrow> (- 1, [])
      | Some n \<Rightarrow>
          if offset \<ge> i_size n then (0, [])
          else let count = (if offset + count > i_size n then i_size n - offset else count)
               in (sint count, fs_read_loop ino n count offset 0 (junk s) s))"

text \<open>The loop of \<^verbatim>\<open>minixfs_write\<close>: how far it comes, with the early return when no zone is left.\<close>

function fs_write_loop :: "u32 \<Rightarrow> bytes \<Rightarrow> u32 \<Rightarrow> u32 \<Rightarrow> u32 \<Rightarrow> inode \<Rightarrow> bytes \<Rightarrow> fs \<Rightarrow> bool \<times> u32 \<times> inode \<times> fs"
where
  "fs_write_loop ino src count offset done n blk s =
     (if done < count
      then let fileblock = (offset + done) div 1024;
               blkoff = (offset + done) mod 1024;
               (zone, n, s) = map_block n fileblock True ino s
           in if zone = 0 then (False, done, n, s)
              else let chunk = fs_chunk blkoff count done;
                       blk = (if blkoff \<noteq> 0 \<or> chunk \<noteq> 1024 then snd (block_read zone blk s)
                              else replicate 1024 0);
                       blk = put_bytes blk (unat blkoff) (slice (unat done) (unat chunk) src);
                       (_, s) = block_write zone blk s
                   in fs_write_loop ino src count offset (done + chunk) n blk s
      else (True, done, n, s))"
  by pat_completeness auto
termination
  by (relation "measure (\<lambda>(ino, src, count, offset, done, n, blk, s). unat count - unat done)")
    (auto intro: fs_chunk_less)

declare fs_write_loop.simps [simp del]

definition minixfs_write :: "u32 \<Rightarrow> bytes \<Rightarrow> u32 \<Rightarrow> u32 \<Rightarrow> fs \<Rightarrow> int \<times> fs" where
  "minixfs_write ino src count offset s =
     (case read_inode ino s of
        None \<Rightarrow> (- 1, s)
      | Some n \<Rightarrow>
          let (complete, done, n, s) = fs_write_loop ino src count offset 0 n (junk s) s in
          if \<not> complete then (sint done, s)
          else let n = read_inode_into n ino s in
            if offset + count > i_size n
            then let n = n\<lparr>i_size := offset + count\<rparr>; (_, s) = write_inode ino n s in (sint done, s)
            else (sint done, s))"

section \<open>Status, directories and links\<close>

record stat =
  st_dev :: u32
  st_ino :: u32
  st_mode :: u16
  st_nlink :: u16
  st_uid :: u16
  st_gid :: u16
  st_size :: u32
  st_atime :: u32
  st_mtime :: u32
  st_ctime :: u32

definition minixfs_stat :: "bytes \<Rightarrow> fs \<Rightarrow> stat option" where
  "minixfs_stat path s =
     (let ino = minixfs_resolve path s in
      if ino = 0 then None
      else case read_inode ino s of
        None \<Rightarrow> None
      | Some n \<Rightarrow>
          Some \<lparr>st_dev = 0, st_ino = ino, st_mode = i_mode n, st_nlink = i_nlinks n, st_uid = i_uid n,
                st_gid = i_gid n, st_size = i_size n, st_atime = i_atime n, st_mtime = i_mtime n,
                st_ctime = i_ctime n\<rparr>)"

definition dot :: bytes where
  "dot = [0x2E]"

definition dotdot :: bytes where
  "dotdot = [0x2E, 0x2E]"

definition minixfs_mkdir :: "bytes \<Rightarrow> u16 \<Rightarrow> fs \<Rightarrow> int \<times> fs" where
  "minixfs_mkdir path mode s =
     (case split_path path s of
        None \<Rightarrow> (- 1, s)
      | Some (parent, leaf) \<Rightarrow>
          if leaf = [] then (- 1, s)
          else case dir_lookup parent leaf s of
            Some existing \<Rightarrow> (- 1, s)
          | None \<Rightarrow>
              let (ino, s) = alloc_inode s in
              if ino = 0 then (- 1, s)
              else let n = zero_inode\<lparr>i_mode := S_IFDIR OR (mode AND 0xFFF), i_nlinks := 2\<rparr>;
                       (_, s) = write_inode ino n s;
                       (r, s) = dir_add ino dot ino s in
                if r < 0 then (- 1, free_inode ino s)
                else let (r, s) = dir_add ino dotdot parent s in
                if r < 0 then (- 1, free_inode ino s)
                else let (r, s) = dir_add parent leaf ino s in
                if r < 0 then (- 1, free_inode ino s)
                else let pin = read_inode_into (junk_inode s) parent s;
                         pin = pin\<lparr>i_nlinks := i_nlinks pin + 1\<rparr>;
                         (_, s) = write_inode parent pin s
                     in (0, s))"

text \<open>\<^verbatim>\<open>strcmp\<close> against a literal; it stops inside the name at the latest at the literal's end.\<close>

definition name_eq :: "bytes \<Rightarrow> bytes \<Rightarrow> bool" where
  "name_eq field lit \<longleftrightarrow> strcmp field (lit @ [0]) = Some 0"

definition dir_is_empty :: "u32 \<Rightarrow> fs \<Rightarrow> int" where
  "dir_is_empty dir s =
     (case read_inode dir s of
        None \<Rightarrow> - 1
      | Some n \<Rightarrow>
          case scan_dir (\<lambda>e. d_inode e \<noteq> 0 \<and> \<not> name_eq (d_name e) dot \<and> \<not> name_eq (d_name e) dotdot)
                 n dir (dir_nblocks n) 0 (junk s) s of
            Some _ \<Rightarrow> 0
          | None \<Rightarrow> 1)"

text \<open>The loops \<^verbatim>\<open>if (z) free_zone(z)\<close> over the zones of an inode or the entries of an indirect block.\<close>

fun free_zones :: "u32 list \<Rightarrow> fs \<Rightarrow> fs" where
  "free_zones [] s = s"
| "free_zones (z # zs) s = free_zones zs (if z \<noteq> 0 then free_zone z s else s)"

definition minixfs_rmdir :: "bytes \<Rightarrow> fs \<Rightarrow> int \<times> fs" where
  "minixfs_rmdir path s =
     (case split_path path s of
        None \<Rightarrow> (- 1, s)
      | Some (parent, leaf) \<Rightarrow>
          case dir_lookup parent leaf s of
            None \<Rightarrow> (- 1, s)
          | Some ino \<Rightarrow>
              let n = read_inode_into (junk_inode s) ino s in
              if \<not> S_ISDIR (i_mode n) then (- 1, s)
              else if dir_is_empty ino s = 0 then (- 1, s)
              else let s = free_zones (i_zone n) s;
                       (_, s) = dir_remove parent leaf s;
                       s = free_inode ino s;
                       pin = read_inode_into (junk_inode s) parent s;
                       pin = (if i_nlinks pin > 0 then pin\<lparr>i_nlinks := i_nlinks pin - 1\<rparr> else pin);
                       (_, s) = write_inode parent pin s
                   in (0, s))"

definition minixfs_unlink :: "bytes \<Rightarrow> fs \<Rightarrow> int \<times> fs" where
  "minixfs_unlink path s =
     (case split_path path s of
        None \<Rightarrow> (- 1, s)
      | Some (parent, leaf) \<Rightarrow>
          case dir_lookup parent leaf s of
            None \<Rightarrow> (- 1, s)
          | Some ino \<Rightarrow>
              let n = read_inode_into (junk_inode s) ino s in
              if S_ISDIR (i_mode n) then (- 1, s)
              else let n = (if i_nlinks n > 0 then n\<lparr>i_nlinks := i_nlinks n - 1\<rparr> else n);
                       s = (if i_nlinks n = 0
                            then let s = free_zones (take 7 (i_zone n)) s;
                                     s = (if i_zone n ! 7 \<noteq> 0
                                          then let (_, ind) = block_read (i_zone n ! 7) (junk s) s;
                                                   s = free_zones (map (\<lambda>i. get32 ind (4 * i)) [0..<256]) s
                                               in free_zone (i_zone n ! 7) s
                                          else s)
                                 in free_inode ino s
                            else snd (write_inode ino n s));
                       (_, s) = dir_remove parent leaf s
                   in (0, s))"

text \<open>
  \<^verbatim>\<open>minixfs_readdir\<close>: the inner loop over the entries of a block counts those in use and stops at the
  one that is asked for; \<open>Inr\<close> is the count when it is not in this block.
\<close>

function nth_entry :: "u32 \<Rightarrow> bytes \<Rightarrow> nat \<Rightarrow> u32 \<Rightarrow> dirent + u32" where
  "nth_entry index buf i seen =
     (if i < 16
      then if d_inode (dirent_at buf i) = 0 then nth_entry index buf (i + 1) seen
           else if seen = index then Inl (dirent_at buf i)
           else nth_entry index buf (i + 1) (seen + 1)
      else Inr seen)"
  by pat_completeness auto
termination
  by (relation "measure (\<lambda>(index, buf, i, seen). 16 - i)") auto

declare nth_entry.simps [simp del]

function readdir_loop :: "u32 \<Rightarrow> inode \<Rightarrow> u32 \<Rightarrow> u32 \<Rightarrow> u32 \<Rightarrow> u32 \<Rightarrow> bytes \<Rightarrow> fs \<Rightarrow> dirent option" where
  "readdir_loop index n dir nblocks b seen buf s =
     (if b < nblocks
      then let (zone, _, _) = map_block n b False dir s in
        if zone = 0 then readdir_loop index n dir nblocks (b + 1) seen buf s
        else let (_, buf) = block_read zone buf s in
          case nth_entry index buf 0 seen of
            Inl e \<Rightarrow> Some e
          | Inr seen \<Rightarrow> readdir_loop index n dir nblocks (b + 1) seen buf s
      else None)"
  by pat_completeness auto
termination
  by (relation "measure (\<lambda>(index, n, dir, nblocks, b, seen, buf, s). unat nblocks - unat b)")
    (auto intro: count_up_less)

declare readdir_loop.simps [simp del]

text \<open>
  The caller's \<^verbatim>\<open>struct dirent\<close> after a result 1: the inode number and the 61 bytes of its name, the
  entry's field copied by \<^verbatim>\<open>strncpy\<close> into 60 bytes and a terminator.
\<close>

definition minixfs_readdir :: "u32 \<Rightarrow> u32 \<Rightarrow> fs \<Rightarrow> (u32 \<times> bytes) option" where
  "minixfs_readdir dir_ino index s =
     (case read_inode dir_ino s of
        None \<Rightarrow> None
      | Some n \<Rightarrow>
          if \<not> S_ISDIR (i_mode n) then None
          else case readdir_loop index n dir_ino (dir_nblocks n) 0 0 (junk s) s of
            None \<Rightarrow> None
          | Some e \<Rightarrow>
              (case strncpy (replicate 60 0) (d_name e) MINIX_NAME_MAX of
                 None \<Rightarrow> None
               | Some nm \<Rightarrow> Some (d_inode e, nm @ [0])))"

definition minixfs_chmod :: "bytes \<Rightarrow> u16 \<Rightarrow> fs \<Rightarrow> int \<times> fs" where
  "minixfs_chmod path mode s =
     (let ino = minixfs_resolve path s in
      if ino = 0 then (- 1, s)
      else case read_inode ino s of
        None \<Rightarrow> (- 1, s)
      | Some n \<Rightarrow>
          let n = n\<lparr>i_mode := (i_mode n AND S_IFMT) OR (mode AND 0xFFF)\<rparr>;
              (r, s) = write_inode ino n s
          in if r < 0 then (- 1, s) else (0, s))"

definition minixfs_size :: "u32 \<Rightarrow> fs \<Rightarrow> u32" where
  "minixfs_size ino s = (case read_inode ino s of None \<Rightarrow> 0 | Some n \<Rightarrow> i_size n)"

definition minixfs_is_dir :: "u32 \<Rightarrow> fs \<Rightarrow> int" where
  "minixfs_is_dir ino s =
     (case read_inode ino s of None \<Rightarrow> 0 | Some n \<Rightarrow> if S_ISDIR (i_mode n) then 1 else 0)"

end
