(* ===== verification/System.thy ===== *)
theory System
  imports Keyboard Console MinixFs "HOL-Library.Monad_Syntax"
begin

text \<open>
  The state the system calls work on: the scheduler with its tasks, open files, heap and page tables (all
  inside the keyboard record, whose interrupt key reaches into the scheduler), the file system and the
  console. A pointer a process passes is an address in the address space the CPU has loaded: the kernel
  follows it through the page tables of \<^verbatim>\<open>cr3\<close>, and an access to a page that is not present is a
  page fault in kernel mode, on which \<^verbatim>\<open>proc_page_fault\<close> halts the machine; the result is \<open>None\<close>.
  Kernel objects (tasks, open files, pipes) are kept in typed maps and not in physical memory, so the model of
  an access says nothing useful for a pointer into the kernel heap.
\<close>

unbundle bit_operations_syntax

section \<open>State\<close>

record sys =
  kb :: kbd
  vfs :: fs
  con :: console
  path_junk :: bytes
  arg_junk :: bytes
  proc_bounce_entry :: u32
  proc_fork_return :: u32

definition sch :: "sys \<Rightarrow> sched" where
  "sch s = ksched (kb s)"

definition put_sched :: "sched \<Rightarrow> sys \<Rightarrow> sys" where
  "put_sched c s = s\<lparr>kb := (kb s)\<lparr>ksched := c\<rparr>\<rparr>"

definition curtask :: "sys \<Rightarrow> task" where
  "curtask s = task_at (sch s) (current (sch s))"

definition put_mm :: "mm \<Rightarrow> sys \<Rightarrow> sys" where
  "put_mm m s = put_sched (modify_mm (\<lambda>_. m) (sch s)) s"

definition put_objs :: "files \<Rightarrow> sys \<Rightarrow> sys" where
  "put_objs o' s = put_sched ((sch s)\<lparr>objs := o'\<rparr>) s"

definition modify_cur :: "(task \<Rightarrow> task) \<Rightarrow> sys \<Rightarrow> sys" where
  "modify_cur f s = put_sched (modify_task (current (sch s)) f (sch s)) s"

lemma sch_simps [simp]:
  "sch (put_sched c s) = c" "vfs (put_sched c s) = vfs s" "con (put_sched c s) = con s"
  "put_sched c (put_sched d s) = put_sched c s" "path_junk (put_sched c s) = path_junk s" "arg_junk (put_sched c s) = arg_junk s"
  "proc_bounce_entry (put_sched c s) = proc_bounce_entry s" "proc_fork_return (put_sched c s) = proc_fork_return s"
  "sch (s\<lparr>vfs := v\<rparr>) = sch s" "sch (s\<lparr>con := k\<rparr>) = sch s"
  by (simp_all add: sch_def put_sched_def)

section \<open>Memory through the page tables\<close>

definition translate :: "mm \<Rightarrow> u32 \<Rightarrow> u32 option" where
  "translate m va =
     (let pde = entry m (cr3 m) (pd_index va) in
      if \<not> present pde then None
      else let pte = entry m (pde AND NOT 0xFFF) (pt_index va) in
        if \<not> present pte then None else Some ((pte AND NOT 0xFFF) OR (va AND 0xFFF)))"

text \<open>The bytes at an address up to the first page that is not present, at most \<open>n\<close> of them.\<close>

fun user_view :: "nat \<Rightarrow> u32 \<Rightarrow> mm \<Rightarrow> bytes" where
  "user_view 0 va m = []"
| "user_view (Suc n) va m =
     (case translate m va of None \<Rightarrow> [] | Some pa \<Rightarrow> phys m pa # user_view n (va + 1) m)"

definition user_load :: "nat \<Rightarrow> u32 \<Rightarrow> mm \<Rightarrow> bytes option" where
  "user_load n va m = (let b = user_view n va m in if length b = n then Some b else None)"

fun user_store :: "u32 \<Rightarrow> bytes \<Rightarrow> mm \<Rightarrow> mm option" where
  "user_store va [] m = Some m"
| "user_store va (b # bs) m =
     (case translate m va of
        None \<Rightarrow> None
      | Some pa \<Rightarrow> user_store (va + 1) bs (m\<lparr>phys := (phys m)(pa := b)\<rparr>))"

definition store_to :: "u32 \<Rightarrow> bytes \<Rightarrow> sys \<Rightarrow> sys option" where
  "store_to va bs s = map_option (\<lambda>m. put_mm m s) (user_store va bs (the_mm (sch s)))"

section \<open>Trap frames\<close>

record trapframe =
  tf_gs :: u32
  tf_fs :: u32
  tf_es :: u32
  tf_ds :: u32
  tf_edi :: u32
  tf_esi :: u32
  tf_ebp :: u32
  tf_esp_dummy :: u32
  tf_ebx :: u32
  tf_edx :: u32
  tf_ecx :: u32
  tf_eax :: u32
  tf_int_no :: u32
  tf_err_code :: u32
  tf_eip :: u32
  tf_cs :: u32
  tf_eflags :: u32
  tf_useresp :: u32
  tf_ss :: u32

text \<open>The frame as it lies on a kernel stack, lowest address first.\<close>

definition tf_words :: "trapframe \<Rightarrow> u32 list" where
  "tf_words f = [tf_gs f, tf_fs f, tf_es f, tf_ds f, tf_edi f, tf_esi f, tf_ebp f, tf_esp_dummy f, tf_ebx f,
     tf_edx f, tf_ecx f, tf_eax f, tf_int_no f, tf_err_code f, tf_eip f, tf_cs f, tf_eflags f, tf_useresp f, tf_ss f]"

fun store_words :: "u32 \<Rightarrow> u32 list \<Rightarrow> mem \<Rightarrow> mem" where
  "store_words a [] m = m"
| "store_words a (w # ws) m = store_words (a + 4) ws (store32 a w m)"

text \<open>How a system call ends: it returns a value to its caller, or enters user mode at an address.\<close>

datatype outcome = Return int | Enter_user u32 u32

end
