(* ===== verification/Elf.thy ===== *)
theory Elf
  imports MinixFs Paging
begin

text \<open>
  The program loader, \<^verbatim>\<open>kernel/i386/elf.c\<close>: it reads the header and the program headers of a 32-bit
  ELF executable from the file system and maps, clears and fills each loadable segment in an address space.
\<close>

unbundle bit_operations_syntax

section \<open>Headers\<close>

record elf32_ehdr =
  e_ident :: bytes
  e_type :: u16
  e_machine :: u16
  e_version :: u32
  e_entry :: u32
  e_phoff :: u32
  e_shoff :: u32
  e_flags :: u32
  e_ehsize :: u16
  e_phentsize :: u16
  e_phnum :: u16
  e_shentsize :: u16
  e_shnum :: u16
  e_shstrndx :: u16

record elf32_phdr =
  p_type :: u32
  p_offset :: u32
  p_vaddr :: u32
  p_paddr :: u32
  p_filesz :: u32
  p_memsz :: u32
  p_flags :: u32
  p_align :: u32

definition decode_ehdr :: "bytes \<Rightarrow> elf32_ehdr" where
  "decode_ehdr b =
     \<lparr>e_ident = slice 0 16 b, e_type = get16 b 16, e_machine = get16 b 18, e_version = get32 b 20,
      e_entry = get32 b 24, e_phoff = get32 b 28, e_shoff = get32 b 32, e_flags = get32 b 36,
      e_ehsize = get16 b 40, e_phentsize = get16 b 42, e_phnum = get16 b 44, e_shentsize = get16 b 46,
      e_shnum = get16 b 48, e_shstrndx = get16 b 50\<rparr>"

definition decode_phdr :: "bytes \<Rightarrow> elf32_phdr" where
  "decode_phdr b =
     \<lparr>p_type = get32 b 0, p_offset = get32 b 4, p_vaddr = get32 b 8, p_paddr = get32 b 12,
      p_filesz = get32 b 16, p_memsz = get32 b 20, p_flags = get32 b 24, p_align = get32 b 28\<rparr>"

definition ELFMAG :: bytes where
  "ELFMAG = [0x7F, 0x45, 0x4C, 0x46]"

definition ET_EXEC :: u16 where
  "ET_EXEC = 2"

definition EM_386 :: u16 where
  "EM_386 = 3"

definition PT_LOAD :: u32 where
  "PT_LOAD = 1"

section \<open>Loading\<close>

definition page_down :: "u32 \<Rightarrow> u32" where
  "page_down a = a AND NOT 0xFFF"

definition page_up :: "u32 \<Rightarrow> u32" where
  "page_up a = (a + 4096 - 1) AND NOT 0xFFF"

text \<open>
  The loop that maps the pages of a segment; it stops at the first page that cannot be mapped. The bound is a
  multiple of the page size, so that the address never wraps around below it.
\<close>

lemma page_up_step:
  assumes "va < page_up a"
  shows "unat (page_up a) - unat (va + 4096) < unat (page_up a) - unat va"
proof -
  have u: "unat (page_up a) = unat (a + 4096 - 1) div 4096 * 4096"
    by (simp add: page_up_def unat_and_neg_4096)
  have "unat (a + 4096 - 1) div 4096 \<le> 1048575"
    using less_mult_imp_div_less [of "unat (a + 4096 - 1)" 1048576 4096] by simp
  then have "unat (page_up a) \<le> 4294963200"
    unfolding u by simp
  then have "unat (va + 4096) = unat va + 4096"
    using assms unat_add_no_wrap [of va 4096] by (simp add: word_less_nat_alt)
  then show ?thesis
    using assms by (simp add: word_less_nat_alt)
qed

function map_segment :: "u32 \<Rightarrow> u32 \<Rightarrow> u32 \<Rightarrow> mm \<Rightarrow> bool \<times> mm" where
  "map_segment dir va lim m =
     (if va < page_up lim
      then let (r, m) = hal_addrspace_map_user dir va 0 m in
        if r < 0 then (False, m) else map_segment dir (va + 4096) lim m
      else (True, m))"
  by pat_completeness auto
termination
  by (relation "measure (\<lambda>(dir, va, lim, m). unat (page_up lim) - unat va)") (auto intro: page_up_step)

declare map_segment.simps [simp del]

text \<open>The loop that copies the file part of a segment, a page at a time, until the file ends.\<close>

lemma minixfs_read_le: "fst (minixfs_read ino count offset s) \<le> uint count"
proof (cases "read_inode ino s")
  case (Some n)
  have "unat (i_size n - offset) \<le> unat count" if "offset < i_size n" "i_size n < offset + count"
  proof (cases "unat offset + unat count < 4294967296")
    case True
    then show ?thesis
      using that unat_add_no_wrap [of offset count] by (simp add: word_less_nat_alt unat_sub_no_wrap word_le_nat_alt)
  next
    case False
    have "unat (offset + count) = (unat offset + unat count) mod 4294967296"
      by (simp add: unat_word_ariths)
    also have "\<dots> = unat offset + unat count - 4294967296"
      using False unat_less_32 [of offset] unat_less_32 [of count]
      by (subst le_mod_geq) (simp, rule mod_less, linarith)
    finally have "unat (offset + count) = unat offset + unat count - 4294967296" .
    then show ?thesis
      using that unat_less_32 [of count] unfolding word_less_nat_alt by linarith
  qed
  moreover have "sint w \<le> uint w" for w :: u32
    using signed_take_bit_int_less_eq_self_iff [of "LENGTH(32) - Suc 0" "uint w"] uint_ge_0 [of w]
    by (simp add: sint_uint)
  ultimately show ?thesis
    using Some by (simp add: minixfs_read_def Let_def not_le uint_nat del: of_nat_unat) (meson of_nat_mono order_trans)
qed (simp add: minixfs_read_def order_trans [OF _ uint_ge_0])

function copy_segment :: "u32 \<Rightarrow> u32 \<Rightarrow> elf32_phdr \<Rightarrow> u32 \<Rightarrow> fs \<Rightarrow> mm \<Rightarrow> mm" where
  "copy_segment dir ino ph done v m =
     (if done < p_filesz ph
      then let chunk = p_filesz ph - done;
               chunk = (if chunk > 4096 then 4096 else chunk);
               (r, page) = minixfs_read ino chunk (p_offset ph + done) v
           in if r \<le> 0 then m
              else copy_segment dir ino ph (done + word_of_int r) v
                     (hal_addrspace_copy_to dir (p_vaddr ph + done) page (word_of_int r) m)
      else m)"
  by pat_completeness auto
termination
proof (relation "measure (\<lambda>(dir, ino, ph, done, v, m). unat (p_filesz ph) - unat done)")
  fix dir ino ph "done" v m chunk1 chunk x r page
  assume A: "done < p_filesz ph" "chunk1 = p_filesz ph - done" "chunk = (if chunk1 > 4096 then 4096 else chunk1)"
    "x = minixfs_read ino chunk (p_offset ph + done) v" "(r, page) = x" "\<not> r \<le> 0"
  have "r \<le> uint chunk"
    using A(4,5) minixfs_read_le [of ino chunk "p_offset ph + done" v] by (metis fst_conv)
  moreover have "unat chunk \<le> unat (p_filesz ph) - unat done"
    using A(1-3) by (auto simp: word_less_nat_alt unat_sub_no_wrap word_le_nat_alt)
  ultimately have r: "r \<le> int (unat (p_filesz ph) - unat done)"
    unfolding uint_nat by linarith
  then have "r < 4294967296"
    using unat_less_32 [of "p_filesz ph"] by linarith
  then have "unat (word_of_int r :: u32) = nat r"
    using A(6) mod_pos_pos_trivial [of r 4294967296] by (simp add: unat_eq_nat_uint uint_word_of_int)
  then have "unat (done + word_of_int r) = unat done + nat r"
    using r A(1,6) unat_less_32 [of "p_filesz ph"] unat_add_no_wrap [of "done" "word_of_int r"]
    unfolding word_less_nat_alt by linarith
  then show "((dir, ino, ph, done + word_of_int r, v, hal_addrspace_copy_to dir (p_vaddr ph + done) page (word_of_int r) m),
      (dir, ino, ph, done, v, m)) \<in> measure (\<lambda>(dir, ino, ph, done, v, m). unat (p_filesz ph) - unat done)"
    using A(1,6) by (simp add: word_less_nat_alt)
qed simp

declare copy_segment.simps [simp del]

text \<open>The body of the loop over the program headers, for a loadable segment.\<close>

definition load_segment :: "u32 \<Rightarrow> u32 \<Rightarrow> elf32_phdr \<Rightarrow> fs \<Rightarrow> mm \<Rightarrow> bool \<times> mm" where
  "load_segment dir ino ph v m =
     (let seg_start = page_down (p_vaddr ph);
          (mapped, m) = map_segment dir seg_start (p_vaddr ph + p_memsz ph) m
      in if \<not> mapped then (False, m)
         else let m = hal_addrspace_memset dir (p_vaddr ph) 0 (p_memsz ph) m
              in (True, copy_segment dir ino ph 0 v m))"

text \<open>The loop over the program headers from number \<open>i\<close> on; the first argument counts those left.\<close>

fun load_segments :: "nat \<Rightarrow> u32 \<Rightarrow> u32 \<Rightarrow> u32 \<Rightarrow> elf32_ehdr \<Rightarrow> u32 \<Rightarrow> fs \<Rightarrow> mm \<Rightarrow> u32 option \<times> mm" where
  "load_segments 0 i dir ino eh brk v m = (Some brk, m)"
| "load_segments (Suc k) i dir ino eh brk v m =
     (let phoff = e_phoff eh + i * ucast (e_phentsize eh);
          (r, b) = minixfs_read ino 32 phoff v
      in if r \<noteq> 32 then (None, m)
         else let ph = decode_phdr b in
           if p_type ph \<noteq> PT_LOAD then load_segments k (i + 1) dir ino eh brk v m
           else let (ok, m) = load_segment dir ino ph v m in
             if \<not> ok then (None, m)
             else load_segments k (i + 1) dir ino eh
                    (if p_vaddr ph + p_memsz ph > brk then p_vaddr ph + p_memsz ph else brk) v m)"

text \<open>The entry point and the initial break, or \<open>None\<close> for the result -1.\<close>

definition elf_load :: "u32 \<Rightarrow> u32 \<Rightarrow> fs \<Rightarrow> mm \<Rightarrow> (u32 \<times> u32) option \<times> mm" where
  "elf_load dir ino v m =
     (let (r, b) = minixfs_read ino 52 0 v in
      if r \<noteq> 52 then (None, m)
      else let eh = decode_ehdr b in
        if take 4 (e_ident eh) \<noteq> ELFMAG then (None, m)
        else if e_type eh \<noteq> ET_EXEC \<or> e_machine eh \<noteq> EM_386 then (None, m)
        else let (brk, m) = load_segments (unat (e_phnum eh)) 0 dir ino eh 0 v m in
          (case brk of None \<Rightarrow> (None, m) | Some brk \<Rightarrow> (Some (e_entry eh, page_up brk), m)))"

end
