(* ===== verification/Proc.thy ===== *)
theory Proc
  imports System Elf
begin

text \<open>
  Processes, \<^verbatim>\<open>kernel/proc/proc.c\<close>: starting the first process, \<^verbatim>\<open>fork\<close>, \<^verbatim>\<open>execve\<close>,
  \<^verbatim>\<open>wait4\<close> and the page-fault handler. A call that waits gives up the CPU; what happens until the
  process is scheduled again is the parameter \<open>others\<close>, one transformation of the whole state per wait.
\<close>

unbundle bit_operations_syntax

definition USER_STACK_TOP :: u32 where
  "USER_STACK_TOP = 0xC0000000"

definition USER_STACK_SIZE :: u32 where
  "USER_STACK_SIZE = 0x40000"

definition MAX_ARGS :: nat where
  "MAX_ARGS = 32"

definition ARGS_MAX :: u32 where
  "ARGS_MAX = 2048"

section \<open>Argument strings\<close>

text \<open>
  A vector of strings is a pair of functions: the pointer at an index, and the terminated string at a pointer;
  \<open>None\<close> means that the memory cannot be read. \<open>user_vector\<close> is a vector in the memory of the process,
  and \<open>kernel_vector\<close> an array of string literals, whose pointers are numbered from 1.
\<close>

type_synonym string_vector = "(nat \<Rightarrow> u32 option) \<times> (u32 \<Rightarrow> bytes option)"

partial_function (option) user_strlen :: "nat \<Rightarrow> u32 \<Rightarrow> mm \<Rightarrow> nat option" where
  "user_strlen n va m =
     (case translate m va of
        None \<Rightarrow> None
      | Some pa \<Rightarrow> if phys m pa \<noteq> 0 then user_strlen (n + 1) (va + 1) m else Some n)"

declare user_strlen.simps [code]

definition user_string :: "u32 \<Rightarrow> mm \<Rightarrow> bytes option" where
  "user_string va m = (case user_strlen 0 va m of None \<Rightarrow> None | Some l \<Rightarrow> user_load (l + 1) va m)"

definition user_word :: "u32 \<Rightarrow> mm \<Rightarrow> u32 option" where
  "user_word va m = map_option (\<lambda>b. get32 b 0) (user_load 4 va m)"

definition user_vector :: "u32 \<Rightarrow> mm \<Rightarrow> string_vector" where
  "user_vector a m =
     (\<lambda>n. if a = 0 then Some 0 else user_word (a + 4 * of_nat n) m, \<lambda>p. user_string p m)"

definition kernel_vector :: "bytes list \<Rightarrow> string_vector" where
  "kernel_vector xs =
     (\<lambda>n. Some (if n < length xs then of_nat n + 1 else 0), \<lambda>p. Some (xs ! unat (p - 1) @ [0]))"

text \<open>
  The loop of \<^verbatim>\<open>copy_strings\<close>: \<open>k\<close> is \<^verbatim>\<open>MAX_ARGS - 1 - n\<close>, and \<open>dst\<close> holds the offsets of the
  strings copied so far into the buffer.
\<close>

fun copy_strings_loop ::
  "nat \<Rightarrow> string_vector \<Rightarrow> nat \<Rightarrow> u32 \<Rightarrow> u32 list \<Rightarrow> bytes \<Rightarrow> (u32 list \<times> u32 \<times> bytes) option"
where
  "copy_strings_loop 0 src n off dst buf =
     (case fst src n of None \<Rightarrow> None | Some p \<Rightarrow> Some (dst, off, buf))"
| "copy_strings_loop (Suc k) src n off dst buf =
     (case fst src n of
        None \<Rightarrow> None
      | Some p \<Rightarrow>
          if p = 0 then Some (dst, off, buf)
          else case snd src p of
            None \<Rightarrow> None
          | Some str \<Rightarrow>
              let len = of_nat (length str) in
              if off + len > ARGS_MAX then Some (dst, off, buf)
              else case memcpy (drop (unat off) buf) str (unat len) of
                None \<Rightarrow> None
              | Some b \<Rightarrow>
                  copy_strings_loop k src (n + 1) (off + len) (dst @ [off]) (take (unat off) buf @ b))"

definition copy_strings :: "string_vector \<Rightarrow> bytes \<Rightarrow> (u32 list \<times> u32 \<times> bytes) option" where
  "copy_strings src buf = copy_strings_loop (MAX_ARGS - 1) src 0 0 [] buf"

text \<open>The strings the pointers of the result point to.\<close>

definition copied :: "u32 list \<Rightarrow> bytes \<Rightarrow> bytes list" where
  "copied dst buf = map (\<lambda>off. drop (unat off) buf) dst"

section \<open>The initial stack\<close>

fun map_stack :: "nat \<Rightarrow> u32 \<Rightarrow> u32 \<Rightarrow> mm \<Rightarrow> mm" where
  "map_stack 0 dir va m = m"
| "map_stack (Suc n) dir va m = map_stack n dir (va + 4096) (snd (hal_addrspace_map_user dir va 0 m))"

fun total_strings :: "bytes list \<Rightarrow> u32 option" where
  "total_strings [] = Some 0"
| "total_strings (a # as) =
     (case strlen a of
        None \<Rightarrow> None
      | Some l \<Rightarrow> map_option (\<lambda>r. of_nat l + 1 + r) (total_strings as))"

text \<open>Copying the strings one after the other, with the addresses they get.\<close>

fun push_strings :: "u32 \<Rightarrow> u32 \<Rightarrow> bytes list \<Rightarrow> mm \<Rightarrow> (u32 list \<times> u32 \<times> mm) option" where
  "push_strings dir a [] m = Some ([], a, m)"
| "push_strings dir a (b # bs) m =
     (case strlen b of
        None \<Rightarrow> None
      | Some l \<Rightarrow>
          let len = of_nat l + 1 in
          map_option (\<lambda>(ps, r). (a # ps, r))
            (push_strings dir (a + len) bs (hal_addrspace_copy_to dir a b len m)))"

definition copy_word :: "u32 \<Rightarrow> u32 \<Rightarrow> u32 \<Rightarrow> mm \<Rightarrow> mm" where
  "copy_word dir a w m = hal_addrspace_copy_to dir a (enc32 w) 4 m"

fun copy_words :: "u32 \<Rightarrow> u32 \<Rightarrow> u32 list \<Rightarrow> mm \<Rightarrow> mm" where
  "copy_words dir a [] m = m"
| "copy_words dir a (w # ws) m = copy_words dir (a + 4) ws (copy_word dir a w m)"

definition setup_user_stack :: "u32 \<Rightarrow> bytes list \<Rightarrow> bytes list \<Rightarrow> mm \<Rightarrow> (u32 \<times> mm) option" where
  "setup_user_stack dir argv envp m =
     (let m = map_stack (unat (USER_STACK_SIZE div 4096)) dir (USER_STACK_TOP - USER_STACK_SIZE) m in
      case total_strings (argv @ envp) of
        None \<Rightarrow> None
      | Some total_str \<Rightarrow>
          let str_base = (USER_STACK_TOP - total_str) AND NOT 3 in
          case push_strings dir str_base argv m of
            None \<Rightarrow> None
          | Some (uargv, a, m) \<Rightarrow>
              (case push_strings dir a envp m of
                 None \<Rightarrow> None
               | Some (uenvp, _, m) \<Rightarrow>
                   let envp_base = str_base - (of_nat (length envp) + 1) * 4;
                       m = copy_words dir envp_base (uenvp @ [0]) m;
                       argv_base = envp_base - (of_nat (length argv) + 1) * 4;
                       m = copy_words dir argv_base (uargv @ [0]) m;
                       sp = argv_base - 4;
                       m = copy_word dir sp envp_base m;
                       sp = sp - 4;
                       m = copy_word dir sp argv_base m;
                       sp = sp - 4;
                       m = copy_word dir sp (of_nat (length argv)) m;
                       sp = sp - 4;
                       m = copy_word dir sp 0 m
                   in Some (sp, m)))"

section \<open>Executing a program\<close>

text \<open>
  The part \<^verbatim>\<open>proc_exec\<close> and \<^verbatim>\<open>sys_execve_impl\<close> share: a new address space with the program and its
  stack. The first component of the result is the new directory, entry point, break and stack pointer.
\<close>

definition load_program ::
  "u32 \<Rightarrow> bytes list \<Rightarrow> bytes list \<Rightarrow> sys \<Rightarrow> ((u32 \<times> u32 \<times> u32 \<times> u32) option \<times> sys) option"
where
  "load_program prog argv envp s =
     (let (newdir, m) = hal_addrspace_create (the_mm (sch s)) in
      if newdir = 0 then Some (None, put_mm m s)
      else case elf_load newdir prog (vfs s) m of
        (None, m) \<Rightarrow> Some (None, put_mm (hal_addrspace_destroy newdir m) s)
      | (Some (start, brk0), m) \<Rightarrow>
          (case setup_user_stack newdir argv envp m of
             None \<Rightarrow> None
           | Some (sp, m) \<Rightarrow> Some (Some (newdir, start, brk0, sp), put_mm m s)))"

text \<open>Giving up the old address space.\<close>

definition drop_addrspace :: "u32 \<Rightarrow> sys \<Rightarrow> sys" where
  "drop_addrspace olddir s =
     (if olddir \<noteq> 0 \<and> olddir \<noteq> hal_paging_kernel_dir (the_mm (sch s))
      then put_mm (hal_addrspace_destroy olddir (the_mm (sch s))) s else s)"

definition proc_exec :: "u32 \<Rightarrow> bytes \<Rightarrow> string_vector \<Rightarrow> string_vector \<Rightarrow> sys \<Rightarrow> (int \<times> sys) option" where
  "proc_exec t path argv envp s =
     (let prog = minixfs_resolve path (vfs s) in
      if prog = 0 then Some (- 1, s)
      else if minixfs_is_dir prog (vfs s) \<noteq> 0 then Some (- 1, s)
      else case copy_strings argv (arg_junk s) of
        None \<Rightarrow> None
      | Some (kargv, _, argbuf) \<Rightarrow>
          (case copy_strings envp (arg_junk s) of
             None \<Rightarrow> None
           | Some (kenvp, _, envbuf) \<Rightarrow>
               (case load_program prog (copied kargv argbuf) (copied kenvp envbuf) s of
                  None \<Rightarrow> None
                | Some (None, s) \<Rightarrow> Some (- 1, s)
                | Some (Some (newdir, start, brk0, sp), s) \<Rightarrow>
                    let olddir = addrspace (task_at (sch s) t);
                        s = put_sched (modify_task t (\<lambda>x. x\<lparr>addrspace := newdir, tentry := start, user_stack := sp,
                              brk := brk0, user := True\<rparr>) (sch s)) s
                    in Some (0, drop_addrspace olddir s))))"

text \<open>String literals of the source.\<close>

definition ascii :: "string \<Rightarrow> bytes" where
  "ascii cs = map of_char cs"

definition proc_start_init :: "bytes \<Rightarrow> sys \<Rightarrow> sys option" where
  "proc_start_init path s =
     (case sched_alloc (ascii ''init'' @ [0]) (sch s) of
        None \<Rightarrow> None
      | Some (t, c) \<Rightarrow>
          let s = put_sched c s in
          if t = 0 then Some s
          else case strcpy (cwd (task_at (sch s) t)) str_root of
            None \<Rightarrow> None
          | Some d \<Rightarrow>
              let s = put_sched (modify_task t (\<lambda>x. x\<lparr>user := True, uid := 0, gid := 0, cwd := d,
                        addrspace := hal_paging_kernel_dir (the_mm (sch s))\<rparr>) (sch s)) s in
              case proc_exec t path (kernel_vector [path]) (kernel_vector [ascii ''PATH=/bin'', ascii ''HOME=/'']) s of
                None \<Rightarrow> None
              | Some (r, s) \<Rightarrow>
                  if r < 0
                  then map_option (\<lambda>k. s\<lparr>con := k\<rparr>)
                         (console_printf (ascii ''[init] failed to exec %s'' @ [10]) [StrArg (Some path)] (con s))
                  else case filp_alloc (objs (sch s)) of
                    None \<Rightarrow> None
                  | Some (cons, o1) \<Rightarrow>
                      let o1 = o1\<lparr>filp_at := (filp_at o1)(cons := (filp_at o1 cons)\<lparr>ftype := FT_CONS\<rparr>)\<rparr>;
                          o1 = filp_ref cons (filp_ref cons o1);
                          c = (sch s)\<lparr>objs := o1\<rparr>;
                          c = modify_task t (\<lambda>x. x\<lparr>tfiles := (tfiles x)[0 := cons, 1 := cons, 2 := cons]\<rparr>) c;
                          c = hal_context_init t (kstack (task_at c t) + 32768) (proc_bounce_entry s) c
                      in map_option (\<lambda>c. put_sched c s) (sched_add t c))"

text \<open>
  A relative name after the current directory, in a buffer of 256 bytes, as \<^verbatim>\<open>sys_execve_impl\<close> and
  \<^verbatim>\<open>build_path\<close> both do it. \<^verbatim>\<open>255 - len\<close> is an unsigned subtraction.
\<close>

definition join_cwd :: "bytes \<Rightarrow> bytes \<Rightarrow> bytes \<Rightarrow> bytes option" where
  "join_cwd dir name full =
     (case strcpy full dir of
        None \<Rightarrow> None
      | Some full \<Rightarrow>
          (case strlen full of
             None \<Rightarrow> None
           | Some l \<Rightarrow>
               let add = (l = 0 \<or> full ! (l - 1) \<noteq> slash) in
               if add \<and> length full \<le> l + 1 then None
               else let full = (if add then full[l := slash, l + 1 := 0] else full);
                        l = (if add then l + 1 else l)
                    in map_option ((@) (take l full)) (strncpy (drop l full) name (unat (255 - of_nat l :: u32)))))"

text \<open>The path of \<^verbatim>\<open>sys_execve_impl\<close>; a relative path that is too long is not terminated.\<close>

definition exec_path :: "bytes \<Rightarrow> bytes \<Rightarrow> bytes \<Rightarrow> bytes option" where
  "exec_path dir kpath full =
     (case kpath of
        [] \<Rightarrow> None
      | c # _ \<Rightarrow> if c = slash then strcpy full kpath else join_cwd dir kpath full)"

text \<open>The last part of \<^verbatim>\<open>sys_execve_impl\<close>: the task takes on the new program.\<close>

definition enter_program :: "u32 \<Rightarrow> u32 \<times> u32 \<times> u32 \<times> u32 \<Rightarrow> sys \<Rightarrow> outcome \<times> sys" where
  "enter_program t prog s =
     (let (newdir, start, brk0, sp) = prog;
          olddir = addrspace (task_at (sch s) t);
          s = put_sched (modify_task t (\<lambda>x. x\<lparr>addrspace := newdir, tentry := start,
                user_stack := sp, brk := brk0\<rparr>) (sch s)) s;
          s = put_mm (hal_paging_switch newdir (the_mm (sch s))) s;
          s = drop_addrspace olddir s;
          s = put_sched (hal_tss_set_kernel_stack (kstack (task_at (sch s) t) + 32768) (sch s)) s
      in (Enter_user start sp, s))"

definition sys_execve_impl :: "trapframe \<Rightarrow> sys \<Rightarrow> (outcome \<times> sys) option" where
  "sys_execve_impl tf s =
     (let m = the_mm (sch s); t = current (sch s) in
      case strncpy (path_junk s) (user_view 255 (tf_ebx tf) m) 255 of
        None \<Rightarrow> None
      | Some kpath \<Rightarrow>
          (case exec_path (cwd (curtask s)) (kpath[255 := 0]) (path_junk s) of
             None \<Rightarrow> None
           | Some full \<Rightarrow>
               (case copy_strings (user_vector (tf_ecx tf) m) (arg_junk s) of
                  None \<Rightarrow> None
                | Some (kargv, _, argbuf) \<Rightarrow>
                    (case copy_strings (user_vector (tf_edx tf) m) (arg_junk s) of
                       None \<Rightarrow> None
                     | Some (kenvp, _, envbuf) \<Rightarrow>
                         if \<not> terminated full then None
                         else let num = minixfs_resolve (cstr full) (vfs s) in
                           if num = 0 \<or> minixfs_is_dir num (vfs s) \<noteq> 0 then Some (Return (- 1), s)
                           else case load_program num (copied kargv argbuf) (copied kenvp envbuf) s of
                             None \<Rightarrow> None
                           | Some (None, s) \<Rightarrow> Some (Return (- 1), s)
                           | Some (Some prog, s) \<Rightarrow> Some (enter_program t prog s)))))"

section \<open>Fork\<close>

text \<open>The child gets the files of its parent, slot by slot; the first argument counts the slots left.\<close>

fun share_files :: "nat \<Rightarrow> nat \<Rightarrow> u32 \<Rightarrow> u32 \<Rightarrow> sched \<Rightarrow> sched" where
  "share_files 0 i par child c = c"
| "share_files (Suc n) i par child c =
     share_files n (i + 1) par child
       (let f = tfiles (task_at c par) ! i in
        if f \<noteq> 0
        then let c = modify_task child (\<lambda>x. x\<lparr>tfiles := (tfiles x)[i := f]\<rparr>) c
             in c\<lparr>objs := filp_ref f (objs c)\<rparr>
        else c)"

text \<open>
  The kernel stack of the child: the trap frame of its parent with result 0, below it the argument of
  \<^verbatim>\<open>proc_fork_return\<close>, and below that the registers the context switch pops.
\<close>

definition fork_stack :: "u32 \<Rightarrow> trapframe \<Rightarrow> u32 \<Rightarrow> sched \<Rightarrow> sched" where
  "fork_stack child tf ret c =
     (let ctf = kstack (task_at c child) + 32768 - 76;
          m = store_words ctf (tf_words (tf\<lparr>tf_eax := 0\<rparr>)) (kstacks c);
          sp = ctf - 4; m = store32 sp ctf m;
          sp = sp - 4; m = store32 sp 0 m;
          k = sp - 20;
          m = store32 (k + 16) ret m;
          m = store32 (k + 12) 0 m;
          m = store32 (k + 8) 0 m;
          m = store32 (k + 4) 0 m;
          m = store32 k 0 m
      in modify_task child (\<lambda>x. x\<lparr>ctx := k\<rparr>) (c\<lparr>kstacks := m\<rparr>))"

definition sys_fork_impl :: "trapframe \<Rightarrow> sys \<Rightarrow> (outcome \<times> sys) option" where
  "sys_fork_impl tf s =
     (let par = current (sch s) in
      case sched_alloc (tname (task_at (sch s) par)) (sch s) of
        None \<Rightarrow> None
      | Some (child, c) \<Rightarrow>
          if child = 0 then Some (Return (- 1), put_sched c s)
          else let p = task_at c par in
            case strcpy (cwd (task_at c child)) (cwd p) of
              None \<Rightarrow> None
            | Some d \<Rightarrow>
                let c = modify_task child (\<lambda>x. x\<lparr>ppid := pid p, parent := par, uid := uid p, gid := gid p,
                          user := True, cwd := d, brk := brk p\<rparr>) c;
                    (dir, m) = hal_addrspace_clone (addrspace p) (the_mm c);
                    c = modify_mm (\<lambda>_. m) c;
                    c = modify_task child (\<lambda>x. x\<lparr>addrspace := dir\<rparr>) c
                in if dir = 0 then Some (Return (- 1), put_sched c s)
                   else let c = share_files MAX_FILES 0 par child c;
                            c = fork_stack child tf (proc_fork_return s) c
                        in case sched_add child c of
                             None \<Rightarrow> None
                           | Some c \<Rightarrow> Some (Return (pid (task_at c child)), put_sched c s))"

text \<open>
  The child's first steps in the kernel, with the frame \<^verbatim>\<open>fork_stack\<close> left: the registers
  \<^verbatim>\<open>hal_return_to_user\<close> pops are the words of the frame.
\<close>

definition proc_fork_return_c :: "sys \<Rightarrow> sys" where
  "proc_fork_return_c s =
     (let t = curtask s;
          s = put_mm (hal_paging_switch (addrspace t) (the_mm (sch s))) s
      in put_sched (hal_tss_set_kernel_stack (kstack t + 32768) (sch s)) s)"

section \<open>Waiting for children\<close>

text \<open>The scan over the task table: whether there is a child, and the first zombie child or 0.\<close>

fun wait_scan :: "nat list \<Rightarrow> u32 \<Rightarrow> sched \<Rightarrow> bool \<times> u32" where
  "wait_scan [] par c = (False, 0)"
| "wait_scan (i # is) par c =
     (let t = sched_find_slot (int i) c in
      if t = 0 \<or> parent (task_at c t) \<noteq> par then wait_scan is par c
      else if tstate (task_at c t) = TASK_ZOMBIE then (True, t)
      else (True, snd (wait_scan is par c)))"

definition wait_status :: "task \<Rightarrow> u32" where
  "wait_status t = push_bit 8 (word_of_int (exit_code t) AND 0xFF)"

definition reap_child :: "u32 \<Rightarrow> u32 \<Rightarrow> u32 \<Rightarrow> sys \<Rightarrow> (outcome \<times> sys) option" where
  "reap_child par status t s =
     (let p = pid (task_at (sch s) t);
          c = (if status \<noteq> 0
               then modify_mm (copy_word (addrspace (task_at (sch s) par)) status (wait_status (task_at (sch s) t))) (sch s)
               else sch s)
      in map_option (\<lambda>c. (Return p, put_sched c s)) (sched_reap t c))"

partial_function (option) wait_loop :: "(nat \<Rightarrow> sys \<Rightarrow> sys) \<Rightarrow> nat \<Rightarrow> u32 \<Rightarrow> u32 \<Rightarrow> sys \<Rightarrow> (outcome \<times> sys) option" where
  "wait_loop others i par status s =
     (let (have_child, t) = wait_scan [0..<MAX_TASKS] par (sch s) in
      if t \<noteq> 0 then reap_child par status t s
      else if \<not> have_child then Some (Return (- 1), s)
      else case sched_block (modify_task par (\<lambda>x. x\<lparr>waiting := True\<rparr>) (sch s)) of
        None \<Rightarrow> None
      | Some c \<Rightarrow> wait_loop others (i + 1) par status (others i (put_sched c s)))"

declare wait_loop.simps [code]

definition sys_wait4_impl :: "(nat \<Rightarrow> sys \<Rightarrow> sys) \<Rightarrow> trapframe \<Rightarrow> sys \<Rightarrow> (outcome \<times> sys) option" where
  "sys_wait4_impl others tf s = wait_loop others 0 (current (sch s)) (tf_ecx tf) s"

section \<open>Page faults\<close>

text \<open>A fault outside user mode is reported and halts the machine: \<open>None\<close>.\<close>

definition proc_page_fault :: "trapframe \<Rightarrow> u32 \<Rightarrow> sys \<Rightarrow> sys option" where
  "proc_page_fault tf addr s =
     (if current (sch s) \<noteq> 0 \<and> user (curtask s) \<and> tf_cs tf AND 3 = 3
      then case console_printf ([10] @ ascii ''[SEGV] pid=%d addr=%x eip=%x err=%x -> killing'' @ [10])
                  [IntArg (word_of_int (pid (curtask s))), IntArg addr, IntArg (tf_eip tf), IntArg (tf_err_code tf)] (con s) of
             None \<Rightarrow> None
           | Some k \<Rightarrow> map_option (\<lambda>c. put_sched c (s\<lparr>con := k\<rparr>)) (sched_exit 139 (sch s))
      else None)"

end
