(* ===== verification/Syscall.thy ===== *)
theory Syscall
  imports Proc
begin

text \<open>
  The system calls, \<^verbatim>\<open>kernel/syscall/syscall.c\<close>, and the interrupt entry that leads to them in
  \<^verbatim>\<open>kernel/i386/idt.c\<close>. Every handler takes the trap frame, whose registers are the arguments, and
  the state. The result \<open>None\<close> means that the machine halts, a buffer is overrun, or the call never ends.
\<close>

unbundle bit_operations_syntax

section \<open>Descriptors and paths\<close>

definition fd_alloc :: "task \<Rightarrow> int" where
  "fd_alloc t = (let i = free_slot (tfiles t) in if i < MAX_FILES then int i else - 1)"

definition bad_fd :: "int \<Rightarrow> task \<Rightarrow> bool" where
  "bad_fd fd t \<longleftrightarrow> fd < 0 \<or> fd \<ge> int MAX_FILES \<or> tfiles t ! nat fd = 0"

definition fd_file :: "int \<Rightarrow> task \<Rightarrow> u32" where
  "fd_file fd t = tfiles t ! nat fd"

definition set_fd :: "int \<Rightarrow> u32 \<Rightarrow> sys \<Rightarrow> sys" where
  "set_fd fd f s = modify_cur (\<lambda>x. x\<lparr>tfiles := (tfiles x)[nat fd := f]\<rparr>) s"

definition get_filp :: "u32 \<Rightarrow> sys \<Rightarrow> filp" where
  "get_filp f s = filp_at (objs (sch s)) f"

definition modify_filp :: "u32 \<Rightarrow> (filp \<Rightarrow> filp) \<Rightarrow> sys \<Rightarrow> sys" where
  "modify_filp f g s = put_objs ((objs (sch s))\<lparr>filp_at := (filp_at (objs (sch s)))(f := g (get_filp f s))\<rparr>) s"

definition build_path :: "bytes \<Rightarrow> bytes \<Rightarrow> bytes \<Rightarrow> bytes option" where
  "build_path dir path out =
     (case path of
        [] \<Rightarrow> None
      | c # _ \<Rightarrow>
          map_option (\<lambda>out. out[255 := 0])
            (if c = slash then strncpy out path 255 else join_cwd dir path out))"

text \<open>The absolute path for a path in the memory of the process, without its terminator.\<close>

definition user_path :: "u32 \<Rightarrow> sys \<Rightarrow> bytes option" where
  "user_path va s =
     map_option cstr (build_path (cwd (curtask s)) (user_view 255 va (the_mm (sch s))) (path_junk s))"

definition with_path :: "u32 \<Rightarrow> (bytes \<Rightarrow> fs \<Rightarrow> int \<times> fs) \<Rightarrow> sys \<Rightarrow> (outcome \<times> sys) option" where
  "with_path va f s =
     map_option (\<lambda>full. let (r, v) = f full (vfs s) in (Return r, s\<lparr>vfs := v\<rparr>)) (user_path va s)"

text \<open>A 32-bit \<^verbatim>\<open>off_t\<close>.\<close>

definition off_t :: "int \<Rightarrow> int" where
  "off_t i = sint (word_of_int i :: u32)"

section \<open>Processes\<close>

definition sys_exit :: "trapframe \<Rightarrow> sys \<Rightarrow> (outcome \<times> sys) option" where
  "sys_exit tf s = map_option (\<lambda>c. (Return 0, put_sched c s)) (sched_exit (sint (tf_ebx tf)) (sch s))"

definition sys_getpid :: "trapframe \<Rightarrow> sys \<Rightarrow> (outcome \<times> sys) option" where
  "sys_getpid tf s = Some (Return (if current (sch s) \<noteq> 0 then pid (curtask s) else 0), s)"

definition sys_getppid :: "trapframe \<Rightarrow> sys \<Rightarrow> (outcome \<times> sys) option" where
  "sys_getppid tf s = Some (Return (if current (sch s) \<noteq> 0 then ppid (curtask s) else 0), s)"

definition sys_getuid :: "trapframe \<Rightarrow> sys \<Rightarrow> (outcome \<times> sys) option" where
  "sys_getuid tf s = Some (Return (if current (sch s) \<noteq> 0 then uint (uid (curtask s)) else 0), s)"

definition sys_getgid :: "trapframe \<Rightarrow> sys \<Rightarrow> (outcome \<times> sys) option" where
  "sys_getgid tf s = Some (Return (if current (sch s) \<noteq> 0 then uint (gid (curtask s)) else 0), s)"

definition sys_setuid :: "trapframe \<Rightarrow> sys \<Rightarrow> (outcome \<times> sys) option" where
  "sys_setuid tf s =
     (if uid (curtask s) \<noteq> 0 then Some (Return (- 1), s)
      else Some (Return 0, modify_cur (\<lambda>x. x\<lparr>uid := ucast (tf_ebx tf)\<rparr>) s))"

definition sys_setgid :: "trapframe \<Rightarrow> sys \<Rightarrow> (outcome \<times> sys) option" where
  "sys_setgid tf s =
     (if uid (curtask s) \<noteq> 0 then Some (Return (- 1), s)
      else Some (Return 0, modify_cur (\<lambda>x. x\<lparr>gid := ucast (tf_ebx tf)\<rparr>) s))"

definition sys_yield :: "trapframe \<Rightarrow> sys \<Rightarrow> (outcome \<times> sys) option" where
  "sys_yield tf s = map_option (\<lambda>c. (Return 0, put_sched c s)) (sched_yield (sch s))"

definition sys_kill :: "trapframe \<Rightarrow> sys \<Rightarrow> (outcome \<times> sys) option" where
  "sys_kill tf s =
     (let t = sched_find (sint (tf_ebx tf)) (sch s) in
      if t = 0 then Some (Return (- 1), s)
      else let s = (if tstate (task_at (sch s) t) \<noteq> TASK_ZOMBIE
                    then put_sched (sched_wakeup_parent t
                           (modify_task t (\<lambda>x. x\<lparr>exit_code := 137, tstate := TASK_ZOMBIE\<rparr>) (sch s))) s
                    else s)
           in Some (Return 0, s))"

text \<open>The loop of \<^verbatim>\<open>sys_brk\<close>: the result of mapping a page is ignored.\<close>

function brk_loop :: "u32 \<Rightarrow> u32 \<Rightarrow> u32 \<Rightarrow> mm \<Rightarrow> mm" where
  "brk_loop dir va addr m =
     (if va < page_up addr then brk_loop dir (va + 4096) addr (snd (hal_addrspace_map_user dir va 0 m)) else m)"
  by pat_completeness auto
termination
  by (relation "measure (\<lambda>(dir, va, addr, m). unat (page_up addr) - unat va)") (auto intro: page_up_step)

declare brk_loop.simps [simp del]

definition sys_brk :: "trapframe \<Rightarrow> sys \<Rightarrow> (outcome \<times> sys) option" where
  "sys_brk tf s =
     (let addr = tf_ebx tf; t = curtask s in
      if addr = 0 then Some (Return (sint (brk t)), s)
      else let s = (if addr > brk t
                    then put_mm (brk_loop (addrspace t) (page_up (brk t)) addr (the_mm (sch s))) s else s);
               s = modify_cur (\<lambda>x. x\<lparr>brk := addr\<rparr>) s
           in Some (Return (sint addr), s))"

section \<open>Reading and writing\<close>

definition put_pipe :: "u32 \<Rightarrow> pipe \<Rightarrow> sys \<Rightarrow> sys" where
  "put_pipe q p s = put_objs ((objs (sch s))\<lparr>pipe_at := (pipe_at (objs (sch s)))(q := p)\<rparr>) s"

text \<open>
  \<^verbatim>\<open>pipe_read\<close> and \<^verbatim>\<open>pipe_write\<close> with the rest of the system around them: an empty or full pipe
  makes the task yield.
\<close>

partial_function (option) pipe_read_task :: "(nat \<Rightarrow> sys \<Rightarrow> sys) \<Rightarrow> nat \<Rightarrow> u32 \<Rightarrow> u32 \<Rightarrow> sys \<Rightarrow> (bytes \<times> sys) option" where
  "pipe_read_task others i q count s =
     (let (out, p) = pipe_drain count [] (pipe_at (objs (sch s)) q); s = put_pipe q p s in
      if out \<noteq> [] then Some (out, s)
      else if writers p = 0 then Some ([], s)
      else case sched_yield (sch s) of
        None \<Rightarrow> None
      | Some c \<Rightarrow> pipe_read_task others (i + 1) q count (others i (put_sched c s)))"

partial_function (option) pipe_write_task ::
  "(nat \<Rightarrow> sys \<Rightarrow> sys) \<Rightarrow> nat \<Rightarrow> nat \<Rightarrow> bytes \<Rightarrow> u32 \<Rightarrow> sys \<Rightarrow> (nat \<times> sys) option"
where
  "pipe_write_task others i written inp q s =
     (let p = pipe_at (objs (sch s)) q in
      if inp = [] then Some (written, s)
      else if readers p = 0 then Some (written, s)
      else let (rest, p) = pipe_fill inp p;
               written = written + (length inp - length rest);
               s = put_pipe q p s
           in if rest = [] then Some (written, s)
              else case sched_yield (sch s) of
                None \<Rightarrow> None
              | Some c \<Rightarrow> pipe_write_task others (i + 1) written rest q (others i (put_sched c s)))"

text \<open>Reading from the console: the loop yields until a character is typed.\<close>

partial_function (option) console_read ::
  "(nat \<Rightarrow> sys \<Rightarrow> sys) \<Rightarrow> nat \<Rightarrow> u32 \<Rightarrow> u32 \<Rightarrow> u32 \<Rightarrow> u32 \<Rightarrow> sys \<Rightarrow> (outcome \<times> sys) option"
where
  "console_read others i t buf count got s =
     (if got < count
      then let (c, k) = keyboard_getchar (kb s) in
        if c < 0
        then case sched_yield (sch s) of
          None \<Rightarrow> None
        | Some d \<Rightarrow> console_read others (i + 1) t buf count got (others i (put_sched d s))
        else let s = s\<lparr>kb := k\<rparr> in
          case (if tty_echo (task_at (sch s) t)
                then map_option (\<lambda>d. s\<lparr>con := d\<rparr>) (console_putc (word_of_int c) (con s)) else Some s) of
            None \<Rightarrow> None
          | Some s \<Rightarrow>
              (case store_to (buf + got) [word_of_int c] s of
                 None \<Rightarrow> None
               | Some s \<Rightarrow>
                   if tty_raw (task_at (sch s) t) \<or> c = 10 then Some (Return (sint (got + 1)), s)
                   else console_read others i t buf count (got + 1) s)
      else Some (Return (sint got), s))"

declare pipe_read_task.simps [code] pipe_write_task.simps [code] console_read.simps [code]

text \<open>
  The data of \<^verbatim>\<open>sys_write\<close> for a pipe or a file is what the process has mapped at the buffer,
  extended by zeros; the call faults when it gets past the mapped part.
\<close>

fun put_chars :: "bytes \<Rightarrow> console \<Rightarrow> console option" where
  "put_chars [] k = Some k"
| "put_chars (c # cs) k = (case console_putc c k of None \<Rightarrow> None | Some k \<Rightarrow> put_chars cs k)"

definition sys_write :: "(nat \<Rightarrow> sys \<Rightarrow> sys) \<Rightarrow> trapframe \<Rightarrow> sys \<Rightarrow> (outcome \<times> sys) option" where
  "sys_write others tf s =
     (let t = curtask s; fd = sint (tf_ebx tf); count = tf_edx tf in
      if bad_fd fd t then Some (Return (- 1), s)
      else let f = fd_file fd t; x = get_filp f s;
               view = user_view (unat count) (tf_ecx tf) (the_mm (sch s));
               buf = view @ replicate (unat count - length view) 0 in
        case ftype x of
          FT_CONS \<Rightarrow>
            if length view < unat count then None
            else map_option (\<lambda>k. (Return (sint count), s\<lparr>con := k\<rparr>)) (put_chars view (con s))
        | FT_PIPE \<Rightarrow>
            if pipe_end x \<noteq> 1 then Some (Return (- 1), s)
            else (case pipe_write_task others 0 0 buf (pipe_ptr x) s of
                    None \<Rightarrow> None
                  | Some (n, s) \<Rightarrow> if n > length view then None else Some (Return (off_t (int n)), s))
        | FT_INODE \<Rightarrow>
            let (n, v) = minixfs_write (ino x) buf count (word_of_int (offset x)) (vfs s);
                s = s\<lparr>vfs := v\<rparr>
            in if nat n > length view then None
               else Some (Return n, if n > 0 then modify_filp f (\<lambda>x. x\<lparr>offset := off_t (offset x + n)\<rparr>) s else s)
        | FT_NONE \<Rightarrow> Some (Return (- 1), s))"

definition sys_read :: "(nat \<Rightarrow> sys \<Rightarrow> sys) \<Rightarrow> trapframe \<Rightarrow> sys \<Rightarrow> (outcome \<times> sys) option" where
  "sys_read others tf s =
     (let t = curtask s; fd = sint (tf_ebx tf); buf = tf_ecx tf; count = tf_edx tf in
      if bad_fd fd t then Some (Return (- 1), s)
      else let f = fd_file fd t; x = get_filp f s in
        case ftype x of
          FT_CONS \<Rightarrow> console_read others 0 (current (sch s)) buf count 0 s
        | FT_PIPE \<Rightarrow>
            if pipe_end x \<noteq> 0 then Some (Return (- 1), s)
            else (case pipe_read_task others 0 (pipe_ptr x) count s of
                    None \<Rightarrow> None
                  | Some (out, s) \<Rightarrow>
                      map_option (\<lambda>s. (Return (off_t (int (length out))), s)) (store_to buf out s))
        | FT_INODE \<Rightarrow>
            let (n, out) = minixfs_read (ino x) count (word_of_int (offset x)) (vfs s) in
            (case store_to buf out s of
               None \<Rightarrow> None
             | Some s \<Rightarrow>
                 Some (Return n, if n > 0 then modify_filp f (\<lambda>x. x\<lparr>offset := off_t (offset x + n)\<rparr>) s else s))
        | FT_NONE \<Rightarrow> Some (Return (- 1), s))"

definition sys_lseek :: "trapframe \<Rightarrow> sys \<Rightarrow> (outcome \<times> sys) option" where
  "sys_lseek tf s =
     (let t = curtask s; fd = sint (tf_ebx tf); off = sint (tf_ecx tf); whence = sint (tf_edx tf) in
      if bad_fd fd t then Some (Return (- 1), s)
      else let f = fd_file fd t; x = get_filp f s in
        if ftype x \<noteq> FT_INODE then Some (Return (- 1), s)
        else let pos = (if whence = 0 then off
                        else if whence = 1 then off_t (offset x + off)
                        else if whence = 2 then off_t (uint (minixfs_size (ino x) (vfs s)) + off)
                        else offset x)
             in Some (Return pos, modify_filp f (\<lambda>x. x\<lparr>offset := pos\<rparr>) s))"

section \<open>Opening and closing\<close>

definition O_APPEND :: u32 where
  "O_APPEND = 0x400"

definition O_WRONLY :: u32 where
  "O_WRONLY = 1"

definition sys_open :: "trapframe \<Rightarrow> sys \<Rightarrow> (outcome \<times> sys) option" where
  "sys_open tf s =
     (case user_path (tf_ebx tf) s of
        None \<Rightarrow> None
      | Some full \<Rightarrow>
          let flags = tf_ecx tf; (r, v) = minixfs_open full flags (ucast (tf_edx tf)) (vfs s); s = s\<lparr>vfs := v\<rparr> in
          if r < 0 then Some (Return (- 1), s)
          else let fd = fd_alloc (curtask s) in
            if fd < 0 then Some (Return (- 1), s)
            else case filp_alloc (objs (sch s)) of
              None \<Rightarrow> None
            | Some (f, o1) \<Rightarrow>
                let s = put_objs o1 s in
                if f = 0 then Some (Return (- 1), s)
                else let num = word_of_int r;
                         pos = (if flags AND O_APPEND \<noteq> 0 then sint (minixfs_size num (vfs s)) else 0);
                         s = modify_filp f (\<lambda>x. x\<lparr>ftype := FT_INODE, ino := num, offset := pos, fflags := sint flags,
                               is_dir := (minixfs_is_dir num (vfs s) \<noteq> 0)\<rparr>) s
                     in Some (Return fd, set_fd fd f s))"

definition sys_creat :: "trapframe \<Rightarrow> sys \<Rightarrow> (outcome \<times> sys) option" where
  "sys_creat tf s =
     (case user_path (tf_ebx tf) s of
        None \<Rightarrow> None
      | Some full \<Rightarrow>
          let (r, v) = minixfs_creat full (ucast (tf_ecx tf)) (vfs s); s = s\<lparr>vfs := v\<rparr> in
          if r < 0 then Some (Return (- 1), s)
          else let fd = fd_alloc (curtask s) in
            if fd < 0 then Some (Return (- 1), s)
            else case filp_alloc (objs (sch s)) of
              None \<Rightarrow> None
            | Some (f, o1) \<Rightarrow>
                let s = put_objs o1 s;
                    s = modify_filp f (\<lambda>x. x\<lparr>ftype := FT_INODE, ino := word_of_int r, offset := 0,
                          fflags := sint O_WRONLY\<rparr>) s
                in Some (Return fd, set_fd fd f s))"

definition close_file :: "u32 \<Rightarrow> sys \<Rightarrow> sys" where
  "close_file f s = put_objs (filp_close f (objs (sch s))) s"

definition ref_file :: "u32 \<Rightarrow> sys \<Rightarrow> sys" where
  "ref_file f s = put_objs (filp_ref f (objs (sch s))) s"

definition sys_close :: "trapframe \<Rightarrow> sys \<Rightarrow> (outcome \<times> sys) option" where
  "sys_close tf s =
     (let t = curtask s; fd = sint (tf_ebx tf) in
      if bad_fd fd t then Some (Return (- 1), s)
      else Some (Return 0, set_fd fd 0 (close_file (fd_file fd t) s)))"

definition sys_dup :: "trapframe \<Rightarrow> sys \<Rightarrow> (outcome \<times> sys) option" where
  "sys_dup tf s =
     (let t = curtask s; fd = sint (tf_ebx tf) in
      if bad_fd fd t then Some (Return (- 1), s)
      else let nfd = fd_alloc t in
        if nfd < 0 then Some (Return (- 1), s)
        else Some (Return nfd, ref_file (fd_file fd t) (set_fd nfd (fd_file fd t) s)))"

definition sys_dup2 :: "trapframe \<Rightarrow> sys \<Rightarrow> (outcome \<times> sys) option" where
  "sys_dup2 tf s =
     (let t = curtask s; oldfd = sint (tf_ebx tf); newfd = sint (tf_ecx tf) in
      if bad_fd oldfd t then Some (Return (- 1), s)
      else if newfd < 0 \<or> newfd \<ge> int MAX_FILES then Some (Return (- 1), s)
      else if oldfd = newfd then Some (Return newfd, s)
      else let s = (if fd_file newfd t \<noteq> 0 then close_file (fd_file newfd t) s else s)
           in Some (Return newfd, ref_file (fd_file oldfd t) (set_fd newfd (fd_file oldfd t) s)))"

definition sys_pipe :: "trapframe \<Rightarrow> sys \<Rightarrow> (outcome \<times> sys) option" where
  "sys_pipe tf s =
     (let rfd = fd_alloc (curtask s) in
      if rfd < 0 then Some (Return (- 1), s)
      else case filp_alloc (objs (sch s)) of
        None \<Rightarrow> None
      | Some (rdf, o1) \<Rightarrow>
          let s = set_fd rfd rdf (put_objs o1 s);
              wfd = fd_alloc (curtask s) in
          if wfd < 0 then Some (Return (- 1), set_fd rfd 0 (close_file rdf s))
          else case pipe_create (objs (sch s)) of
            None \<Rightarrow> None
          | Some (p, o2) \<Rightarrow>
              let s = put_objs o2 s in
              if p = 0 then Some (Return (- 1), set_fd rfd 0 (close_file rdf s))
              else case filp_alloc (objs (sch s)) of
                None \<Rightarrow> None
              | Some (wrf, o3) \<Rightarrow>
                  let s = put_objs o3 s;
                      s = modify_filp rdf (\<lambda>x. x\<lparr>ftype := FT_PIPE, pipe_ptr := p, pipe_end := 0\<rparr>) s;
                      s = modify_filp wrf (\<lambda>x. x\<lparr>ftype := FT_PIPE, pipe_ptr := p, pipe_end := 1\<rparr>) s;
                      s = set_fd wfd wrf s
                  in map_option (Pair (Return 0))
                       (store_to (tf_ebx tf) (enc32 (word_of_int rfd) @ enc32 (word_of_int wfd)) s))"

section \<open>Names, directories and status\<close>

definition sys_unlink :: "trapframe \<Rightarrow> sys \<Rightarrow> (outcome \<times> sys) option" where
  "sys_unlink tf s = with_path (tf_ebx tf) minixfs_unlink s"

definition sys_chmod :: "trapframe \<Rightarrow> sys \<Rightarrow> (outcome \<times> sys) option" where
  "sys_chmod tf s = with_path (tf_ebx tf) (\<lambda>full. minixfs_chmod full (ucast (tf_ecx tf))) s"

definition sys_mkdir :: "trapframe \<Rightarrow> sys \<Rightarrow> (outcome \<times> sys) option" where
  "sys_mkdir tf s = with_path (tf_ebx tf) (\<lambda>full. minixfs_mkdir full (ucast (tf_ecx tf))) s"

definition sys_rmdir :: "trapframe \<Rightarrow> sys \<Rightarrow> (outcome \<times> sys) option" where
  "sys_rmdir tf s = with_path (tf_ebx tf) minixfs_rmdir s"

definition encode_stat :: "stat \<Rightarrow> bytes" where
  "encode_stat st =
     enc32 (st_dev st) @ enc32 (st_ino st) @ enc16 (st_mode st) @ enc16 (st_nlink st) @ enc16 (st_uid st)
     @ enc16 (st_gid st) @ enc32 (st_size st) @ enc32 (st_atime st) @ enc32 (st_mtime st) @ enc32 (st_ctime st)"

definition sys_stat :: "trapframe \<Rightarrow> sys \<Rightarrow> (outcome \<times> sys) option" where
  "sys_stat tf s =
     (case user_path (tf_ebx tf) s of
        None \<Rightarrow> None
      | Some full \<Rightarrow>
          (case minixfs_stat full (vfs s) of
             None \<Rightarrow> Some (Return (- 1), s)
           | Some st \<Rightarrow> map_option (Pair (Return 0)) (store_to (tf_ecx tf) (encode_stat st) s)))"

definition S_IFCHR :: u16 where
  "S_IFCHR = 0x2000"

definition sys_fstat :: "trapframe \<Rightarrow> sys \<Rightarrow> (outcome \<times> sys) option" where
  "sys_fstat tf s =
     (let t = curtask s; fd = sint (tf_ebx tf) in
      if bad_fd fd t then Some (Return (- 1), s)
      else let x = get_filp (fd_file fd t) s;
               st = \<lparr>st_dev = 0, st_ino = 0, st_mode = 0, st_nlink = 0, st_uid = 0, st_gid = 0, st_size = 0,
                     st_atime = 0, st_mtime = 0, st_ctime = 0\<rparr>;
               st = (if ftype x = FT_INODE
                     then st\<lparr>st_ino := ino x, st_size := minixfs_size (ino x) (vfs s),
                            st_mode := (if minixfs_is_dir (ino x) (vfs s) \<noteq> 0 then S_IFDIR else S_IFREG)\<rparr>
                     else st\<lparr>st_mode := S_IFCHR\<rparr>)
           in map_option (Pair (Return 0)) (store_to (tf_ecx tf) (encode_stat st) s))"

definition sys_getdents :: "trapframe \<Rightarrow> sys \<Rightarrow> (outcome \<times> sys) option" where
  "sys_getdents tf s =
     (let t = curtask s; fd = sint (tf_ebx tf) in
      if bad_fd fd t then Some (Return (- 1), s)
      else let x = get_filp (fd_file fd t) s in
        if ftype x \<noteq> FT_INODE then Some (Return (- 1), s)
        else case minixfs_readdir (ino x) (tf_edx tf) (vfs s) of
          None \<Rightarrow> Some (Return (- 1), s)
        | Some (num, name) \<Rightarrow> map_option (Pair (Return 1)) (store_to (tf_ecx tf) (enc32 num @ name) s))"

definition sys_chdir :: "trapframe \<Rightarrow> sys \<Rightarrow> (outcome \<times> sys) option" where
  "sys_chdir tf s =
     (case build_path (cwd (curtask s)) (user_view 255 (tf_ebx tf) (the_mm (sch s))) (path_junk s) of
        None \<Rightarrow> None
      | Some full \<Rightarrow>
          let num = minixfs_resolve (cstr full) (vfs s) in
          if num = 0 \<or> minixfs_is_dir num (vfs s) = 0 then Some (Return (- 1), s)
          else case strncpy (cwd (curtask s)) full 255 of
            None \<Rightarrow> None
          | Some d \<Rightarrow> Some (Return 0, modify_cur (\<lambda>x. x\<lparr>cwd := d[255 := 0]\<rparr>) s))"

definition sys_getcwd :: "trapframe \<Rightarrow> sys \<Rightarrow> (outcome \<times> sys) option" where
  "sys_getcwd tf s =
     (case strlen (cwd (curtask s)) of
        None \<Rightarrow> None
      | Some l \<Rightarrow>
          if of_nat l + 1 > tf_ecx tf then Some (Return (- 1), s)
          else map_option (Pair (Return (int l))) (store_to (tf_ebx tf) (cstr (cwd (curtask s)) @ [0]) s))"

definition sys_sync :: "trapframe \<Rightarrow> sys \<Rightarrow> (outcome \<times> sys) option" where
  "sys_sync tf s = Some (Return 0, s)"

definition sys_ioctl :: "trapframe \<Rightarrow> sys \<Rightarrow> (outcome \<times> sys) option" where
  "sys_ioctl tf s =
     (let t = curtask s; fd = sint (tf_ebx tf); request = tf_ecx tf; arg = tf_edx tf in
      if bad_fd fd t \<or> ftype (get_filp (fd_file fd t) s) \<noteq> FT_CONS then Some (Return (- 1), s)
      else if request = 1 then Some (Return 0, modify_cur (\<lambda>x. x\<lparr>tty_raw := (arg \<noteq> 0)\<rparr>) s)
      else if request = 2 then Some (Return 0, modify_cur (\<lambda>x. x\<lparr>tty_echo := (arg \<noteq> 0)\<rparr>) s)
      else if request = 3 then Some (Return 0, s\<lparr>kb := keyboard_set_foreground (sint arg) (kb s)\<rparr>)
      else Some (Return (- 1), s))"

definition sys_stub :: "trapframe \<Rightarrow> sys \<Rightarrow> (outcome \<times> sys) option" where
  "sys_stub tf s = Some (Return (- 1), s)"

section \<open>Dispatch\<close>

definition dispatch :: "(nat \<Rightarrow> sys \<Rightarrow> sys) \<Rightarrow> trapframe \<Rightarrow> sys \<Rightarrow> (outcome \<times> sys) option" where
  "dispatch others tf =
     (case map_of
        [(1, sys_exit), (2, sys_fork_impl), (3, sys_read others), (4, sys_write others), (5, sys_open),
         (6, sys_close), (7, sys_wait4_impl others), (84, sys_wait4_impl others), (8, sys_creat), (9, sys_stub),
         (10, sys_unlink), (12, sys_chdir), (14, sys_stub), (15, sys_chmod), (19, sys_lseek), (20, sys_getpid),
         (39, sys_getppid), (24, sys_getuid), (37, sys_kill), (41, sys_dup), (90, sys_dup2), (42, sys_pipe),
         (47, sys_getgid), (23, sys_setuid), (181, sys_setgid), (54, sys_ioctl), (59, sys_execve_impl),
         (62, sys_fstat), (63, sys_stat), (64, sys_getdents), (326, sys_getcwd), (17, sys_brk), (65, sys_yield),
         (66, sys_sync), (136, sys_mkdir), (137, sys_rmdir)] (uint (tf_eax tf)) of
        None \<Rightarrow> sys_stub tf
      | Some h \<Rightarrow> h tf)"

text \<open>
  The common entry of exceptions, \<^verbatim>\<open>isr_dispatch\<close>. It ends with the frame the process continues with, or,
  after \<^verbatim>\<open>execve\<close>, with the entry point and stack pointer of a new program. Any exception but a system
  call or a page fault halts the machine; \<open>cr2\<close> is the register with the address of the fault.
\<close>

definition mm_page_fault :: "u32 \<Rightarrow> trapframe \<Rightarrow> sys \<Rightarrow> sys option" where
  "mm_page_fault cr2 tf s = proc_page_fault tf cr2 s"

definition isr_dispatch ::
  "(nat \<Rightarrow> sys \<Rightarrow> sys) \<Rightarrow> u32 \<Rightarrow> trapframe \<Rightarrow> sys \<Rightarrow> ((trapframe + u32 \<times> u32) \<times> sys) option"
where
  "isr_dispatch others cr2 tf s =
     (if tf_int_no tf = 144
      then (case dispatch others tf s of
              None \<Rightarrow> None
            | Some (Return r, s) \<Rightarrow> Some (Inl (tf\<lparr>tf_eax := word_of_int r\<rparr>), s)
            | Some (Enter_user start sp, s) \<Rightarrow> Some (Inr (start, sp), s))
      else if tf_int_no tf = 14 then map_option (Pair (Inl tf)) (mm_page_fault cr2 tf s)
      else None)"

end
