(* ===== verification/SysObjects.thy ===== *)
theory SysObjects
  imports TaskObjects Syscall
begin

text \<open>
  Every system call keeps the object graph: whatever a process asks for, each descriptor of each task in the
  table refers to an allocated open file of its own, each open pipe end to an allocated pipe, and the
  reference counts are at least the number of references, so that closing never frees an object still in use.
\<close>

section \<open>How the helpers change the scheduler state\<close>

lemma sch_put [simp]:
  "sch (put_mm m s) = modify_mm (\<lambda>_. m) (sch s)"
  "sch (put_objs w s) = (sch s)\<lparr>objs := w\<rparr>"
  "sch (modify_cur j s) = modify_task (current (sch s)) j (sch s)"
  "sch (set_fd fd f s) = set_slot (current (sch s)) (nat fd) f (sch s)"
  "sch (close_file f s) = (sch s)\<lparr>objs := filp_close f (objs (sch s))\<rparr>"
  "sch (ref_file f s) = (sch s)\<lparr>objs := filp_ref f (objs (sch s))\<rparr>"
  "sch (modify_filp f g s) =
     (sch s)\<lparr>objs := (objs (sch s))\<lparr>filp_at := (filp_at (objs (sch s)))(f := g (filp_at (objs (sch s)) f))\<rparr>\<rparr>"
  "sch (put_pipe q p s) = (sch s)\<lparr>objs := (objs (sch s))\<lparr>pipe_at := (pipe_at (objs (sch s)))(q := p)\<rparr>\<rparr>"
  "sch (s\<lparr>kb := k\<rparr>) = ksched k"
  by (simp_all add: put_mm_def put_objs_def modify_cur_def set_fd_def set_slot_def close_file_def ref_file_def
      modify_filp_def get_filp_def put_pipe_def) (simp add: sch_def)

lemma same_store: "store_to va bs s = Some s' \<Longrightarrow> same_objs c (sch s) \<Longrightarrow> same_objs c (sch s')"
  by (auto simp: store_to_def intro: same_intros)

lemma same_filp:
  assumes "filp_core (g (filp_at (objs (sch s)) f)) = filp_core (filp_at (objs (sch s)) f)" and "same_objs c (sch s)"
  shows "same_objs c (sch (modify_filp f g s))"
  using assms by (simp add: same_objs_def)

lemma same_pipe:
  assumes "readers p = readers (pipe_at (objs (sch s)) q)" "writers p = writers (pipe_at (objs (sch s)) q)"
    and "same_objs c (sch s)"
  shows "same_objs c (sch (put_pipe q p s))"
  using assms by (simp add: same_objs_def)

lemma same_cur:
  assumes "\<And>x. tfiles (g x) = tfiles x" "\<And>x. kstack (g x) = kstack x" and "same_objs c (sch s)"
  shows "same_objs c (sch (modify_cur g s))"
  using assms by (simp add: same_modify_task)

lemma same_getchar: "keyboard_getchar (kb s) = (ch, k) \<Longrightarrow> ksched k = sch s"
  by (auto simp: keyboard_getchar_def sch_def Let_def split: if_splits)

section \<open>Calls that keep the objects\<close>

definition keeps :: "(trapframe \<Rightarrow> sys \<Rightarrow> (outcome \<times> sys) option) \<Rightarrow> bool" where
  "keeps h \<longleftrightarrow> (\<forall>tf s r s' L. sys_inv (sch s) L \<longrightarrow> current (sch s) \<in> live_tasks (sch s) \<longrightarrow> h tf s = Some (r, s') \<longrightarrow>
     (\<exists>L'. sys_inv (sch s') L'))"

lemma keepsI:
  assumes "\<And>tf s r s' L. sys_inv (sch s) L \<Longrightarrow> current (sch s) \<in> live_tasks (sch s) \<Longrightarrow> h tf s = Some (r, s') \<Longrightarrow>
    \<exists>L'. sys_inv (sch s') L'"
  shows "keeps h"
  using assms unfolding keeps_def by blast

lemma keepsD:
  "keeps h \<Longrightarrow> sys_inv (sch s) L \<Longrightarrow> current (sch s) \<in> live_tasks (sch s) \<Longrightarrow> h tf s = Some (r, s') \<Longrightarrow>
    \<exists>L'. sys_inv (sch s') L'"
  unfolding keeps_def by blast

lemma keeps_same:
  assumes "\<And>tf s r s'. h tf s = Some (r, s') \<Longrightarrow> same_objs (sch s) (sch s')"
  shows "keeps h"
  using assms same_objs_inv unfolding keeps_def by blast

named_theorems keeps_intros \<open>system calls that keep the object invariant\<close>

lemma keeps_simple [keeps_intros]:
  "keeps sys_getpid" "keeps sys_getppid" "keeps sys_getuid" "keeps sys_getgid" "keeps sys_sync" "keeps sys_stub"
  by (rule keeps_same; simp add: sys_getpid_def sys_getppid_def sys_getuid_def sys_getgid_def sys_sync_def sys_stub_def
      same_intros)+

lemma keeps_ids [keeps_intros]: "keeps sys_setuid" "keeps sys_setgid"
  by (rule keeps_same; auto simp: sys_setuid_def sys_setgid_def intro!: same_intros same_modify_task split: if_splits)+

lemma keeps_yield [keeps_intros]: "keeps sys_yield"
  by (rule keeps_same) (auto simp: sys_yield_def intro: same_yield same_intros)

lemma keeps_kill [keeps_intros]: "keeps sys_kill"
  by (rule keeps_same) (auto simp: sys_kill_def Let_def intro!: same_intros same_modify_task split: if_splits)

lemma keeps_brk [keeps_intros]: "keeps sys_brk"
  by (rule keeps_same) (auto simp: sys_brk_def Let_def intro!: same_intros same_modify_task split: if_splits)

lemma keeps_with_path:
  "with_path va f s = Some (r, s') \<Longrightarrow> same_objs (sch s) (sch s')"
  by (auto simp: with_path_def split_beta same_objs_refl)

lemma keeps_paths [keeps_intros]: "keeps sys_unlink" "keeps sys_chmod" "keeps sys_mkdir" "keeps sys_rmdir"
  by (rule keeps_same; simp add: sys_unlink_def sys_chmod_def sys_mkdir_def sys_rmdir_def keeps_with_path)+

lemma keeps_status [keeps_intros]: "keeps sys_stat" "keeps sys_fstat" "keeps sys_getdents" "keeps sys_getcwd"
  by (rule keeps_same; auto simp: sys_stat_def sys_fstat_def sys_getdents_def sys_getcwd_def Let_def
      split: option.splits if_splits intro: same_store same_intros)+

lemma keeps_chdir [keeps_intros]: "keeps sys_chdir"
  by (rule keeps_same)
    (auto simp: sys_chdir_def Let_def split: option.splits if_splits intro!: same_intros same_modify_task)

lemma keeps_ioctl [keeps_intros]: "keeps sys_ioctl"
  by (rule keeps_same)
    (auto simp: sys_ioctl_def Let_def keyboard_set_foreground_def sch_def [symmetric]
      split: if_splits intro!: same_intros same_modify_task)

lemma keeps_lseek [keeps_intros]: "keeps sys_lseek"
proof (rule keeps_same)
  fix tf s r s'
  assume "sys_lseek tf s = Some (r, s')"
  then have "s' = s \<or> (\<exists>f pos. s' = modify_filp f (\<lambda>x. x\<lparr>offset := pos\<rparr>) s)"
    unfolding sys_lseek_def Let_def by (auto split: if_splits)
  then show "same_objs (sch s) (sch s')"
    using same_filp [of _ s _ "sch s"] by (auto simp: filp_core_def same_objs_refl simp del: sch_put)
qed

section \<open>Descriptors\<close>

lemma sys_inv_len: "sys_inv c L \<Longrightarrow> t \<in> live_tasks c \<Longrightarrow> length (tfiles (task_at c t)) = MAX_FILES"
  by (simp add: sys_inv_def tables_ok_def)

lemma fd_alloc_free:
  assumes "sys_inv (sch s) L" "current (sch s) \<in> live_tasks (sch s)" "\<not> fd_alloc (curtask s) < 0"
  shows "nat (fd_alloc (curtask s)) < MAX_FILES" "tfiles (task_at (sch s) (current (sch s))) ! nat (fd_alloc (curtask s)) = 0"
  using assms sys_inv_len [OF assms(1,2)] free_slot_free [of "tfiles (curtask s)"]
  by (auto simp: fd_alloc_def curtask_def Let_def split: if_splits)

lemma good_fd:
  assumes "\<not> bad_fd fd (curtask s)"
  shows "nat fd < MAX_FILES" "fd_file fd (curtask s) = tfiles (task_at (sch s) (current (sch s))) ! nat fd"
    "fd_file fd (curtask s) \<noteq> 0"
  using assms by (auto simp: bad_fd_def fd_file_def curtask_def)

lemma keeps_close [keeps_intros]: "keeps sys_close"
proof (rule keepsI)
  fix tf s r s' L
  assume A: "sys_inv (sch s) L" "current (sch s) \<in> live_tasks (sch s)" "sys_close tf s = Some (r, s')"
  show "\<exists>L'. sys_inv (sch s') L'"
  proof (cases "bad_fd (sint (tf_ebx tf)) (curtask s)")
    case False
    note F = good_fd [OF False]
    show ?thesis
      using sys_inv_close_slot [OF A(1,2) F] A(3) False by (auto simp: sys_close_def Let_def)
  qed (use A in \<open>auto simp: sys_close_def Let_def\<close>)
qed

text \<open>The new reference is counted after the slot is set; the order makes no difference.\<close>

lemma set_slot_objs: "(set_slot t i f c)\<lparr>objs := w\<rparr> = set_slot t i f (c\<lparr>objs := w\<rparr>)"
  by (simp add: set_slot_def modify_task_def)

lemma keeps_dup [keeps_intros]: "keeps sys_dup"
proof (rule keepsI)
  fix tf s r s' L
  assume A: "sys_inv (sch s) L" "current (sch s) \<in> live_tasks (sch s)" "sys_dup tf s = Some (r, s')"
  let ?fd = "sint (tf_ebx tf)"
  show "\<exists>L'. sys_inv (sch s') L'"
  proof (cases "bad_fd ?fd (curtask s) \<or> fd_alloc (curtask s) < 0")
    case False
    then have b: "\<not> bad_fd ?fd (curtask s)" and n: "\<not> fd_alloc (curtask s) < 0"
      by auto
    show ?thesis
      using sys_inv_share_slot [OF A(1,2) fd_alloc_free [OF A(1,2) n] A(2) good_fd [OF b]] A(3) b n
      by (auto simp: sys_dup_def Let_def set_slot_objs)
  qed (use A in \<open>auto simp: sys_dup_def Let_def split: if_splits\<close>)
qed

lemma keeps_dup2 [keeps_intros]: "keeps sys_dup2"
proof (rule keepsI)
  fix tf s r s' L
  assume A: "sys_inv (sch s) L" "current (sch s) \<in> live_tasks (sch s)" "sys_dup2 tf s = Some (r, s')"
  let ?o = "sint (tf_ebx tf)" and ?n = "sint (tf_ecx tf)" and ?t = "current (sch s)" and ?c = "sch s"
  show "\<exists>L'. sys_inv (sch s') L'"
  proof (cases "bad_fd ?o (curtask s) \<or> ?n < 0 \<or> ?n \<ge> int MAX_FILES \<or> ?o = ?n")
    case False
    then have b: "\<not> bad_fd ?o (curtask s)" and n: "nat ?n < MAX_FILES" "0 \<le> ?n" and ne: "nat ?o \<noteq> nat ?n"
      by (auto simp: bad_fd_def)
    let ?f = "fd_file ?o (curtask s)" and ?g = "tfiles (task_at ?c ?t) ! nat ?n"
    define d where "d = (if ?g \<noteq> 0 then set_slot ?t (nat ?n) 0 (?c\<lparr>objs := filp_close ?g (objs ?c)\<rparr>) else ?c)"
    have "\<exists>L1. sys_inv d L1"
      using sys_inv_close_slot [OF A(1,2) n(1)] A(1) by (cases "?g = 0") (auto simp: d_def)
    then obtain L1 where L1: "sys_inv d L1"
      by blast
    have len: "length (tfiles (task_at ?c ?t)) = MAX_FILES"
      by (rule sys_inv_len [OF A(1,2)])
    have "?t \<in> live_tasks d"
      using A(2) by (simp add: d_def)
    moreover have "tfiles (task_at d ?t) ! nat ?n = 0" "?f = tfiles (task_at d ?t) ! nat ?o"
      using n(1) len good_fd [OF b] ne by (auto simp: d_def set_slot_def)
    ultimately have d: "?t \<in> live_tasks d" "tfiles (task_at d ?t) ! nat ?n = 0" "?f = tfiles (task_at d ?t) ! nat ?o"
      by simp_all
    have "sys_inv (set_slot ?t (nat ?n) ?f (d\<lparr>objs := filp_ref ?f (objs d)\<rparr>)) L1"
      using sys_inv_share_slot [OF L1 d(1) n(1) d(2) d(1) good_fd(1) [OF b] d(3) good_fd(3) [OF b]] .
    moreover have "sch s' = set_slot ?t (nat ?n) ?f (d\<lparr>objs := filp_ref ?f (objs d)\<rparr>)"
    proof -
      have g: "fd_file ?n (curtask s) = ?g"
        by (simp add: fd_file_def curtask_def)
      show ?thesis
        using A(3) False g
        by (auto simp: sys_dup2_def Let_def d_def set_slot_objs set_slot_def modify_task_def split: if_splits)
    qed
    ultimately show ?thesis
      by auto
  qed (use A in \<open>auto simp: sys_dup2_def Let_def split: if_splits\<close>)
qed

section \<open>New descriptors\<close>

lemma curtask_vfs [simp]: "curtask (s\<lparr>vfs := v\<rparr>) = curtask s"
  by (simp add: curtask_def)

lemma sys_inv_open_slot:
  assumes A: "sys_inv (sch s) L" "current (sch s) \<in> live_tasks (sch s)" and fd: "\<not> fd_alloc (curtask s) < 0"
    and a: "filp_alloc (objs (sch s)) = Some (f, w)" and g: "\<And>x. ftype (g x) = FT_INODE" "\<And>x. refcount (g x) = refcount x"
  shows "\<exists>L'. sys_inv (sch (set_fd (fd_alloc (curtask s)) f (modify_filp f g (put_objs w (s\<lparr>vfs := v\<rparr>))))) L'"
  using sys_inv_alloc_slot [OF A fd_alloc_free [OF A fd] a, of "g (filp_at w f)"] g by simp

lemma keeps_open [keeps_intros]: "keeps sys_open"
proof (rule keepsI)
  fix tf s r s' L
  assume A: "sys_inv (sch s) L" "current (sch s) \<in> live_tasks (sch s)" "sys_open tf s = Some (r, s')"
  then show "\<exists>L'. sys_inv (sch s') L'"
    using sys_inv_alloc_null [OF A(1)] sys_inv_open_slot [OF A(1,2)] unfolding sys_open_def Let_def
    by (auto simp del: sch_put(4,7) split: option.splits prod.splits if_splits)
qed

lemma keeps_creat [keeps_intros]: "keeps sys_creat"
proof (rule keepsI)
  fix tf s r s' L
  assume A: "sys_inv (sch s) L" "current (sch s) \<in> live_tasks (sch s)" "sys_creat tf s = Some (r, s')"
  then show "\<exists>L'. sys_inv (sch s') L'"
    using sys_inv_open_slot [OF A(1,2)] unfolding sys_creat_def Let_def
    by (auto simp del: sch_put(4,7) split: option.splits prod.splits if_splits)
qed

text \<open>Giving up the reading end again, when the rest of a pipe cannot be made.\<close>

lemma sys_inv_undo_slot:
  assumes inv: "sys_inv c L" and t: "t \<in> live_tasks c" "i < MAX_FILES" and f: "f = tfiles (task_at c t) ! i"
  shows "\<exists>L'. sys_inv (set_slot t i 0 (c\<lparr>objs := filp_close f (objs c)\<rparr>)) L'"
proof (cases "f = 0")
  case True
  have "(tfiles (task_at c t))[i := 0] = tfiles (task_at c t)"
    using True f by (metis list_update_id)
  then have "same_objs c (set_slot t i 0 (c\<lparr>objs := filp_close f (objs c)\<rparr>))"
    using True by (simp add: same_objs_def set_slot_def filp_close_def)
  then show ?thesis
    using same_objs_inv [OF inv] by blast
next
  case False
  then show ?thesis
    using sys_inv_close_slot [OF inv t f] by blast
qed

lemma sys_inv_pipe_slots:
  assumes inv: "sys_inv c L" and t: "t \<in> live_tasks c" "j < MAX_FILES" "tfiles (task_at c t) ! j = 0"
    and rd: "rdf = 0 \<or> rdf \<in> ran (fd_slot c)"
    and p: "pipe_create (objs c) = Some (p, w)" "p \<noteq> 0" and a: "filp_alloc w = Some (wrf, v)"
    and x: "ftype x = FT_PIPE" "pipe_ptr x = p" "pipe_end x = 0" "refcount x = refcount (filp_at v rdf)"
    and y: "ftype y = FT_PIPE" "pipe_ptr y = p" "pipe_end y = 1" "refcount y = refcount (filp_at v wrf)"
  shows "\<exists>L'. sys_inv (set_slot t j wrf (c\<lparr>objs := v\<lparr>filp_at := (filp_at v)(rdf := x, wrf := y)\<rparr>\<rparr>)) L'"
proof -
  have ok: "obj_ok (fd_slot c) (objs c) L (task_blocks c)" and tab: "tables_ok c"
    using inv by (simp_all add: sys_inv_def)
  let ?X = "task_blocks c"
  have k: "fd_slot c (t, j) = None"
    using t by (simp add: fd_slot_eq)
  obtain L2 where w: "obj_ok (fd_slot c) w L2 (insert p ?X)" "p \<notin> ?X" "readers (pipe_at w p) = 1" "writers (pipe_at w p) = 1"
    using ok p(1) by (cases rule: obj_ok_pipe_create) (use p(2) in auto)
  have pv: "pipe_at v = pipe_at w"
    using a by (auto simp: filp_alloc_def Let_def split: option.splits prod.splits if_splits)
  let ?D = "(fd_slot c)((t, j) := if wrf = 0 then None else Some wrf)"
  have "\<exists>L3. obj_ok ?D v L3 (insert p ?X) \<and> (wrf \<noteq> rdf \<or> wrf \<notin> ran ?D)"
    using w(1) k a
  proof (cases rule: obj_ok_filp_alloc)
    case 1
    then show ?thesis
      using k obj_ok_nonnull(1) [OF 1(2)] by (auto simp: fun_upd_idem)
  next
    case (2 L')
    then show ?thesis
      using rd by auto
  qed
  then obtain L3 where "obj_ok ?D v L3 (insert p ?X)" "wrf \<noteq> rdf \<or> wrf \<notin> ran ?D"
    by blast
  then have "obj_ok ?D (v\<lparr>filp_at := (filp_at v)(rdf := x, wrf := y)\<rparr>) L3 ?X"
    using w(2-4) x y by (intro obj_ok_attach) (auto simp: pv)
  then show ?thesis
    using t(1,2) tab by (auto simp: sys_inv_def fd_slot_set_slot)
qed

lemma keeps_pipe [keeps_intros]: "keeps sys_pipe"
proof (rule keepsI)
  fix tf s r s' L
  assume A: "sys_inv (sch s) L" "current (sch s) \<in> live_tasks (sch s)" "sys_pipe tf s = Some (r, s')"
  let ?t = "current (sch s)" and ?i = "fd_alloc (curtask s)"
  show "\<exists>L'. sys_inv (sch s') L'"
  proof (cases "?i < 0")
    case True
    then show ?thesis
      using A by (auto simp: sys_pipe_def)
  next
    case False
    note I = fd_alloc_free [OF A(1,2) False]
    obtain rdf o1 where a: "filp_alloc (objs (sch s)) = Some (rdf, o1)"
      using A(3) False by (cases "filp_alloc (objs (sch s))") (auto simp: sys_pipe_def Let_def)
    define s1 where "s1 = set_fd ?i rdf (put_objs o1 s)"
    have n: "rdf \<noteq> 0 \<Longrightarrow> ftype (filp_at o1 rdf) \<noteq> FT_PIPE"
      using a by (auto simp: filp_alloc_def Let_def zero_filp_def split: option.splits prod.splits if_splits)
    have "sch s1 = set_slot ?t (nat ?i) rdf ((sch s)\<lparr>objs := o1\<lparr>filp_at := (filp_at o1)(rdf := filp_at o1 rdf)\<rparr>\<rparr>)"
      by (simp add: s1_def)
    then obtain L1 where L1: "sys_inv (sch s1) L1"
      using sys_inv_alloc_slot [OF A(1,2) I a n] by auto
    have t1: "current (sch s1) = ?t" "?t \<in> live_tasks (sch s1)"
      using A(2) by (simp_all add: s1_def) (simp add: set_slot_def)
    have rd: "rdf = tfiles (task_at (sch s1) ?t) ! nat ?i"
      using I(1) sys_inv_len [OF A(1,2)] by (simp add: s1_def set_slot_def)
    then have rd': "rdf = 0 \<or> rdf \<in> ran (fd_slot (sch s1))"
      using fd_slot_eq [OF t1(2) I(1)] by (metis ranI)
    let ?j = "fd_alloc (curtask s1)"
    show ?thesis
    proof (cases "?j < 0")
      case True
      then have "sch s' = set_slot ?t (nat ?i) 0 ((sch s1)\<lparr>objs := filp_close rdf (objs (sch s1))\<rparr>)"
        using A(3) False a t1(1) by (auto simp: sys_pipe_def Let_def s1_def)
      then show ?thesis
        using sys_inv_undo_slot [OF L1 t1(2) I(1) rd] by simp
    next
      case j: False
      have J: "nat ?j < MAX_FILES" "tfiles (task_at (sch s1) ?t) ! nat ?j = 0"
        using fd_alloc_free [OF L1 _ j] t1 by simp_all
      obtain p o2 where p: "pipe_create (objs (sch s1)) = Some (p, o2)"
        using A(3) False a j by (cases "pipe_create (objs (sch s1))") (auto simp: sys_pipe_def Let_def s1_def [symmetric])
      show ?thesis
      proof (cases "p = 0")
        case True
        have "sys_inv ((sch s1)\<lparr>objs := o2\<rparr>) L1"
        proof -
          have ok: "obj_ok (fd_slot (sch s1)) (objs (sch s1)) L1 (task_blocks (sch s1))" and tab: "tables_ok (sch s1)"
            using L1 by (simp_all add: sys_inv_def)
          from ok p show ?thesis
            by (cases rule: obj_ok_pipe_create) (use True tab in \<open>simp_all add: sys_inv_def\<close>)
        qed
        moreover have "sch s' = set_slot ?t (nat ?i) 0 ((sch s1)\<lparr>objs := filp_close rdf o2\<rparr>)"
          using A(3) False a j p True t1(1) by (auto simp: sys_pipe_def Let_def s1_def [symmetric])
        ultimately show ?thesis
          using sys_inv_undo_slot [of "(sch s1)\<lparr>objs := o2\<rparr>" L1 ?t "nat ?i" rdf] t1(2) I(1) rd by simp
      next
        case p0: False
        obtain wrf o3 where w: "filp_alloc o2 = Some (wrf, o3)"
          using A(3) False a j p p0 by (cases "filp_alloc o2") (auto simp: sys_pipe_def Let_def s1_def [symmetric])
        define x where "x = (filp_at o3 rdf)\<lparr>ftype := FT_PIPE, pipe_ptr := p, pipe_end := 0\<rparr>"
        define y where "y = (((filp_at o3)(rdf := x)) wrf)\<lparr>ftype := FT_PIPE, pipe_ptr := p, pipe_end := 1\<rparr>"
        define s2 where "s2 = set_fd ?j wrf (modify_filp wrf (\<lambda>x. x\<lparr>ftype := FT_PIPE, pipe_ptr := p, pipe_end := 1\<rparr>)
          (modify_filp rdf (\<lambda>x. x\<lparr>ftype := FT_PIPE, pipe_ptr := p, pipe_end := 0\<rparr>) (put_objs o3 (put_objs o2 s1))))"
        have "store_to (tf_ebx tf) (enc32 (word_of_int ?i) @ enc32 (word_of_int ?j)) s2 = Some s'"
          using A(3) False a j p p0 w
          by (auto simp: sys_pipe_def Let_def s1_def [symmetric] s2_def simp del: sch_put(4,7))
        then have "same_objs (sch s2) (sch s')"
          using same_store same_objs_refl by blast
        moreover have "sch s2 = set_slot ?t (nat ?j) wrf ((sch s1)\<lparr>objs := o3\<lparr>filp_at := (filp_at o3)(rdf := x, wrf := y)\<rparr>\<rparr>)"
          by (simp add: s2_def x_def y_def t1(1))
        moreover have "\<exists>L'. sys_inv (set_slot ?t (nat ?j) wrf
            ((sch s1)\<lparr>objs := o3\<lparr>filp_at := (filp_at o3)(rdf := x, wrf := y)\<rparr>\<rparr>)) L'"
          by (rule sys_inv_pipe_slots [OF L1 t1(2) J rd' p p0 w]) (simp_all add: x_def y_def)
        ultimately show ?thesis
          using same_objs_inv by fastforce
      qed
    qed
  qed
qed

section \<open>Processes\<close>

lemma keeps_exit [keeps_intros]: "keeps sys_exit"
proof (rule keepsI)
  fix tf s r s' L
  assume A: "sys_inv (sch s) L" "current (sch s) \<in> live_tasks (sch s)" "sys_exit tf s = Some (r, s')"
  then show "\<exists>L'. sys_inv (sch s') L'"
    using sys_inv_exit [OF A(1,2)] by (auto simp: sys_exit_def)
qed

lemma sys_inv_share_files:
  assumes "sys_inv c L" and "par \<in> live_tasks c" and "par \<noteq> child" and "i + n = MAX_FILES"
    and "\<forall>j. i \<le> j \<and> j < MAX_FILES \<longrightarrow> tfiles (task_at c child) ! j = 0"
  shows "\<exists>L'. sys_inv (share_files n i par child c) L'"
  using assms
proof (induction n arbitrary: i c L)
  case (Suc n)
  let ?f = "tfiles (task_at c par) ! i"
  show ?case
  proof (cases "?f = 0")
    case True
    then show ?thesis
      using Suc.IH [OF Suc.prems(1-3), of "i + 1"] Suc.prems(4,5) by (simp add: Let_def)
  next
    case False
    let ?c = "set_slot child i ?f (c\<lparr>objs := filp_ref ?f (objs c)\<rparr>)"
    have i: "i < MAX_FILES"
      using Suc.prems(4) by simp
    have "?f \<in> ran (fd_slot c)"
      using fd_slot_eq [OF Suc.prems(2) i] False by (auto intro: ranI)
    then have "sys_inv ?c L"
      using sys_inv_share_slot [OF Suc.prems(1) _ i _ Suc.prems(2) i refl False] Suc.prems(5) i
        sys_inv_ref [OF Suc.prems(1), of ?f] fd_slot_set_slot_dead [of child "c\<lparr>objs := filp_ref ?f (objs c)\<rparr>" i ?f]
      by (cases "child \<in> live_tasks c") (auto simp: sys_inv_def)
    then have "\<exists>L'. sys_inv (share_files n (i + 1) par child ?c) L'"
      using Suc.prems(2-5) by (intro Suc.IH) (auto simp: set_slot_def [of child i] live_tasks_def)
    moreover have "share_files (Suc n) i par child c = share_files n (i + 1) par child ?c"
      using False set_slot_objs [of "filp_ref ?f (objs c)" child i ?f c] by (simp add: Let_def set_slot_def)
    ultimately show ?thesis
      by simp
  qed
qed auto

lemma keeps_fork [keeps_intros]: "keeps sys_fork_impl"
proof (rule keepsI)
  fix tf s r s' L
  assume A: "sys_inv (sch s) L" "current (sch s) \<in> live_tasks (sch s)" "sys_fork_impl tf s = Some (r, s')"
  let ?par = "current (sch s)"
  obtain child c1 where a: "sched_alloc (tname (task_at (sch s) ?par)) (sch s) = Some (child, c1)"
    using A(3) by (cases "sched_alloc (tname (task_at (sch s) ?par)) (sch s)") (auto simp: sys_fork_impl_def)
  note N = sys_inv_sched_alloc [OF A(1) a]
  show "\<exists>L'. sys_inv (sch s') L'"
  proof (cases "child = 0")
    case True
    then show ?thesis
      using A(3) a N(1) by (auto simp: sys_fork_impl_def)
  next
    case False
    let ?p = "task_at c1 ?par"
    obtain dd where dd: "strcpy (cwd (task_at c1 child)) (cwd ?p) = Some dd"
      using A(3) a False by (cases "strcpy (cwd (task_at c1 child)) (cwd ?p)") (auto simp: sys_fork_impl_def)
    define c2 where "c2 = modify_task child (\<lambda>x. x\<lparr>ppid := pid ?p, parent := ?par, uid := uid ?p, gid := gid ?p,
      user := True, cwd := dd, brk := brk ?p\<rparr>) c1"
    obtain dir m where clone: "hal_addrspace_clone (addrspace ?p) (the_mm c2) = (dir, m)"
      by (cases "hal_addrspace_clone (addrspace ?p) (the_mm c2)")
    define c3 where "c3 = modify_task child (\<lambda>x. x\<lparr>addrspace := dir\<rparr>) (modify_mm (\<lambda>_. m) c2)"
    have s3: "same_objs c1 c3"
      unfolding c3_def c2_def by (intro same_intros same_modify_task) simp_all
    obtain L1 where "sys_inv c1 L1"
      using N(1) by blast
    then have L3: "sys_inv c3 L1"
      using same_objs_inv [OF _ s3] by blast
    have res: "(if dir = 0 then Some (Return (- 1), put_sched c3 s)
        else case sched_add child (fork_stack child tf (proc_fork_return s) (share_files MAX_FILES 0 ?par child c3)) of
          None \<Rightarrow> None | Some c \<Rightarrow> Some (Return (pid (task_at c child)), put_sched c s)) = Some (r, s')"
      using A(3) a False dd clone by (cases "dir = 0") (simp_all add: sys_fork_impl_def Let_def c2_def [symmetric] c3_def)
    show ?thesis
    proof (cases "dir = 0")
      case True
      then show ?thesis
        using res L3 by auto
    next
      case d0: False
      have par: "?par \<in> live_tasks c3" "?par \<noteq> child"
        using N(3,5) A(2) False by (auto simp: same_objs_simps [OF s3])
      have "tfiles (task_at c3 child) = replicate MAX_FILES 0"
        using N(4) [OF False] by (simp add: same_objs_simps [OF s3])
      then obtain L4 where L4: "sys_inv (share_files MAX_FILES 0 ?par child c3) L4"
        using sys_inv_share_files [OF L3 par, of 0 MAX_FILES] by auto
      have "same_objs (share_files MAX_FILES 0 ?par child c3)
          (fork_stack child tf (proc_fork_return s) (share_files MAX_FILES 0 ?par child c3))"
        unfolding fork_stack_def Let_def by (intro same_intros same_modify_task) simp_all
      then have "same_objs (share_files MAX_FILES 0 ?par child c3) (sch s')"
        using res d0 same_add by (auto split: option.splits)
      then show ?thesis
        using same_objs_inv [OF L4] by blast
    qed
  qed
qed

lemma same_load_program:
  "load_program n argv envp s = Some (x, s') \<Longrightarrow> same_objs c (sch s) \<Longrightarrow> same_objs c (sch s')"
  unfolding load_program_def Let_def
  by (auto split: prod.splits if_splits option.splits intro!: same_intros)

lemma same_drop_addrspace: "same_objs c (sch s) \<Longrightarrow> same_objs c (sch (drop_addrspace dir s))"
  by (auto simp: drop_addrspace_def intro: same_intros)

lemma same_enter_program: "enter_program t x s = (r, s') \<Longrightarrow> same_objs c (sch s) \<Longrightarrow> same_objs c (sch s')"
  by (auto simp: enter_program_def Let_def intro!: same_intros same_modify_task same_drop_addrspace split: prod.splits)

lemma keeps_execve [keeps_intros]: "keeps sys_execve_impl"
proof (rule keeps_same)
  fix tf s r s'
  assume "sys_execve_impl tf s = Some (r, s')"
  then show "same_objs (sch s) (sch s')"
    unfolding sys_execve_impl_def Let_def
    by (auto split: option.splits prod.splits if_splits intro: same_objs_refl same_load_program [OF _ same_objs_refl]
        same_enter_program [OF _ same_load_program [OF _ same_objs_refl]])
qed

section \<open>Calls that wait\<close>

text \<open>What the other tasks do while a call waits keeps the invariant as well.\<close>

definition others_keep :: "(nat \<Rightarrow> sys \<Rightarrow> sys) \<Rightarrow> bool" where
  "others_keep others \<longleftrightarrow> (\<forall>i s L. sys_inv (sch s) L \<longrightarrow> (\<exists>L'. sys_inv (sch (others i s)) L'))"

lemma others_keepD:
  assumes "others_keep others" and "\<exists>L. sys_inv (sch s) L"
  shows "\<exists>L. sys_inv (sch (others i s)) L"
  using assms unfolding others_keep_def by blast

lemma wait_scan_live:
  assumes "\<forall>i\<in>set is. i < MAX_TASKS" and "length (tasks c) = MAX_TASKS" and "snd (wait_scan is par c) \<noteq> 0"
  shows "snd (wait_scan is par c) \<in> live_tasks c"
  using assms
proof (induction "is")
  case (Cons i "is")
  have "sched_find_slot (int i) c = tasks c ! i" "tasks c ! i \<in> set (tasks c)"
    using Cons.prems(1,2) by (auto simp: sched_find_slot_def)
  then show ?case
    using Cons by (auto simp: Let_def live_tasks_def)
qed simp

lemma sys_inv_reap_child:
  assumes inv: "sys_inv (sch s) L" and t: "t \<in> live_tasks (sch s)" and r: "reap_child par status t s = Some (x, s')"
  shows "\<exists>L'. sys_inv (sch s') L'"
proof -
  define c where "c = (if status \<noteq> 0
    then modify_mm (copy_word (addrspace (task_at (sch s) par)) status (wait_status (task_at (sch s) t))) (sch s) else sch s)"
  have s: "same_objs (sch s) c"
    by (auto simp: c_def intro: same_intros)
  have "sched_reap t c = Some (sch s')"
    using r by (auto simp: reap_child_def Let_def c_def [symmetric])
  then show ?thesis
    using sys_inv_reap [OF same_objs_inv [OF inv s]] t by (simp add: same_objs_simps [OF s])
qed

lemma sys_inv_wait_loop:
  assumes "wait_loop others i par status s = Some y" and "others_keep others" and "\<exists>L. sys_inv (sch s) L"
  shows "\<exists>L'. sys_inv (sch (snd y)) L'"
  using assms
proof (induction others i par status s y rule: wait_loop.raw_induct [rotated 1, consumes 1, case_names step])
  case (step loop others i par status s y)
  obtain L where L: "sys_inv (sch s) L"
    using step(4) by blast
  obtain have_child t where w: "wait_scan [0..<MAX_TASKS] par (sch s) = (have_child, t)"
    by (cases "wait_scan [0..<MAX_TASKS] par (sch s)")
  have live: "t \<noteq> 0 \<Longrightarrow> t \<in> live_tasks (sch s)"
    using wait_scan_live [of "[0..<MAX_TASKS]" "sch s" par] L w by (auto simp: sys_inv_def tables_ok_def)
  show ?case
  proof (cases "t \<noteq> 0 \<or> \<not> have_child")
    case True
    then show ?thesis
      using step(2,4) w sys_inv_reap_child [OF L live] by (cases y) (auto split: if_splits)
  next
    case False
    then obtain c where c: "sched_block (modify_task par (\<lambda>x. x\<lparr>waiting := True\<rparr>) (sch s)) = Some c"
      "loop others (i + 1) par status (others i (put_sched c s)) = Some y"
      using step(2) w by (auto split: option.splits)
    have "same_objs (sch s) c"
      by (rule same_block [OF c(1)]) (intro same_modify_task same_intros; simp)
    then have "\<exists>L. sys_inv (sch (put_sched c s)) L"
      using same_objs_inv [OF L] by auto
    then show ?thesis
      using step(1) [OF c(2) step(3)] others_keepD [OF step(3)] by blast
  qed
qed

lemma keeps_wait4:
  assumes "others_keep others"
  shows "keeps (sys_wait4_impl others)"
  using sys_inv_wait_loop [OF _ assms] unfolding keeps_def sys_wait4_impl_def by fastforce

lemma same_yield_inv:
  assumes "\<exists>L. sys_inv (sch s) L" and "sched_yield (sch s) = Some c"
  shows "\<exists>L. sys_inv (sch (put_sched c s)) L"
  using assms same_objs_inv [OF _ same_yield [OF assms(2) same_objs_refl]] by auto

lemma sys_inv_pipe:
  assumes "\<exists>L. sys_inv (sch s) L" and "readers p = readers (pipe_at (objs (sch s)) q)"
    and "writers p = writers (pipe_at (objs (sch s)) q)"
  shows "\<exists>L. sys_inv (sch (put_pipe q p s)) L"
  using assms same_objs_inv [OF _ same_pipe [OF assms(2,3) same_objs_refl]] by blast

lemma pipe_drain_ends: "pipe_drain n out p = (out', p') \<Longrightarrow> readers p' = readers p \<and> writers p' = writers p"
proof (induction n out p arbitrary: out' p' rule: pipe_drain.induct)
  case (1 n out p)
  then show ?case
    by (subst (asm) pipe_drain.simps) (auto simp: pipe_get_def Let_def split: if_splits)
qed

lemma pipe_fill_ends: "pipe_fill inp p = (rest, p') \<Longrightarrow> readers p' = readers p \<and> writers p' = writers p"
  by (induction inp p arbitrary: rest p' rule: pipe_fill.induct) (auto simp: pipe_put_def split: if_splits)

lemma sys_inv_pipe_read:
  assumes "pipe_read_task others i q count s = Some y" and "others_keep others" and "\<exists>L. sys_inv (sch s) L"
  shows "\<exists>L'. sys_inv (sch (snd y)) L'"
  using assms
proof (induction others i q count s y rule: pipe_read_task.raw_induct [rotated 1, consumes 1, case_names step])
  case (step loop others i q count s y)
  obtain out p where d: "pipe_drain count [] (pipe_at (objs (sch s)) q) = (out, p)"
    by (cases "pipe_drain count [] (pipe_at (objs (sch s)) q)")
  have inv: "\<exists>L. sys_inv (sch (put_pipe q p s)) L"
    using sys_inv_pipe [OF step(4)] pipe_drain_ends [OF d] by blast
  show ?case
  proof (cases "out \<noteq> [] \<or> writers p = 0")
    case True
    then have "snd y = put_pipe q p s"
      using step(2) d by (auto simp: Let_def split: if_splits)
    then show ?thesis
      using inv by simp
  next
    case False
    then obtain c where c: "sched_yield (sch (put_pipe q p s)) = Some c"
      "loop others (i + 1) q count (others i (put_sched c (put_pipe q p s))) = Some y"
      using step(2) d by (auto simp: Let_def simp del: sch_put split: option.splits)
    show ?thesis
      using step(1) [OF c(2) step(3) others_keepD [OF step(3) same_yield_inv [OF inv c(1)]]] .
  qed
qed

lemma sys_inv_pipe_write:
  assumes "pipe_write_task others i n inp q s = Some y" and "others_keep others" and "\<exists>L. sys_inv (sch s) L"
  shows "\<exists>L'. sys_inv (sch (snd y)) L'"
  using assms
proof (induction others i n inp q s y rule: pipe_write_task.raw_induct [rotated 1, consumes 1, case_names step])
  case (step loop others i n inp q s y)
  obtain rest p where d: "pipe_fill inp (pipe_at (objs (sch s)) q) = (rest, p)"
    by (cases "pipe_fill inp (pipe_at (objs (sch s)) q)")
  have inv: "\<exists>L. sys_inv (sch (put_pipe q p s)) L"
    using sys_inv_pipe [OF step(4)] pipe_fill_ends [OF d] by blast
  show ?case
  proof (cases "inp = [] \<or> readers (pipe_at (objs (sch s)) q) = 0 \<or> rest = []")
    case True
    then have "snd y = s \<or> snd y = put_pipe q p s"
      using step(2) d by (auto simp: Let_def split: if_splits)
    then show ?thesis
      using inv step(4) by auto
  next
    case False
    then obtain c where c: "sched_yield (sch (put_pipe q p s)) = Some c"
      "loop others (i + 1) (n + (length inp - length rest)) rest q (others i (put_sched c (put_pipe q p s))) = Some y"
      using step(2) d by (auto simp: Let_def simp del: sch_put split: option.splits)
    show ?thesis
      using step(1) [OF c(2) step(3) others_keepD [OF step(3) same_yield_inv [OF inv c(1)]]] .
  qed
qed

lemma sys_inv_console_read:
  assumes "console_read others i t buf count got s = Some y" and "others_keep others" and "\<exists>L. sys_inv (sch s) L"
  shows "\<exists>L'. sys_inv (sch (snd y)) L'"
  using assms
proof (induction others i t buf count got s y rule: console_read.raw_induct [rotated 1, consumes 1, case_names step])
  case (step loop others i t buf count got s y)
  obtain ch k where g: "keyboard_getchar (kb s) = (ch, k)"
    by (cases "keyboard_getchar (kb s)")
  show ?case
  proof (cases "got < count")
    case False
    then have "snd y = s"
      using step(2) by auto
    then show ?thesis
      using step(4) by simp
  next
    case True
    show ?thesis
    proof (cases "ch < 0")
      case neg: True
      then obtain c where c: "sched_yield (sch s) = Some c" "loop others (i + 1) t buf count got (others i (put_sched c s)) = Some y"
        using step(2) True g by (auto split: option.splits)
      show ?thesis
        using step(1) [OF c(2) step(3) others_keepD [OF step(3) same_yield_inv [OF step(4) c(1)]]] .
    next
      case False
      let ?s = "s\<lparr>kb := k\<rparr>"
      obtain s1 s2 where s: "(if tty_echo (task_at (sch ?s) t)
          then map_option (\<lambda>d. ?s\<lparr>con := d\<rparr>) (console_putc (word_of_int ch) (con ?s)) else Some ?s) = Some s1"
        "store_to (buf + got) [word_of_int ch] s1 = Some s2"
        "(if tty_raw (task_at (sch s2) t) \<or> ch = 10 then Some (Return (sint (got + 1)), s2)
          else loop others i t buf count (got + 1) s2) = Some y"
        using step(2) True False g by (auto simp: Let_def simp del: sch_put split: option.splits)
      have "sch s1 = sch s"
        using s(1) same_getchar [OF g] by (auto split: if_splits)
      then have "same_objs (sch s) (sch s2)"
        using same_store [OF s(2)] same_objs_refl by metis
      then have inv: "\<exists>L. sys_inv (sch s2) L"
        using step(4) same_objs_inv by blast
      then show ?thesis
        using s(3) step(1) [OF _ step(3) inv] by (auto split: if_splits)
    qed
  qed
qed

lemma keeps_read:
  assumes "others_keep others"
  shows "keeps (sys_read others)"
proof (rule keepsI)
  fix tf s r s' L
  assume A: "sys_inv (sch s) L" "current (sch s) \<in> live_tasks (sch s)" "sys_read others tf s = Some (r, s')"
  then have inv: "\<exists>L. sys_inv (sch s) L"
    by blast
  let ?f = "fd_file (sint (tf_ebx tf)) (curtask s)"
  show "\<exists>L'. sys_inv (sch s') L'"
  proof (cases "bad_fd (sint (tf_ebx tf)) (curtask s)")
    case False
    show ?thesis
    proof (cases "ftype (get_filp ?f s)")
      case FT_CONS
      then show ?thesis
        using A(3) False sys_inv_console_read [OF _ assms inv] by (fastforce simp: sys_read_def Let_def)
    next
      case FT_PIPE
      show ?thesis
      proof (cases "pipe_end (get_filp ?f s) \<noteq> 0")
        case True
        then show ?thesis
          using A False FT_PIPE by (auto simp: sys_read_def Let_def)
      next
        case e: False
        obtain out s1 where s1: "pipe_read_task others 0 (pipe_ptr (get_filp ?f s)) (tf_edx tf) s = Some (out, s1)"
          "store_to (tf_ecx tf) out s1 = Some s'"
          using A(3) False FT_PIPE e by (auto simp: sys_read_def Let_def split: option.splits)
        obtain L1 where "sys_inv (sch s1) L1"
          using sys_inv_pipe_read [OF s1(1) assms inv] by auto
        then show ?thesis
          using same_objs_inv [OF _ same_store [OF s1(2) same_objs_refl]] by blast
      qed
    next
      case FT_INODE
      obtain n out s1 where n: "minixfs_read (ino (get_filp ?f s)) (tf_edx tf) (word_of_int (offset (get_filp ?f s))) (vfs s) = (n, out)"
        "store_to (tf_ecx tf) out s = Some s1" "s' = (if n > 0 then modify_filp ?f (\<lambda>x. x\<lparr>offset := off_t (offset x + n)\<rparr>) s1 else s1)"
        using A(3) False FT_INODE by (auto simp: sys_read_def Let_def split: option.splits prod.splits)
      have "same_objs (sch s) (sch s1)"
        by (rule same_store [OF n(2) same_objs_refl])
      then have "same_objs (sch s) (sch s')"
        using n(3) same_filp [of "\<lambda>x. x\<lparr>offset := off_t (offset x + n)\<rparr>" s1 ?f "sch s"] by (auto simp: filp_core_def simp del: sch_put)
      then show ?thesis
        using same_objs_inv [OF A(1)] by blast
    qed (use A False in \<open>auto simp: sys_read_def Let_def\<close>)
  qed (use A in \<open>auto simp: sys_read_def Let_def\<close>)
qed

lemma keeps_write:
  assumes "others_keep others"
  shows "keeps (sys_write others)"
proof (rule keepsI)
  fix tf s r s' L
  assume A: "sys_inv (sch s) L" "current (sch s) \<in> live_tasks (sch s)" "sys_write others tf s = Some (r, s')"
  then have inv: "\<exists>L. sys_inv (sch s) L"
    by blast
  let ?f = "fd_file (sint (tf_ebx tf)) (curtask s)"
  show "\<exists>L'. sys_inv (sch s') L'"
  proof (cases "bad_fd (sint (tf_ebx tf)) (curtask s)")
    case False
    show ?thesis
    proof (cases "ftype (get_filp ?f s)")
      case FT_CONS
      then show ?thesis
        using A False by (auto simp: sys_write_def Let_def split: if_splits)
    next
      case FT_PIPE
      then show ?thesis
        using A(1,3) False sys_inv_pipe_write [OF _ assms inv]
        by (fastforce simp: sys_write_def Let_def split: if_splits option.splits)
    next
      case FT_INODE
      obtain n v where "s' = s\<lparr>vfs := v\<rparr> \<or> s' = modify_filp ?f (\<lambda>x. x\<lparr>offset := off_t (offset x + n)\<rparr>) (s\<lparr>vfs := v\<rparr>)"
        using A(3) False FT_INODE by (auto simp: sys_write_def Let_def split: if_splits prod.splits)
      then have "same_objs (sch s) (sch s')"
        using same_filp [of "\<lambda>x. x\<lparr>offset := off_t (offset x + n)\<rparr>" "s\<lparr>vfs := v\<rparr>" ?f "sch s"]
        by (auto simp: filp_core_def same_objs_refl simp del: sch_put)
      then show ?thesis
        using same_objs_inv [OF A(1)] by blast
    qed (use A False in \<open>auto simp: sys_write_def Let_def\<close>)
  qed (use A in \<open>auto simp: sys_write_def Let_def\<close>)
qed

section \<open>Properties\<close>

lemma dispatch_cases:
  assumes "dispatch others tf s = Some (r, s')" and "others_keep others"
  obtains h where "keeps h" "h tf s = Some (r, s')"
proof -
  note K = keeps_intros keeps_read [OF assms(2)] keeps_write [OF assms(2)] keeps_wait4 [OF assms(2)]
  show thesis
    using assms(1) that unfolding dispatch_def by (auto split: option.splits if_splits intro: K)
qed

text \<open>The keyboard interrupt can only turn tasks into zombies.\<close>

lemma same_kill_children: "same_objs c d \<Longrightarrow> same_objs c (snd (kill_children is owner d))"
proof (induction "is" arbitrary: d)
  case (Cons i "is")
  have "same_objs c (sched_wakeup_parent t (modify_task t (\<lambda>x. x\<lparr>exit_code := 130, tstate := TASK_ZOMBIE\<rparr>) d))" for t
    by (intro same_intros same_modify_task Cons.prems) simp_all
  then show ?case
    using Cons by (auto simp: Let_def split_beta)
qed simp

lemma same_enqueue: "same_objs c (ksched k) \<Longrightarrow> same_objs c (ksched (keyboard_enqueue ch k))"
  using same_kill_children [of c "ksched k"]
  by (auto simp: keyboard_enqueue_def interrupt_foreground_def kbd_store_def Let_def split_beta)

lemma if_same:
  assumes "b \<Longrightarrow> same_objs c (ksched x)" and "\<not> b \<Longrightarrow> same_objs c (ksched y)"
  shows "same_objs c (ksched (if b then x else y))"
  using assms by simp

lemma same_kbd_handler: "same_objs c (ksched k) \<Longrightarrow> same_objs c (ksched (kbd_handler sc k))"
  unfolding kbd_handler_def Let_def enqueue_escape_def
  by (intro if_same same_enqueue) simp_all

text \<open>
  A step of the kernel: a system call of a task in the table, a page fault of one, a timer tick, or a key. While
  a call waits, the kernel takes any number of further steps.
\<close>

inductive kernel_step :: "sys \<Rightarrow> sys \<Rightarrow> bool" where
  system_call: "current (sch s) \<in> live_tasks (sch s) \<Longrightarrow> (\<And>i s. kernel_step\<^sup>*\<^sup>* s (others i s)) \<Longrightarrow>
    dispatch others tf s = Some (r, s') \<Longrightarrow> kernel_step s s'"
| page_fault: "current (sch s) \<in> live_tasks (sch s) \<Longrightarrow> proc_page_fault tf addr s = Some s' \<Longrightarrow> kernel_step s s'"
| tick: "sched_tick (sch s) = Some c \<Longrightarrow> kernel_step s (put_sched c s)"
| key: "kernel_step s (s\<lparr>kb := kbd_handler sc (kb s)\<rparr>)"

inductive_cases kernel_stepE: "kernel_step s s'"

lemma kernel_step_inv:
  assumes "kernel_step s s'" and "\<exists>L. sys_inv (sch s) L"
  shows "\<exists>L. sys_inv (sch s') L"
  using assms
proof (induction rule: kernel_step.induct)
  case (system_call s others tf r s')
  have "\<exists>L. sys_inv (sch (others i u)) L" if "\<exists>L. sys_inv (sch u) L" for i u
    using system_call.IH [of u i] that by (induction rule: rtranclp_induct) auto
  then have "others_keep others"
    unfolding others_keep_def by blast
  then obtain h where "keeps h" "h tf s = Some (r, s')"
    using dispatch_cases [OF system_call.hyps(2)] by blast
  then show ?case
    using keepsD system_call.hyps(1) system_call.prems by blast
next
  case (page_fault s tf addr s')
  then obtain c where "sched_exit 139 (sch s) = Some c" "sch s' = c"
    by (auto simp: proc_page_fault_def split: if_splits option.splits)
  then show ?case
    using sys_inv_exit page_fault by blast
next
  case (tick s c)
  then show ?case
    using same_objs_inv [OF _ same_tick [OF tick.hyps same_objs_refl]] by auto
next
  case (key s sc)
  then show ?case
    using same_objs_inv [OF _ same_kbd_handler [of "sch s" "kb s" sc]] by (auto simp: sch_def same_objs_refl)
qed


text \<open>A system with one process, whose descriptor 0 is the console; it duplicates the descriptor.\<close>

definition one_sched :: sched where
  "one_sched = \<lparr>tasks = 0x2000048 # replicate 63 0, current = 0x2000048, task_list = 0x2000048, next_pid = 2,
     started = True, idle_task = 0x100, idle_stack = 0x200, context_trampoline = 0,
     task_at = (\<lambda>_. zero_task\<lparr>pid := 1, tstate := TASK_RUNNING, tnext := 0x2000048,
        tfiles := 0x2000014 # replicate 31 0, cwd := slash # replicate 255 0\<rparr>),
     objs = \<lparr>heap_of = two_block_heap, filp_at = (\<lambda>_. zero_filp\<lparr>ftype := FT_CONS, refcount := 1\<rparr>), pipe_at = (\<lambda>_. zero_pipe)\<rparr>,
     kstacks = (\<lambda>_. 0), esp = 0, tss_esp0 = 0\<rparr>"

definition no_fs :: fs where
  "no_fs = \<lparr>sb = decode_superblock (replicate 32 0), imap_start = 0, zmap_start = 0, inode_start = 0, data_start = 0,
     mounted = False, dsk = \<lparr>sector = (\<lambda>_. replicate 512 0), bad = (\<lambda>_. False)\<rparr>, junk = replicate 1024 0\<rparr>"

definition one_sys :: sys where
  "one_sys = \<lparr>kb = quiet_kbd one_sched, vfs = no_fs, con = blank_screen, path_junk = replicate 256 0,
     arg_junk = replicate 2048 0, proc_bounce_entry = 0, proc_fork_return = 0\<rparr>"

definition zero_frame :: trapframe where
  "zero_frame = \<lparr>tf_gs = 0, tf_fs = 0, tf_es = 0, tf_ds = 0, tf_edi = 0, tf_esi = 0, tf_ebp = 0, tf_esp_dummy = 0, tf_ebx = 0,
     tf_edx = 0, tf_ecx = 0, tf_eax = 0, tf_int_no = 144, tf_err_code = 0, tf_eip = 0, tf_cs = 0x1B, tf_eflags = 0x202,
     tf_useresp = 0, tf_ss = 0x23\<rparr>"

lemma one_sys_simps [simp]:
  "sch one_sys = one_sched" "tasks one_sched = 0x2000048 # replicate 63 0" "current one_sched = 0x2000048"
  "live_tasks one_sched = {0x2000048}" "heap_of (objs one_sched) = two_block_heap"
  "tfiles (task_at one_sched t) = 0x2000014 # replicate 31 0" "kstack (task_at one_sched t) = 0"
  "filp_at (objs one_sched) f = zero_filp\<lparr>ftype := FT_CONS, refcount := 1\<rparr>"
  by (auto simp: sch_def one_sys_def quiet_kbd_def one_sched_def live_tasks_def zero_task_def)

lemma one_sys_inv: "sys_inv (sch one_sys) (alloc_map two_block_heap [0x2000000, 0x2000034])"
proof -
  let ?L = "alloc_map two_block_heap [0x2000000, 0x2000034]"
  have slot: "fd_slot one_sched = [(0x2000048, 0) \<mapsto> 0x2000014]"
    by (auto simp: fd_slot_def fun_eq_iff MAX_FILES_def nth_Cons split: nat.splits)
  have "task_blocks one_sched = {0x2000048}"
    by (auto simp: task_blocks_def stack_of_def)
  moreover have "refs [(0x2000048, 0) \<mapsto> 0x2000014] 0x2000014 = {(0x2000048 :: u32, 0 :: nat)}"
    by (auto simp: refs_def split: if_splits)
  ultimately have "obj_ok (fd_slot one_sched) (objs one_sched) ?L (task_blocks one_sched)"
    using two_block_heap_rep by (simp add: obj_ok_def filp_ok_def slot dom_def zero_filp_def)
  moreover have "tables_ok one_sched"
    by (simp add: tables_ok_def stack_of_def MAX_FILES_def MAX_TASKS_def)
  ultimately show ?thesis
    by (simp add: sys_inv_def)
qed


end
