(* ===== verification/SysPath.thy ===== *)
theory SysPath
  imports Syscall
begin

text \<open>
  Paths of system calls: \<^verbatim>\<open>build_path\<close> turns the path of a process into an absolute one in a buffer of
  256 bytes.
\<close>

text \<open>The path a name stands for in a directory.\<close>

definition joined :: "bytes \<Rightarrow> bytes \<Rightarrow> bytes" where
  "joined dir path = (if path \<noteq> [] \<and> hd path = slash then path
     else dir @ (if dir = [] \<or> last dir \<noteq> slash then [slash] else []) @ path)"

text \<open>A name in a directory whose path fills the buffer.\<close>

definition no_room :: "bytes \<Rightarrow> bytes \<Rightarrow> bool" where
  "no_room dir path \<longleftrightarrow> length dir = 255 \<and> last dir \<noteq> slash \<and> \<not> (path \<noteq> [] \<and> hd path = slash)"

lemma slash_nz [simp]: "slash \<noteq> 0"
  by (simp add: slash_def)

lemma cstr_replicate: "cstr (replicate n 0) = []"
  by (cases n) simp_all

lemma take_cstr_nz: "0 \<notin> set (take n (cstr b))"
  by (meson in_set_takeD zero_notin_cstr)

lemma cstr_pad:
  assumes "0 \<notin> set xs" and "length b = 256" and "b = xs @ replicate k 0 @ r" and "length xs + k = 255"
  shows "cstr (b[255 := 0]) = xs" and "terminated (b[255 := 0])"
proof -
  have "length r = 1"
    using assms(2-4) by simp
  then obtain x where "r = [x]"
    by (cases r) auto
  moreover have "\<not> 255 < length xs"
    using assms(4) by linarith
  ultimately have e: "b[255 := 0] = xs @ 0 # replicate k 0"
    using assms(3) arg_cong [OF assms(4), of "\<lambda>n. n - length xs"]
    by (simp add: list_update_append flip: replicate_append_same)
  show "cstr (b[255 := 0]) = xs"
    unfolding e using assms(1) by (rule cstr_no_zero)
  show "terminated (b[255 := 0])"
    unfolding e by (simp add: terminated_def)
qed

text \<open>The string \<^verbatim>\<open>strncpy\<close> leaves after a prefix that is already in the buffer.\<close>

lemma strncpy_after:
  assumes "0 \<notin> set pre" and "length pre \<le> 255" and "length pre + length d = 256"
    and "255 \<le> length path \<or> terminated path"
  shows "\<exists>d'. strncpy d path (255 - length pre) = Some d' \<and> length (pre @ d') = 256
    \<and> cstr ((pre @ d')[255 := 0]) = take 255 (pre @ cstr path) \<and> terminated ((pre @ d')[255 := 0])"
proof -
  let ?n = "255 - length pre"
  let ?d = "take ?n (cstr path) @ replicate (?n - length (cstr path)) 0 @ drop ?n d"
  have "strncpy d path ?n = Some ?d"
    using assms(2-4) by (intro strncpy_eq) auto
  moreover have l: "length (pre @ ?d) = 256"
    using assms(2,3) by auto
  moreover have "0 \<notin> set (pre @ take ?n (cstr path))"
    using assms(1) take_cstr_nz by auto
  from cstr_pad [OF this l, of "?n - length (cstr path)" "drop ?n d"]
  have "cstr ((pre @ ?d)[255 := 0]) = take 255 (pre @ cstr path)" "terminated ((pre @ ?d)[255 := 0])"
    using assms(2) by (simp_all add: min_def)
  ultimately show ?thesis
    by blast
qed

lemma unat_room: "l \<le> 255 \<Longrightarrow> unat (255 - of_nat l :: u32) = 255 - l"
  by (subst unat_sub) (auto simp: word_le_nat_alt unat_of_nat)

text \<open>Joining with the working directory, before the last byte of the buffer is cleared.\<close>

lemma join_cwd_joins:
  assumes "terminated dir" and "length (cstr dir) \<le> 255" and "length out = 256" and "255 \<le> length path \<or> terminated path"
  shows "if length (cstr dir) = 255 \<and> last (cstr dir) \<noteq> slash then join_cwd dir path out = None
    else \<exists>full. join_cwd dir path out = Some full \<and> length full = 256 \<and> terminated (full[255 := 0])
      \<and> cstr (full[255 := 0]) = take 255 (cstr dir @ (if cstr dir = [] \<or> last (cstr dir) \<noteq> slash then [slash] else []) @ cstr path)"
proof -
  let ?d = "cstr dir" let ?l = "length ?d"
  define full where "full = ?d @ 0 # drop (Suc ?l) out"
  have cp: "strcpy out dir = Some full"
    unfolding full_def using assms(1-3) by (intro strcpy_eq) auto
  have sl: "strlen full = Some ?l"
    by (simp add: strlen_eq full_def cstr_no_zero terminated_def)
  have lf: "length full = 256"
    using assms(2,3) by (simp add: full_def)
  have add: "(?l = 0 \<or> full ! (?l - 1) \<noteq> slash) \<longleftrightarrow> (?d = [] \<or> last ?d \<noteq> slash)"
    by (cases "?d = []") (auto simp: full_def nth_append last_conv_nth)
  show ?thesis
  proof (cases "?d = [] \<or> last ?d \<noteq> slash")
    case True
    show ?thesis
    proof (cases "?l = 255")
      case True
      then show ?thesis
        using \<open>?d = [] \<or> last ?d \<noteq> slash\<close> cp sl lf add by (auto simp: join_cwd_def)
    next
      case False
      then have l: "?l < 255"
        using assms(2) by simp
      have tk: "take (Suc ?l) (full[?l := slash, Suc ?l := 0]) = ?d @ [slash]"
        by (simp add: full_def list_update_append)
      obtain d' where "strncpy (drop (Suc ?l) (full[?l := slash, Suc ?l := 0])) path (255 - Suc ?l) = Some d'"
        "length (?d @ [slash] @ d') = 256" "cstr ((?d @ [slash] @ d')[255 := 0]) = take 255 (?d @ [slash] @ cstr path)"
        "terminated ((?d @ [slash] @ d')[255 := 0])"
        using strncpy_after [of "?d @ [slash]" "drop (Suc ?l) (full[?l := slash, Suc ?l := 0])" path] l lf assms(4)
        by auto
      then show ?thesis
        using True l cp sl lf add tk unat_room [of "Suc ?l"] by (simp add: join_cwd_def Let_def)
    qed
  next
    case False
    have "take ?l full = ?d"
      by (simp add: full_def)
    then show ?thesis
      using strncpy_after [of ?d "drop ?l full" path] False assms(2,4) cp sl lf add unat_room [of ?l]
      by (auto simp: join_cwd_def Let_def)
  qed
qed



end
