(* ===== verification/AddrSpace.thy ===== *)
theory AddrSpace
  imports Paging
begin

text \<open>
  Copying an address space: \<^verbatim>\<open>hal_addrspace_clone\<close>, the memory side of \<^verbatim>\<open>fork\<close>. The
  lemmas follow one page, one table and one directory; \<open>takes A D s s'\<close> says what a step may do to the rest
  of memory: it takes the frames \<open>A\<close> from the allocator and writes only to them and to the pages \<open>D\<close>.
\<close>

unbundle bit_operations_syntax

section \<open>Steps that take frames\<close>

definition frame_of :: "u32 \<Rightarrow> u32" where
  "frame_of e = e AND NOT 0xFFF"

definition same_page :: "mm \<Rightarrow> u32 \<Rightarrow> mm \<Rightarrow> u32 \<Rightarrow> bool" where
  "same_page s' f s g \<longleftrightarrow> (\<forall>k<4096. phys s' (f + of_nat k) = phys s (g + of_nat k))"

definition takes :: "u32 set \<Rightarrow> u32 set \<Rightarrow> mm \<Rightarrow> mm \<Rightarrow> bool" where
  "takes A D s s' \<longleftrightarrow> pmm_inv (frames_of s) \<and> pmm_inv (frames_of s')
     \<and> A \<subseteq> free_addrs (frames_of s) \<and> free_addrs (frames_of s') = free_addrs (frames_of s) - A
     \<and> (\<forall>d\<in>D. page_aligned d) \<and> kernel_dir s' = kernel_dir s
     \<and> (\<forall>x. (\<forall>q\<in>A \<union> D. x \<notin> span q 4096) \<longrightarrow> phys s' x = phys s x)"

lemma takesD:
  assumes "takes A D s s'"
  shows "pmm_inv (frames_of s)" "pmm_inv (frames_of s')" "A \<subseteq> free_addrs (frames_of s)"
    "free_addrs (frames_of s') = free_addrs (frames_of s) - A" "kernel_dir s' = kernel_dir s"
    "\<And>d. d \<in> D \<Longrightarrow> page_aligned d" "\<And>a. a \<in> A \<Longrightarrow> page_aligned a"
    "\<And>x. (\<And>q. q \<in> A \<union> D \<Longrightarrow> x \<notin> span q 4096) \<Longrightarrow> phys s' x = phys s x"
  using assms page_aligned_free unfolding takes_def by blast+

lemma takes_refl: "pmm_inv (frames_of s) \<Longrightarrow> \<forall>d\<in>D. page_aligned d \<Longrightarrow> takes {} D s s"
  by (simp add: takes_def)

lemma takes_trans:
  assumes "takes A D s s1" and "takes B E s1 s2" and "E \<subseteq> D \<union> A"
  shows "takes (A \<union> B) D s s2"
proof -
  note a = takesD [OF assms(1)] and b = takesD [OF assms(2)]
  have "phys s2 x = phys s x" if "\<forall>q\<in>A \<union> B \<union> D. x \<notin> span q 4096" for x
  proof -
    have "phys s2 x = phys s1 x"
      using that assms(3) by (intro b(8)) auto
    also have "\<dots> = phys s x"
      using that by (intro a(8)) auto
    finally show ?thesis .
  qed
  then show ?thesis
    unfolding takes_def using a b by auto
qed

lemma in_span_page: "page_aligned q \<Longrightarrow> k < 4096 \<Longrightarrow> q + of_nat k \<in> span q 4096"
  using unat_add_fits [OF page_aligned_fits, of q k] by (simp add: span_def)

lemma takes_same_page:
  assumes "takes A D s s'" and "page_aligned q" and "q \<notin> A" and "q \<notin> D"
  shows "same_page s' q s q"
  unfolding same_page_def
proof (intro allI impI)
  fix k :: nat
  assume "k < 4096"
  note t = takesD [OF assms(1)]
  have "q + of_nat k \<notin> span r 4096" if "r \<in> A \<union> D" for r
  proof -
    have "page_aligned r" "q \<noteq> r"
      using that t(6,7) assms(3,4) by auto
    then show ?thesis
      using span_pages_disjoint [OF assms(2)] in_span_page [OF assms(2) \<open>k < 4096\<close>] by blast
  qed
  then show "phys s' (q + of_nat k) = phys s (q + of_nat k)"
    by (rule t(8))
qed

lemma span_pageE:
  assumes "x \<in> span q 4096" and "page_aligned q"
  obtains k where "k < 4096" and "x = q + of_nat k"
proof
  show "unat x - unat q < 4096"
    using assms(1) by (auto simp: span_def)
  have "q \<le> x"
    using assms(1) by (simp add: span_def word_le_nat_alt)
  then show "x = q + of_nat (unat x - unat q)"
    by (simp add: unat_sub [symmetric])
qed

lemma same_page_entry:
  assumes "same_page s' q s q" and "page_aligned q" and "j < 1024"
  shows "entry s' q j = entry s q j"
  using assms by (intro entry_cong) (auto simp: same_page_def elim!: span_pageE)

lemma same_page_trans: "same_page s2 f s1 g \<Longrightarrow> same_page s1 g s h \<Longrightarrow> same_page s2 f s h"
  by (simp add: same_page_def)

lemma takes_entry:
  "takes A D s s' \<Longrightarrow> page_aligned q \<Longrightarrow> q \<notin> A \<Longrightarrow> q \<notin> D \<Longrightarrow> j < 1024 \<Longrightarrow> entry s' q j = entry s q j"
  using takes_same_page same_page_entry by blast

lemma takes_alloc:
  assumes "pmm_inv (frames_of s)" and "free_addrs (frames_of s) \<noteq> {}" and "alloc_frame s = (f, s1)"
  shows "f \<in> free_addrs (frames_of s)" and "page_aligned f" and "takes {f} {} s s1" and "phys s1 = phys s"
proof -
  obtain p where p: "pmm_alloc_frame (frames_of s) = (f, p)" and s1: "s1 = s\<lparr>frames_of := p\<rparr>"
    using assms(3) by (auto simp: alloc_frame_def split: prod.splits)
  note spec = frames.alloc_some [OF assms(1,2) p]
  show "f \<in> free_addrs (frames_of s)" "page_aligned f" "takes {f} {} s s1" "phys s1 = phys s"
    using spec page_aligned_free [OF assms(1)] assms(1) by (auto simp: takes_def s1)
qed

lemma takes_write:
  assumes "pmm_inv (frames_of s)" and "page_aligned d" and "\<And>x. x \<notin> span d 4096 \<Longrightarrow> m x = phys s x"
  shows "takes {} {d} s (s\<lparr>phys := m\<rparr>)"
  using assms by (auto simp: takes_def)

lemma takes_set_entry:
  assumes "pmm_inv (frames_of s)" and "page_aligned d" and "i < 1024"
  shows "takes {} {d} s (set_entry d i v s)"
  using assms set_entry_bytes [OF assms(2,3)] by (auto simp: takes_def)

lemma takes_clear_page:
  assumes "pmm_inv (frames_of s)" and "page_aligned d"
  shows "takes {} {d} s (clear_page d s)"
  using assms clear_page_bytes by (auto simp: takes_def)

section \<open>Entries of a copy\<close>

text \<open>An entry that copies another one: same flags, a frame of its own with the same bytes.\<close>

definition copied :: "u32 set \<Rightarrow> mm \<Rightarrow> u32 \<Rightarrow> mm \<Rightarrow> u32 \<Rightarrow> bool" where
  "copied A s' e' s e \<longleftrightarrow> e' AND 0xFFF = e AND 0xFFF \<and> frame_of e' \<in> A
     \<and> same_page s' (frame_of e') s (frame_of e)"

lemma frame_of_aligned [simp]: "page_aligned (frame_of e)"
  unfolding frame_of_def by (rule page_aligned_masked)

lemma frame_of_copy: "page_aligned f \<Longrightarrow> frame_of (f OR (e AND 0xFFF)) = f"
  unfolding frame_of_def ones_12 page_aligned_bits by (rule bit_word_eqI) (auto simp: bit_simps not_less)

lemma flags_of_copy: "page_aligned f \<Longrightarrow> (f OR (e AND 0xFFF)) AND 0xFFF = e AND 0xFFF"
  unfolding ones_12 page_aligned_bits by (rule bit_word_eqI) (auto simp: bit_simps)

lemma present_low: "present (e AND 0xFFF) = present e"
  unfolding present_bit ones_12 by (simp add: bit_simps)

lemma present_flags: "e' AND 0xFFF = e AND 0xFFF \<Longrightarrow> present e' = present e"
  using present_low [of e] present_low [of e'] by (simp only:)

lemma table_of_frame_of: "table_of s d i = frame_of (entry s d i)"
  by (simp only: table_of_def frame_of_def)

lemma same_page_copy:
  assumes "page_aligned f" and "page_aligned g" and "f \<noteq> g"
  shows "same_page (s\<lparr>phys := copy_bytes PAGE_SIZE f g (phys s)\<rparr>) f s g"
    and "x \<notin> span f 4096 \<Longrightarrow> copy_bytes PAGE_SIZE f g (phys s) x = phys s x"
  using copy_bytes_apply [OF page_aligned_fits [OF assms(1)] page_aligned_fits [OF assms(2)]
      span_pages_disjoint [OF assms]] in_span_page [OF assms(1)]
  by (simp_all add: same_page_def PAGE_SIZE_def)

section \<open>One table\<close>

definition clone_page :: "u32 \<Rightarrow> u32 \<Rightarrow> u32 \<Rightarrow> mm \<Rightarrow> mm" where
  "clone_page ti src_table dst_table s =
     (let src_frame = frame_of (entry s src_table ti);
          (dst_frame, s) = alloc_frame s;
          s = s\<lparr>phys := copy_bytes PAGE_SIZE dst_frame src_frame (phys s)\<rparr>
      in set_entry dst_table ti (dst_frame OR (entry s src_table ti AND 0xFFF)) s)"

lemma clone_table_Suc:
  "clone_table (Suc n) ti src dst s = clone_table n (ti + 1) src dst
     (if present (entry s src ti) then clone_page ti src dst s else s)"
  by (simp add: clone_page_def frame_of_def Let_def)

lemma clone_page_spec:
  assumes "pmm_inv (frames_of s)" and "free_addrs (frames_of s) \<noteq> {}"
    and "page_aligned src" and "page_aligned dst" and "src \<noteq> dst" and "ti < 1024"
    and "src \<notin> free_addrs (frames_of s)" and "dst \<notin> free_addrs (frames_of s)"
    and "frame_of (entry s src ti) \<notin> free_addrs (frames_of s)"
  obtains f where "f \<in> free_addrs (frames_of s)" "takes {f} {dst} s (clone_page ti src dst s)"
    and "entry (clone_page ti src dst s) dst ti = f OR (entry s src ti AND 0xFFF)"
    and "\<And>j. j < 1024 \<Longrightarrow> j \<noteq> ti \<Longrightarrow> entry (clone_page ti src dst s) dst j = entry s dst j"
    and "copied {f} (clone_page ti src dst s) (f OR (entry s src ti AND 0xFFF)) s (entry s src ti)"
proof -
  let ?g = "frame_of (entry s src ti)"
  obtain f s1 where al: "alloc_frame s = (f, s1)"
    by force
  note a = takes_alloc [OF assms(1,2) al]
  let ?s2 = "s1\<lparr>phys := copy_bytes PAGE_SIZE f ?g (phys s1)\<rparr>"
  have fne: "f \<noteq> src" "f \<noteq> dst" "f \<noteq> ?g"
    using a(1) assms(7-9) by auto
  have t2: "takes {} {f} s1 ?s2"
    using takesD(2) [OF a(3)] a(2) same_page_copy(2) [OF a(2) _ fne(3), of _ s1] by (intro takes_write) auto
  have e2: "entry ?s2 q j = entry s q j" if "page_aligned q" "q \<noteq> f" "j < 1024" for q j
    using takes_entry [OF t2, of q j] a(4) that by (simp add: entry_def)
  let ?v = "f OR (entry s src ti AND 0xFFF)"
  have s3: "clone_page ti src dst s = set_entry dst ti ?v ?s2"
    using e2 [of src ti] assms(3,6) fne by (simp add: clone_page_def al Let_def)
  have t3: "takes {} {dst} ?s2 (clone_page ti src dst s)"
    unfolding s3 using takesD(2) [OF t2] assms(4,6) by (intro takes_set_entry) auto
  have "takes {f} {dst} s (clone_page ti src dst s)"
  proof -
    have "takes {f} {} s ?s2"
      using takes_trans [OF a(3) t2] by simp
    then have "takes {f} {dst} s ?s2"
      using assms(4) by (simp add: takes_def)
    from takes_trans [OF this t3] show ?thesis
      by simp
  qed
  moreover have "entry (clone_page ti src dst s) dst ti = ?v"
    by (simp add: s3)
  moreover have "entry (clone_page ti src dst s) dst j = entry s dst j" if "j < 1024" "j \<noteq> ti" for j
    using that assms(4,6) e2 [of dst j] fne by (simp add: s3 entry_set_entry_other)
  moreover have "same_page (clone_page ti src dst s) f s ?g"
  proof -
    have "same_page ?s2 f s ?g"
      using same_page_copy(1) [OF a(2) _ fne(3), of s1] a(4) by (simp add: same_page_def)
    then show ?thesis
      using takes_same_page [OF t3 a(2)] fne by (auto intro: same_page_trans)
  qed
  then have "copied {f} (clone_page ti src dst s) ?v s (entry s src ti)"
    unfolding copied_def frame_of_copy [OF a(2)] flags_of_copy [OF a(2)] by simp
  ultimately show ?thesis
    using a(1) that by blast
qed

text \<open>The entries a loop over \<open>n\<close> entries from \<open>i\<close> on visits.\<close>

definition between :: "u32 \<Rightarrow> nat \<Rightarrow> u32 \<Rightarrow> bool" where
  "between i n j \<longleftrightarrow> unat i \<le> unat j \<and> unat j < unat i + n"

lemma between_Suc:
  assumes "unat i + Suc n \<le> 1024"
  shows "between i (Suc n) j \<longleftrightarrow> j = i \<or> between (i + 1) n j" and "\<not> between (i + 1) n i" and "i < 1024"
    and "unat (i + 1) + n \<le> 1024"
proof -
  have "unat (i + 1) = unat i + 1"
    using assms by (simp add: unat_word_ariths)
  then show "between i (Suc n) j \<longleftrightarrow> j = i \<or> between (i + 1) n j" "\<not> between (i + 1) n i" "i < 1024"
    "unat (i + 1) + n \<le> 1024"
    using assms by (auto simp: between_def word_unat_eq_iff word_less_nat_alt)
qed

lemma between_less: "between i n j \<Longrightarrow> unat i + n \<le> 1024 \<Longrightarrow> j < 1024"
  by (simp add: between_def word_less_nat_alt)

text \<open>The frames a loop takes, at most.\<close>

fun table_need :: "nat \<Rightarrow> u32 \<Rightarrow> u32 \<Rightarrow> mm \<Rightarrow> nat" where
  "table_need 0 ti table s = 0"
| "table_need (Suc n) ti table s = (if present (entry s table ti) then 1 else 0) + table_need n (ti + 1) table s"

lemma table_need_cong:
  assumes "\<And>j. j < 1024 \<Longrightarrow> entry s' t j = entry s t j" and "unat ti + n \<le> 1024"
  shows "table_need n ti t s' = table_need n ti t s"
  using assms(2)
proof (induction n arbitrary: ti)
  case (Suc n)
  then show ?case
    using between_Suc [OF Suc.prems] assms(1) by simp
qed simp

text \<open>What a loop over a table has done: \<open>A\<close> are the frames it took.\<close>

definition table_cloned :: "nat \<Rightarrow> u32 \<Rightarrow> u32 \<Rightarrow> u32 \<Rightarrow> u32 set \<Rightarrow> mm \<Rightarrow> mm \<Rightarrow> bool" where
  "table_cloned n ti src dst A s s' \<longleftrightarrow> takes A {dst} s s' \<and> card A = table_need n ti src s
     \<and> (\<forall>j<1024. if between ti n j \<and> present (entry s src j) then copied A s' (entry s' dst j) s (entry s src j)
          else entry s' dst j = entry s dst j)
     \<and> (\<forall>j k. between ti n j \<longrightarrow> between ti n k \<longrightarrow> present (entry s src j) \<longrightarrow> present (entry s src k) \<longrightarrow>
          frame_of (entry s' dst j) = frame_of (entry s' dst k) \<longrightarrow> j = k)"

text \<open>A table that can be copied to a page: neither lies in free memory, nor do the frames the table names.\<close>

definition table_ready :: "u32 \<Rightarrow> u32 \<Rightarrow> mm \<Rightarrow> bool" where
  "table_ready src dst s \<longleftrightarrow> pmm_inv (frames_of s) \<and> page_aligned src \<and> page_aligned dst \<and> src \<noteq> dst
     \<and> src \<notin> free_addrs (frames_of s) \<and> dst \<notin> free_addrs (frames_of s)
     \<and> (\<forall>j<1024. present (entry s src j) \<longrightarrow> frame_of (entry s src j) \<notin> insert dst (free_addrs (frames_of s)))"

lemma table_ready_step:
  assumes "table_ready src dst s" and "takes A {dst} s s1"
  shows "table_ready src dst s1" and "\<And>j. j < 1024 \<Longrightarrow> entry s1 src j = entry s src j"
proof -
  note t = takesD [OF assms(2)]
  have "src \<notin> A" "src \<noteq> dst" "page_aligned src"
    using assms(1) t(3) by (auto simp: table_ready_def)
  then show e: "entry s1 src j = entry s src j" if "j < 1024" for j
    using takes_entry [OF assms(2)] that by simp
  show "table_ready src dst s1"
    using assms(1) t(2,4) unfolding table_ready_def by (auto simp: e)
qed

lemma copied_later:
  assumes "copied A s1 e' s e" and "takes B D s1 s2" and "\<forall>a\<in>A. a \<notin> B \<and> a \<notin> D" and "A \<subseteq> C"
  shows "copied C s2 e' s e"
proof -
  have "same_page s2 (frame_of e') s1 (frame_of e')"
    using assms(1,3) by (intro takes_same_page [OF assms(2)]) (auto simp: copied_def)
  then show ?thesis
    using assms(1,4) by (auto simp: copied_def intro: same_page_trans)
qed

lemma copied_earlier:
  assumes "copied B s2 e' s1 e" and "takes A D s s1" and "frame_of e \<notin> A" and "frame_of e \<notin> D" and "B \<subseteq> C"
  shows "copied C s2 e' s e"
proof -
  have "same_page s1 (frame_of e) s (frame_of e)"
    using assms(3,4) by (intro takes_same_page [OF assms(2)]) auto
  then show ?thesis
    using assms(1,5) by (auto simp: copied_def intro: same_page_trans)
qed

lemma clone_table_join:
  assumes ready: "table_ready src dst s" and "unat ti + Suc n \<le> 1024" and pr: "present (entry s src ti)"
    and f: "f \<in> free_addrs (frames_of s)" "takes {f} {dst} s s1"
      "entry s1 dst ti = f OR (entry s src ti AND 0xFFF)"
      "\<And>j. j < 1024 \<Longrightarrow> j \<noteq> ti \<Longrightarrow> entry s1 dst j = entry s dst j"
      "copied {f} s1 (f OR (entry s src ti AND 0xFFF)) s (entry s src ti)"
    and A: "table_cloned n (ti + 1) src dst A s1 s2"
  shows "table_cloned (Suc n) ti src dst (insert f A) s s2"
proof -
  note r = ready [unfolded table_ready_def] and st = table_ready_step [OF ready f(2)]
  note b = between_Suc [OF assms(2)]
  have tA: "takes A {dst} s1 s2" and cA: "card A = table_need n (ti + 1) src s1"
    and eA: "\<And>j. j < 1024 \<Longrightarrow> between (ti + 1) n j \<and> present (entry s src j) \<Longrightarrow> copied A s2 (entry s2 dst j) s1 (entry s src j)"
    and oA: "\<And>j. j < 1024 \<Longrightarrow> \<not> (between (ti + 1) n j \<and> present (entry s src j)) \<Longrightarrow> entry s2 dst j = entry s1 dst j"
    and iA: "\<And>j k. between (ti + 1) n j \<Longrightarrow> between (ti + 1) n k \<Longrightarrow> j < 1024 \<Longrightarrow> k < 1024 \<Longrightarrow> present (entry s src j) \<Longrightarrow>
      present (entry s src k) \<Longrightarrow> frame_of (entry s2 dst j) = frame_of (entry s2 dst k) \<Longrightarrow> j = k"
    using A unfolding table_cloned_def by (auto simp: st(2))
  have fA: "f \<notin> A" and fd: "f \<noteq> dst"
    using takesD(3) [OF tA] takesD(4) [OF f(2)] f(1) r by auto
  have last: "entry s2 dst ti = f OR (entry s src ti AND 0xFFF)"
    using oA [OF b(3)] b(2) f(3) by simp
  then have fr: "frame_of (entry s2 dst ti) = f"
    using frame_of_copy takesD(7) [OF f(2)] by simp
  have first: "copied (insert f A) s2 (entry s2 dst ti) s (entry s src ti)"
    unfolding last using fA fd by (intro copied_later [OF f(5) tA]) auto
  have rest: "copied (insert f A) s2 (entry s2 dst j) s (entry s src j)"
    if "between (ti + 1) n j" "present (entry s src j)" "j < 1024" for j
    using eA that r f(1) by (intro copied_earlier [OF _ f(2), where B = A]) auto
  have inA: "frame_of (entry s2 dst j) \<in> A" if "between (ti + 1) n j" "present (entry s src j)" "j < 1024" for j
    using eA that by (simp add: copied_def)
  have "takes (insert f A) {dst} s s2"
    using takes_trans [OF f(2) tA] by simp
  moreover have "card (insert f A) = table_need (Suc n) ti src s"
    using fA cA pr finite_subset [OF takesD(3) [OF tA] frames.finite_frees] table_need_cong [OF st(2) b(4)] by simp
  moreover have "if between ti (Suc n) j \<and> present (entry s src j)
      then copied (insert f A) s2 (entry s2 dst j) s (entry s src j) else entry s2 dst j = entry s dst j"
    if "j < 1024" for j
    using that b(1) pr first rest oA [OF that] f(4) [OF that] by auto
  moreover have "j = k" if "between ti (Suc n) j" "between ti (Suc n) k" "present (entry s src j)"
    "present (entry s src k)" "frame_of (entry s2 dst j) = frame_of (entry s2 dst k)" for j k
    using that b(1) fr fA inA between_less [OF _ b(4)] iA by metis
  ultimately show ?thesis
    unfolding table_cloned_def by blast
qed

lemma clone_table_spec:
  assumes "table_ready src dst s" and "unat ti + n \<le> 1024"
    and "table_need n ti src s \<le> card (free_addrs (frames_of s))"
  shows "\<exists>A. table_cloned n ti src dst A s (clone_table n ti src dst s)"
  using assms
proof (induction n arbitrary: ti s)
  case 0
  then show ?case
    by (auto simp: table_cloned_def table_ready_def between_def intro!: exI [of _ "{}"] takes_refl)
next
  case (Suc n)
  note b = between_Suc [OF Suc.prems(2)]
  note r = Suc.prems(1) [unfolded table_ready_def]
  show ?case
  proof (cases "present (entry s src ti)")
    case False
    then obtain A where "table_cloned n (ti + 1) src dst A s (clone_table n (ti + 1) src dst s)"
      using Suc.IH [OF Suc.prems(1) b(4)] Suc.prems(3) by auto
    then show ?thesis
      unfolding clone_table_Suc using False b(1) by (auto simp: table_cloned_def)
  next
    case True
    let ?s1 = "clone_page ti src dst s"
    have fin: "finite (free_addrs (frames_of s))"
      by (rule frames.finite_frees)
    have "free_addrs (frames_of s) \<noteq> {}"
      using Suc.prems(3) True by auto
    then obtain f where f: "f \<in> free_addrs (frames_of s)" "takes {f} {dst} s ?s1"
      "entry ?s1 dst ti = f OR (entry s src ti AND 0xFFF)"
      "\<And>j. j < 1024 \<Longrightarrow> j \<noteq> ti \<Longrightarrow> entry ?s1 dst j = entry s dst j"
      "copied {f} ?s1 (f OR (entry s src ti AND 0xFFF)) s (entry s src ti)"
      using r b(3) True by (elim clone_page_spec [of s src dst ti, rotated -1]) auto
    note st = table_ready_step [OF Suc.prems(1) f(2)]
    have need: "table_need n (ti + 1) src ?s1 = table_need n (ti + 1) src s"
      using st(2) b(4) by (rule table_need_cong)
    have free1: "free_addrs (frames_of ?s1) = free_addrs (frames_of s) - {f}"
      using takesD(4) [OF f(2)] .
    have "table_need n (ti + 1) src ?s1 \<le> card (free_addrs (frames_of ?s1))"
      unfolding need free1 using Suc.prems(3) True f(1) fin by simp
    then obtain A where A: "table_cloned n (ti + 1) src dst A ?s1 (clone_table n (ti + 1) src dst ?s1)" (is "table_cloned _ _ _ _ _ _ ?s2")
      using Suc.IH [OF st(1) b(4)] by blast
    from clone_table_join [OF Suc.prems(1,2) True f A]
    show ?thesis
      unfolding clone_table_Suc using True by auto
  qed
qed

section \<open>One directory\<close>

definition clone_pde :: "u32 \<Rightarrow> u32 \<Rightarrow> u32 \<Rightarrow> mm \<Rightarrow> mm" where
  "clone_pde di src dst s =
     (let src_table = frame_of (entry s src di);
          (dst_table, s) = alloc_frame s;
          s = clear_page dst_table s;
          s = set_entry dst di (dst_table OR (entry s src di AND 0xFFF)) s
      in clone_table ENTRIES 0 src_table dst_table s)"

lemma clone_dir_Suc:
  "clone_dir (Suc n) di src dst s = clone_dir n (di + 1) src dst
     (if present (entry s src di) then clone_pde di src dst s else s)"
  by (simp add: clone_pde_def frame_of_def Let_def)

text \<open>A table that copies another one into the frames \<open>B\<close>.\<close>

definition table_copy :: "u32 \<Rightarrow> u32 set \<Rightarrow> mm \<Rightarrow> u32 \<Rightarrow> mm \<Rightarrow> bool" where
  "table_copy t B s' T s \<longleftrightarrow>
     (\<forall>j<1024. if present (entry s T j) then copied B s' (entry s' t j) s (entry s T j) else entry s' t j = 0)
     \<and> (\<forall>j<1024. \<forall>k<1024. present (entry s T j) \<longrightarrow> present (entry s T k) \<longrightarrow>
          frame_of (entry s' t j) = frame_of (entry s' t k) \<longrightarrow> j = k)"

lemma table_copy_later:
  assumes "table_copy t B s1 T s" and "takes C D s1 s2" and "page_aligned t" and "\<forall>a\<in>insert t B. a \<notin> C \<and> a \<notin> D"
  shows "table_copy t B s2 T s"
proof -
  have "entry s2 t j = entry s1 t j" if "j < 1024" for j
    using takes_entry [OF assms(2,3)] assms(4) that by simp
  moreover have "copied B s2 (entry s1 t j) s (entry s T j)" if "j < 1024" "present (entry s T j)" for j
    using assms(1,4) that by (intro copied_later [OF _ assms(2), where A = B]) (auto simp: table_copy_def)
  ultimately show ?thesis
    using assms(1) unfolding table_copy_def by simp
qed

lemma table_copy_earlier:
  assumes "table_copy t B s2 T s1" and "takes C D s s1" and "page_aligned T" and "T \<notin> C" and "T \<notin> D"
    and "\<And>j. j < 1024 \<Longrightarrow> present (entry s T j) \<Longrightarrow> frame_of (entry s T j) \<notin> C \<union> D"
  shows "table_copy t B s2 T s"
proof -
  have e: "entry s1 T j = entry s T j" if "j < 1024" for j
    using takes_entry [OF assms(2-5)] that by simp
  have "copied B s2 (entry s2 t j) s (entry s T j)" if "j < 1024" "present (entry s T j)" for j
    using assms(1) assms(6) [OF that] that e [OF that(1)]
    by (intro copied_earlier [OF _ assms(2), where B = B]) (auto simp: table_copy_def)
  then show ?thesis
    using assms(1) unfolding table_copy_def by (simp add: e)
qed

text \<open>A directory that can be copied: its user half lies outside free memory and the new directory.\<close>

definition dir_ready :: "u32 \<Rightarrow> u32 \<Rightarrow> mm \<Rightarrow> bool" where
  "dir_ready src dst s \<longleftrightarrow> pmm_inv (frames_of s) \<and> page_aligned src \<and> page_aligned dst \<and> src \<noteq> dst
     \<and> src \<notin> free_addrs (frames_of s) \<and> dst \<notin> free_addrs (frames_of s)
     \<and> (\<forall>i<1024. 256 \<le> i \<longrightarrow> present (entry s src i) \<longrightarrow>
          frame_of (entry s src i) \<notin> insert dst (free_addrs (frames_of s))
          \<and> (\<forall>j<1024. present (entry s (frame_of (entry s src i)) j) \<longrightarrow>
               frame_of (entry s (frame_of (entry s src i)) j) \<notin> insert dst (free_addrs (frames_of s))))"

lemma dir_readyD:
  assumes "dir_ready src dst s"
  shows "pmm_inv (frames_of s)" "page_aligned src" "page_aligned dst" "src \<noteq> dst"
    "src \<notin> free_addrs (frames_of s)" "dst \<notin> free_addrs (frames_of s)"
    "\<And>i. i < 1024 \<Longrightarrow> 256 \<le> i \<Longrightarrow> present (entry s src i) \<Longrightarrow> frame_of (entry s src i) \<noteq> dst"
    "\<And>i. i < 1024 \<Longrightarrow> 256 \<le> i \<Longrightarrow> present (entry s src i) \<Longrightarrow> frame_of (entry s src i) \<notin> free_addrs (frames_of s)"
    "\<And>i j. i < 1024 \<Longrightarrow> 256 \<le> i \<Longrightarrow> present (entry s src i) \<Longrightarrow> j < 1024 \<Longrightarrow> present (entry s (frame_of (entry s src i)) j)
      \<Longrightarrow> frame_of (entry s (frame_of (entry s src i)) j) \<notin> insert dst (free_addrs (frames_of s))"
  using assms unfolding dir_ready_def by blast+

lemma dir_ready_step:
  assumes "dir_ready src dst s" and "takes A {dst} s s1"
  shows "dir_ready src dst s1" and "\<And>j. j < 1024 \<Longrightarrow> entry s1 src j = entry s src j"
    and "\<And>i j. i < 1024 \<Longrightarrow> 256 \<le> i \<Longrightarrow> present (entry s src i) \<Longrightarrow> j < 1024 \<Longrightarrow>
      entry s1 (frame_of (entry s src i)) j = entry s (frame_of (entry s src i)) j"
proof -
  note t = takesD [OF assms(2)] and r = dir_readyD [OF assms(1)]
  show e: "entry s1 src j = entry s src j" if "j < 1024" for j
    using takes_entry [OF assms(2)] r(2,4,5) t(3) that by auto
  show e2: "entry s1 (frame_of (entry s src i)) j = entry s (frame_of (entry s src i)) j"
    if "i < 1024" "256 \<le> i" "present (entry s src i)" "j < 1024" for i j
    using r(7,8) [OF that(1-3)] t(3) that(4) by (intro takes_entry [OF assms(2)]) auto
  show "dir_ready src dst s1"
    using assms(1) t(2,4) unfolding dir_ready_def by (auto simp: e e2)
qed

lemma clone_pde_spec:
  assumes ready: "dir_ready src dst s" and "di < 1024" and "256 \<le> di" and pr: "present (entry s src di)"
    and need: "table_need 1024 0 (frame_of (entry s src di)) s < card (free_addrs (frames_of s))"
  obtains t B where "takes (insert t B) {dst} s (clone_pde di src dst s)"
    and "t \<in> free_addrs (frames_of s)" and "t \<notin> B"
    and "card B = table_need 1024 0 (frame_of (entry s src di)) s"
    and "entry (clone_pde di src dst s) dst di = t OR (entry s src di AND 0xFFF)"
    and "\<forall>j<1024. j \<noteq> di \<longrightarrow> entry (clone_pde di src dst s) dst j = entry s dst j"
    and "table_copy t B (clone_pde di src dst s) (frame_of (entry s src di)) s"
proof -
  let ?T = "frame_of (entry s src di)" let ?s' = "clone_pde di src dst s"
  note r = dir_readyD [OF ready]
  obtain t s1 where al: "alloc_frame s = (t, s1)"
    by force
  have ne: "free_addrs (frames_of s) \<noteq> {}"
    using need by auto
  note a = takes_alloc [OF r(1) ne al]
  have tne: "t \<noteq> src" "t \<noteq> dst" "t \<noteq> ?T"
    using a(1) r(5,6) r(8) [OF assms(2,3) pr] by auto
  let ?s2 = "clear_page t s1" let ?v = "t OR (entry s src di AND 0xFFF)"
  let ?s3 = "set_entry dst di ?v ?s2"
  have t2: "takes {} {t} s1 ?s2"
    using takesD(2) [OF a(3)] a(2) by (rule takes_clear_page)
  have t3: "takes {} {dst} ?s2 ?s3"
    using takesD(2) [OF t2] r(3) assms(2) by (rule takes_set_entry)
  have e1: "entry s1 q j = entry s q j" for q j
    using a(4) by (simp add: entry_def)
  have e3: "entry ?s3 q j = (if q = dst \<and> j = di then ?v else if q = t then 0 else entry s q j)"
    if "page_aligned q" "j < 1024" for q j
  proof (cases "q = dst \<and> j = di")
    case False
    then have "entry ?s3 q j = entry ?s2 q j"
      using that r(3) assms(2) by (intro entry_set_entry_other) auto
    then show ?thesis
      using that a(2) False by (auto simp: entry_clear_page e1)
  qed simp
  have tk3: "takes {t} {dst} s ?s3"
  proof -
    have "takes {t} {dst} s s1"
      using a(3) r(3) by (simp add: takes_def)
    from takes_trans [OF this t2] have "takes {t} {dst} s ?s2" by simp
    from takes_trans [OF this t3] show ?thesis by simp
  qed
  have s': "?s' = clone_table 1024 0 ?T t ?s3"
    using r(2) assms(2) a(2) tne(1) by (simp add: clone_pde_def al Let_def ENTRIES_def entry_clear_page e1)
  have T3: "entry ?s3 ?T j = entry s ?T j" if "j < 1024" for j
    using e3 [of ?T j] that tne(3) r(7) [OF assms(2,3) pr] by simp
  have rt: "table_ready ?T t ?s3"
    unfolding table_ready_def takesD(4) [OF tk3]
    using takesD(2) [OF tk3] a(1,2) tne(3) r(8) [OF assms(2,3) pr] r(9) [OF assms(2,3) pr] by (auto simp: T3)
  have n3: "table_need 1024 0 ?T ?s3 = table_need 1024 0 ?T s"
    using table_need_cong [of ?s3 ?T s 0 1024] T3 by simp
  have "table_need 1024 0 ?T ?s3 \<le> card (free_addrs (frames_of ?s3))"
    unfolding n3 takesD(4) [OF tk3] using need a(1) frames.finite_frees by simp
  then obtain B where B: "table_cloned 1024 0 ?T t B ?s3 ?s'"
    unfolding s' using clone_table_spec [OF rt, of 0 1024] by auto
  have tB: "takes B {t} ?s3 ?s'"
    using B by (simp add: table_cloned_def)
  have BF: "B \<subseteq> free_addrs (frames_of s) - {t}"
    using takesD(3) [OF tB] takesD(4) [OF tk3] by simp
  have all: "between 0 1024 j" if "j < 1024" for j
    using that by (simp add: between_def word_less_nat_alt)
  have "table_copy t B ?s' ?T ?s3"
    using B e3 [OF a(2)] tne(2) all unfolding table_cloned_def table_copy_def by auto
  then have "table_copy t B ?s' ?T s"
    using tne r(7) [OF assms(2,3) pr] r(9) [OF assms(2,3) pr] a(1)
    by (intro table_copy_earlier [OF _ tk3]) auto
  moreover have "takes (insert t B) {dst} s ?s'"
    using takes_trans [OF tk3 tB] by simp
  moreover have "entry ?s' dst j = entry ?s3 dst j" if "j < 1024" for j
    using that tne(2) BF r(6) r(3) by (intro takes_entry [OF tB]) auto
  ultimately show ?thesis
    using that [of t B] a(1) BF B n3 e3 [OF r(3)] assms(2) tne(2) by (auto simp: table_cloned_def)
qed

fun dir_need :: "nat \<Rightarrow> u32 \<Rightarrow> u32 \<Rightarrow> mm \<Rightarrow> nat" where
  "dir_need 0 di dir s = 0"
| "dir_need (Suc n) di dir s =
     (if present (entry s dir di) then 1 + table_need 1024 0 (frame_of (entry s dir di)) s else 0)
     + dir_need n (di + 1) dir s"

text \<open>The frames of the copy of one directory entry: its table and the pages \<open>B i\<close>.\<close>

definition pde_frames :: "(u32 \<Rightarrow> u32 set) \<Rightarrow> mm \<Rightarrow> u32 \<Rightarrow> u32 \<Rightarrow> u32 set" where
  "pde_frames B s dst i = insert (frame_of (entry s dst i)) (B i)"

definition pde_copy :: "u32 set \<Rightarrow> (u32 \<Rightarrow> u32 set) \<Rightarrow> u32 \<Rightarrow> u32 \<Rightarrow> mm \<Rightarrow> mm \<Rightarrow> u32 \<Rightarrow> bool" where
  "pde_copy A B src dst s s' i \<longleftrightarrow> entry s' dst i AND 0xFFF = entry s src i AND 0xFFF
     \<and> pde_frames B s' dst i \<subseteq> A \<and> frame_of (entry s' dst i) \<notin> B i
     \<and> table_copy (frame_of (entry s' dst i)) (B i) s' (frame_of (entry s src i)) s"

definition dir_cloned :: "nat \<Rightarrow> u32 \<Rightarrow> u32 \<Rightarrow> u32 \<Rightarrow> u32 set \<Rightarrow> (u32 \<Rightarrow> u32 set) \<Rightarrow> mm \<Rightarrow> mm \<Rightarrow> bool" where
  "dir_cloned n di src dst A B s s' \<longleftrightarrow> takes A {dst} s s'
     \<and> (\<forall>i<1024. if between di n i \<and> present (entry s src i) then pde_copy A B src dst s s' i
          else entry s' dst i = entry s dst i)
     \<and> (\<forall>i k. between di n i \<longrightarrow> between di n k \<longrightarrow> present (entry s src i) \<longrightarrow> present (entry s src k) \<longrightarrow>
          i \<noteq> k \<longrightarrow> pde_frames B s' dst i \<inter> pde_frames B s' dst k = {})"

lemma dir_need_cong:
  assumes "\<And>j. j < 1024 \<Longrightarrow> entry s1 src j = entry s src j"
    and "\<And>i j. i < 1024 \<Longrightarrow> 256 \<le> i \<Longrightarrow> present (entry s src i) \<Longrightarrow> j < 1024 \<Longrightarrow>
      entry s1 (frame_of (entry s src i)) j = entry s (frame_of (entry s src i)) j"
    and "unat di + n \<le> 1024" and "256 \<le> unat di"
  shows "dir_need n di src s1 = dir_need n di src s"
  using assms(3,4)
proof (induction n arbitrary: di)
  case (Suc n)
  note b = between_Suc [OF Suc.prems(1)]
  have "256 \<le> di" "256 \<le> unat (di + 1)"
    using Suc.prems by (simp_all add: word_le_nat_alt unat_word_ariths)
  then show ?case
    using Suc.IH [OF b(4)] assms(1) [OF b(3)] table_need_cong [of s1 "frame_of (entry s src di)" s 0 1024]
      assms(2) [OF b(3)] by simp
qed simp

lemma clone_dir_join:
  assumes ready: "dir_ready src dst s" and "unat di + Suc n \<le> 1024" and "256 \<le> di" and pr: "present (entry s src di)"
    and t: "takes (insert t C) {dst} s s1" "t \<in> free_addrs (frames_of s)" "t \<notin> C"
      "entry s1 dst di = t OR (entry s src di AND 0xFFF)"
      "\<forall>j<1024. j \<noteq> di \<longrightarrow> entry s1 dst j = entry s dst j"
      "table_copy t C s1 (frame_of (entry s src di)) s"
    and A: "dir_cloned n (di + 1) src dst A B s1 s2"
  shows "dir_cloned (Suc n) di src dst (insert t C \<union> A) (B(di := C)) s s2"
proof -
  let ?A = "insert t C \<union> A" let ?B = "B(di := C)"
  note r = dir_readyD [OF ready] and st = dir_ready_step [OF ready t(1)]
  note b = between_Suc [OF assms(2)]
  have tA: "takes A {dst} s1 s2"
    and eA: "\<And>i. i < 1024 \<Longrightarrow> between (di + 1) n i \<Longrightarrow> present (entry s src i) \<Longrightarrow> pde_copy A B src dst s1 s2 i"
    and oA: "\<And>i. i < 1024 \<Longrightarrow> \<not> (between (di + 1) n i \<and> present (entry s src i)) \<Longrightarrow> entry s2 dst i = entry s1 dst i"
    and iA: "\<And>i k. between (di + 1) n i \<Longrightarrow> between (di + 1) n k \<Longrightarrow> i < 1024 \<Longrightarrow> k < 1024 \<Longrightarrow> present (entry s src i) \<Longrightarrow>
      present (entry s src k) \<Longrightarrow> i \<noteq> k \<Longrightarrow> pde_frames B s2 dst i \<inter> pde_frames B s2 dst k = {}"
    using A unfolding dir_cloned_def by (auto simp: st(2))
  have al: "page_aligned t"
    using takesD(7) [OF t(1)] by simp
  have CA: "insert t C \<inter> A = {}" and Cd: "dst \<notin> insert t C"
    using takesD(3) [OF tA] takesD(3,4) [OF t(1)] r(6) by auto
  have last: "entry s2 dst di = t OR (entry s src di AND 0xFFF)"
    using oA [OF b(3)] b(2) t(4) by simp
  then have fr: "frame_of (entry s2 dst di) = t"
    using frame_of_copy [OF al] by simp
  have "table_copy t C s2 (frame_of (entry s src di)) s"
    using CA Cd by (intro table_copy_later [OF t(6) tA al]) auto
  then have first: "pde_copy ?A ?B src dst s s2 di"
    unfolding pde_copy_def pde_frames_def fr using t(3) by (auto simp: last flags_of_copy [OF al])
  have ge: "256 \<le> i" if "between (di + 1) n i" for i
    using that assms(3) b(1) [of i] by (auto simp: between_def word_le_nat_alt)
  have rest: "pde_copy ?A ?B src dst s s2 i" if i: "between (di + 1) n i" "present (entry s src i)" "i < 1024" for i
  proof -
    have ne: "i \<noteq> di"
      using i(1) b(2) by auto
    have "table_copy (frame_of (entry s2 dst i)) (B i) s2 (frame_of (entry s src i)) s"
      using eA [OF i(3,1,2)] r(7,8) [OF i(3) ge [OF i(1)] i(2)] r(9) [OF i(3) ge [OF i(1)] i(2)] takesD(3) [OF t(1)]
      by (intro table_copy_earlier [OF _ t(1)]) (auto simp: pde_copy_def st(2) [OF i(3)])
    then show ?thesis
      using eA [OF i(3,1,2)] ne by (auto simp: pde_copy_def pde_frames_def st(2) [OF i(3)])
  qed
  have sub: "pde_frames ?B s2 dst i \<subseteq> A" "pde_frames ?B s2 dst i = pde_frames B s2 dst i"
    if i: "between (di + 1) n i" "present (entry s src i)" "i < 1024" for i
    using eA [OF i(3,1,2)] i(1) b(2) by (auto simp: pde_copy_def pde_frames_def)
  have own: "pde_frames ?B s2 dst di = insert t C"
    by (simp add: pde_frames_def fr)
  have "takes ?A {dst} s s2"
    using takes_trans [OF t(1) tA] by simp
  moreover have "if between di (Suc n) i \<and> present (entry s src i) then pde_copy ?A ?B src dst s s2 i
      else entry s2 dst i = entry s dst i" if "i < 1024" for i
    using that b(1) pr first rest oA [OF that] t(5) by auto
  moreover have "pde_frames ?B s2 dst i \<inter> pde_frames ?B s2 dst k = {}"
    if ik: "between di (Suc n) i" "between di (Suc n) k" "present (entry s src i)" "present (entry s src k)" "i \<noteq> k" for i k
  proof -
    have l: "i < 1024" "k < 1024"
      using ik(1,2) between_less [OF _ assms(2)] by simp_all
    consider "i = di" "between (di + 1) n k" | "k = di" "between (di + 1) n i"
      | "between (di + 1) n i" "between (di + 1) n k"
      using ik(1,2,5) unfolding b(1) by blast
    then show ?thesis
    proof cases
      case 1
      show ?thesis
        unfolding 1(1) own using sub(1) [OF 1(2) ik(4) l(2)] CA by blast
    next
      case 2
      show ?thesis
        unfolding 2(1) own using sub(1) [OF 2(2) ik(3) l(1)] CA by blast
    next
      case 3
      show ?thesis
        unfolding sub(2) [OF 3(1) ik(3) l(1)] sub(2) [OF 3(2) ik(4) l(2)]
        by (rule iA [OF 3 l ik(3-5)])
    qed
  qed
  ultimately show ?thesis
    unfolding dir_cloned_def by blast
qed

lemma clone_dir_spec:
  assumes "dir_ready src dst s" and "unat di + n \<le> 1024" and "256 \<le> unat di"
    and "dir_need n di src s \<le> card (free_addrs (frames_of s))"
  shows "\<exists>A B. dir_cloned n di src dst A B s (clone_dir n di src dst s)"
  using assms
proof (induction n arbitrary: di s)
  case 0
  then show ?case
    by (auto simp: dir_cloned_def dir_ready_def between_def intro!: exI [of _ "{}"] takes_refl)
next
  case (Suc n)
  note b = between_Suc [OF Suc.prems(2)]
  have ge: "256 \<le> di" "256 \<le> unat (di + 1)"
    using Suc.prems(2,3) by (simp_all add: word_le_nat_alt unat_word_ariths)
  show ?case
  proof (cases "present (entry s src di)")
    case False
    then obtain A B where "dir_cloned n (di + 1) src dst A B s (clone_dir n (di + 1) src dst s)"
      using Suc.IH [OF Suc.prems(1) b(4) ge(2)] Suc.prems(4) by auto
    then have "dir_cloned (Suc n) di src dst A B s (clone_dir n (di + 1) src dst s)"
      using False b(1) by (auto simp: dir_cloned_def)
    then show ?thesis
      unfolding clone_dir_Suc using False by auto
  next
    case True
    let ?s1 = "clone_pde di src dst s" let ?T = "frame_of (entry s src di)"
    have "table_need 1024 0 ?T s < card (free_addrs (frames_of s))"
      using Suc.prems(4) True by simp
    then obtain t C where t: "takes (insert t C) {dst} s ?s1" "t \<in> free_addrs (frames_of s)" "t \<notin> C"
      "card C = table_need 1024 0 ?T s" "entry ?s1 dst di = t OR (entry s src di AND 0xFFF)"
      "\<forall>j<1024. j \<noteq> di \<longrightarrow> entry ?s1 dst j = entry s dst j" "table_copy t C ?s1 ?T s"
      by (rule clone_pde_spec [OF Suc.prems(1) b(3) ge(1) True]) (rule that; assumption)
    have fin: "finite (insert t C)"
      using takesD(3) [OF t(1)] frames.finite_frees by (rule finite_subset)
    have dn: "dir_need n (di + 1) src ?s1 = dir_need n (di + 1) src s"
      using dir_ready_step(2,3) [OF Suc.prems(1) t(1)] b(4) ge(2) by (rule dir_need_cong)
    have "dir_need n (di + 1) src ?s1 \<le> card (free_addrs (frames_of ?s1))"
      unfolding dn takesD(4) [OF t(1)]
        card_Diff_subset [OF fin takesD(3) [OF t(1)]]
      using Suc.prems(4) True t(3,4) fin by simp
    then obtain A B where A: "dir_cloned n (di + 1) src dst A B ?s1 (clone_dir n (di + 1) src dst ?s1)"
      using Suc.IH [OF dir_ready_step(1) [OF Suc.prems(1) t(1)] b(4) ge(2)] by blast
    from clone_dir_join [OF Suc.prems(1,2) ge(1) True t(1-3,5-7) A]
    show ?thesis
      unfolding clone_dir_Suc using True by auto
  qed
qed

section \<open>The whole address space\<close>

text \<open>What a process reads at an address of its space, and a store of its own.\<close>

definition dir_byte :: "mm \<Rightarrow> u32 \<Rightarrow> u32 \<Rightarrow> u8 option" where
  "dir_byte s dir va =
     (if present (leaf s dir va) then Some (phys s (frame_of (leaf s dir va) OR (va AND 0xFFF))) else None)"

definition poke :: "u32 \<Rightarrow> u32 \<Rightarrow> u8 \<Rightarrow> mm \<Rightarrow> mm" where
  "poke dir va b s = s\<lparr>phys := (phys s)(frame_of (leaf s dir va) OR (va AND 0xFFF) := b)\<rparr>"

text \<open>The pages the user half of a directory maps are not free.\<close>

definition pages_used :: "mm \<Rightarrow> u32 \<Rightarrow> bool" where
  "pages_used s dir \<longleftrightarrow> (\<forall>i<1024. 256 \<le> i \<longrightarrow> present (entry s dir i) \<longrightarrow>
     (\<forall>j<1024. present (entry s (frame_of (entry s dir i)) j) \<longrightarrow>
        frame_of (entry s (frame_of (entry s dir i)) j) \<notin> free_addrs (frames_of s)))"

text \<open>The frames a copy takes: the directory, a table for every table and a page for every page.\<close>

definition clone_need :: "mm \<Rightarrow> u32 \<Rightarrow> nat" where
  "clone_need s dir = 1 + dir_need 768 256 dir s"

lemma pd_index_user: "256 \<le> pd_index va \<longleftrightarrow> USER_BASE \<le> va"
proof -
  have "unat (pd_index va) = unat va div 4194304"
    using unat_and_mask [of "drop_bit 22 va" 10] unat_less_32 [of va]
    by (simp add: pd_index_def mask_eq_exp_minus_1 unat_drop_bit_eq drop_bit_eq_div word_nat)
  then show ?thesis
    by (simp add: word_le_nat_alt USER_BASE_def less_eq_div_iff_mult_less_eq)
qed

lemma copy_pdes_takes:
  assumes "pmm_inv (frames_of s)" and "page_aligned dir" and "unat i + n \<le> 1024"
  shows "takes {} {dir} s (copy_pdes n i dir s)"
  using assms
proof (induction n i dir s rule: copy_pdes.induct)
  case (2 n i dir s)
  note b = between_Suc [OF "2.prems"(3)]
  let ?s1 = "set_entry dir i (entry s (kernel_dir s) i) s"
  have "takes {} {dir} s ?s1"
    using "2.prems"(1,2) b(3) by (rule takes_set_entry)
  from takes_trans [OF this, of "{}" "{dir}"] show ?case
    using "2.IH" "2.prems"(1,2) b(4) by simp
qed (simp add: takes_refl)

lemma create_takes:
  assumes "pmm_inv (frames_of s)" and "free_addrs (frames_of s) \<noteq> {}" and "0 \<notin> free_addrs (frames_of s)"
    and "hal_addrspace_create s = (dir, s')"
  shows "takes {dir} {} s s'"
proof -
  obtain a s1 where al: "alloc_frame s = (a, s1)"
    by force
  note t = takes_alloc [OF assms(1,2) al]
  have "a \<noteq> 0"
    using t(1) assms(3) by auto
  moreover have "drop_bit 22 USER_BASE = 256"
    by (simp add: USER_BASE_def drop_bit_eq_div)
  ultimately have dir: "dir = a" and s': "s' = copy_pdes 256 0 a (clear_page a s1)"
    using assms(4) by (auto simp: hal_addrspace_create_def al Let_def)
  have t2: "takes {} {a} s1 (clear_page a s1)"
    using takesD(2) [OF t(3)] t(2) by (rule takes_clear_page)
  have "takes {} {a} (clear_page a s1) s'"
    unfolding s' using takesD(2) [OF t2] t(2) by (intro copy_pdes_takes) auto
  from takes_trans [OF takes_trans [OF t(3) t2] this] show ?thesis
    by (simp add: dir)
qed

definition user_pde :: "mm \<Rightarrow> u32 \<Rightarrow> u32 \<Rightarrow> bool" where
  "user_pde s dir i \<longleftrightarrow> i < 1024 \<and> 256 \<le> i \<and> present (entry s dir i)"

definition space_cloned :: "u32 \<Rightarrow> u32 \<Rightarrow> u32 set \<Rightarrow> (u32 \<Rightarrow> u32 set) \<Rightarrow> mm \<Rightarrow> mm \<Rightarrow> bool" where
  "space_cloned src dir A B s s' \<longleftrightarrow> takes (insert dir A) {} s s' \<and> dir \<notin> A
     \<and> (\<forall>i<256. entry s' dir i = entry s (kernel_dir s) i)
     \<and> (\<forall>i<1024. 256 \<le> i \<longrightarrow> \<not> present (entry s src i) \<longrightarrow> entry s' dir i = 0)
     \<and> (\<forall>i. user_pde s src i \<longrightarrow> pde_copy A B src dir s s' i)
     \<and> (\<forall>i k. user_pde s src i \<longrightarrow> user_pde s src k \<longrightarrow> i \<noteq> k \<longrightarrow> pde_frames B s' dir i \<inter> pde_frames B s' dir k = {})"

lemma clone_core:
  assumes wfk: "dir_wf s (kernel_dir s)" and wf: "dir_wf s src" and used: "pages_used s src"
    and zero: "0 \<notin> free_addrs (frames_of s)" and need: "clone_need s src \<le> card (free_addrs (frames_of s))"
    and cl: "hal_addrspace_clone src s = (dir, s')"
  obtains A B where "space_cloned src dir A B s s'"
proof -
  note wfD = dir_wfD [OF wf]
  have ne: "free_addrs (frames_of s) \<noteq> {}"
    using need by (auto simp: clone_need_def)
  obtain s1 where cr: "hal_addrspace_create s = (dir, s1)"
    using cl by (auto simp: hal_addrspace_clone_def Let_def split: prod.splits if_splits)
  note C = hal_addrspace_create_spec [OF wfk ne zero cr]
  have "dir \<noteq> 0"
    using C(1) zero by auto
  moreover have sp: "start_pde = 256"
    by (simp add: start_pde_def USER_BASE_def drop_bit_eq_div)
  ultimately have s': "s' = clone_dir 768 256 src dir s1"
    using cl unfolding hal_addrspace_clone_def cr ENTRIES_def sp by simp
  have t1: "takes {dir} {} s s1"
    using create_takes [OF wfD(1) ne zero cr] .
  have sd: "src \<noteq> dir"
    using C(1) wfD(3) by auto
  have e1: "entry s1 src j = entry s src j" if "j < 1024" for j
    using takes_entry [OF t1 wfD(2)] sd that by simp
  have T: "frame_of (entry s src i) \<notin> free_addrs (frames_of s)" if "i < 1024" "present (entry s src i)" for i
    using wfD(5) [OF that] by (simp add: table_of_frame_of)
  have e2: "entry s1 (frame_of (entry s src i)) j = entry s (frame_of (entry s src i)) j"
    if "i < 1024" "256 \<le> i" "present (entry s src i)" "j < 1024" for i j
    using T [OF that(1,3)] C(1) that(4) by (intro takes_entry [OF t1]) auto
  have P: "frame_of (entry s (frame_of (entry s src i)) j) \<notin> free_addrs (frames_of s)"
    if "i < 1024" "256 \<le> i" "present (entry s src i)" "j < 1024" "present (entry s (frame_of (entry s src i)) j)" for i j
    using used that unfolding pages_used_def by blast
  have da: "page_aligned dir"
    using takesD(7) [OF t1] by simp
  have ready: "dir_ready src dir s1"
    unfolding dir_ready_def C(2) using takesD(2) [OF t1] wfD(2,3) da sd C(1) T P by (auto simp: e1 e2)
  have dn: "dir_need 768 256 src s1 = dir_need 768 256 src s"
    using e1 e2 by (rule dir_need_cong) auto
  have "dir_need 768 256 src s1 \<le> card (free_addrs (frames_of s1))"
    unfolding dn C(2) using need C(1) frames.finite_frees by (simp add: clone_need_def)
  then obtain A B where D: "dir_cloned 768 256 src dir A B s1 s'"
    unfolding s' using clone_dir_spec [OF ready, of 256 768] by auto
  have tA: "takes A {dir} s1 s'"
    using D by (simp add: dir_cloned_def)
  have bet: "between 256 768 i \<longleftrightarrow> 256 \<le> i \<and> i < 1024" for i
    by (auto simp: between_def word_le_nat_alt word_less_nat_alt)
  have up: "user_pde s src i \<Longrightarrow> between 256 768 i \<and> i < 1024 \<and> present (entry s1 src i)" for i
    by (simp add: user_pde_def bet e1)
  have "takes (insert dir A) {} s s'"
    using takes_trans [OF t1 tA] by simp
  moreover have "dir \<notin> A"
    using takesD(3) [OF tA] C(2) by auto
  moreover have "entry s' dir i = entry s1 dir i" if "i < 1024" "\<not> user_pde s src i" for i
    using D that unfolding dir_cloned_def by (auto simp: bet user_pde_def e1)
  then have "\<forall>i<256. entry s' dir i = entry s (kernel_dir s) i"
    "\<forall>i<1024. 256 \<le> i \<longrightarrow> \<not> present (entry s src i) \<longrightarrow> entry s' dir i = 0"
    using C(5) [OF da] by (auto simp: user_pde_def word_less_nat_alt word_le_nat_alt)
  moreover have "pde_copy A B src dir s s' i" if i: "user_pde s src i" for i
  proof -
    have c: "pde_copy A B src dir s1 s' i"
      using D up [OF i] unfolding dir_cloned_def by auto
    have "table_copy (frame_of (entry s' dir i)) (B i) s' (frame_of (entry s src i)) s"
      using c i T P C(1) by (intro table_copy_earlier [OF _ t1]) (auto simp: pde_copy_def user_pde_def e1)
    then show ?thesis
      using c i by (simp add: pde_copy_def user_pde_def e1)
  qed
  moreover have "pde_frames B s' dir i \<inter> pde_frames B s' dir k = {}"
    if "user_pde s src i" "user_pde s src k" "i \<noteq> k" for i k
    using D up [OF that(1)] up [OF that(2)] that(3) unfolding dir_cloned_def by auto
  ultimately have "space_cloned src dir A B s s'"
    unfolding space_cloned_def by blast
  then show ?thesis ..
qed

lemma page_offset: "page_aligned f \<Longrightarrow> f OR (va AND 0xFFF) = f + of_nat (unat va mod 4096)"
proof -
  assume "page_aligned f"
  then have "f AND (va AND 0xFFF) = 0"
    unfolding page_aligned_bits ones_12 by (intro bit_word_eqI) (auto simp: bit_simps)
  then have "f OR (va AND 0xFFF) = f + (va AND 0xFFF)"
    by (simp add: disjunctive_add_eq_or)
  moreover have "va AND 0xFFF = of_nat (unat va mod 4096)"
    using unat_and_4095 [of va] by (metis of_nat_unat ucast_id)
  ultimately show ?thesis
    by simp
qed

lemma same_page_byte:
  "same_page s' f s g \<Longrightarrow> page_aligned f \<Longrightarrow> page_aligned g \<Longrightarrow>
    phys s' (f OR (va AND 0xFFF)) = phys s (g OR (va AND 0xFFF))"
  unfolding page_offset by (simp add: same_page_def)

lemma clone_leaf:
  assumes "space_cloned src dir A B s s'" and "USER_BASE \<le> va"
  shows "if present (leaf s src va) then copied (B (pd_index va)) s' (leaf s' dir va) s (leaf s src va)
      else \<not> present (leaf s' dir va)"
proof (cases "present (entry s src (pd_index va))")
  case True
  then have "user_pde s src (pd_index va)"
    using assms(2) by (simp add: user_pde_def pd_index_user)
  then have c: "pde_copy A B src dir s s' (pd_index va)"
    using assms(1) by (simp add: space_cloned_def)
  then have "present (entry s' dir (pd_index va))"
    using present_flags [of "entry s' dir (pd_index va)" "entry s src (pd_index va)"] True by (simp add: pde_copy_def)
  then have l: "leaf s' dir va = entry s' (frame_of (entry s' dir (pd_index va))) (pt_index va)"
      "leaf s src va = entry s (frame_of (entry s src (pd_index va))) (pt_index va)"
    using True by (simp_all add: leaf_def table_of_frame_of)
  have "table_copy (frame_of (entry s' dir (pd_index va))) (B (pd_index va)) s' (frame_of (entry s src (pd_index va))) s"
    using c by (simp add: pde_copy_def)
  from this [unfolded table_copy_def, THEN conjunct1, rule_format, OF pt_index_less, of va] show ?thesis
    unfolding l by (simp split: if_splits)
next
  case False
  then have "entry s' dir (pd_index va) = 0"
    using assms pd_index_less [of va] by (auto simp: space_cloned_def pd_index_user)
  then show ?thesis
    using False by (simp add: leaf_def)
qed

text \<open>The source directory as it was: neither its tables nor its pages are touched.\<close>

lemma clone_source:
  assumes "space_cloned src dir A B s s'" and "dir_wf s src" and "pages_used s src" and "USER_BASE \<le> va"
  shows "leaf s' src va = leaf s src va"
    and "present (leaf s src va) \<Longrightarrow> frame_of (leaf s src va) \<notin> insert dir A"
    and "dir_byte s' src va = dir_byte s src va"
proof -
  have t: "takes (insert dir A) {} s s'"
    using assms(1) by (simp add: space_cloned_def)
  note wfD = dir_wfD [OF assms(2)] and sub = takesD(3) [OF t]
  have e: "entry s' src (pd_index va) = entry s src (pd_index va)"
    using wfD(2,3) sub by (intro takes_entry [OF t]) auto
  show l: "leaf s' src va = leaf s src va"
  proof (cases "present (entry s src (pd_index va))")
    case True
    then have "entry s' (table_of s src (pd_index va)) (pt_index va) = entry s (table_of s src (pd_index va)) (pt_index va)"
      using wfD(5) [OF pd_index_less True] sub by (intro takes_entry [OF t]) auto
    then show ?thesis
      using e by (simp add: leaf_def table_of_def)
  qed (simp add: leaf_def e)
  show p: "frame_of (leaf s src va) \<notin> insert dir A" if "present (leaf s src va)"
  proof -
    have "frame_of (leaf s src va) \<notin> free_addrs (frames_of s)"
      using that assms(3,4) pd_index_less pt_index_less
      by (auto simp: leaf_def pages_used_def table_of_frame_of pd_index_user split: if_splits)
    then show ?thesis
      using sub by auto
  qed
  have "same_page s' (frame_of (leaf s src va)) s (frame_of (leaf s src va))" if "present (leaf s src va)"
    using p [OF that] by (intro takes_same_page [OF t]) auto
  then show "dir_byte s' src va = dir_byte s src va"
    unfolding dir_byte_def l by (auto intro!: same_page_byte)
qed

lemma clone_bytes:
  assumes "space_cloned src dir A B s s'" and "USER_BASE \<le> va"
  shows "dir_byte s' dir va = dir_byte s src va"
proof (cases "present (leaf s src va)")
  case True
  then have c: "copied (B (pd_index va)) s' (leaf s' dir va) s (leaf s src va)"
    using clone_leaf [OF assms] by simp
  then have "present (leaf s' dir va)"
    using present_flags [of "leaf s' dir va" "leaf s src va"] True by (simp add: copied_def)
  moreover have "phys s' (frame_of (leaf s' dir va) OR (va AND 0xFFF)) = phys s (frame_of (leaf s src va) OR (va AND 0xFFF))"
    using c by (intro same_page_byte) (simp_all add: copied_def)
  ultimately show ?thesis
    unfolding dir_byte_def using True by simp
next
  case False
  then show ?thesis
    using clone_leaf [OF assms] by (simp add: dir_byte_def)
qed

section \<open>Stores of the two processes\<close>

lemma poke_takes:
  assumes "pmm_inv (frames_of s)"
  shows "takes {} {frame_of (leaf s dir va)} s (poke dir va b s)"
proof -
  have "frame_of (leaf s dir va) OR (va AND 0xFFF) \<in> span (frame_of (leaf s dir va)) 4096"
    using in_span_page [of "frame_of (leaf s dir va)" "unat va mod 4096"] by (simp add: page_offset [simplified])
  then show ?thesis
    unfolding poke_def using assms by (intro takes_write) auto
qed

text \<open>A write to a page that an address does not go through leaves what is read there.\<close>

lemma view_cong:
  assumes "takes {} {F} s1 s2" and "page_aligned d" and "d \<noteq> F"
    and "present (entry s1 d (pd_index va)) \<Longrightarrow> frame_of (entry s1 d (pd_index va)) \<noteq> F"
  shows "leaf s2 d va = leaf s1 d va"
    and "(present (leaf s1 d va) \<Longrightarrow> frame_of (leaf s1 d va) \<noteq> F) \<Longrightarrow> dir_byte s2 d va = dir_byte s1 d va"
proof -
  have e: "entry s2 d (pd_index va) = entry s1 d (pd_index va)"
    using assms(2,3) by (intro takes_entry [OF assms(1)]) auto
  show l: "leaf s2 d va = leaf s1 d va"
  proof (cases "present (entry s1 d (pd_index va))")
    case True
    have "entry s2 (frame_of (entry s1 d (pd_index va))) (pt_index va) = entry s1 (frame_of (entry s1 d (pd_index va))) (pt_index va)"
      using assms(4) [OF True] by (intro takes_entry [OF assms(1)]) auto
    then show ?thesis
      using e by (simp add: leaf_def table_of_frame_of)
  qed (simp add: leaf_def e)
  show "dir_byte s2 d va = dir_byte s1 d va" if "present (leaf s1 d va) \<Longrightarrow> frame_of (leaf s1 d va) \<noteq> F"
  proof (cases "present (leaf s1 d va)")
    case True
    have "same_page s2 (frame_of (leaf s1 d va)) s1 (frame_of (leaf s1 d va))"
      using that [OF True] by (intro takes_same_page [OF assms(1)]) auto
    then have "phys s2 (frame_of (leaf s1 d va) OR (va AND 0xFFF)) = phys s1 (frame_of (leaf s1 d va) OR (va AND 0xFFF))"
      by (intro same_page_byte) auto
    then show ?thesis
      unfolding dir_byte_def l by simp
  qed (simp add: dir_byte_def l)
qed

text \<open>Where the pages and tables of the copy are.\<close>

lemma clone_places:
  assumes "space_cloned src dir A B s s'" and "USER_BASE \<le> va"
  shows "present (leaf s' dir va) \<Longrightarrow> user_pde s src (pd_index va) \<and> frame_of (leaf s' dir va) \<in> B (pd_index va)"
    and "present (entry s' dir (pd_index va)) \<Longrightarrow> user_pde s src (pd_index va)"
    and "user_pde s src i \<Longrightarrow> frame_of (entry s' dir i) \<notin> B i \<and> pde_frames B s' dir i \<subseteq> A"
proof -
  show u: "user_pde s src (pd_index va)" if "present (entry s' dir (pd_index va))"
  proof -
    have "entry s' dir (pd_index va) = 0" if "\<not> present (entry s src (pd_index va))"
      using assms that by (simp add: space_cloned_def pd_index_user)
    then have "present (entry s src (pd_index va))"
      using that by (metis present_0)
    then show ?thesis
      using assms(2) by (simp add: user_pde_def pd_index_user)
  qed
  show "user_pde s src (pd_index va) \<and> frame_of (leaf s' dir va) \<in> B (pd_index va)" if p: "present (leaf s' dir va)"
  proof
    show "user_pde s src (pd_index va)"
      using p u by (auto simp: leaf_def split: if_splits)
    show "frame_of (leaf s' dir va) \<in> B (pd_index va)"
      using clone_leaf [OF assms] p by (auto simp: copied_def split: if_splits)
  qed
  show "frame_of (entry s' dir i) \<notin> B i \<and> pde_frames B s' dir i \<subseteq> A" if "user_pde s src i"
    using assms(1) that by (simp add: space_cloned_def pde_copy_def)
qed

lemma clone_page_inj:
  assumes c: "space_cloned src dir A B s s'" and "USER_BASE \<le> va" and "USER_BASE \<le> vb"
    and p: "present (leaf s' dir va)" "present (leaf s' dir vb)"
    and eq: "frame_of (leaf s' dir va) = frame_of (leaf s' dir vb)"
  shows "pd_index va = pd_index vb" and "pt_index va = pt_index vb"
proof -
  note a = clone_places(1) [OF c assms(2) p(1)] and b = clone_places(1) [OF c assms(3) p(2)]
  show d: "pd_index va = pd_index vb"
  proof (rule ccontr)
    assume "pd_index va \<noteq> pd_index vb"
    then have "pde_frames B s' dir (pd_index va) \<inter> pde_frames B s' dir (pd_index vb) = {}"
      using c a b by (simp add: space_cloned_def)
    then show False
      using a b eq by (auto simp: pde_frames_def)
  qed
  let ?t = "frame_of (entry s' dir (pd_index va))" let ?T = "frame_of (entry s src (pd_index va))"
  have tc: "table_copy ?t (B (pd_index va)) s' ?T s"
    using c a by (simp add: space_cloned_def pde_copy_def)
  have l: "leaf s' dir va = entry s' ?t (pt_index va)" "leaf s' dir vb = entry s' ?t (pt_index vb)"
    using p d by (auto simp: leaf_def table_of_frame_of split: if_splits)
  have pr: "present (entry s ?T j)" if "j < 1024" "present (entry s' ?t j)" for j
    using tc that unfolding table_copy_def by (metis present_0)
  show "pt_index va = pt_index vb"
    using tc [unfolded table_copy_def, THEN conjunct2, rule_format, OF pt_index_less pt_index_less, of va vb]
      pr [OF pt_index_less, of va] pr [OF pt_index_less, of vb] p eq by (simp add: l)
qed

text \<open>Different addresses of the copy are different bytes of memory.\<close>

lemma page_split: "w = (w AND NOT 0xFFF) OR (w AND 0xFFF)" for w :: u32
  by (rule bit_word_eqI) (auto simp: bit_simps)

lemma clone_addr_inj:
  assumes c: "space_cloned src dir A B s s'" and "USER_BASE \<le> va" and "USER_BASE \<le> vb"
    and p: "present (leaf s' dir va)" "present (leaf s' dir vb)" and "va \<noteq> vb"
  shows "frame_of (leaf s' dir va) OR (va AND 0xFFF) \<noteq> frame_of (leaf s' dir vb) OR (vb AND 0xFFF)"
proof
  let ?F = "frame_of (leaf s' dir va)" let ?G = "frame_of (leaf s' dir vb)"
  assume eq: "?F OR (va AND 0xFFF) = ?G OR (vb AND 0xFFF)"
  have "?F = ?G" and off: "va AND 0xFFF = vb AND 0xFFF"
    using arg_cong [OF eq, of frame_of] arg_cong [OF eq, of "\<lambda>w. w AND 0xFFF"]
    by (simp_all only: frame_of_copy [OF frame_of_aligned] flags_of_copy [OF frame_of_aligned])
  then have "va AND NOT 0xFFF = vb AND NOT 0xFFF"
    using clone_page_inj [OF c assms(2,3) p] page_index_iff by blast
  with off have "va = vb"
    by (metis page_split)
  with assms(6) show False ..
qed

lemma clone_child_store:
  assumes c: "space_cloned src dir A B s s'" and "USER_BASE \<le> va" and "USER_BASE \<le> vb" and p: "present (leaf s' dir va)"
  shows "dir_byte (poke dir va b s') dir vb = (if vb = va then Some b else dir_byte s' dir vb)"
proof -
  let ?F = "frame_of (leaf s' dir va)" let ?s2 = "poke dir va b s'"
  have t: "takes (insert dir A) {} s s'" and dA: "dir \<notin> A"
    using c by (simp_all add: space_cloned_def)
  note a = clone_places(1) [OF c assms(2) p]
  have F: "?F \<in> A"
    using a clone_places(3) [OF c assms(2)] by (auto simp: pde_frames_def)
  have pt: "takes {} {?F} s' ?s2"
    using takesD(2) [OF t] by (rule poke_takes)
  have tab: "frame_of (entry s' dir (pd_index vb)) \<noteq> ?F" if "present (entry s' dir (pd_index vb))"
  proof -
    have u: "user_pde s src (pd_index vb)"
      using clone_places(2) [OF c assms(3) that] .
    show ?thesis
    proof (cases "pd_index vb = pd_index va")
      case True
      then show ?thesis
        using a clone_places(3) [OF c assms(2) u] by auto
    next
      case False
      then have "pde_frames B s' dir (pd_index vb) \<inter> pde_frames B s' dir (pd_index va) = {}"
        using c u a by (simp add: space_cloned_def)
      then show ?thesis
        using a by (auto simp: pde_frames_def)
    qed
  qed
  have l: "leaf ?s2 dir vb = leaf s' dir vb"
    using takesD(7) [OF t] F dA tab by (intro view_cong(1) [OF pt]) auto
  show ?thesis
  proof (cases "present (leaf s' dir vb)")
    case True
    then show ?thesis
      using clone_addr_inj [OF c assms(2,3) p True] unfolding dir_byte_def l by (auto simp: poke_def)
  next
    case False
    then show ?thesis
      using p unfolding dir_byte_def l by auto
  qed
qed

lemma clone_child_store_parent:
  assumes c: "space_cloned src dir A B s s'" and "dir_wf s src" and "pages_used s src"
    and "USER_BASE \<le> va" and "USER_BASE \<le> vb" and p: "present (leaf s' dir va)"
  shows "dir_byte (poke dir va b s') src vb = dir_byte s src vb"
proof -
  let ?F = "frame_of (leaf s' dir va)"
  have t: "takes (insert dir A) {} s s'"
    using c by (simp add: space_cloned_def)
  note wfD = dir_wfD [OF assms(2)] and sub = takesD(3) [OF t] and src = clone_source [OF c assms(2,3,5)]
  have F: "?F \<in> A"
    using clone_places(1) [OF c assms(4) p] clone_places(3) [OF c assms(4)] by (auto simp: pde_frames_def)
  have pt: "takes {} {?F} s' (poke dir va b s')"
    using takesD(2) [OF t] by (rule poke_takes)
  have e: "entry s' src (pd_index vb) = entry s src (pd_index vb)"
    using wfD(2,3) sub by (intro takes_entry [OF t]) auto
  have "dir_byte (poke dir va b s') src vb = dir_byte s' src vb"
  proof (rule view_cong(2) [OF pt wfD(2)])
    show "src \<noteq> ?F"
      using F wfD(3) sub by auto
    show "frame_of (entry s' src (pd_index vb)) \<noteq> ?F" if "present (entry s' src (pd_index vb))"
      using wfD(5) [OF pd_index_less, of vb] that F sub unfolding e table_of_frame_of by auto
    show "frame_of (leaf s' src vb) \<noteq> ?F" if "present (leaf s' src vb)"
      using src(1,2) that F by auto
  qed
  then show ?thesis
    using src(3) by simp
qed

lemma clone_parent_store:
  assumes c: "space_cloned src dir A B s s'" and "dir_wf s src" and "pages_used s src"
    and "USER_BASE \<le> va" and "USER_BASE \<le> vb" and p: "present (leaf s' src va)"
  shows "dir_byte (poke src va b s') dir vb = dir_byte s' dir vb"
proof -
  let ?G = "frame_of (leaf s' src va)"
  have t: "takes (insert dir A) {} s s'"
    using c by (simp add: space_cloned_def)
  have G: "?G \<notin> insert dir A"
    using clone_source(1,2) [OF c assms(2,3,4)] p by simp
  have pt: "takes {} {?G} s' (poke src va b s')"
    using takesD(2) [OF t] by (rule poke_takes)
  note pl = clone_places [OF c assms(5)]
  show ?thesis
  proof (rule view_cong(2) [OF pt])
    show "page_aligned dir" "dir \<noteq> ?G"
      using takesD(7) [OF t] G by auto
    show "frame_of (entry s' dir (pd_index vb)) \<noteq> ?G" if "present (entry s' dir (pd_index vb))"
      using pl(3) [OF pl(2) [OF that]] G by (auto simp: pde_frames_def)
    show "frame_of (leaf s' dir vb) \<noteq> ?G" if "present (leaf s' dir vb)"
      using pl(1) [OF that] pl(3) [of "pd_index vb"] G unfolding pde_frames_def by auto
  qed
qed

lemma clone_flags:
  assumes "space_cloned src dir A B s s'" and "USER_BASE \<le> va"
  shows "leaf s' dir va AND 0xFFF = (if present (leaf s src va) then leaf s src va AND 0xFFF else 0)"
proof (cases "present (entry s src (pd_index va))")
  case True
  then have u: "user_pde s src (pd_index va)"
    using assms(2) by (simp add: user_pde_def pd_index_user)
  have "leaf s' dir va = 0" if "\<not> present (leaf s src va)"
  proof -
    have "table_copy (frame_of (entry s' dir (pd_index va))) (B (pd_index va)) s' (frame_of (entry s src (pd_index va))) s"
      using assms(1) u by (simp add: space_cloned_def pde_copy_def)
    moreover have "\<not> present (entry s (frame_of (entry s src (pd_index va))) (pt_index va))"
      using that True by (simp add: leaf_def table_of_frame_of)
    ultimately have "entry s' (frame_of (entry s' dir (pd_index va))) (pt_index va) = 0"
      using pt_index_less [of va] unfolding table_copy_def by metis
    then show ?thesis
      by (simp add: leaf_def table_of_frame_of)
  qed
  then show ?thesis
    using clone_leaf [OF assms] by (simp add: copied_def split: if_splits)
next
  case False
  then have "entry s' dir (pd_index va) = 0"
    using assms by (simp add: space_cloned_def pd_index_user)
  then show ?thesis
    using False by (simp add: leaf_def)
qed

lemma clone_kernel_half:
  assumes "space_cloned src dir A B s s'" and "dir_wf s (kernel_dir s)" and "\<not> USER_BASE \<le> va"
  shows "leaf s' dir va = leaf s (kernel_dir s) va"
proof -
  have t: "takes (insert dir A) {} s s'"
    using assms(1) by (simp add: space_cloned_def)
  note wfD = dir_wfD [OF assms(2)]
  have e: "entry s' dir (pd_index va) = entry s (kernel_dir s) (pd_index va)"
    using assms(1,3) by (simp add: space_cloned_def pd_index_user [symmetric] not_le)
  have "entry s' (table_of s (kernel_dir s) (pd_index va)) (pt_index va) = entry s (table_of s (kernel_dir s) (pd_index va)) (pt_index va)"
    if "present (entry s (kernel_dir s) (pd_index va))"
    using wfD(5) [OF pd_index_less that] takesD(3) [OF t] by (intro takes_entry [OF t]) auto
  then show ?thesis
    using e by (simp add: leaf_def table_of_frame_of)
qed

section \<open>Properties\<close>

text \<open>
  What a copy needs: directories that are well formed, pages that are in use, and a free frame for the
  directory, for every table and for every page of the user half.
\<close>

definition can_clone :: "mm \<Rightarrow> u32 \<Rightarrow> bool" where
  "can_clone s src \<longleftrightarrow> dir_wf s (kernel_dir s) \<and> dir_wf s src \<and> pages_used s src
     \<and> 0 \<notin> free_addrs (frames_of s) \<and> clone_need s src \<le> card (free_addrs (frames_of s))"

lemma can_clone_core:
  assumes "can_clone s src" and "hal_addrspace_clone src s = (dir, s')"
  obtains A B where "space_cloned src dir A B s s'" "dir_wf s src" "pages_used s src"
  using assms clone_core unfolding can_clone_def by blast

text \<open>
  A machine with a process: its directory at 0x2000 has one table, at 0x3000, that maps the first user page
  to the frame 0x4000; three frames are free.
\<close>

definition mm_proc :: mm where
  "mm_proc = set_entry 0x2000 256 0x3007 (set_entry 0x3000 0 0x4007
     (mm_small\<lparr>phys := (\<lambda>_. 0)(0x4000 := 42), frames_of := pmm_init 12 0\<rparr>))"

lemma mm_proc_entry:
  assumes "page_aligned d" and "j < 1024" and "d \<noteq> 0x4000"
  shows "entry mm_proc d j = (if d = 0x2000 \<and> j = 256 then 0x3007 else if d = 0x3000 \<and> j = 0 then 0x4007 else 0)"
proof -
  let ?m = "mm_small\<lparr>phys := (\<lambda>_. 0)(0x4000 := 42), frames_of := pmm_init 12 0\<rparr>"
  have z: "entry ?m d j = 0"
  proof -
    have "(0x4000 :: u32) \<in> span 0x4000 4096" "page_aligned 0x4000"
      by (simp_all add: span_def page_aligned_def)
    then have "0x4000 \<notin> span d 4096"
      using span_pages_disjoint [OF assms(1), of "0x4000"] assms(3) by auto
    then have "entry ?m d j = entry mm_small d j"
      by (intro entry_cong [OF assms(1,2)]) (auto simp: mm_small_def)
    then show ?thesis by simp
  qed
  have al: "page_aligned 0x2000" "page_aligned 0x3000"
    by (simp_all add: page_aligned_def)
  have "entry (set_entry 0x3000 0 0x4007 ?m) d j = (if d = 0x3000 \<and> j = 0 then 0x4007 else 0)"
  proof (cases "d = 0x3000 \<and> j = 0")
    case False
    then show ?thesis
      using entry_set_entry_other [OF al(2) assms(1) _ assms(2), of 0 "0x4007" ?m] z by auto
  qed auto
  then show ?thesis
  proof (cases "d = 0x2000 \<and> j = 256")
    case False
    then show ?thesis
      using entry_set_entry_other [OF al(1) assms(1) _ assms(2), of 256 "0x3007" "set_entry 0x3000 0 0x4007 ?m"]
        \<open>entry (set_entry 0x3000 0 0x4007 ?m) d j = _\<close> by (auto simp: mm_proc_def)
  qed (auto simp: mm_proc_def)
qed

lemma mm_proc_free: "free_addrs (frames_of mm_proc) = {0x100000, 0x101000, 0x102000}" "pmm_inv (frames_of mm_proc)"
proof -
  have "first_frame 0 = 256" and "managed_frames 12 = 259"
    by (simp_all add: managed_frames_def first_frame_def PMM_FRAME_SIZE_def)
  then have "free_set (pmm_init 12 0) = {256..<259}"
    using pmm_init_spec(1) [of 12 0] by simp
  also have "\<dots> = {256, 257, 258}"
    unfolding set_eq_iff atLeastLessThan_iff by (intro allI) (simp, arith)
  finally show "free_addrs (frames_of mm_proc) = {0x100000, 0x101000, 0x102000}"
    by (simp add: mm_proc_def free_addrs_def frame_addr_def PMM_FRAME_SIZE_def)
  show "pmm_inv (frames_of mm_proc)"
    using pmm_init_spec(3) [of 12 0] by (simp add: mm_proc_def)
qed

lemma table_need_none:
  "unat ti + n \<le> 1024 \<Longrightarrow> \<forall>j<1024. between ti n j \<longrightarrow> \<not> present (entry s t j) \<Longrightarrow> table_need n ti t s = 0"
proof (induction n arbitrary: ti)
  case (Suc n)
  then show ?case
    using between_Suc [OF Suc.prems(1)] by simp
qed simp

lemma dir_need_none:
  "unat di + n \<le> 1024 \<Longrightarrow> \<forall>j<1024. between di n j \<longrightarrow> \<not> present (entry s d j) \<Longrightarrow> dir_need n di d s = 0"
proof (induction n arbitrary: di)
  case (Suc n)
  then show ?case
    using between_Suc [OF Suc.prems(1)] by simp
qed simp

lemma mm_proc_present: "present 0x3007" "present 0x4007" "frame_of 0x3007 = 0x3000" "frame_of 0x4007 = 0x4000"
  by (simp_all add: present_def HAL_PG_PRESENT_def frame_of_def)

lemma mm_proc_need: "clone_need mm_proc 0x2000 = 3"
proof -
  have al: "page_aligned 0x2000" "page_aligned 0x3000"
    by (simp_all add: page_aligned_def)
  have "table_need 1023 1 0x3000 mm_proc = 0"
    using mm_proc_entry [OF al(2)] by (intro table_need_none) (auto simp: between_def)
  then have t: "table_need 1024 0 0x3000 mm_proc = 1"
    using table_need.simps(2) [of 1023 0 "0x3000" mm_proc] mm_proc_entry [OF al(2), of 0] mm_proc_present by simp
  have "dir_need 767 257 0x2000 mm_proc = 0"
    using mm_proc_entry [OF al(1)] by (intro dir_need_none) (auto simp: between_def)
  then show ?thesis
    using dir_need.simps(2) [of 767 256 "0x2000" mm_proc] mm_proc_entry [OF al(1), of 256] mm_proc_present t
    by (simp add: clone_need_def)
qed

lemma mm_proc_can_clone: "can_clone mm_proc 0x2000"
proof -
  have al: "page_aligned 0x1000" "page_aligned 0x2000" "page_aligned 0x3000"
    by (simp_all add: page_aligned_def)
  have k: "kernel_dir mm_proc = 0x1000"
    by (simp add: mm_proc_def mm_small_def)
  have "dir_wf mm_proc 0x1000"
    using mm_proc_free(2) al mm_proc_entry [OF al(1)] by (simp add: dir_wf_def mm_proc_free(1))
  moreover have "dir_wf mm_proc 0x2000"
    using mm_proc_free(2) al mm_proc_entry [OF al(2)] mm_proc_present
    by (auto simp: dir_wf_def mm_proc_free(1) table_of_frame_of split: if_splits)
  moreover have "pages_used mm_proc 0x2000"
    using mm_proc_entry [OF al(2)] mm_proc_entry [OF al(3)] mm_proc_present
    by (auto simp: pages_used_def mm_proc_free(1) split: if_splits)
  ultimately show ?thesis
    by (simp add: can_clone_def k mm_proc_need mm_proc_free(1))
qed

lemma mm_proc_byte: "dir_byte mm_proc 0x2000 0x40000000 = Some 42"
proof -
  have al: "page_aligned 0x2000" "page_aligned 0x3000"
    by (simp_all add: page_aligned_def)
  have "pd_index 0x40000000 = 256" "pt_index 0x40000000 = 0"
    by (simp_all add: pd_index_def pt_index_def drop_bit_eq_div)
  then have l: "leaf mm_proc 0x2000 0x40000000 = 0x4007"
    using mm_proc_entry [OF al(1), of 256] mm_proc_entry [OF al(2), of 0] mm_proc_present
    by (simp add: leaf_def table_of_frame_of)
  have "phys mm_proc 0x4000 = 42"
    by (simp add: mm_proc_def set_entry_def store32_def)
  then show ?thesis
    unfolding dir_byte_def l mm_proc_present(4) using mm_proc_present(2) by simp
qed





end
