(* ===== verification/KernelSpace.thy ===== *)
theory KernelSpace
  imports AddrSpace Vmm
begin

text \<open>
  The kernel's own address space as the boot sequence sets it up: the identity map of
  \<^verbatim>\<open>hal_paging_init\<close> and the heap of \<^verbatim>\<open>vmm_init\<close> on top of it.
\<close>

unbundle bit_operations_syntax

section \<open>What mapping a page does to the directory and the allocator\<close>

lemma kernel_dir_alloc_frame: "alloc_frame s = (f, s') \<Longrightarrow> kernel_dir s' = kernel_dir s"
  by (auto simp: alloc_frame_def split: prod.splits)

lemma kernel_dir_map_in_dir [simp]: "kernel_dir (map_in_dir dir va pa flags s) = kernel_dir s"
  by (simp add: map_in_dir_def Let_def alloc_frame_def split: prod.splits)

lemma map_in_dir_directory:
  assumes wf: "dir_wf s dir" and can: "can_map s dir va" and "i < 1024"
  shows "present (entry (map_in_dir dir va pa flags s) dir i) \<longleftrightarrow> i = pd_index va \<or> present (entry s dir i)"
proof -
  obtain t s1 where en: "ensure_table dir va flags s = (t, s1)"
    by force
  note E = ensure_table_spec [OF wf can en] and wfD = dir_wfD [OF wf]
  note wfE = dir_wfD [OF E(1)]
  have ta: "page_aligned t" and td: "t \<noteq> dir"
    using E(2,3) wfE(4) by simp_all
  have "entry (map_in_dir dir va pa flags s) dir i = entry s1 dir i"
    using ta wfD(2) td assms(3) by (simp add: map_in_dir_eq en entry_set_entry_other)
  moreover have "present (entry s1 dir i) \<longleftrightarrow> i = pd_index va \<or> present (entry s dir i)"
  proof (cases "i = pd_index va")
    case False
    show ?thesis
    proof (cases "present (entry s dir (pd_index va))")
      case True
      then show ?thesis
        using ensure_table_present(4) [OF wfD(2) True en wfD(2) assms(3)] False by simp
    next
      case absent: False
      then have ne: "free_addrs (frames_of s) \<noteq> {}"
        using can by (simp add: can_map_def)
      show ?thesis
        using ensure_table_fresh(1,6) [OF wf absent ne en] wfD(2,3) assms(3) False by auto
    qed
  qed (use E(3) in simp)
  ultimately show ?thesis
    by simp
qed

lemma map_in_dir_frames:
  assumes wf: "dir_wf s dir" and can: "can_map s dir va"
  shows "free_addrs (frames_of (map_in_dir dir va pa flags s)) \<subseteq> free_addrs (frames_of s)"
    and "card (free_addrs (frames_of s)) = card (free_addrs (frames_of (map_in_dir dir va pa flags s)))
      + (if present (entry s dir (pd_index va)) then 0 else 1)"
proof -
  obtain t s1 where en: "ensure_table dir va flags s = (t, s1)"
    by force
  note wfD = dir_wfD [OF wf]
  have f: "frames_of (map_in_dir dir va pa flags s) = frames_of s1"
    by (simp add: map_in_dir_eq en)
  have "free_addrs (frames_of s1) \<subseteq> free_addrs (frames_of s) \<and> card (free_addrs (frames_of s)) = card (free_addrs (frames_of s1))
      + (if present (entry s dir (pd_index va)) then 0 else 1)"
  proof (cases "present (entry s dir (pd_index va))")
    case True
    then show ?thesis
      using ensure_table_present(2) [OF wfD(2) True en] by simp
  next
    case False
    then have ne: "free_addrs (frames_of s) \<noteq> {}"
      using can by (simp add: can_map_def)
    have "card (free_addrs (frames_of s)) = Suc (card (free_addrs (frames_of s) - {t}))"
      using card.remove [OF frames.finite_frees ensure_table_fresh(1) [OF wf False ne en]] .
    then show ?thesis
      using ensure_table_fresh(1,2) [OF wf False ne en] False by auto
  qed
  then show "free_addrs (frames_of (map_in_dir dir va pa flags s)) \<subseteq> free_addrs (frames_of s)"
    "card (free_addrs (frames_of s)) = card (free_addrs (frames_of (map_in_dir dir va pa flags s)))
      + (if present (entry s dir (pd_index va)) then 0 else 1)"
    by (simp_all add: f)
qed

section \<open>The identity map\<close>

lemma same_page_iff: "(va :: u32) AND NOT 0xFFF = vb AND NOT 0xFFF \<longleftrightarrow> unat va div 4096 = unat vb div 4096"
  using unat_and_neg_4096 [of va] unat_and_neg_4096 [of vb] by (simp add: word_unat_eq_iff)

lemma new_leaf_page: "unat va div 4096 = unat vb div 4096 \<Longrightarrow> new_leaf va f = new_leaf vb f"
  using same_page_iff [of va vb] by (simp add: new_leaf_def)

lemma pd_index_page: "unat (pd_index va) = unat va div 4194304"
  using unat_and_mask [of "drop_bit 22 va" 10] unat_less_32 [of va]
  by (simp add: pd_index_def mask_eq_exp_minus_1 unat_drop_bit_eq drop_bit_eq_div word_nat)

definition tables_upto :: "mm \<Rightarrow> u32 \<Rightarrow> nat \<Rightarrow> bool" where
  "tables_upto s dir n \<longleftrightarrow> (\<forall>i<1024. present (entry s dir i) \<longleftrightarrow> unat i < (n + 1023) div 1024)"

lemma frame_addr_simps:
  "n < 1048576 \<Longrightarrow> unat (frame_addr n) = 4096 * n" "frame_addr (Suc n) = frame_addr n + 4096" "frame_addr 0 = 0"
  by (simp_all add: unat_frame_addr) (simp_all add: frame_addr_def PMM_FRAME_SIZE_def algebra_simps)

lemma frame_addr_top: "frame_addr 32768 = 0x8000000"
  by (simp add: frame_addr_def PMM_FRAME_SIZE_def)

lemma identity_map_loop_spec:
  assumes "dir_wf s (kernel_dir s)" and "n \<le> 32768" and "tables_upto s (kernel_dir s) n"
    and "32 \<le> card (free_addrs (frames_of s)) + (n + 1023) div 1024"
  defines "s' \<equiv> identity_map_loop (frame_addr n) s"
  shows "dir_wf s' (kernel_dir s) \<and> kernel_dir s' = kernel_dir s \<and> tables_upto s' (kernel_dir s) 32768
    \<and> (\<forall>va. leaf s' (kernel_dir s) va = (if 4096 * n \<le> unat va \<and> unat va < 0x8000000 then new_leaf va 3 else leaf s (kernel_dir s) va))
    \<and> free_addrs (frames_of s') \<subseteq> free_addrs (frames_of s)
    \<and> card (free_addrs (frames_of s)) + (n + 1023) div 1024 = card (free_addrs (frames_of s')) + 32"
  using assms(1-4) unfolding s'_def
proof (induction "32768 - n" arbitrary: n s)
  case 0
  then have "n = 32768"
    by simp
  then show ?case
    using 0 by (auto simp: frame_addr_top identity_map_loop.simps [of "0x8000000"])
next
  case (Suc k)
  then have n: "n < 32768"
    by simp
  let ?a = "frame_addr n" let ?D = "kernel_dir s"
  let ?s1 = "map_in_dir ?D ?a ?a 3 s"
  have ua: "unat ?a = 4096 * n"
    using n by (simp add: frame_addr_simps)
  have pd: "unat (pd_index ?a) = n div 1024"
    unfolding pd_index_page ua by simp
  have pr: "present (entry s ?D (pd_index ?a)) \<longleftrightarrow> n div 1024 < (n + 1023) div 1024"
    using Suc.prems(3) pd by (simp add: tables_upto_def)
  have q: "(Suc n + 1023) div 1024 = n div 1024 + 1" "(n + 1023) div 1024 \<le> n div 1024 + 1" "n div 1024 \<le> (n + 1023) div 1024"
    using div_le_mono [of "n + 1023" "n + 1024" 1024] by (simp_all add: div_le_mono)
  then have step: "(n + 1 + 1023) div 1024 = (n + 1023) div 1024 + (if present (entry s ?D (pd_index ?a)) then 0 else 1)"
    unfolding pr by auto
  have le: "(n + 1 + 1023) div 1024 \<le> 32"
    using n by simp
  have can: "can_map s ?D ?a"
    using step le Suc.prems(4) frames.finite_frees by (auto simp: can_map_def)
  note spec = map_in_dir_spec [OF Suc.prems(1) can, where pa = ?a and flags = 3]
  note fr = map_in_dir_frames [OF Suc.prems(1) can, where pa = ?a and flags = 3]
  have lp: "identity_map_loop ?a s = identity_map_loop (frame_addr (Suc n)) ?s1"
    using n ua by (subst identity_map_loop.simps) (simp add: word_less_nat_alt HAL_PG_PRESENT_def HAL_PG_WRITE_def frame_addr_simps)
  have tab: "tables_upto ?s1 ?D (Suc n)"
    unfolding tables_upto_def
  proof (intro allI impI)
    fix i :: u32
    assume i: "i < 1024"
    have "i = pd_index ?a \<longleftrightarrow> unat i = n div 1024"
      using pd by (metis word_unat_eq_iff)
    then show "present (entry ?s1 ?D i) \<longleftrightarrow> unat i < (Suc n + 1023) div 1024"
      using map_in_dir_directory [OF Suc.prems(1) can i, where pa = ?a and flags = 3] Suc.prems(3) i q
      unfolding tables_upto_def by auto
  qed
  have "32768 - Suc n = k" "Suc n \<le> 32768" "32 \<le> card (free_addrs (frames_of ?s1)) + (Suc n + 1023) div 1024"
    using Suc.hyps(2) n step fr(2) Suc.prems(4) by simp_all
  from Suc.hyps(1) [OF this(1) [symmetric], of ?s1] this(2,3) spec(1) tab
  have IH: "dir_wf (identity_map_loop ?a s) ?D \<and> kernel_dir (identity_map_loop ?a s) = ?D \<and> tables_upto (identity_map_loop ?a s) ?D 32768
    \<and> (\<forall>va. leaf (identity_map_loop ?a s) ?D va = (if 4096 * Suc n \<le> unat va \<and> unat va < 0x8000000 then new_leaf va 3 else leaf ?s1 ?D va))
    \<and> free_addrs (frames_of (identity_map_loop ?a s)) \<subseteq> free_addrs (frames_of ?s1)
    \<and> card (free_addrs (frames_of ?s1)) + (Suc n + 1023) div 1024 = card (free_addrs (frames_of (identity_map_loop ?a s))) + 32"
    unfolding lp by simp
  have "leaf (identity_map_loop ?a s) ?D va = (if 4096 * n \<le> unat va \<and> unat va < 0x8000000 then new_leaf va 3 else leaf s ?D va)" for va
  proof -
    have "va AND NOT 0xFFF = ?a AND NOT 0xFFF \<longleftrightarrow> unat va div 4096 = n"
      unfolding same_page_iff ua by simp
    moreover have "unat va div 4096 = n \<longleftrightarrow> 4096 * n \<le> unat va \<and> unat va < 4096 * Suc n"
      by auto
    moreover have "new_leaf ?a 3 = new_leaf va 3" if "unat va div 4096 = n"
      using that ua by (intro new_leaf_page) simp
    ultimately show ?thesis
      using IH n spec(2) [of va] by auto
  qed
  then show ?case
    using IH fr step by auto
qed

lemma map_in_dir_phys_dir [simp]: "kernel_dir_phys (map_in_dir dir va pa flags s) = kernel_dir_phys s"
  by (simp add: map_in_dir_def Let_def alloc_frame_def clear_page_def set_entry_def split: prod.splits)

lemma identity_map_loop_phys: "kernel_dir_phys (identity_map_loop a s) = kernel_dir_phys s"
proof (induction a s rule: identity_map_loop.induct)
  case (1 addr s)
  then show ?case
    by (subst identity_map_loop.simps) simp
qed

lemma leaf_cong: "phys s' = phys s \<Longrightarrow> leaf s' d va = leaf s d va"
  by (simp add: leaf_def entry_def table_of_def)

lemma dir_wf_cong: "phys s' = phys s \<Longrightarrow> frames_of s' = frames_of s \<Longrightarrow> dir_wf s' d = dir_wf s d"
  by (simp add: dir_wf_def entry_def table_of_def)

lemma hal_paging_init_spec:
  assumes "pmm_inv (frames_of s)" and "33 \<le> card (free_addrs (frames_of s))"
  defines "s' \<equiv> hal_paging_init s"
  shows "dir_wf s' (kernel_dir s')" and "tables_upto s' (kernel_dir s') 32768"
    and "leaf s' (kernel_dir s') va = (if unat va < 0x8000000 then new_leaf va 3 else 0)"
    and "cr3 s' = kernel_dir s'" and "bit (cr0 s') 31"
    and "free_addrs (frames_of s') \<subseteq> free_addrs (frames_of s)"
    and "card (free_addrs (frames_of s)) = card (free_addrs (frames_of s')) + 33"
proof -
  obtain dir s1 where al: "alloc_frame s = (dir, s1)"
    by force
  have ne: "free_addrs (frames_of s) \<noteq> {}"
    using assms(2) by auto
  note t = takes_alloc [OF assms(1) ne al]
  define s2 where "s2 = clear_page dir (s1\<lparr>kernel_dir := dir, kernel_dir_phys := dir, current_dir_phys := dir\<rparr>)"
  have k2: "kernel_dir s2 = dir" "frames_of s2 = frames_of s1" "kernel_dir_phys s2 = dir"
    by (simp_all add: s2_def clear_page_def)
  have e2: "entry s2 dir i = 0" if "i < 1024" for i
    using that t(2) by (simp add: s2_def entry_clear_page)
  have fr1: "free_addrs (frames_of s1) = free_addrs (frames_of s) - {dir}"
    using takesD(4) [OF t(3)] .
  have wf2: "dir_wf s2 (kernel_dir s2)"
    unfolding dir_wf_def k2 fr1 using takesD(2) [OF t(3)] t(2) by (simp add: e2)
  have c1: "card (free_addrs (frames_of s)) = Suc (card (free_addrs (frames_of s1)))"
    unfolding fr1 using card.remove [OF frames.finite_frees t(1)] .
  have "tables_upto s2 (kernel_dir s2) 0"
    by (simp add: tables_upto_def k2 e2)
  from identity_map_loop_spec [OF wf2 _ this] c1 assms(2)
  have L: "dir_wf (identity_map_loop 0 s2) dir" "kernel_dir (identity_map_loop 0 s2) = dir"
    "tables_upto (identity_map_loop 0 s2) dir 32768"
    "\<And>va. leaf (identity_map_loop 0 s2) dir va = (if unat va < 0x8000000 then new_leaf va 3 else leaf s2 dir va)"
    "free_addrs (frames_of (identity_map_loop 0 s2)) \<subseteq> free_addrs (frames_of s1)"
    "card (free_addrs (frames_of s1)) = card (free_addrs (frames_of (identity_map_loop 0 s2))) + 32"
    by (simp_all add: k2 frame_addr_simps)
  let ?s3 = "identity_map_loop 0 s2"
  have s': "s' = (hal_paging_switch (kernel_dir_phys ?s3) ?s3)\<lparr>cr0 := cr0 ?s3 OR 0x80000000\<rparr>"
    by (simp add: s'_def hal_paging_init_def al Let_def s2_def hal_paging_switch_def)
  have same: "phys s' = phys ?s3" "frames_of s' = frames_of ?s3" "kernel_dir s' = dir" "cr3 s' = kernel_dir_phys ?s3"
    by (simp_all add: s' hal_paging_switch_def L(2))
  have "leaf s2 dir va = 0" for va
    by (simp add: leaf_def e2)
  then show "leaf s' (kernel_dir s') va = (if unat va < 0x8000000 then new_leaf va 3 else 0)"
    using L(4) [of va] leaf_cong [OF same(1)] by (simp add: same)
  show "dir_wf s' (kernel_dir s')" "tables_upto s' (kernel_dir s') 32768"
    using L(1,3) dir_wf_cong [OF same(1,2)] same(1) by (simp_all add: same tables_upto_def entry_def)
  show "cr3 s' = kernel_dir s'"
    using k2 identity_map_loop_phys [of 0 s2] by (simp add: same)
  have "bit (0x80000000 :: u32) 31"
    by (simp add: bit_numeral_rec)
  then show "bit (cr0 s') 31"
    by (simp add: s' bit_or_iff)
  show "free_addrs (frames_of s') \<subseteq> free_addrs (frames_of s)"
    using L(5) fr1 by (auto simp: same)
  show "card (free_addrs (frames_of s)) = card (free_addrs (frames_of s')) + 33"
    using L(6) c1 by (simp add: same)
qed

section \<open>The heap window\<close>

lemma expand_maps:
  assumes "dir_wf (pages h) (kernel_dir (pages h))" and "tables_upto (pages h) (kernel_dir (pages h)) 32768"
    and "heap_end h = frame_addr p" and "heap_limit h = 0x8000000" and "p + k \<le> 32768"
    and "k \<le> card (free_addrs (frames_of (pages h)))"
  shows "\<exists>fs. length fs = k \<and> distinct fs \<and> set fs \<subseteq> free_addrs (frames_of (pages h))
    \<and> free_addrs (frames_of (pages (expand (frame_addr k) h))) = free_addrs (frames_of (pages h)) - set fs
    \<and> kernel_dir (pages (expand (frame_addr k) h)) = kernel_dir (pages h)
    \<and> dir_wf (pages (expand (frame_addr k) h)) (kernel_dir (pages h))
    \<and> (\<forall>va. leaf (pages (expand (frame_addr k) h)) (kernel_dir (pages h)) va =
          (if p \<le> unat va div 4096 \<and> unat va div 4096 < p + k then new_leaf (fs ! (unat va div 4096 - p)) 3
           else leaf (pages h) (kernel_dir (pages h)) va))"
  using assms
proof (induction k arbitrary: h p)
  case 0
  then show ?case
    by (auto simp: expand_stop frame_addr_simps)
next
  case (Suc k)
  let ?D = "kernel_dir (pages h)" let ?a = "heap_end h"
  obtain f s where al: "alloc_frame (pages h) = (f, s)"
    by force
  have inv: "pmm_inv (frames_of (pages h))"
    using dir_wfD(1) [OF Suc.prems(1)] .
  have ne: "free_addrs (frames_of (pages h)) \<noteq> {}"
    using Suc.prems(6) by auto
  note t = takes_alloc [OF inv ne al]
  have ks: "kernel_dir s = ?D"
    using kernel_dir_alloc_frame [OF al] .
  have free1: "free_addrs (frames_of s) = free_addrs (frames_of (pages h)) - {f}"
    using takesD(4) [OF t(3)] .
  have wf: "dir_wf s ?D"
    using Suc.prems(1) takesD(2) [OF t(3)] unfolding dir_wf_def free1 table_of_def entry_def t(4) by auto
  have ua: "unat ?a = 4096 * p"
    using Suc.prems(3,5) by (simp add: frame_addr_simps)
  have "unat (pd_index ?a) < 32"
    unfolding pd_index_page ua using Suc.prems(5) by simp
  then have pr: "present (entry s ?D (pd_index ?a))"
    using Suc.prems(2) by (simp add: tables_upto_def entry_def t(4))
  then have can: "can_map s ?D ?a"
    by (simp add: can_map_def)
  let ?s1 = "map_in_dir ?D ?a f 3 s"
  note spec = map_in_dir_spec [OF wf can, where pa = f and flags = 3]
  let ?h1 = "h\<lparr>pages := ?s1, heap_end := ?a + 4096\<rparr>"
  have fr: "free_addrs (frames_of ?s1) = free_addrs (frames_of (pages h)) - {f}"
    using card_subset_eq [OF frames.finite_frees map_in_dir_frames(1) [OF wf can, where pa = f and flags = 3]]
      map_in_dir_frames(2) [OF wf can, where pa = f and flags = 3] pr free1 by simp
  have tab: "tables_upto ?s1 ?D 32768"
    unfolding tables_upto_def
  proof (intro allI impI)
    fix i :: u32
    assume i: "i < 1024"
    show "present (entry ?s1 ?D i) \<longleftrightarrow> unat i < (32768 + 1023) div 1024"
      using map_in_dir_directory [OF wf can i, where pa = f and flags = 3] pr Suc.prems(2) i
      by (auto simp: tables_upto_def entry_def t(4))
  qed
  have u: "unat (frame_addr (Suc k)) = 4096 * Suc k"
    using Suc.prems(5) by (intro frame_addr_simps(1)) simp
  have nd: "(if frame_addr (Suc k) > 4096 then frame_addr (Suc k) - 4096 else 0) = frame_addr k"
    using u by (cases k) (auto simp: word_less_nat_alt frame_addr_simps(2,3))
  have ex: "expand (frame_addr (Suc k)) h = expand (frame_addr k) ?h1"
  proof -
    have "?a < heap_limit h"
      using ua Suc.prems(4,5) by (simp add: word_less_nat_alt)
    moreover have "frame_addr (Suc k) > 0"
      unfolding word_less_nat_alt u by simp
    ultimately show ?thesis
      using nd ks by (subst expand.simps) (simp add: al hal_paging_map_def HAL_PG_PRESENT_def HAL_PG_WRITE_def Let_def)
  qed
  have "heap_end ?h1 = frame_addr (Suc p)"
    using Suc.prems(3) by (simp add: frame_addr_simps)
  moreover have "k \<le> card (free_addrs (frames_of (pages ?h1)))"
    using Suc.prems(6) fr t(1) frames.finite_frees by simp
  ultimately obtain fs where fs: "length fs = k" "distinct fs" "set fs \<subseteq> free_addrs (frames_of ?s1)"
    "free_addrs (frames_of (pages (expand (frame_addr k) ?h1))) = free_addrs (frames_of ?s1) - set fs"
    "kernel_dir (pages (expand (frame_addr k) ?h1)) = ?D" "dir_wf (pages (expand (frame_addr k) ?h1)) ?D"
    "\<And>va. leaf (pages (expand (frame_addr k) ?h1)) ?D va =
       (if Suc p \<le> unat va div 4096 \<and> unat va div 4096 < Suc p + k then new_leaf (fs ! (unat va div 4096 - Suc p)) 3
        else leaf ?s1 ?D va)"
    using Suc.IH [of ?h1 "Suc p"] Suc.prems(4,5) spec(1) tab ks by auto
  have lf: "leaf s ?D va = leaf (pages h) ?D va" for va
    by (rule leaf_cong [OF t(4)])
  have pg: "va AND NOT 0xFFF = ?a AND NOT 0xFFF \<longleftrightarrow> unat va div 4096 = p" for va
    unfolding same_page_iff ua by simp
  have "leaf (pages (expand (frame_addr (Suc k)) h)) ?D va =
      (if p \<le> unat va div 4096 \<and> unat va div 4096 < p + Suc k then new_leaf ((f # fs) ! (unat va div 4096 - p)) 3
       else leaf (pages h) ?D va)" for va
  proof (cases "unat va div 4096 = p")
    case True
    then show ?thesis
      unfolding ex fs(7) spec(2) pg by simp
  next
    case False
    then have "p \<le> unat va div 4096 \<longleftrightarrow> Suc p \<le> unat va div 4096"
      by auto
    moreover have "unat va div 4096 - p = Suc (unat va div 4096 - Suc p)" if "Suc p \<le> unat va div 4096"
      using that by simp
    ultimately show ?thesis
      unfolding ex fs(7) spec(2) pg using False by (simp add: lf)
  qed
  moreover have "distinct (f # fs)" "set (f # fs) \<subseteq> free_addrs (frames_of (pages h))" "length (f # fs) = Suc k"
    using fs(1-3) fr t(1) by auto
  moreover have "free_addrs (frames_of (pages (expand (frame_addr (Suc k)) h))) = free_addrs (frames_of (pages h)) - set (f # fs)"
    unfolding ex fs(4) fr by auto
  ultimately show ?case
    using fs(5,6) unfolding ex by blast
qed

lemma expand_cr3: "cr3 (pages (expand need h)) = cr3 (pages h)"
proof (induction need h rule: expand.induct)
  case (1 need h)
  have m: "cr3 (map_in_dir dir va pa flags s) = cr3 s" for dir va pa flags s
    by (simp add: map_in_dir_def Let_def alloc_frame_def clear_page_def set_entry_def split: prod.splits)
  show ?case
  proof (cases "heap_end h < heap_limit h \<and> need > 0")
    case True
    obtain f s where al: "alloc_frame (pages h) = (f, s)"
      by force
    have "cr3 s = cr3 (pages h)"
      using al by (auto simp: alloc_frame_def split: prod.splits)
    then show ?thesis
      using 1 [OF True al [symmetric] refl refl refl] True by (simp add: expand_step [OF _ _ al] hal_paging_map_def m)
  next
    case False
    then show ?thesis
      using expand_stop [OF False] by simp
  qed
qed

lemma hal_paging_resolve_leaf:
  "hal_paging_resolve va s = (if present (leaf s (kernel_dir s) va)
     then frame_of (leaf s (kernel_dir s) va) OR (va AND 0xFFF) else 0)"
  by (simp add: hal_paging_resolve_def leaf_def table_of_def frame_of_def Let_def)

lemma new_leaf_facts: "present (new_leaf pa f)" "frame_of (new_leaf pa f) = pa AND NOT 0xFFF"
  unfolding new_leaf_def frame_of_def by (rule present_entry, rule frame_of_entry)

lemma page_aligned_frame: "page_aligned a \<Longrightarrow> a AND NOT 0xFFF = a"
  unfolding page_aligned_bits ones_12 by (intro bit_word_eqI) (auto simp: bit_simps not_less)

lemma card_free_addrs: "pmm_wf p \<Longrightarrow> card (free_addrs p) = card (free_set p)"
  unfolding free_addrs_def using free_set_wf_less frame_addr_inj
  by (intro card_image inj_onI) blast

section \<open>The memory of the kernel at boot\<close>

text \<open>The steps of \<^verbatim>\<open>kernel_main\<close> that set up memory.\<close>

definition init_memory :: "u32 \<Rightarrow> u32 \<Rightarrow> vmm \<Rightarrow> vmm" where
  "init_memory mem_upper kernel_end h =
     (let h = h\<lparr>pages := (pages h)\<lparr>frames_of := pmm_init mem_upper kernel_end\<rparr>\<rparr>;
          h = h\<lparr>pages := hal_paging_init (pages h)\<rparr>
      in vmm_init h)"

text \<open>
  C10. The boot sequence gives the kernel the address space it relies on: the first 128 MiB are mapped to
  themselves, but for the 4 MiB of the heap, which are mapped to distinct frames that were free; nothing
  else is mapped, the directory is well formed and loaded, and the heap is one free block. Physical frames
  that lie in the window of the heap cannot be reached through their own address.
\<close>

theorem boot_kernel_space:
  assumes "unat mem_upper < 4193280" and "unat kernel_end \<le> 4293914624"
    and "(unat kernel_end + 4095) div 4096 + 256 + 1057 \<le> (1024 + unat mem_upper) div 4"
  shows "\<exists>fs. length fs = 1024 \<and> distinct fs \<and> set fs \<subseteq> free_addrs (pmm_init mem_upper kernel_end)
    \<and> (let h' = init_memory mem_upper kernel_end h; m = pages h' in
       (\<forall>va. hal_paging_resolve va m =
          (if HEAP_START \<le> va \<and> va < 0x2400000 then fs ! (unat va div 4096 - 8192) OR (va AND 0xFFF)
           else if va < 0x8000000 then va else 0))
       \<and> dir_wf m (kernel_dir m) \<and> cr3 m = kernel_dir m
       \<and> heap_inv h' [HEAP_START] \<and> bfree h' HEAP_START)"
proof -
  let ?p = "pmm_init mem_upper kernel_end"
  let ?m = "(pages h)\<lparr>frames_of := ?p\<rparr>"
  let ?m1 = "hal_paging_init ?m"
  let ?h1 = "h\<lparr>pages := ?m1\<rparr>" let ?h2 = "?h1\<lparr>heap_end := HEAP_START, heap_limit := HEAP_MAX\<rparr>"
  let ?h' = "vmm_init ?h1"
  have inv: "pmm_inv (frames_of ?m)"
    using pmm_init_spec(3) by simp
  have "card (free_addrs ?p) = (1024 + unat mem_upper) div 4 - ((unat kernel_end + 4095) div 4096 + 256)"
    using card_free_addrs [of ?p] inv pmm_init_range [OF assms(1,2)] by (simp add: pmm_inv_def)
  then have c: "1057 \<le> card (free_addrs ?p)"
    using assms(3) by simp
  then have "33 \<le> card (free_addrs (frames_of ?m))"
    by simp
  note I = hal_paging_init_spec [OF inv this]
  let ?D = "kernel_dir ?m1"
  have sz: "(0x400000 :: u32) = frame_addr 1024" "HEAP_START = frame_addr 8192"
    by (simp_all add: frame_addr_def PMM_FRAME_SIZE_def HEAP_START_def)
  have "\<exists>fs. length fs = 1024 \<and> distinct fs \<and> set fs \<subseteq> free_addrs (frames_of (pages ?h2))
    \<and> free_addrs (frames_of (pages (expand (frame_addr 1024) ?h2))) = free_addrs (frames_of (pages ?h2)) - set fs
    \<and> kernel_dir (pages (expand (frame_addr 1024) ?h2)) = kernel_dir (pages ?h2)
    \<and> dir_wf (pages (expand (frame_addr 1024) ?h2)) (kernel_dir (pages ?h2))
    \<and> (\<forall>va. leaf (pages (expand (frame_addr 1024) ?h2)) (kernel_dir (pages ?h2)) va =
          (if 8192 \<le> unat va div 4096 \<and> unat va div 4096 < 8192 + 1024 then new_leaf (fs ! (unat va div 4096 - 8192)) 3
           else leaf (pages ?h2) (kernel_dir (pages ?h2)) va))"
    using I(1,2,7) c by (intro expand_maps) (simp_all add: sz(2) HEAP_MAX_def)
  then obtain fs where fs: "length fs = 1024" "distinct fs" "set fs \<subseteq> free_addrs (frames_of ?m1)"
    "kernel_dir (pages (expand (frame_addr 1024) ?h2)) = ?D" "dir_wf (pages (expand (frame_addr 1024) ?h2)) ?D"
    "\<And>va. leaf (pages (expand (frame_addr 1024) ?h2)) ?D va =
       (if 8192 \<le> unat va div 4096 \<and> unat va div 4096 < 8192 + 1024 then new_leaf (fs ! (unat va div 4096 - 8192)) 3
        else leaf ?m1 ?D va)"
    by auto
  have pg: "pages ?h' = pages (expand (frame_addr 1024) ?h2)"
    by (simp add: vmm_init_def Let_def sz(1))
  have h': "init_memory mem_upper kernel_end h = ?h'"
    by (simp add: init_memory_def Let_def)
  have "hal_paging_resolve va (pages ?h') =
      (if HEAP_START \<le> va \<and> va < 0x2400000 then fs ! (unat va div 4096 - 8192) OR (va AND 0xFFF)
       else if va < 0x8000000 then va else 0)" for va
  proof -
    have "HEAP_START \<le> va \<and> va < 0x2400000 \<longleftrightarrow> 8192 \<le> unat va div 4096 \<and> unat va div 4096 < 8192 + 1024"
      by (simp add: HEAP_START_def word_le_nat_alt word_less_nat_alt less_eq_div_iff_mult_less_eq div_less_iff_less_mult)
    moreover have "fs ! (unat va div 4096 - 8192) AND NOT 0xFFF = fs ! (unat va div 4096 - 8192)"
      if "8192 \<le> unat va div 4096 \<and> unat va div 4096 < 8192 + 1024"
    proof -
      have "fs ! (unat va div 4096 - 8192) \<in> set fs"
        using that fs(1) by (intro nth_mem) linarith
      then show ?thesis
        using fs(3) page_aligned_free [OF dir_wfD(1) [OF I(1)]] by (intro page_aligned_frame) blast
    qed
    ultimately show ?thesis
      unfolding hal_paging_resolve_leaf pg fs(4,6) I(3)
      using new_leaf_facts page_split [of va] by (simp add: word_less_nat_alt)
  qed
  moreover have "set fs \<subseteq> free_addrs ?p"
    using fs(3) I(6) by simp
  moreover have "cr3 (pages ?h') = kernel_dir (pages ?h')"
    unfolding pg fs(4) expand_cr3 using I(4) by simp
  ultimately show ?thesis
    unfolding h' Let_def using fs(1,2,4,5) pg vmm_init_heap_inv(1,2) [of ?h1] by (intro exI [of _ fs]) auto
qed

theorem boot_kernel_space_witness:
  "\<forall>h. hal_paging_resolve 0x100123 (pages (init_memory 32768 0x200000 h)) = 0x100123
    \<and> hal_paging_resolve 0x9000000 (pages (init_memory 32768 0x200000 h)) = 0"
proof
  fix h
  show "hal_paging_resolve 0x100123 (pages (init_memory 32768 0x200000 h)) = 0x100123
    \<and> hal_paging_resolve 0x9000000 (pages (init_memory 32768 0x200000 h)) = 0"
    using boot_kernel_space [of 32768 "0x200000" h] by (auto simp: Let_def HEAP_START_def)
qed

end
