(* ===== verification/Ports.thy ===== *)
theory Ports
  imports Prelude
begin

text \<open>
  Port input and output, \<^verbatim>\<open>kernel/i386/io.c\<close>. The devices behind the ports are a parameter: a record of
  what reading and writing a port does to the state \<open>'d\<close> of the devices. The drivers pass it on and say
  in the hypotheses of their theorems what they rely on.
\<close>

unbundle bit_operations_syntax

record 'd ports =
  inb :: "u16 \<Rightarrow> 'd \<Rightarrow> u8 \<times> 'd"
  inw :: "u16 \<Rightarrow> 'd \<Rightarrow> u16 \<times> 'd"
  outb :: "u16 \<Rightarrow> u8 \<Rightarrow> 'd \<Rightarrow> 'd"
  outw :: "u16 \<Rightarrow> u16 \<Rightarrow> 'd \<Rightarrow> 'd"

definition hal_inb :: "'d ports \<Rightarrow> u16 \<Rightarrow> 'd \<Rightarrow> u8 \<times> 'd" where
  "hal_inb io port d = inb io port d"

definition hal_inw :: "'d ports \<Rightarrow> u16 \<Rightarrow> 'd \<Rightarrow> u16 \<times> 'd" where
  "hal_inw io port d = inw io port d"

definition hal_outb :: "'d ports \<Rightarrow> u16 \<Rightarrow> u8 \<Rightarrow> 'd \<Rightarrow> 'd" where
  "hal_outb io port val d = outb io port val d"

definition hal_outw :: "'d ports \<Rightarrow> u16 \<Rightarrow> u16 \<Rightarrow> 'd \<Rightarrow> 'd" where
  "hal_outw io port val d = outw io port val d"

definition hal_io_wait :: "'d ports \<Rightarrow> 'd \<Rightarrow> 'd" where
  "hal_io_wait io d = hal_outb io 0x80 0 d"

text \<open>The bytes of a 16-bit word in memory.\<close>

definition lo8 :: "u16 \<Rightarrow> u8" where
  "lo8 w = ucast w"

definition hi8 :: "u16 \<Rightarrow> u8" where
  "hi8 w = ucast (drop_bit 8 w)"

definition word16 :: "u8 \<Rightarrow> u8 \<Rightarrow> u16" where
  "word16 l h = ucast l OR push_bit 8 (ucast h)"

lemma bit_high_byte: "8 \<le> n \<Longrightarrow> \<not> bit (a :: u8) n"
  by (auto dest: bit_imp_le_length)

lemma word16_bytes [simp]: "lo8 (word16 l h) = l" "hi8 (word16 l h) = h" "word16 (lo8 w) (hi8 w) = w"
proof -
  show "lo8 (word16 l h) = l" "hi8 (word16 l h) = h"
    by (rule bit_word_eqI; use bit_high_byte in \<open>force simp: lo8_def hi8_def word16_def bit_simps\<close>)+
  show "word16 (lo8 w) (hi8 w) = w"
    by (rule bit_word_eqI) (auto simp: lo8_def hi8_def word16_def bit_simps)
qed

end
