(* ===== verification/Interrupts.thy ===== *)
theory Interrupts
  imports Ports Syscall
begin

text \<open>
  The descriptor tables of the CPU (\<^verbatim>\<open>kernel/i386/gdt.c\<close>, \<^verbatim>\<open>kernel/i386/idt.c\<close>), the interrupt
  controller, the timer (\<^verbatim>\<open>kernel/i386/pit.c\<close>) and the serial line (\<^verbatim>\<open>kernel/drivers/serial.c\<close>).
  Addresses of assembly routines are parameters. The devices are reached through the ports of theory
  \<open>Ports\<close>; loading a table into the CPU is a field.
\<close>

unbundle bit_operations_syntax

section \<open>Segment descriptors\<close>

record gdt_entry =
  limit_low :: u16
  gdt_base_low :: u16
  base_mid :: u8
  access :: u8
  granularity :: u8
  gdt_base_high :: u8

text \<open>The fields of the task state segment that are not zero.\<close>

record tss_entry =
  t_esp0 :: u32
  t_ss0 :: u32
  t_es :: u32
  t_cs :: u32
  t_ss :: u32
  t_ds :: u32
  t_fs :: u32
  t_gs :: u32
  iomap_base :: u16

record segments =
  gdt :: "gdt_entry list"
  gdt_limit :: u16
  tss :: tss_entry
  gdtr_loaded :: bool
  task_register :: u16

definition gdt_set :: "nat \<Rightarrow> u32 \<Rightarrow> u32 \<Rightarrow> u8 \<Rightarrow> u8 \<Rightarrow> gdt_entry list \<Rightarrow> gdt_entry list" where
  "gdt_set i base limit acc gran t = t[i := \<lparr>
     limit_low = ucast (limit AND 0xFFFF),
     gdt_base_low = ucast (base AND 0xFFFF),
     base_mid = ucast (drop_bit 16 base AND 0xFF),
     access = acc,
     granularity = ucast (drop_bit 16 limit AND 0x0F) OR (gran AND 0xF0),
     gdt_base_high = ucast (drop_bit 24 base AND 0xFF)\<rparr>]"

definition TSS_SIZE :: nat where
  "TSS_SIZE = 104"

definition tss_init :: "u32 \<Rightarrow> segments \<Rightarrow> segments" where
  "tss_init base c =
     c\<lparr>gdt := gdt_set 5 base (of_nat TSS_SIZE) 0x89 0x00 (gdt c),
       tss := \<lparr>t_esp0 = 0, t_ss0 = 0x10, t_es = 0x13, t_cs = 0x0B, t_ss = 0x13, t_ds = 0x13, t_fs = 0x13, t_gs = 0x13,
         iomap_base = of_nat TSS_SIZE\<rparr>\<rparr>"

definition hal_cpu_init :: "u32 \<Rightarrow> segments \<Rightarrow> segments" where
  "hal_cpu_init tss_addr c =
     (let c = c\<lparr>gdt_limit := 8 * 6 - 1\<rparr>;
          c = c\<lparr>gdt := gdt_set 0 0 0 0 0 (gdt c)\<rparr>;
          c = c\<lparr>gdt := gdt_set 1 0 0xFFFFF 0x9A 0xCF (gdt c)\<rparr>;
          c = c\<lparr>gdt := gdt_set 2 0 0xFFFFF 0x92 0xCF (gdt c)\<rparr>;
          c = c\<lparr>gdt := gdt_set 3 0 0xFFFFF 0xFA 0xCF (gdt c)\<rparr>;
          c = c\<lparr>gdt := gdt_set 4 0 0xFFFFF 0xF2 0xCF (gdt c)\<rparr>;
          c = tss_init tss_addr c
      in c\<lparr>gdtr_loaded := True, task_register := 0x2B\<rparr>)"

section \<open>Gates\<close>

record idt_entry =
  idt_base_low :: u16
  gate_sel :: u16
  gate_zero :: u8
  gate_flags :: u8
  idt_base_high :: u16

definition idt_set :: "nat \<Rightarrow> u32 \<Rightarrow> u16 \<Rightarrow> u8 \<Rightarrow> idt_entry list \<Rightarrow> idt_entry list" where
  "idt_set i base s fl t = t[i := \<lparr>idt_base_low = ucast (base AND 0xFFFF), gate_sel = s, gate_zero = 0, gate_flags = fl,
     idt_base_high = ucast (drop_bit 16 base AND 0xFFFF)\<rparr>]"

datatype irq_handler = Null_handler | Pit_handler | Kbd_handler | Serial_handler

record 'd hw =
  idt :: "idt_entry list"
  idt_limit :: u16
  irq_handlers :: "irq_handler list"
  timer_ticks :: "64 word"
  msys :: sys
  dev :: 'd

definition pic_remap :: "'d ports \<Rightarrow> 'd \<Rightarrow> 'd" where
  "pic_remap io d =
     fold (\<lambda>(port, v) d. hal_io_wait io (hal_outb io port v d))
       [(0x20, 0x11), (0xA0, 0x11), (0x21, 0x20), (0xA1, 0x28), (0x21, 0x04), (0xA1, 0x02), (0x21, 0x01),
        (0xA1, 0x01), (0x21, 0xFF), (0xA1, 0xFF)] d"

definition null_gate :: idt_entry where
  "null_gate = \<lparr>idt_base_low = 0, gate_sel = 0, gate_zero = 0, gate_flags = 0, idt_base_high = 0\<rparr>"

text \<open>The stubs of \<^verbatim>\<open>isr_stubs.s\<close>: \<open>isr i\<close> for exceptions and the system call, \<open>irq i\<close> for lines.\<close>

definition hal_interrupts_init :: "(nat \<Rightarrow> u32) \<Rightarrow> (nat \<Rightarrow> u32) \<Rightarrow> 'd ports \<Rightarrow> 'd hw \<Rightarrow> 'd hw" where
  "hal_interrupts_init isr irq io h =
     (let h = h\<lparr>idt_limit := 8 * 256 - 1, idt := replicate 256 null_gate, irq_handlers := replicate 16 Null_handler\<rparr>;
          h = h\<lparr>dev := pic_remap io (dev h)\<rparr>;
          h = h\<lparr>idt := fold (\<lambda>i. idt_set i (isr i) 0x08 0x8E) [0..<32] (idt h)\<rparr>;
          h = h\<lparr>idt := fold (\<lambda>i. idt_set (32 + i) (irq i) 0x08 0x8E) [0..<16] (idt h)\<rparr>
      in h\<lparr>idt := idt_set 144 (isr 144) 0x08 0xEE (idt h)\<rparr>)"

section \<open>Interrupt lines\<close>

definition hal_irq_register :: "int \<Rightarrow> irq_handler \<Rightarrow> 'd hw \<Rightarrow> 'd hw" where
  "hal_irq_register irq handler h =
     (if irq \<ge> 0 \<and> irq < 16 then h\<lparr>irq_handlers := (irq_handlers h)[nat irq := handler]\<rparr> else h)"

definition hal_irq_eoi :: "'d ports \<Rightarrow> int \<Rightarrow> 'd \<Rightarrow> 'd" where
  "hal_irq_eoi io irq d =
     (let d = (if irq \<ge> 8 then hal_outb io 0xA0 0x20 d else d) in hal_outb io 0x20 0x20 d)"

definition irq_port :: "int \<Rightarrow> u16" where
  "irq_port irq = (if irq < 8 then 0x21 else 0xA1)"

definition irq_bit :: "int \<Rightarrow> nat" where
  "irq_bit irq = nat (if irq \<ge> 8 then irq - 8 else irq)"

definition hal_irq_mask :: "'d ports \<Rightarrow> int \<Rightarrow> 'd \<Rightarrow> 'd" where
  "hal_irq_mask io irq d =
     (let (v, d) = hal_inb io (irq_port irq) d in hal_outb io (irq_port irq) (v OR push_bit (irq_bit irq) 1) d)"

definition hal_irq_unmask :: "'d ports \<Rightarrow> int \<Rightarrow> 'd \<Rightarrow> 'd" where
  "hal_irq_unmask io irq d =
     (let (v, d) = hal_inb io (irq_port irq) d in hal_outb io (irq_port irq) (v AND NOT (push_bit (irq_bit irq) 1)) d)"

section \<open>Timer\<close>

text \<open>\<^verbatim>\<open>hal_timer_init\<close>; a frequency of 0 is a division by zero.\<close>

definition hal_timer_init :: "'d ports \<Rightarrow> u32 \<Rightarrow> 'd hw \<Rightarrow> 'd hw option" where
  "hal_timer_init io freq_hz h =
     (if freq_hz = 0 then None
      else let h = h\<lparr>timer_ticks := 0\<rparr>;
               divisor = 1193182 div freq_hz;
               d = hal_outb io 0x43 0x36 (dev h);
               d = hal_outb io 0x40 (ucast (divisor AND 0xFF)) d;
               d = hal_outb io 0x40 (ucast (drop_bit 8 divisor AND 0xFF)) d;
               h = hal_irq_register 0 Pit_handler (h\<lparr>dev := d\<rparr>)
           in Some (h\<lparr>dev := hal_irq_unmask io 0 (dev h)\<rparr>))"

definition hal_timer_ticks :: "'d hw \<Rightarrow> 64 word" where
  "hal_timer_ticks h = timer_ticks h"

definition pit_handler :: "'d hw \<Rightarrow> 'd hw option" where
  "pit_handler h =
     (let h = h\<lparr>timer_ticks := timer_ticks h + 1\<rparr> in
      map_option (\<lambda>c. h\<lparr>msys := put_sched c (msys h)\<rparr>) (sched_tick (sch (msys h))))"

section \<open>Serial line\<close>

definition COM1 :: u16 where
  "COM1 = 0x3F8"

definition serial_init :: "'d ports \<Rightarrow> 'd \<Rightarrow> 'd" where
  "serial_init io d =
     fold (\<lambda>(r, v) d. hal_outb io (COM1 + r) v d)
       [(1, 0x00), (3, 0x80), (0, 0x03), (1, 0x00), (3, 0x03), (2, 0xC7), (4, 0x0B)] d"

definition is_transmit_empty :: "'d ports \<Rightarrow> 'd \<Rightarrow> bool \<times> 'd" where
  "is_transmit_empty io d = (let (v, d) = hal_inb io (COM1 + 5) d in (v AND 0x20 \<noteq> 0, d))"

text \<open>Waiting for the transmitter may never end; sending is then \<open>None\<close>.\<close>

partial_function (option) serial_putc :: "'d ports \<Rightarrow> u8 \<Rightarrow> 'd \<Rightarrow> 'd option" where
  "serial_putc io c d =
     (let (e, d) = is_transmit_empty io d in if e then Some (hal_outb io COM1 c d) else serial_putc io c d)"

fun serial_puts :: "'d ports \<Rightarrow> bytes \<Rightarrow> 'd \<Rightarrow> 'd option" where
  "serial_puts io [] d = Some d"
| "serial_puts io (c # cs) d = (case serial_putc io c d of None \<Rightarrow> None | Some d \<Rightarrow> serial_puts io cs d)"

definition serial_received :: "'d ports \<Rightarrow> 'd \<Rightarrow> bool \<times> 'd" where
  "serial_received io d = (let (v, d) = hal_inb io (COM1 + 5) d in (v AND 1 \<noteq> 0, d))"

definition serial_getc_nb :: "'d ports \<Rightarrow> 'd \<Rightarrow> int \<times> 'd" where
  "serial_getc_nb io d =
     (let (r, d) = serial_received io d in
      if \<not> r then (- 1, d) else let (c, d) = hal_inb io COM1 d in (uint c, d))"

partial_function (option) serial_getc :: "'d ports \<Rightarrow> 'd \<Rightarrow> (u8 \<times> 'd) option" where
  "serial_getc io d =
     (let (r, d) = serial_received io d in if r then Some (hal_inb io COM1 d) else serial_getc io d)"

text \<open>The loop that both \<^verbatim>\<open>serial_handler\<close> and \<^verbatim>\<open>serial_enable_input\<close> end with.\<close>

partial_function (option) serial_drain :: "'d ports \<Rightarrow> kbd \<Rightarrow> 'd \<Rightarrow> (kbd \<times> 'd) option" where
  "serial_drain io k d =
     (let (r, d) = serial_received io d in
      if \<not> r then Some (k, d)
      else let (c, d) = hal_inb io COM1 d;
               c = (if c = 13 then 10 else c)
           in serial_drain io (keyboard_enqueue c k) d)"

declare serial_putc.simps [code] serial_getc.simps [code] serial_drain.simps [code]

definition serial_handler :: "'d ports \<Rightarrow> 'd hw \<Rightarrow> 'd hw option" where
  "serial_handler io h =
     map_option (\<lambda>(k, d). h\<lparr>msys := (msys h)\<lparr>kb := k\<rparr>, dev := d\<rparr>) (serial_drain io (kb (msys h)) (dev h))"

definition serial_enable_input :: "'d ports \<Rightarrow> 'd hw \<Rightarrow> 'd hw option" where
  "serial_enable_input io h =
     (let h = hal_irq_register 4 Serial_handler h;
          d = hal_outb io (COM1 + 1) 0x01 (dev h);
          d = hal_irq_unmask io 4 d
      in serial_handler io (h\<lparr>dev := d\<rparr>))"

section \<open>Keyboard\<close>

text \<open>
  The rest of \<^verbatim>\<open>keyboard_init\<close>: the handler is registered, the line is unmasked, and what the controller
  has buffered is thrown away.
\<close>

partial_function (option) kbd_flush :: "'d ports \<Rightarrow> 'd \<Rightarrow> 'd option" where
  "kbd_flush io d =
     (let (v, d) = hal_inb io 0x64 d in
      if v AND 1 \<noteq> 0 then kbd_flush io (snd (hal_inb io 0x60 d)) else Some d)"

declare kbd_flush.simps [code]

definition keyboard_start :: "'d ports \<Rightarrow> 'd hw \<Rightarrow> 'd hw option" where
  "keyboard_start io h =
     (let h = h\<lparr>msys := (msys h)\<lparr>kb := keyboard_init (kb (msys h))\<rparr>\<rparr>;
          h = hal_irq_register 1 Kbd_handler h;
          d = hal_irq_unmask io 1 (dev h)
      in map_option (\<lambda>d. h\<lparr>dev := d\<rparr>) (kbd_flush io d))"

section \<open>Dispatch\<close>

text \<open>The scan code the keyboard handler reads comes from port 0x60.\<close>

definition run_handler :: "'d ports \<Rightarrow> irq_handler \<Rightarrow> 'd hw \<Rightarrow> 'd hw option" where
  "run_handler io f h =
     (case f of
        Null_handler \<Rightarrow> Some h
      | Pit_handler \<Rightarrow> pit_handler h
      | Kbd_handler \<Rightarrow>
          let (sc, d) = hal_inb io 0x60 (dev h)
          in Some (h\<lparr>msys := (msys h)\<lparr>kb := kbd_handler sc (kb (msys h))\<rparr>, dev := d\<rparr>)
      | Serial_handler \<Rightarrow> serial_handler io h)"

text \<open>
  \<^verbatim>\<open>irq_dispatch\<close>. A handler that switches to another task does not come back here until the interrupted
  task runs again: the CPU goes on with the other task, and the interrupt is acknowledged (\<open>irq_resume\<close>)
  when the interrupted one is resumed.
\<close>

definition irq_number :: "trapframe \<Rightarrow> int" where
  "irq_number tf = sint (tf_int_no tf - 32)"

definition irq_resume :: "'d ports \<Rightarrow> trapframe \<Rightarrow> 'd hw \<Rightarrow> 'd hw" where
  "irq_resume io tf h = h\<lparr>dev := hal_irq_eoi io (irq_number tf) (dev h)\<rparr>"

definition irq_dispatch :: "'d ports \<Rightarrow> trapframe \<Rightarrow> 'd hw \<Rightarrow> 'd hw option" where
  "irq_dispatch io tf h =
     (let irq = irq_number tf in
      case (if irq \<ge> 0 \<and> irq < 16 then run_handler io (irq_handlers h ! nat irq) h else Some h) of
        None \<Rightarrow> None
      | Some h2 \<Rightarrow> Some (if current (sch (msys h2)) = current (sch (msys h)) then irq_resume io tf h2 else h2))"

section \<open>Decoding the tables\<close>

text \<open>What the CPU takes from a descriptor and from a gate.\<close>

definition desc_base :: "gdt_entry \<Rightarrow> u32" where
  "desc_base e = ucast (gdt_base_low e) OR push_bit 16 (ucast (base_mid e)) OR push_bit 24 (ucast (gdt_base_high e))"

definition desc_limit :: "gdt_entry \<Rightarrow> u32" where
  "desc_limit e = ucast (limit_low e) OR push_bit 16 (ucast (granularity e AND 0x0F))"

definition desc_last :: "gdt_entry \<Rightarrow> u32" where
  "desc_last e = (if bit (granularity e) 7 then push_bit 12 (desc_limit e) OR 0xFFF else desc_limit e)"

definition desc_dpl :: "gdt_entry \<Rightarrow> nat" where
  "desc_dpl e = unat (drop_bit 5 (access e) AND 3)"

definition code_segment :: "nat \<Rightarrow> gdt_entry \<Rightarrow> bool" where
  "code_segment dpl e \<longleftrightarrow> bit (access e) 7 \<and> bit (access e) 4 \<and> bit (access e) 3 \<and> desc_dpl e = dpl
     \<and> desc_base e = 0 \<and> desc_last e = 0xFFFFFFFF"

definition data_segment :: "nat \<Rightarrow> gdt_entry \<Rightarrow> bool" where
  "data_segment dpl e \<longleftrightarrow> bit (access e) 7 \<and> bit (access e) 4 \<and> \<not> bit (access e) 3 \<and> bit (access e) 1
     \<and> desc_dpl e = dpl \<and> desc_base e = 0 \<and> desc_last e = 0xFFFFFFFF"

definition gate_addr :: "idt_entry \<Rightarrow> u32" where
  "gate_addr g = ucast (idt_base_low g) OR push_bit 16 (ucast (idt_base_high g))"

definition gate_dpl :: "idt_entry \<Rightarrow> nat" where
  "gate_dpl g = unat (drop_bit 5 (gate_flags g) AND 3)"

definition interrupt_gate :: "idt_entry \<Rightarrow> bool" where
  "interrupt_gate g \<longleftrightarrow> bit (gate_flags g) 7 \<and> gate_flags g AND 0x1F = 0x0E \<and> gate_zero g = 0"

lemma length_gdt_set [simp]: "length (gdt_set i base limit acc gran t) = length t"
  by (simp add: gdt_set_def)

lemma gdt_set_base:
  assumes "i < length t"
  shows "desc_base (gdt_set i base limit acc gran t ! i) = base"
proof -
  have m: "(0xFFFF :: u32) = mask 16" "(0xFF :: u32) = mask 8"
    by (simp_all add: mask_eq_exp_minus_1)
  show ?thesis
  proof (rule bit_word_eqI)
    fix n
    assume "n < LENGTH(32)"
    then show "bit (desc_base (gdt_set i base limit acc gran t ! i)) n = bit base n"
      using assms unfolding gdt_set_def desc_base_def m by (cases "n < 16"; cases "n < 24") (auto simp: bit_simps)
  qed
qed

lemma idt_set_addr:
  assumes "i < length t"
  shows "gate_addr (idt_set i base s fl t ! i) = base"
proof -
  have m: "(0xFFFF :: u32) = mask 16"
    by (simp add: mask_eq_exp_minus_1)
  show ?thesis
    using assms unfolding idt_set_def gate_addr_def m by (intro bit_word_eqI) (auto simp: bit_simps)
qed

lemma length_idt_set [simp]: "length (idt_set i base s fl t) = length t"
  by (simp add: idt_set_def)

lemma idt_set_other: "j \<noteq> i \<Longrightarrow> idt_set i base s fl t ! j = t ! j"
  by (simp add: idt_set_def)

lemma idt_set_fields:
  "i < length t \<Longrightarrow> gate_sel (idt_set i base s fl t ! i) = s \<and> gate_flags (idt_set i base s fl t ! i) = fl
    \<and> gate_zero (idt_set i base s fl t ! i) = 0"
  by (simp add: idt_set_def)

text \<open>A gate that calls a routine, and a table filled by a loop.\<close>

definition gate_to :: "u32 \<Rightarrow> u8 \<Rightarrow> idt_entry \<Rightarrow> bool" where
  "gate_to a fl g \<longleftrightarrow> gate_addr g = a \<and> gate_sel g = 0x08 \<and> gate_flags g = fl \<and> gate_zero g = 0"

lemma fold_idt_set:
  assumes "inj f"
  shows "length (fold (\<lambda>i. idt_set (f i) (b i) 0x08 fl) ns t) = length t"
    and "distinct ns \<Longrightarrow> \<forall>i\<in>set ns. f i < length t \<Longrightarrow> i \<in> set ns \<Longrightarrow>
      gate_to (b i) fl (fold (\<lambda>i. idt_set (f i) (b i) 0x08 fl) ns t ! f i)"
    and "j \<notin> f ` set ns \<Longrightarrow> fold (\<lambda>i. idt_set (f i) (b i) 0x08 fl) ns t ! j = t ! j"
proof -
  have other: "fold (\<lambda>i. idt_set (f i) (b i) 0x08 fl) ns t ! j = t ! j" if "j \<notin> f ` set ns" for ns t j
    using that by (induction ns arbitrary: t) (auto simp: idt_set_other)
  show "fold (\<lambda>i. idt_set (f i) (b i) 0x08 fl) ns t ! j = t ! j" if "j \<notin> f ` set ns"
    using other [OF that] .
  show "length (fold (\<lambda>i. idt_set (f i) (b i) 0x08 fl) ns t) = length t"
    by (induction ns arbitrary: t) simp_all
  show "gate_to (b i) fl (fold (\<lambda>i. idt_set (f i) (b i) 0x08 fl) ns t ! f i)"
    if "distinct ns" "\<forall>i\<in>set ns. f i < length t" "i \<in> set ns"
    using that
  proof (induction ns arbitrary: t)
    case (Cons x xs)
    show ?case
    proof (cases "i = x")
      case True
      have "f x \<notin> f ` set xs"
        using Cons.prems(1) assms by (auto dest: injD)
      then show ?thesis
        using True Cons.prems(2) idt_set_addr [of "f x" t] idt_set_fields [of "f x" t]
        by (simp add: other gate_to_def)
    qed (use Cons in auto)
  qed simp
qed

lemma interrupt_gates:
  defines "v isr irq io h \<equiv> idt (hal_interrupts_init isr irq io h)"
  shows "length (v isr irq io h) = 256"
    and "i < 32 \<Longrightarrow> gate_to (isr i) 0x8E (v isr irq io h ! i)"
    and "32 \<le> i \<Longrightarrow> i < 48 \<Longrightarrow> gate_to (irq (i - 32)) 0x8E (v isr irq io h ! i)"
    and "gate_to (isr 144) 0xEE (v isr irq io h ! 144)"
    and "i < 256 \<Longrightarrow> \<not> i < 48 \<Longrightarrow> i \<noteq> 144 \<Longrightarrow> v isr irq io h ! i = null_gate"
proof -
  define v0 where "v0 = fold (\<lambda>i. idt_set i (isr i) 0x08 0x8E) [0..<32] (replicate 256 null_gate)"
  define v1 where "v1 = fold (\<lambda>i. idt_set (32 + i) (irq i) 0x08 0x8E) [0..<16] v0"
  have v: "v isr irq io h = idt_set 144 (isr 144) 0x08 0xEE v1"
    by (simp add: v_def hal_interrupts_init_def Let_def v0_def v1_def del: upt_rec_numeral)
  note F0 = fold_idt_set [where f = "\<lambda>i. i" and b = isr and fl = "0x8E" and ns = "[0..<32]" and t = "replicate 256 null_gate", folded v0_def]
  note F1 = fold_idt_set [where f = "\<lambda>i. 32 + i" and b = irq and fl = "0x8E" and ns = "[0..<16]" and t = v0, folded v1_def]
  have inj: "inj (\<lambda>i :: nat. 32 + i)" and id: "inj (\<lambda>i :: nat. i)"
    by (auto intro: injI)
  have l: "length v0 = 256" "length v1 = 256"
    using F0(1) [OF id] F1(1) [OF inj] by (simp_all del: upt_rec_numeral)
  show "length (v isr irq io h) = 256"
    by (simp add: v l)
  show "i < 32 \<Longrightarrow> gate_to (isr i) 0x8E (v isr irq io h ! i)"
    using F0(2) [OF id] F1(3) [OF inj, of i] by (auto simp: v idt_set_other simp del: upt_rec_numeral)
  show "32 \<le> i \<Longrightarrow> i < 48 \<Longrightarrow> gate_to (irq (i - 32)) 0x8E (v isr irq io h ! i)"
    using F1(2) [OF inj, of "i - 32"] l by (auto simp: v idt_set_other simp del: upt_rec_numeral)
  show "gate_to (isr 144) 0xEE (v isr irq io h ! 144)"
    using idt_set_addr [of 144 v1] idt_set_fields [of 144 v1] l by (simp add: v gate_to_def)
  show "i < 256 \<Longrightarrow> \<not> i < 48 \<Longrightarrow> i \<noteq> 144 \<Longrightarrow> v isr irq io h ! i = null_gate"
    using F0(3) [OF id, of i] F1(3) [OF inj, of i] by (auto simp: v v0_def idt_set_other image_iff simp del: upt_rec_numeral)
qed

lemma cpu_descriptors:
  assumes "length (gdt c) = 6"
  shows "code_segment 0 (gdt (hal_cpu_init a c) ! Suc 0)" "data_segment 0 (gdt (hal_cpu_init a c) ! 2)"
    "code_segment 3 (gdt (hal_cpu_init a c) ! 3)" "data_segment 3 (gdt (hal_cpu_init a c) ! 4)"
    "desc_base (gdt (hal_cpu_init a c) ! 5) = a"
proof -
  show "desc_base (gdt (hal_cpu_init a c) ! 5) = a"
    unfolding hal_cpu_init_def tss_init_def Let_def using assms by (simp add: gdt_set_base length_gdt_set)
  show "code_segment 0 (gdt (hal_cpu_init a c) ! Suc 0)" "data_segment 0 (gdt (hal_cpu_init a c) ! 2)"
    "code_segment 3 (gdt (hal_cpu_init a c) ! 3)" "data_segment 3 (gdt (hal_cpu_init a c) ! 4)"
    using assms
    by (simp_all add: hal_cpu_init_def tss_init_def gdt_set_def code_segment_def data_segment_def desc_dpl_def
        desc_base_def desc_last_def desc_limit_def bit_numeral_rec drop_bit_eq_div push_bit_eq_mult Let_def)
qed

section \<open>Properties\<close>


text \<open>Ports without devices, and tables before they are set up.\<close>

definition no_ports :: "unit ports" where
  "no_ports = \<lparr>inb = (\<lambda>_ d. (0, d)), inw = (\<lambda>_ d. (0, d)), outb = (\<lambda>_ _ d. d), outw = (\<lambda>_ _ d. d)\<rparr>"

definition raw_segments :: segments where
  "raw_segments = \<lparr>gdt = replicate 6 \<lparr>limit_low = 0, gdt_base_low = 0, base_mid = 0, access = 0, granularity = 0, gdt_base_high = 0\<rparr>,
     gdt_limit = 0, tss = \<lparr>t_esp0 = 0, t_ss0 = 0, t_es = 0, t_cs = 0, t_ss = 0, t_ds = 0, t_fs = 0, t_gs = 0, iomap_base = 0\<rparr>,
     gdtr_loaded = False, task_register = 0\<rparr>"


text \<open>
  What the driver relies on of the serial port: bit 0 of the line status says whether a character is waiting,
  and reading the data register takes the oldest one. \<open>rx\<close> shows the characters that are waiting.
\<close>

definition uart :: "'d ports \<Rightarrow> ('d \<Rightarrow> bytes) \<Rightarrow> bool" where
  "uart io rx \<longleftrightarrow>
     (\<forall>d. let (v, d') = inb io 0x3FD d in (v AND 1 \<noteq> 0 \<longleftrightarrow> rx d \<noteq> []) \<and> rx d' = rx d)
     \<and> (\<forall>d. rx d \<noteq> [] \<longrightarrow> (let (c, d') = inb io 0x3F8 d in c = hd (rx d) \<and> rx d' = tl (rx d)))"

definition newline :: "u8 \<Rightarrow> u8" where
  "newline c = (if c = 13 then 10 else c)"

lemma serial_drain_spec:
  assumes "uart io rx"
  shows "\<exists>d'. serial_drain io k d = Some (fold keyboard_enqueue (map newline (rx d)) k, d') \<and> rx d' = []"
proof (induction "rx d" arbitrary: k d)
  case Nil
  obtain v d1 where v: "inb io 0x3FD d = (v, d1)"
    by force
  have "v AND 1 = 0 \<and> rx d1 = []"
    using assms Nil v unfolding uart_def by (auto dest!: spec [of _ d])
  then show ?case
    using Nil v by (subst serial_drain.simps) (simp add: serial_received_def hal_inb_def COM1_def Let_def)
next
  case (Cons c cs)
  obtain v d1 where v: "inb io 0x3FD d = (v, d1)"
    by force
  have v1: "v AND 1 \<noteq> 0 \<and> rx d1 = c # cs"
    using assms Cons.hyps(2) v unfolding uart_def by (auto dest!: spec [of _ d])
  obtain w d2 where w: "inb io 0x3F8 d1 = (w, d2)"
    by force
  have w1: "w = c \<and> rx d2 = cs"
    using assms v1 w unfolding uart_def by (auto dest!: spec [of _ d1])
  have "serial_drain io k d = serial_drain io (keyboard_enqueue (newline c) k) d2"
    using v v1 w w1 by (subst serial_drain.simps) (simp add: serial_received_def hal_inb_def COM1_def newline_def Let_def)
  then show ?case
    using Cons.hyps(1) [of d2 "keyboard_enqueue (newline c) k"] w1 Cons.hyps(2) [symmetric] by simp
qed

text \<open>
  C40. Characters that arrive on the serial line reach the reader of the keyboard in order, after what was
  typed before, with carriage returns as newlines, as long as there is room; the interrupt ends with nothing
  left waiting and one acknowledgement to the interrupt controller.
\<close>

theorem serial_irq_delivers:
  assumes "uart io rx" and "irq_handlers h ! 4 = Serial_handler" and "tf_int_no tf = 36"
    and "kbd_inv (kb (msys h))" and "3 \<notin> set (rx (dev h))"
    and "length (kbd_chars (kb (msys h))) + length (rx (dev h)) \<le> 255"
  shows "\<exists>h' d. irq_dispatch io tf h = Some h' \<and> rx d = [] \<and> dev h' = outb io 0x20 0x20 d
    \<and> fst (drain kbd_take (length (kbd_chars (kb (msys h))) + length (rx (dev h))) (kb (msys h')))
        = kbd_chars (kb (msys h)) @ map newline (rx (dev h))"
proof -
  let ?k = "kb (msys h)" let ?xs = "map newline (rx (dev h))"
  obtain d where d: "serial_drain io ?k (dev h) = Some (fold keyboard_enqueue ?xs ?k, d)" "rx d = []"
    using serial_drain_spec [OF assms(1)] by blast
  have st: "fold keyboard_enqueue xs k = fold kbd_store xs k" if "3 \<notin> set xs" for xs k
    using that by (induction xs arbitrary: k) (auto simp: keyboard_enqueue_def)
  have cur: "ksched (fold kbd_store xs k) = ksched k" for xs k
    by (induction xs arbitrary: k) (auto simp: kbd_store_def Let_def)
  have three: "3 \<notin> set ?xs"
    using assms(5) by (auto simp: newline_def split: if_splits)
  let ?h = "h\<lparr>msys := (msys h)\<lparr>kb := fold kbd_store ?xs ?k\<rparr>, dev := d\<rparr>"
  have n: "irq_number tf = 4"
    by (simp add: irq_number_def assms(3))
  have "irq_dispatch io tf h = Some (irq_resume io tf ?h)"
    using d(1) assms(2) by (simp add: irq_dispatch_def n run_handler_def serial_handler_def st [OF three] sch_def cur)
  moreover have "dev (irq_resume io tf ?h) = outb io 0x20 0x20 d" "kb (msys (irq_resume io tf ?h)) = fold kbd_store ?xs ?k"
    by (simp_all add: irq_resume_def n hal_irq_eoi_def hal_outb_def)
  moreover have "fst (drain kbd_take (length (kbd_chars ?k) + length ?xs) (fold kbd_store ?xs ?k)) = kbd_chars ?k @ ?xs"
    using kbdq.put_get_all [OF assms(4), of ?xs] assms(6) by simp
  ultimately show ?thesis
    using d(2) by auto
qed

text \<open>A serial line whose state is the list of waiting characters.\<close>

definition line_ports :: "bytes ports" where
  "line_ports = \<lparr>inb = (\<lambda>port d. if port = 0x3FD then (if d = [] then 0x60 else 0x61, d) else (hd d, tl d)),
     inw = (\<lambda>_ d. (0, d)), outb = (\<lambda>_ _ d. d), outw = (\<lambda>_ _ d. d)\<rparr>"

lemma line_uart: "uart line_ports (\<lambda>d. d)"
  by (simp add: uart_def line_ports_def)

theorem serial_irq_delivers_witness:
  "\<forall>m s tf g t. let h = \<lparr>idt = g, idt_limit = 0, irq_handlers = replicate 4 Null_handler @ [Serial_handler],
       timer_ticks = t, msys = m\<lparr>kb := quiet_kbd s\<rparr>, dev = [0x6C, 13]\<rparr> in
     \<exists>h'. irq_dispatch line_ports (tf\<lparr>tf_int_no := 36\<rparr>) h = Some h' \<and> fst (drain kbd_take (Suc (Suc 0)) (kb (msys h'))) = [0x6C, 10]"
proof (intro allI)
  fix m :: sys and s tf g t
  let ?h = "\<lparr>idt = g, idt_limit = 0, irq_handlers = replicate 4 Null_handler @ [Serial_handler],
       timer_ticks = t, msys = m\<lparr>kb := quiet_kbd s\<rparr>, dev = [0x6C, 13]\<rparr> :: bytes hw"
  have k: "kbd_inv (quiet_kbd s)" "kbd_chars (quiet_kbd s) = []"
    by (simp_all add: quiet_kbd_def kbd_inv_def kbd_chars_def kbd_count_def)
  have four: "irq_handlers ?h ! 4 = Serial_handler"
    by (simp add: nth_append)
  show "let h = ?h in \<exists>h'. irq_dispatch line_ports (tf\<lparr>tf_int_no := 36\<rparr>) h = Some h'
      \<and> fst (drain kbd_take (Suc (Suc 0)) (kb (msys h'))) = [0x6C, 10]"
    using serial_irq_delivers [OF line_uart four, of "tf\<lparr>tf_int_no := 36\<rparr>"] k
    by (auto simp: Let_def newline_def)
qed

end
