(* ===== verification/Ata.thy ===== *)
theory Ata
  imports Ports Disk Memory
begin

text \<open>
  The disk driver, \<^verbatim>\<open>kernel/drivers/ata.c\<close>: programmed input and output with the registers of an ATA
  drive. The drive is a parameter; \<open>ata_drive\<close> states the protocol the driver relies on. The theorems
  show that over such a drive the driver does what theory \<open>Disk\<close> promises to the file system.
\<close>

unbundle bit_operations_syntax

section \<open>The driver\<close>

definition ATA_DATA :: u16 where "ATA_DATA = 0x1F0"

definition ATA_SECCOUNT :: u16 where "ATA_SECCOUNT = 0x1F2"

definition ATA_LBA_LOW :: u16 where "ATA_LBA_LOW = 0x1F3"

definition ATA_LBA_MID :: u16 where "ATA_LBA_MID = 0x1F4"

definition ATA_LBA_HIGH :: u16 where "ATA_LBA_HIGH = 0x1F5"

definition ATA_DRIVE :: u16 where "ATA_DRIVE = 0x1F6"

definition ATA_STATUS :: u16 where "ATA_STATUS = 0x1F7"

definition ATA_COMMAND :: u16 where "ATA_COMMAND = 0x1F7"

definition ATA_CTRL :: u16 where "ATA_CTRL = 0x3F6"

definition STAT_BSY :: u8 where "STAT_BSY = 0x80"

definition STAT_DRQ :: u8 where "STAT_DRQ = 0x08"

definition STAT_ERR :: u8 where "STAT_ERR = 0x01"

definition CMD_READ :: u8 where "CMD_READ = 0x20"

definition CMD_WRITE :: u8 where "CMD_WRITE = 0x30"

definition CMD_FLUSH :: u8 where "CMD_FLUSH = 0xE7"

definition CMD_IDENT :: u8 where "CMD_IDENT = 0xEC"

text \<open>
  The waiting loops. In the first one the counter is tested and then lowered, so that it ends at \<open>- 1\<close> when
  the drive stays busy.
\<close>

fun bsy_loop :: "'d ports \<Rightarrow> nat \<Rightarrow> 'd \<Rightarrow> int \<times> 'd" where
  "bsy_loop io timeout d =
     (let (s, d) = hal_inb io ATA_STATUS d in
      if s AND STAT_BSY = 0 then (int timeout, d)
      else case timeout of 0 \<Rightarrow> (- 1, d) | Suc t \<Rightarrow> bsy_loop io t (hal_io_wait io d))"

definition ata_wait_bsy :: "'d ports \<Rightarrow> 'd \<Rightarrow> int \<times> 'd" where
  "ata_wait_bsy io d = (let (timeout, d) = bsy_loop io 100000 d in (if timeout > 0 then 0 else - 1, d))"

fun drq_loop :: "'d ports \<Rightarrow> nat \<Rightarrow> 'd \<Rightarrow> int \<times> 'd" where
  "drq_loop io 0 d = (- 1, d)"
| "drq_loop io (Suc t) d =
     (let (s, d) = hal_inb io ATA_STATUS d in
      if s AND STAT_ERR \<noteq> 0 then (- 1, d)
      else if s AND STAT_BSY = 0 \<and> s AND STAT_DRQ \<noteq> 0 then (0, d)
      else drq_loop io t d)"

definition ata_wait_drq :: "'d ports \<Rightarrow> 'd \<Rightarrow> int \<times> 'd" where
  "ata_wait_drq io d = drq_loop io 100000 d"

declare bsy_loop.simps [simp del] drq_loop.simps [simp del]

definition ata_select :: "'d ports \<Rightarrow> u32 \<Rightarrow> 'd \<Rightarrow> 'd" where
  "ata_select io lba d = hal_io_wait io (hal_outb io ATA_DRIVE (0xE0 OR (ucast (drop_bit 24 lba) AND 0x0F)) d)"

text \<open>The words of a transfer, in the order the data port carries them.\<close>

fun in_words :: "'d ports \<Rightarrow> nat \<Rightarrow> 'd \<Rightarrow> bytes \<times> 'd" where
  "in_words io 0 d = ([], d)"
| "in_words io (Suc n) d =
     (let (w, d) = hal_inw io ATA_DATA d; (ws, d) = in_words io n d in (lo8 w # hi8 w # ws, d))"

fun out_words :: "'d ports \<Rightarrow> nat \<Rightarrow> bytes \<Rightarrow> 'd \<Rightarrow> 'd" where
  "out_words io (Suc n) (a # b # bs) d = out_words io n bs (hal_io_wait io (hal_outw io ATA_DATA (word16 a b) d))"
| "out_words io n bs d = d"

text \<open>The registers of a command on one sector, and the command.\<close>

definition ata_command :: "'d ports \<Rightarrow> u32 \<Rightarrow> u8 \<Rightarrow> 'd \<Rightarrow> 'd" where
  "ata_command io l cmd d =
     (let d = ata_select io l d;
          d = hal_outb io ATA_SECCOUNT 1 d;
          d = hal_outb io ATA_LBA_LOW (ucast l) d;
          d = hal_outb io ATA_LBA_MID (ucast (drop_bit 8 l)) d;
          d = hal_outb io ATA_LBA_HIGH (ucast (drop_bit 16 l)) d
      in hal_outb io ATA_COMMAND cmd d)"

text \<open>
  The loops over the sectors, with the number of sectors left and the part of the buffer that is left; a
  buffer holds 512 bytes for every sector. They return whether all sectors were transferred.
\<close>

fun ata_read_loop :: "'d ports \<Rightarrow> nat \<Rightarrow> u32 \<Rightarrow> bytes \<Rightarrow> 'd \<Rightarrow> bool \<times> bytes \<times> 'd" where
  "ata_read_loop io 0 l buf d = (True, buf, d)"
| "ata_read_loop io (Suc n) l buf d =
     (let (r, d) = ata_wait_bsy io d in
      if r < 0 then (False, buf, d)
      else let (r, d) = ata_wait_drq io (ata_command io l CMD_READ d) in
        if r < 0 then (False, buf, d)
        else let (ws, d) = in_words io 256 d;
                 (ok, rest, d) = ata_read_loop io n (l + 1) (drop 512 buf) d
             in (ok, ws @ rest, d))"

definition ata_read :: "'d ports \<Rightarrow> u32 \<Rightarrow> u32 \<Rightarrow> bytes \<Rightarrow> 'd \<Rightarrow> int \<times> bytes \<times> 'd" where
  "ata_read io lba count buf d =
     (let (ok, buf, d) = ata_read_loop io (unat count) lba buf d in (if ok then sint count else - 1, buf, d))"

fun ata_write_loop :: "'d ports \<Rightarrow> nat \<Rightarrow> u32 \<Rightarrow> bytes \<Rightarrow> 'd \<Rightarrow> bool \<times> 'd" where
  "ata_write_loop io 0 l buf d = (True, d)"
| "ata_write_loop io (Suc n) l buf d =
     (let (r, d) = ata_wait_bsy io d in
      if r < 0 then (False, d)
      else let (r, d) = ata_wait_drq io (ata_command io l CMD_WRITE d) in
        if r < 0 then (False, d)
        else let d = out_words io 256 buf d;
                 d = hal_outb io ATA_COMMAND CMD_FLUSH d;
                 (r, d) = ata_wait_bsy io d
             in if r < 0 then (False, d) else ata_write_loop io n (l + 1) (drop 512 buf) d)"

definition ata_write :: "'d ports \<Rightarrow> u32 \<Rightarrow> u32 \<Rightarrow> bytes \<Rightarrow> 'd \<Rightarrow> int \<times> 'd" where
  "ata_write io lba count buf d =
     (let (ok, d) = ata_write_loop io (unat count) lba buf d in (if ok then sint count else - 1, d))"

text \<open>\<^verbatim>\<open>ata_init\<close>, with the value it leaves in \<^verbatim>\<open>total_sectors\<close>.\<close>

definition ata_init :: "'d ports \<Rightarrow> 'd \<Rightarrow> int \<times> u32 \<times> 'd" where
  "ata_init io d =
     (let d = hal_outb io ATA_CTRL 0 d;
          d = hal_io_wait io (hal_outb io ATA_DRIVE 0xA0 d);
          d = hal_outb io ATA_SECCOUNT 0 d;
          d = hal_outb io ATA_LBA_LOW 0 d;
          d = hal_outb io ATA_LBA_MID 0 d;
          d = hal_outb io ATA_LBA_HIGH 0 d;
          d = hal_outb io ATA_COMMAND CMD_IDENT d;
          (status, d) = hal_inb io ATA_STATUS d
      in if status = 0 then (- 1, 0, d)
         else let (r, d) = ata_wait_bsy io d in
           if r < 0 then (- 1, 0, d)
           else let (mid, d) = hal_inb io ATA_LBA_MID d in
             if mid \<noteq> 0 then (- 1, 0, d)
             else let (high, d) = hal_inb io ATA_LBA_HIGH d in
               if high \<noteq> 0 then (- 1, 0, d)
               else let (r, d) = ata_wait_drq io d in
                 if r < 0 then (- 1, 0, d)
                 else let (ident, d) = in_words io 256 d
                   in (0, push_bit 16 (ucast (word16 (ident ! 122) (ident ! 123)))
                            OR ucast (word16 (ident ! 120) (ident ! 121)), d))"

section \<open>The protocol of the drive\<close>

text \<open>
  What the driver can observe of a drive: the registers of the next command, the number of reads of the
  status register for which the drive stays busy, the command in progress and the sectors.
\<close>

datatype phase = Ready | Failed | Data_in bytes | Data_out u32 bytes

record drive =
  r_low :: u8
  r_mid :: u8
  r_high :: u8
  r_drive :: u8
  busy :: nat
  phase :: phase
  ident :: bytes
  store :: disk

definition drive_lba :: "drive \<Rightarrow> u32" where
  "drive_lba v = ucast (r_low v) OR push_bit 8 (ucast (r_mid v)) OR push_bit 16 (ucast (r_high v))
     OR push_bit 24 (ucast (r_drive v AND 0x0F))"

definition idle_drive :: "drive \<Rightarrow> bool" where
  "idle_drive v \<longleftrightarrow> phase v = Ready \<or> phase v = Failed"

text \<open>The bits of the status register while the drive is not busy.\<close>

definition ready_status :: "drive \<Rightarrow> u8 \<Rightarrow> bool" where
  "ready_status v s \<longleftrightarrow> s AND STAT_BSY = 0 \<and> (s AND STAT_ERR \<noteq> 0 \<longleftrightarrow> phase v = Failed)
     \<and> (s AND STAT_DRQ \<noteq> 0 \<longleftrightarrow> (\<exists>bs. phase v = Data_in bs) \<or> (\<exists>l bs. phase v = Data_out l bs))"

text \<open>The phase after a command: a bad sector is reported in place of the transfer.\<close>

definition after_command :: "u8 \<Rightarrow> drive \<Rightarrow> phase" where
  "after_command cmd v =
     (let l = drive_lba v in
      if cmd = CMD_READ then if bad (store v) l then Failed else Data_in (sector (store v) l)
      else if cmd = CMD_WRITE then if bad (store v) l then Failed else Data_out l []
      else if cmd = CMD_IDENT then Data_in (ident v)
      else Ready)"

definition after_in :: "drive \<Rightarrow> drive" where
  "after_in v = (case phase v of
       Data_in (a # b # bs) \<Rightarrow> v\<lparr>phase := (if bs = [] then Ready else Data_in bs)\<rparr>
     | _ \<Rightarrow> v)"

definition after_out :: "u16 \<Rightarrow> drive \<Rightarrow> drive" where
  "after_out w v = (case phase v of
       Data_out l bs \<Rightarrow>
         let bs = bs @ [lo8 w, hi8 w] in
         if length bs = 512 then v\<lparr>phase := Ready, store := (store v)\<lparr>sector := (sector (store v))(l := bs)\<rparr>\<rparr>
         else v\<lparr>phase := Data_out l bs\<rparr>
     | _ \<Rightarrow> v)"

text \<open>
  The protocol: \<open>view\<close> shows the drive behind the ports. The driver's patience of 100000 reads of the status
  register is more than the drive is ever busy for.
\<close>

definition ata_drive :: "'d ports \<Rightarrow> ('d \<Rightarrow> drive) \<Rightarrow> bool" where
  "ata_drive io view \<longleftrightarrow>
     (\<forall>d. let (s, d') = inb io ATA_STATUS d in
        if busy (view d) = 0 then view d' = view d \<and> ready_status (view d) s
        else view d' = (view d)\<lparr>busy := busy (view d) - 1\<rparr> \<and> s AND STAT_BSY \<noteq> 0 \<and> s AND STAT_ERR = 0)
     \<and> (\<forall>d v. view (outb io ATA_DRIVE v d) = (view d)\<lparr>r_drive := v\<rparr>)
     \<and> (\<forall>d v. view (outb io ATA_LBA_LOW v d) = (view d)\<lparr>r_low := v\<rparr>)
     \<and> (\<forall>d v. view (outb io ATA_LBA_MID v d) = (view d)\<lparr>r_mid := v\<rparr>)
     \<and> (\<forall>d v. view (outb io ATA_LBA_HIGH v d) = (view d)\<lparr>r_high := v\<rparr>)
     \<and> (\<forall>d. let (v, d') = inb io ATA_LBA_MID d in v = r_mid (view d) \<and> view d' = view d)
     \<and> (\<forall>d. let (v, d') = inb io ATA_LBA_HIGH d in v = r_high (view d) \<and> view d' = view d)
     \<and> (\<forall>d v. view (outb io ATA_SECCOUNT v d) = view d)
     \<and> (\<forall>d v. view (outb io ATA_CTRL v d) = view d)
     \<and> (\<forall>d v. view (outb io 0x80 v d) = view d)
     \<and> (\<forall>d c. \<exists>b<100000. view (outb io ATA_COMMAND c d) = (view d)\<lparr>phase := after_command c (view d), busy := b\<rparr>)
     \<and> (\<forall>d bs a b. phase (view d) = Data_in (a # b # bs) \<longrightarrow> busy (view d) = 0 \<longrightarrow>
          (let (w, d') = inw io ATA_DATA d in w = word16 a b \<and> view d' = after_in (view d)))
     \<and> (\<forall>d w l bs. phase (view d) = Data_out l bs \<longrightarrow> busy (view d) = 0 \<longrightarrow>
          view (outw io ATA_DATA w d) = after_out w (view d))"

lemma ata_driveD:
  assumes "ata_drive io view"
  shows "inb io ATA_STATUS d = (s, d') \<Longrightarrow> busy (view d) = 0 \<Longrightarrow> view d' = view d \<and> ready_status (view d) s"
    "inb io ATA_STATUS d = (s, d') \<Longrightarrow> busy (view d) = Suc b \<Longrightarrow>
      view d' = (view d)\<lparr>busy := b\<rparr> \<and> s AND STAT_BSY \<noteq> 0 \<and> s AND STAT_ERR = 0"
    "view (outb io ATA_DRIVE v d) = (view d)\<lparr>r_drive := v\<rparr>"
    "view (outb io ATA_LBA_LOW v d) = (view d)\<lparr>r_low := v\<rparr>"
    "view (outb io ATA_LBA_MID v d) = (view d)\<lparr>r_mid := v\<rparr>"
    "view (outb io ATA_LBA_HIGH v d) = (view d)\<lparr>r_high := v\<rparr>"
    "inb io ATA_LBA_MID d = (x, d') \<Longrightarrow> x = r_mid (view d) \<and> view d' = view d"
    "inb io ATA_LBA_HIGH d = (x, d') \<Longrightarrow> x = r_high (view d) \<and> view d' = view d"
    "view (outb io ATA_SECCOUNT v d) = view d"
    "view (outb io ATA_CTRL v d) = view d"
    "view (hal_io_wait io d) = view d"
    "\<exists>b<100000. view (outb io ATA_COMMAND v d) = (view d)\<lparr>phase := after_command v (view d), busy := b\<rparr>"
    "inw io ATA_DATA d = (w, d') \<Longrightarrow> phase (view d) = Data_in (x1 # x2 # bs) \<Longrightarrow> busy (view d) = 0 \<Longrightarrow>
      w = word16 x1 x2 \<and> view d' = after_in (view d)"
    "phase (view d) = Data_out l bs \<Longrightarrow> busy (view d) = 0 \<Longrightarrow> view (outw io ATA_DATA w d) = after_out w (view d)"
proof -
  note A = assms [unfolded ata_drive_def]
  note B = A [THEN conjunct1, rule_format, of d]
  show "inb io ATA_STATUS d = (s, d') \<Longrightarrow> busy (view d) = 0 \<Longrightarrow> view d' = view d \<and> ready_status (view d) s"
    "inb io ATA_STATUS d = (s, d') \<Longrightarrow> busy (view d) = Suc b \<Longrightarrow>
      view d' = (view d)\<lparr>busy := b\<rparr> \<and> s AND STAT_BSY \<noteq> 0 \<and> s AND STAT_ERR = 0"
    using B by auto
  show "inb io ATA_LBA_MID d = (x, d') \<Longrightarrow> x = r_mid (view d) \<and> view d' = view d"
    "inb io ATA_LBA_HIGH d = (x, d') \<Longrightarrow> x = r_high (view d) \<and> view d' = view d"
    using A by (fastforce dest: spec [of _ d])+
  show "inw io ATA_DATA d = (w, d') \<Longrightarrow> phase (view d) = Data_in (x1 # x2 # bs) \<Longrightarrow> busy (view d) = 0 \<Longrightarrow>
      w = word16 x1 x2 \<and> view d' = after_in (view d)"
    using A by (fastforce dest: spec [of _ d])
qed (use assms in \<open>simp_all add: ata_drive_def hal_io_wait_def hal_outb_def\<close>)

section \<open>Waiting\<close>

lemma bsy_loop_spec:
  assumes dr: "ata_drive io view" and "busy (view d) < t" and "bsy_loop io t d = (r, d')"
  shows "r > 0" and "view d' = (view d)\<lparr>busy := 0\<rparr>"
proof -
  have "r > 0 \<and> view d' = (view d)\<lparr>busy := 0\<rparr>"
    using assms(2,3)
  proof (induction t arbitrary: d)
    case (Suc t)
    obtain s d1 where i: "inb io ATA_STATUS d = (s, d1)"
      by force
    show ?case
    proof (cases "busy (view d)")
      case 0
      then show ?thesis
        using ata_driveD(1) [OF dr i] Suc.prems(2)
        by (auto simp: bsy_loop.simps [of io "Suc t"] hal_inb_def i ready_status_def)
    next
      case (Suc b)
      note B = ata_driveD(2) [OF dr i Suc]
      have "bsy_loop io t (hal_io_wait io d1) = (r, d')"
        using B Suc.prems(2) by (simp add: bsy_loop.simps [of io "Suc t"] hal_inb_def i)
      moreover have "view (hal_io_wait io d1) = (view d)\<lparr>busy := b\<rparr>"
        using B ata_driveD(11) [OF dr] by simp
      ultimately show ?thesis
        using Suc.IH [of "hal_io_wait io d1"] Suc.prems(1) Suc by simp
    qed
  qed simp
  then show "r > 0" "view d' = (view d)\<lparr>busy := 0\<rparr>"
    by simp_all
qed

lemma wait_bsy_spec:
  assumes "ata_drive io view" and "busy (view d) < 100000" and "ata_wait_bsy io d = (r, d')"
  shows "r = 0" and "view d' = (view d)\<lparr>busy := 0\<rparr>"
  using bsy_loop_spec [OF assms(1,2)] assms(3) by (auto simp: ata_wait_bsy_def Let_def split: prod.splits if_splits)

lemma drq_loop_spec:
  assumes dr: "ata_drive io view" and "busy (view d) < t" and "drq_loop io t d = (r, d')"
    and ph: "phase (view d) \<noteq> Ready"
  shows "r = (if phase (view d) = Failed then - 1 else 0)" and "view d' = (view d)\<lparr>busy := 0\<rparr>"
proof -
  have "r = (if phase (view d) = Failed then - 1 else 0) \<and> view d' = (view d)\<lparr>busy := 0\<rparr>"
    using assms(2-4)
  proof (induction t arbitrary: d)
    case (Suc t)
    obtain s d1 where i: "inb io ATA_STATUS d = (s, d1)"
      by force
    show ?case
    proof (cases "busy (view d)")
      case 0
      note B = ata_driveD(1) [OF dr i 0]
      show ?thesis
        using B Suc.prems(2,3) 0
        by (cases "phase (view d)") (auto simp: drq_loop.simps hal_inb_def i ready_status_def)
    next
      case (Suc b)
      note B = ata_driveD(2) [OF dr i Suc]
      have "drq_loop io t d1 = (r, d')"
        using B Suc.prems(2) by (simp add: drq_loop.simps hal_inb_def i)
      then show ?thesis
        using Suc.IH [of d1] Suc.prems(1,3) Suc B by simp
    qed
  qed simp
  then show "r = (if phase (view d) = Failed then - 1 else 0)" "view d' = (view d)\<lparr>busy := 0\<rparr>"
    by simp_all
qed

section \<open>Commands and transfers\<close>

lemma drive_lba_of:
  assumes "r_low v = ucast l" "r_mid v = ucast (drop_bit 8 l)" "r_high v = ucast (drop_bit 16 l)"
    and "r_drive v = 0xE0 OR (ucast (drop_bit 24 l) AND 0x0F)"
  shows "drive_lba v = lba28 l"
proof -
  have m: "(0x0F :: u8) = mask 4" "(0x0FFFFFFF :: u32) = mask 28"
    by (simp_all add: mask_eq_exp_minus_1)
  have "r_drive v AND 0x0F = ucast (drop_bit 24 l) AND 0x0F"
    by (simp add: assms(4) word_ao_dist and.assoc)
  then show ?thesis
    unfolding drive_lba_def lba28_def assms(1-3) m by (intro bit_word_eqI) (auto simp: bit_simps)
qed

lemma ata_command_spec:
  assumes dr: "ata_drive io view"
  shows "busy (view (ata_command io l cmd d)) < 100000"
    and "store (view (ata_command io l cmd d)) = store (view d)"
    and "cmd = CMD_READ \<Longrightarrow> phase (view (ata_command io l cmd d)) =
      (if bad (store (view d)) (lba28 l) then Failed else Data_in (sector (store (view d)) (lba28 l)))"
    and "cmd = CMD_WRITE \<Longrightarrow> phase (view (ata_command io l cmd d)) =
      (if bad (store (view d)) (lba28 l) then Failed else Data_out (lba28 l) [])"
proof -
  let ?v = "(view d)\<lparr>r_drive := 0xE0 OR (ucast (drop_bit 24 l) AND 0x0F), r_low := ucast l,
    r_mid := ucast (drop_bit 8 l), r_high := ucast (drop_bit 16 l)\<rparr>"
  note D = ata_driveD [OF dr]
  have l: "drive_lba ?v = lba28 l"
    by (rule drive_lba_of) simp_all
  define d0 where "d0 = hal_outb io ATA_LBA_HIGH (ucast (drop_bit 16 l)) (hal_outb io ATA_LBA_MID (ucast (drop_bit 8 l))
    (hal_outb io ATA_LBA_LOW (ucast l) (hal_outb io ATA_SECCOUNT 1 (ata_select io l d))))"
  have "view d0 = ?v"
    unfolding d0_def ata_select_def hal_outb_def by (simp add: D(3-6,9,11))
  moreover have "ata_command io l cmd d = outb io ATA_COMMAND cmd d0"
    by (simp add: ata_command_def d0_def hal_outb_def Let_def)
  ultimately obtain b where "b < 100000" "view (ata_command io l cmd d) = ?v\<lparr>phase := after_command cmd ?v, busy := b\<rparr>"
    using D(12) [of cmd d0] by auto
  then show "busy (view (ata_command io l cmd d)) < 100000"
    "store (view (ata_command io l cmd d)) = store (view d)"
    "cmd = CMD_READ \<Longrightarrow> phase (view (ata_command io l cmd d)) =
      (if bad (store (view d)) (lba28 l) then Failed else Data_in (sector (store (view d)) (lba28 l)))"
    "cmd = CMD_WRITE \<Longrightarrow> phase (view (ata_command io l cmd d)) =
      (if bad (store (view d)) (lba28 l) then Failed else Data_out (lba28 l) [])"
    by (simp_all add: after_command_def l CMD_READ_def CMD_WRITE_def)
qed

lemma in_words_spec:
  assumes dr: "ata_drive io view"
  shows "phase (view d) = Data_in bs \<Longrightarrow> length bs = 2 * Suc n \<Longrightarrow> busy (view d) = 0 \<Longrightarrow> in_words io (Suc n) d = (ws, d') \<Longrightarrow>
    ws = bs \<and> view d' = (view d)\<lparr>phase := Ready\<rparr>"
proof (induction n arbitrary: d bs ws d')
  case 0
  then obtain a b where bs: "bs = [a, b]"
    by (cases bs; cases "tl bs") auto
  obtain w d1 where i: "inw io ATA_DATA d = (w, d1)"
    by force
  show ?case
    using 0 ata_driveD(13) [OF dr i, of a b "[]"] by (auto simp: bs hal_inw_def i after_in_def)
next
  case (Suc n)
  have two: "\<exists>a b r. xs = a # b # r \<and> length r = m" if "length xs = Suc (Suc m)" for xs :: bytes and m
    using that by (auto simp: length_Suc_conv)
  have "length bs = Suc (Suc (2 * Suc n))"
    using Suc.prems(2) by simp
  from two [OF this] obtain a b bs' where bs: "bs = a # b # bs'" and l: "length bs' = 2 * Suc n"
    by blast
  obtain w d1 where i: "inw io ATA_DATA d = (w, d1)"
    by force
  obtain ws' d2 where r: "in_words io (Suc n) d1 = (ws', d2)"
    by force
  have "w = word16 a b" and v: "view d1 = (view d)\<lparr>phase := Data_in bs'\<rparr>"
    using ata_driveD(13) [OF dr i, of a b bs'] Suc.prems(1,3) l by (auto simp: bs after_in_def)
  moreover have "ws' = bs' \<and> view d2 = (view d1)\<lparr>phase := Ready\<rparr>"
    using Suc.IH [OF _ l _ r] v Suc.prems(3) by simp
  ultimately show ?case
    using Suc.prems(4) r by (simp add: in_words.simps(2) [of io "Suc n"] hal_inw_def i bs del: in_words.simps)
qed

lemma out_words_spec:
  assumes dr: "ata_drive io view"
  shows "phase (view d) = Data_out l acc \<Longrightarrow> length acc + 2 * Suc n = 512 \<Longrightarrow> 2 * Suc n \<le> length buf \<Longrightarrow> busy (view d) = 0 \<Longrightarrow>
    view (out_words io (Suc n) buf d) = (view d)\<lparr>phase := Ready,
      store := (store (view d))\<lparr>sector := (sector (store (view d)))(l := acc @ take (2 * Suc n) buf)\<rparr>\<rparr>"
proof (induction n arbitrary: d acc buf)
  case 0
  then obtain a b bs where buf: "buf = a # b # bs"
    by (cases buf; cases "tl buf") auto
  show ?case
    using 0 ata_driveD(14) [OF dr, of d l acc "word16 a b"]
    by (simp add: buf hal_outw_def ata_driveD(11) [OF dr] after_out_def fun_upd_def)
next
  case (Suc n)
  then obtain a b bs where buf: "buf = a # b # bs"
    by (cases buf; cases "tl buf") auto
  let ?d1 = "hal_io_wait io (hal_outw io ATA_DATA (word16 a b) d)"
  have v: "view ?d1 = (view d)\<lparr>phase := Data_out l (acc @ [a, b])\<rparr>"
    using Suc.prems ata_driveD(14) [OF dr, of d l acc "word16 a b"]
    by (simp add: hal_outw_def ata_driveD(11) [OF dr] after_out_def)
  have "view (out_words io (Suc n) bs ?d1) = (view ?d1)\<lparr>phase := Ready,
      store := (store (view ?d1))\<lparr>sector := (sector (store (view ?d1)))(l := (acc @ [a, b]) @ take (2 * Suc n) bs)\<rparr>\<rparr>"
    using Suc.prems by (intro Suc.IH) (auto simp: v buf)
  then show ?case
    by (simp add: out_words.simps(1) [of io "Suc n"] buf v fun_upd_def del: out_words.simps)
qed

section \<open>Refinement of the disk\<close>

lemma ata_read_loop_spec:
  assumes dr: "ata_drive io view"
  shows "busy (view d) < 100000 \<Longrightarrow> disk_wf (store (view d)) \<Longrightarrow> ata_read_loop io n l buf d = (ok, buf', d') \<Longrightarrow>
    (ok, buf') = read_sectors n l buf (store (view d)) \<and> store (view d') = store (view d) \<and> busy (view d') < 100000"
proof (induction n arbitrary: l buf d ok buf' d')
  case (Suc n)
  let ?s = "store (view d)"
  obtain r d1 where w: "ata_wait_bsy io d = (r, d1)"
    by force
  note W = wait_bsy_spec [OF dr Suc.prems(1) w]
  note C = ata_command_spec [OF dr, where l = l and cmd = CMD_READ and d = d1]
  obtain q d2 where dq: "ata_wait_drq io (ata_command io l CMD_READ d1) = (q, d2)"
    by force
  have st: "store (view d1) = ?s"
    by (simp add: W(2))
  note Q = drq_loop_spec [OF dr C(1) dq [unfolded ata_wait_drq_def]]
  show ?case
  proof (cases "bad ?s (lba28 l)")
    case True
    then show ?thesis
      using Suc.prems(3) W(1) C(2,3) Q st by (auto simp: w dq)
  next
    case False
    have ph: "phase (view (ata_command io l CMD_READ d1)) = Data_in (sector ?s (lba28 l))"
      using C(3) False st by simp
    have q: "q = 0" and v2: "view d2 = (view (ata_command io l CMD_READ d1))\<lparr>busy := 0\<rparr>"
      using Q ph by simp_all
    obtain ws d3 where i: "in_words io 256 d2 = (ws, d3)"
      by force
    have len: "length (sector ?s (lba28 l)) = 2 * Suc 255"
      using Suc.prems(2) by (simp add: disk_wf_def)
    have "in_words io (Suc 255) d2 = (ws, d3)"
      using i by simp
    from in_words_spec [OF dr _ len _ this]
    have ws: "ws = sector ?s (lba28 l)" and v3: "view d3 = (view d2)\<lparr>phase := Ready\<rparr>"
      using v2 ph by simp_all
    have s3: "store (view d3) = ?s" "busy (view d3) = 0"
      using v3 v2 C(2) st by simp_all
    obtain ok2 rest d4 where rl: "ata_read_loop io n (l + 1) (drop 512 buf) d3 = (ok2, rest, d4)"
      by (metis prod_cases3)
    have IH: "(ok2, rest) = read_sectors n (l + 1) (drop 512 buf) ?s" "store (view d4) = ?s" "busy (view d4) < 100000"
      using Suc.IH [OF _ _ rl] s3 Suc.prems(2) by simp_all
    have "(ok, buf', d') = (ok2, ws @ rest, d4)"
      using Suc.prems(3) W(1) q by (simp add: w dq i rl)
    then show ?thesis
      using IH(2,3) False ws by (simp add: IH(1) [symmetric])
  qed
qed simp

lemma ata_write_loop_spec:
  assumes dr: "ata_drive io view"
  shows "busy (view d) < 100000 \<Longrightarrow> 512 * n \<le> length buf \<Longrightarrow> ata_write_loop io n l buf d = (ok, d') \<Longrightarrow>
    (ok, store (view d')) = write_sectors n l buf (store (view d)) \<and> busy (view d') < 100000"
proof (induction n arbitrary: l buf d ok d')
  case (Suc n)
  let ?s = "store (view d)"
  obtain r d1 where w: "ata_wait_bsy io d = (r, d1)"
    by force
  note W = wait_bsy_spec [OF dr Suc.prems(1) w]
  note C = ata_command_spec [OF dr, where l = l and cmd = CMD_WRITE and d = d1]
  obtain q d2 where dq: "ata_wait_drq io (ata_command io l CMD_WRITE d1) = (q, d2)"
    by force
  have st: "store (view d1) = ?s"
    by (simp add: W(2))
  note Q = drq_loop_spec [OF dr C(1) dq [unfolded ata_wait_drq_def]]
  show ?case
  proof (cases "bad ?s (lba28 l)")
    case True
    then show ?thesis
      using Suc.prems(3) W(1) C(2,4) Q st by (auto simp: w dq)
  next
    case False
    have ph: "phase (view (ata_command io l CMD_WRITE d1)) = Data_out (lba28 l) []"
      using C(4) False st by simp
    have q: "q = 0" and v2: "view d2 = (view (ata_command io l CMD_WRITE d1))\<lparr>busy := 0\<rparr>"
      using Q ph by simp_all
    let ?d3 = "out_words io 256 buf d2" let ?d4 = "hal_outb io ATA_COMMAND CMD_FLUSH ?d3"
    have "view (out_words io (Suc 255) buf d2) = (view d2)\<lparr>phase := Ready,
        store := (store (view d2))\<lparr>sector := (sector (store (view d2)))(lba28 l := [] @ take (2 * Suc 255) buf)\<rparr>\<rparr>"
      using Suc.prems(2) v2 ph by (intro out_words_spec [OF dr]) simp_all
    then have s3: "store (view ?d3) = ?s\<lparr>sector := (sector ?s)(lba28 l := take 512 buf)\<rparr>"
      using v2 C(2) st by simp
    have f: "store (view ?d4) = store (view ?d3) \<and> busy (view ?d4) < 100000"
      using ata_driveD(12) [OF dr, of CMD_FLUSH ?d3] by (auto simp: hal_outb_def)
    obtain p d5 where w5: "ata_wait_bsy io ?d4 = (p, d5)"
      by force
    note W5 = wait_bsy_spec [OF dr conjunct2 [OF f] w5]
    have "ata_write_loop io n (l + 1) (drop 512 buf) d5 = (ok, d')"
      using Suc.prems(3) W(1) q W5(1) by (simp add: w dq w5)
    from Suc.IH [OF _ _ this] show ?thesis
      using W5(2) f s3 False Suc.prems(2) by simp
  qed
qed simp

text \<open>The number of sectors in the answer of a drive to an identify command.\<close>

definition ident_sectors :: "bytes \<Rightarrow> u32" where
  "ident_sectors b = word32_of (b ! 120) (b ! 121) (b ! 122) (b ! 123)"

lemma words_32: "push_bit 16 (ucast (word16 c d)) OR ucast (word16 a b) = word32_of a b c d"
  by (rule bit_word_eqI) (auto simp: bit_word32_of word16_def bit_simps dest: bit_imp_le_length)

lemma ata_init_spec:
  assumes dr: "ata_drive io view" and len: "length (ident (view d)) = 512"
  shows "\<exists>d'. ata_init io d = (0, ident_sectors (ident (view d)), d') \<and> store (view d') = store (view d)
    \<and> busy (view d') = 0"
proof -
  note D = ata_driveD [OF dr]
  define d0 where "d0 = hal_outb io ATA_LBA_HIGH 0 (hal_outb io ATA_LBA_MID 0 (hal_outb io ATA_LBA_LOW 0
    (hal_outb io ATA_SECCOUNT 0 (hal_io_wait io (hal_outb io ATA_DRIVE 0xA0 (hal_outb io ATA_CTRL 0 d))))))"
  let ?v = "(view d)\<lparr>r_drive := 0xA0, r_low := 0, r_mid := 0, r_high := 0\<rparr>"
  have v0: "view d0 = ?v"
    unfolding d0_def hal_outb_def by (simp add: D(3-6,9-11))
  let ?d1 = "outb io ATA_COMMAND CMD_IDENT d0"
  obtain b where b: "b < 100000" and v1: "view ?d1 = ?v\<lparr>phase := Data_in (ident (view d)), busy := b\<rparr>"
    using D(12) [of CMD_IDENT d0] v0 by (auto simp: after_command_def CMD_READ_def CMD_WRITE_def CMD_IDENT_def)
  obtain st d2 where i: "inb io ATA_STATUS ?d1 = (st, d2)"
    by force
  have st: "st \<noteq> 0" and v2: "view d2 = (view ?d1)\<lparr>busy := b - 1\<rparr>"
    using D(1) [OF i] D(2) [OF i, of "b - 1"] v1 by (cases b; auto simp: ready_status_def)+
  obtain r d3 where w: "ata_wait_bsy io d2 = (r, d3)"
    by force
  have W: "r = 0" "view d3 = (view ?d1)\<lparr>busy := 0\<rparr>"
    using wait_bsy_spec [OF dr _ w] v2 b by simp_all
  obtain m d4 where m: "inb io ATA_LBA_MID d3 = (m, d4)"
    by force
  obtain h d5 where h: "inb io ATA_LBA_HIGH d4 = (h, d5)"
    by force
  have mh: "m = 0" "h = 0" "view d5 = (view ?d1)\<lparr>busy := 0\<rparr>"
    using D(7) [OF m] D(8) [OF h] W v1 by simp_all
  obtain q d6 where dq: "ata_wait_drq io d5 = (q, d6)"
    by force
  have Q: "q = 0" "view d6 = (view ?d1)\<lparr>busy := 0\<rparr>"
    using drq_loop_spec [OF dr _ dq [unfolded ata_wait_drq_def]] mh(3) v1 by simp_all
  obtain ws d7 where iw: "in_words io 256 d6 = (ws, d7)"
    by force
  then have "in_words io (Suc 255) d6 = (ws, d7)"
    by simp
  from in_words_spec [OF dr _ _ _ this, of "ident (view d)"]
  have ws: "ws = ident (view d)" and v7: "view d7 = (view d6)\<lparr>phase := Ready\<rparr>"
    using Q v1 len by simp_all
  have "ata_init io d = (0, push_bit 16 (ucast (word16 (ws ! 122) (ws ! 123))) OR ucast (word16 (ws ! 120) (ws ! 121)), d7)"
    unfolding ata_init_def Let_def d0_def [symmetric]
    by (simp add: d0_def [symmetric] hal_inb_def hal_outb_def i st w W(1) m h mh(1,2) dq Q(1) iw)
  then show ?thesis
    using v7 Q(2) v1 unfolding ws words_32 by (simp add: ident_sectors_def)
qed

section \<open>Properties\<close>

text \<open>A drive that follows the protocol and is busy for three reads of its status after every command.\<close>

definition pio_status :: "drive \<Rightarrow> u8" where
  "pio_status v = (case phase v of Ready \<Rightarrow> 0x40 | Failed \<Rightarrow> 0x41 | _ \<Rightarrow> 0x48)"

definition pio :: "drive ports" where
  "pio = \<lparr>
     inb = (\<lambda>port v. if port = ATA_STATUS then if busy v = 0 then (pio_status v, v) else (0x80, v\<lparr>busy := busy v - 1\<rparr>)
       else if port = ATA_LBA_MID then (r_mid v, v) else if port = ATA_LBA_HIGH then (r_high v, v) else (0, v)),
     inw = (\<lambda>port v. case phase v of Data_in (a # b # bs) \<Rightarrow> (word16 a b, after_in v) | _ \<Rightarrow> (0, v)),
     outb = (\<lambda>port x v. if port = ATA_DRIVE then v\<lparr>r_drive := x\<rparr> else if port = ATA_LBA_LOW then v\<lparr>r_low := x\<rparr>
       else if port = ATA_LBA_MID then v\<lparr>r_mid := x\<rparr> else if port = ATA_LBA_HIGH then v\<lparr>r_high := x\<rparr>
       else if port = ATA_COMMAND then v\<lparr>phase := after_command x v, busy := 3\<rparr> else v),
     outw = (\<lambda>port w v. after_out w v)\<rparr>"

lemma pio_ata_drive: "ata_drive pio id"
proof -
  have "ready_status v (pio_status v)" for v
    by (cases "phase v") (simp_all add: ready_status_def pio_status_def STAT_BSY_def STAT_ERR_def STAT_DRQ_def)
  then show ?thesis
    unfolding ata_drive_def
    by (auto simp: pio_def ATA_STATUS_def ATA_LBA_MID_def ATA_LBA_HIGH_def ATA_LBA_LOW_def ATA_DRIVE_def ATA_COMMAND_def
        ATA_SECCOUNT_def ATA_CTRL_def STAT_BSY_def STAT_ERR_def intro!: exI [of _ "3 :: nat"])
qed

definition blank_drive :: drive where
  "blank_drive = \<lparr>r_low = 0, r_mid = 0, r_high = 0, r_drive = 0, busy = 0, phase = Ready,
     ident = replicate 120 0 @ [0, 0, 2, 0] @ replicate 388 0,
     store = \<lparr>sector = (\<lambda>_. replicate 512 0), bad = (\<lambda>l. l = 7)\<rparr>\<rparr>"



text \<open>
  \<^verbatim>\<open>ata_init\<close> finds such a drive whatever it was doing and takes the number of sectors from the words
  60 and 61 of its answer.
\<close>

theorem ata_init_identifies:
  assumes "ata_drive io view" and "length (ident (view d)) = 512"
  shows "fst (ata_init io d) = 0 \<and> fst (snd (ata_init io d)) = ident_sectors (ident (view d))
    \<and> store (view (snd (snd (ata_init io d)))) = store (view d)"
  using ata_init_spec [OF assms] by auto

theorem ata_init_identifies_witness: "fst (ata_init pio blank_drive) = 0 \<and> fst (snd (ata_init pio blank_drive)) = 0x20000"
proof -
  have "ident_sectors (ident (id blank_drive)) = 0x20000"
    by (simp add: ident_sectors_def blank_drive_def nth_append word32_of_def)
  then show ?thesis
    using ata_init_identifies [OF pio_ata_drive, of blank_drive] by (simp add: blank_drive_def)
qed

end
