(* ===== verification/Boot.thy ===== *)
theory Boot
  imports KernelSpace Interrupts Ata
begin

text \<open>
  The boot sequence, \<^verbatim>\<open>kernel/main.c\<close>.
\<close>

section \<open>The boot sequence\<close>

text \<open>
  \<^verbatim>\<open>kernel_main\<close> up to the switch to the first task. The addresses of routines and of the end of the
  kernel image come from the linker; the amount of memory is the one of the boot loader, if it gives one.
  A file system that cannot be mounted halts the machine: \<open>None\<close>.
\<close>

record image =
  isr_stub :: "nat \<Rightarrow> u32"
  irq_stub :: "nat \<Rightarrow> u32"
  tss_at :: u32
  kernel_end_at :: u32
  idle_entry_at :: u32

definition say :: "string \<Rightarrow> fmt_arg list \<Rightarrow> 'd hw \<Rightarrow> 'd hw option" where
  "say fmt args h = map_option (\<lambda>k. h\<lparr>msys := (msys h)\<lparr>con := k\<rparr>\<rparr>) (console_printf (ascii fmt @ [10]) args (con (msys h)))"

definition with_sched :: "(sched \<Rightarrow> sched) \<Rightarrow> 'd hw \<Rightarrow> 'd hw" where
  "with_sched f h = h\<lparr>msys := put_sched (f (sch (msys h))) (msys h)\<rparr>"

definition with_heap :: "(vmm \<Rightarrow> vmm) \<Rightarrow> 'd hw \<Rightarrow> 'd hw" where
  "with_heap f = with_sched (\<lambda>c. c\<lparr>objs := (objs c)\<lparr>heap_of := f (heap_of (objs c))\<rparr>\<rparr>)"

definition kernel_main :: "image \<Rightarrow> 'd ports \<Rightarrow> u32 option \<Rightarrow> segments \<Rightarrow> 'd hw \<Rightarrow> (segments \<times> 'd hw) option" where
  "kernel_main im io mbi_mem_upper sg h = do {
     let h = h\<lparr>dev := serial_init io (dev h)\<rparr>;
     let h = h\<lparr>msys := (msys h)\<lparr>con := console_set_color 0x0A 0x00 (console_init (con (msys h)))\<rparr>\<rparr>;
     h \<leftarrow> say ''FentoOS v0.01 booting...'' [] h;
     let h = h\<lparr>msys := (msys h)\<lparr>con := console_set_color 0x07 0x00 (con (msys h))\<rparr>\<rparr>;
     let sg = hal_cpu_init (tss_at im) sg;
     h \<leftarrow> say ''[ok] GDT + TSS'' [] h;
     let h = hal_interrupts_init (isr_stub im) (irq_stub im) io h;
     h \<leftarrow> keyboard_start io h;
     h \<leftarrow> serial_enable_input io h;
     h \<leftarrow> say ''[ok] IDT + PIC + serial input'' [] h;
     let mem_upper = (case mbi_mem_upper of None \<Rightarrow> 32768 | Some m \<Rightarrow> m);
     let p = pmm_init mem_upper (kernel_end_at im);
     h \<leftarrow> say ''[ok] PMM: %u frames total, %u free'' [IntArg (pmm_total_count p), IntArg (pmm_free_count p)] h;
     let h = with_heap (init_memory mem_upper (kernel_end_at im)) h;
     h \<leftarrow> say ''[ok] VMM paging enabled'' [] h;
     h \<leftarrow> say ''[ok] kernel heap ready'' [] h;
     h \<leftarrow> say ''[ok] PS/2 keyboard'' [] h;
     h \<leftarrow> say ''[ok] syscalls (int 0x90, BSD style)'' [] h;
     let disk = ata_init io (dev h);
     let h = h\<lparr>dev := snd (snd disk)\<rparr>;
     h \<leftarrow> (if fst disk = 0 then say ''[ok] ATA PIO: %u sectors'' [IntArg (fst (snd disk))] h else say ''[--] ATA PIO: no disk'' [] h);
     c \<leftarrow> sched_init (idle_entry_at im) (sch (msys h));
     let h = h\<lparr>msys := put_sched c (msys h)\<rparr>;
     h \<leftarrow> hal_timer_init io 100 h;
     h \<leftarrow> say ''[ok] PIT @ 100Hz + scheduler'' [] h;
     let root = minixfs_mount (vfs (msys h));
     let h = h\<lparr>msys := (msys h)\<lparr>vfs := snd root\<rparr>\<rparr>;
     if fst root < 0 then None
     else do {
       h \<leftarrow> say ''[ok] mounted MINIX v3 root'' [] h;
       h \<leftarrow> say ([CHR 0x0A] @ ''FentoOS v0.01 ready. Launching userland /bin/sh (ring 3)...'' @ [CHR 0x0A]) [] h;
       s \<leftarrow> proc_start_init (ascii ''/bin/sh'') (msys h);
       Some (sg, with_sched sched_start (h\<lparr>msys := s\<rparr>))
     }
   }"

section \<open>Interrupt lines after boot\<close>

lemma say_keeps: "say fmt args h = Some h' \<Longrightarrow> irq_handlers h' = irq_handlers h \<and> idt h' = idt h"
  by (auto simp: say_def)

lemma with_sched_keeps [simp]: "irq_handlers (with_sched f h) = irq_handlers h" "idt (with_sched f h) = idt h"
  by (simp_all add: with_sched_def)

lemma with_heap_keeps [simp]: "irq_handlers (with_heap f h) = irq_handlers h" "idt (with_heap f h) = idt h"
  by (simp_all add: with_heap_def)

lemma keyboard_start_keeps:
  "keyboard_start io h = Some h' \<Longrightarrow> irq_handlers h' = (irq_handlers h)[1 := Kbd_handler] \<and> idt h' = idt h"
  by (auto simp: keyboard_start_def hal_irq_register_def Let_def)

lemma serial_enable_keeps:
  "serial_enable_input io h = Some h' \<Longrightarrow> irq_handlers h' = (irq_handlers h)[4 := Serial_handler] \<and> idt h' = idt h"
  by (auto simp: serial_enable_input_def serial_handler_def hal_irq_register_def Let_def)

lemma timer_init_keeps:
  "hal_timer_init io f h = Some h' \<Longrightarrow> irq_handlers h' = (irq_handlers h)[0 := Pit_handler] \<and> idt h' = idt h"
  by (auto simp: hal_timer_init_def hal_irq_register_def Let_def split: if_splits)

lemma interrupts_init_handlers: "irq_handlers (hal_interrupts_init isr irq io h) = replicate 16 Null_handler"
  by (simp add: hal_interrupts_init_def Let_def del: upt_rec_numeral)

lemma interrupts_init_idt:
  "idt (hal_interrupts_init isr irq io h) = idt (hal_interrupts_init isr irq io h2)"
  by (simp add: hal_interrupts_init_def Let_def del: upt_rec_numeral)

text \<open>
  A boot that reaches the scheduler has handlers on exactly the lines of the timer, the keyboard and the
  serial port, and the gates the interrupt tables were initialised with.
\<close>

lemma kernel_main_interrupts:
  assumes "kernel_main im io mbi sg h = Some (sg', h')"
  shows "irq_handlers h' = (replicate 16 Null_handler)[1 := Kbd_handler, 4 := Serial_handler, 0 := Pit_handler]
    \<and> idt h' = idt (hal_interrupts_init (isr_stub im) (irq_stub im) io h) \<and> sg' = hal_cpu_init (tss_at im) sg"
  using assms interrupts_init_idt [of "isr_stub im" "irq_stub im" io _ h] unfolding kernel_main_def Let_def
  by (auto simp: bind_eq_Some_conv interrupts_init_handlers split: if_split_asm
      dest!: say_keeps keyboard_start_keeps serial_enable_keeps timer_init_keeps)

end
