(* ===== verification/FsBlock.thy ===== *)
theory FsBlock
  imports MinixFs
begin

text \<open>
  The file system's view of the disk: what block and inode transfers do to the contents of the
  blocks. \<open>content\<close> is the abstraction the later theories reason with, and \<open>put_block\<close> the state a
  successful block write leaves.
\<close>

section \<open>Blocks\<close>

definition content :: "fs \<Rightarrow> u32 \<Rightarrow> bytes" where
  "content s b = block (dsk s) b"

definition fs_ok :: "fs \<Rightarrow> bool" where
  "fs_ok s \<longleftrightarrow> disk_wf (dsk s) \<and> length (junk s) = 1024"

definition usable :: "fs \<Rightarrow> u32 \<Rightarrow> bool" where
  "usable s b \<longleftrightarrow> good (dsk s) b \<and> addressable b"

definition put_block :: "u32 \<Rightarrow> bytes \<Rightarrow> fs \<Rightarrow> fs" where
  "put_block b buf s = snd (block_write b buf s)"

named_theorems fs_simps

lemma fs_ok_junk [simp]: "fs_ok s \<Longrightarrow> length (junk s) = 1024"
  by (simp add: fs_ok_def)

lemma length_content [simp]: "fs_ok s \<Longrightarrow> length (content s b) = 1024"
  by (simp add: fs_ok_def content_def block_def disk_wf_def)

lemma block_read_usable [fs_simps]:
  "usable s b \<Longrightarrow> length buf = 1024 \<Longrightarrow> block_read b buf s = (2, content s b)"
  by (simp add: usable_def block_read_def content_def disk_read_block)

lemma block_read_fails: "\<not> good (dsk s) b \<Longrightarrow> fst (block_read b buf s) = - 1"
  by (simp add: block_read_def disk_read_block_bad)

lemma put_block_static [simp]:
  "sb (put_block b buf s) = sb s" "imap_start (put_block b buf s) = imap_start s"
  "zmap_start (put_block b buf s) = zmap_start s" "inode_start (put_block b buf s) = inode_start s"
  "data_start (put_block b buf s) = data_start s" "mounted (put_block b buf s) = mounted s"
  "junk (put_block b buf s) = junk s"
  by (simp_all add: put_block_def block_write_def split: prod.split)

lemma put_block_disk:
  assumes "fs_ok s" and "usable s b" and "length buf = 1024"
  shows "block_write b buf s = (2, put_block b buf s)"
    and "fs_ok (put_block b buf s)"
    and "\<And>c. usable (put_block b buf s) c \<longleftrightarrow> usable s c"
    and "\<And>c. addressable c \<Longrightarrow> content (put_block b buf s) c = (if c = b then buf else content s c)"
proof -
  obtain r d where rd: "disk_write (b * 2) 2 buf (dsk s) = (r, d)"
    by fastforce
  have w: "r = 2" "disk_wf d" "bad d = bad (dsk s)" "block d b = buf"
      "\<And>c. addressable c \<Longrightarrow> c \<noteq> b \<Longrightarrow> block d c = block (dsk s) c"
    using disk_write_block [OF _ _ _ assms(3) rd] assms(1,2) by (simp_all add: fs_ok_def usable_def)
  have p: "put_block b buf s = s\<lparr>dsk := d\<rparr>"
    by (simp add: put_block_def block_write_def rd)
  show "block_write b buf s = (2, put_block b buf s)"
    by (simp add: p block_write_def rd w(1))
  show "fs_ok (put_block b buf s)"
    using assms(1) w(2) by (simp add: p fs_ok_def)
  show "usable (put_block b buf s) c \<longleftrightarrow> usable s c" for c
    using w(3) by (simp add: p usable_def good_def)
  show "content (put_block b buf s) c = (if c = b then buf else content s c)" if "addressable c" for c
    using w(4,5) that by (simp add: p content_def)
qed

lemmas block_write_usable [fs_simps] = put_block_disk(1)
lemmas put_block_ok [fs_simps] = put_block_disk(2,3)
lemmas content_put_block [fs_simps] = put_block_disk(4)

lemma usable_addressable [simp]: "usable s b \<Longrightarrow> addressable b"
  by (simp add: usable_def)

section \<open>Inodes\<close>

definition inode_of :: "fs \<Rightarrow> u32 \<Rightarrow> inode" where
  "inode_of s ino = inode_at (content s (inode_block ino s)) (inode_index ino)"

definition put_inode :: "u32 \<Rightarrow> inode \<Rightarrow> fs \<Rightarrow> fs" where
  "put_inode ino n s =
     put_block (inode_block ino s) (set_inode_at (content s (inode_block ino s)) (inode_index ino) n) s"

lemma inode_index_less [simp]: "inode_index ino < 16"
  by (simp add: inode_index_def unat_mod)

lemma length_i_zone_at [simp]: "length (i_zone (inode_at b i)) = 10"
  by (simp add: inode_at_def decode_inode_def)

lemma length_i_zone_of [simp]: "length (i_zone (inode_of s ino)) = 10"
  by (simp add: inode_of_def)

lemma read_inode_usable [fs_simps]:
  "fs_ok s \<Longrightarrow> usable s (inode_block ino s) \<Longrightarrow> ino \<noteq> 0 \<Longrightarrow> read_inode ino s = Some (inode_of s ino)"
  by (simp add: read_inode_def inode_of_def fs_simps)

lemma write_inode_usable [fs_simps]:
  "fs_ok s \<Longrightarrow> usable s (inode_block ino s) \<Longrightarrow> ino \<noteq> 0 \<Longrightarrow> length (i_zone n) = 10 \<Longrightarrow>
   write_inode ino n s = (2, put_inode ino n s)"
  by (simp add: write_inode_def put_inode_def fs_simps)

lemma inode_slot_inj:
  assumes "inode_block i s = inode_block j s" and "inode_index i = inode_index j"
  shows "i = j"
proof -
  have "(i - 1) div 16 = (j - 1) div 16"
    using assms(1) by (simp add: inode_block_def)
  moreover have "(i - 1) mod 16 = (j - 1) mod 16"
    using assms(2) by (simp only: inode_index_def word_unat_eq_iff)
  ultimately have "i - 1 = j - 1"
    by (metis div_mult_mod_eq)
  then show ?thesis
    by simp
qed

lemma inode_block_put [simp]: "inode_block j (put_block b buf s) = inode_block j s"
  by (simp add: inode_block_def)

lemma put_inode_static [simp]:
  "sb (put_inode i n s) = sb s" "imap_start (put_inode i n s) = imap_start s"
  "zmap_start (put_inode i n s) = zmap_start s" "inode_start (put_inode i n s) = inode_start s"
  "data_start (put_inode i n s) = data_start s" "mounted (put_inode i n s) = mounted s"
  "junk (put_inode i n s) = junk s" "inode_block j (put_inode i n s) = inode_block j s"
  by (simp_all add: put_inode_def)

lemma put_inode_disk [fs_simps]:
  assumes "fs_ok s" and "usable s (inode_block ino s)" and "length (i_zone n) = 10"
  shows "fs_ok (put_inode ino n s)"
    and "usable (put_inode ino n s) c \<longleftrightarrow> usable s c"
    and "addressable c \<Longrightarrow> c \<noteq> inode_block ino s \<Longrightarrow> content (put_inode ino n s) c = content s c"
    and "addressable (inode_block j s) \<Longrightarrow>
      inode_of (put_inode ino n s) j = (if j = ino then n else inode_of s j)"
proof -
  have len: "length (set_inode_at (content s (inode_block ino s)) (inode_index ino) n) = 1024"
    using assms by simp
  note put = put_block_disk [OF assms(1,2) len]
  show "fs_ok (put_inode ino n s)" "usable (put_inode ino n s) c \<longleftrightarrow> usable s c"
    by (simp_all add: put_inode_def put)
  show "content (put_inode ino n s) c = content s c" if "addressable c" "c \<noteq> inode_block ino s"
    using that by (simp add: put_inode_def put)
  show "inode_of (put_inode ino n s) j = (if j = ino then n else inode_of s j)"
    if a: "addressable (inode_block j s)"
  proof (cases "inode_block j s = inode_block ino s")
    case True
    then have "inode_index j = inode_index ino \<longleftrightarrow> j = ino"
      using inode_slot_inj [of j s ino] by auto
    then show ?thesis
      using assms True a by (simp add: inode_of_def put_inode_def put inode_at_set)
  next
    case False
    then show ?thesis
      using a by (auto simp: inode_of_def put_inode_def put)
  qed
qed

text \<open>
  C31. An inode written to its slot of the inode table is read back field for field, and no other
  inode changes.
\<close>

theorem write_inode_read_inode:
  assumes "fs_ok s" and "ino \<noteq> 0" and "usable s (inode_block ino s)" and "length (i_zone n) = 10"
    and "write_inode ino n s = (r, s')"
  shows "0 \<le> r \<and> read_inode ino s' = Some n
    \<and> (\<forall>j. j \<noteq> ino \<longrightarrow> usable s (inode_block j s) \<longrightarrow> read_inode j s' = read_inode j s)"
proof -
  have s': "r = 2" "s' = put_inode ino n s"
    using assms by (simp_all add: write_inode_usable)
  have "read_inode j s' = read_inode j s" if "j \<noteq> ino" "usable s (inode_block j s)" for j
  proof (cases "j = 0")
    case False
    then show ?thesis
      using assms(1-4) that by (simp add: s' fs_simps)
  qed (simp add: read_inode_def)
  then show ?thesis
    using assms(1-4) by (simp add: s' fs_simps)
qed

definition blank_disk :: disk where
  "blank_disk = \<lparr>sector = (\<lambda>_. replicate 512 0), bad = (\<lambda>_. False)\<rparr>"

definition blank_fs :: fs where
  "blank_fs = \<lparr>sb = decode_superblock (replicate 1024 0), imap_start = 2, zmap_start = 3, inode_start = 4,
     data_start = 8, mounted = True, dsk = blank_disk, junk = replicate 1024 0\<rparr>"

lemma blank_fs_ok: "fs_ok blank_fs" "addressable b \<Longrightarrow> usable blank_fs b"
  by (simp_all add: fs_ok_def blank_fs_def blank_disk_def disk_wf_def usable_def good_def)

lemma blank_inode_blocks: "usable blank_fs (inode_block 1 blank_fs)" "usable blank_fs (inode_block 2 blank_fs)"
proof -
  have "inode_block 1 blank_fs = 4" "inode_block 2 blank_fs = 4"
    by (simp_all add: inode_block_def blank_fs_def)
  then show "usable blank_fs (inode_block 1 blank_fs)" "usable blank_fs (inode_block 2 blank_fs)"
    by (simp_all add: blank_fs_ok addressable_def)
qed

theorem write_inode_read_inode_witness:
  "read_inode 2 (snd (write_inode 2 zero_inode blank_fs)) = Some zero_inode
   \<and> read_inode 1 (snd (write_inode 2 zero_inode blank_fs)) = read_inode 1 blank_fs"
proof -
  obtain r s' where w: "write_inode 2 zero_inode blank_fs = (r, s')"
    by fastforce
  have "length (i_zone zero_inode) = 10"
    by (simp add: zero_inode_def)
  then show ?thesis
    using write_inode_read_inode [OF blank_fs_ok(1) _ blank_inode_blocks(2) _ w] blank_inode_blocks(1)
    by (simp add: w)
qed

end
