(* ===== verification/FsBitmap.thy ===== *)
theory FsBitmap
  imports FsBlock
begin

text \<open>
  The inode and zone bitmaps: a sequence of blocks read as one sequence of bits. Finding a free bit
  takes the lowest clear one and sets it, clearing undoes it, and \<^verbatim>\<open>alloc_zone\<close> delivers a zone that no
  bit of the map had in use, with zeroed contents.
\<close>

unbundle bit_operations_syntax

section \<open>Bits of a block\<close>

definition bit_at :: "bytes \<Rightarrow> nat \<Rightarrow> bool" where
  "bit_at buf i \<longleftrightarrow> bit (buf ! (i div 8)) (i mod 8)"

lemma length_bit_at_ops [simp]:
  "length (set_bit_at buf i) = length buf" "length (clear_bit_at buf i) = length buf"
  by (simp_all add: set_bit_at_def clear_bit_at_def)

lemma div_mod_8_eq: "(i :: nat) div 8 = j div 8 \<Longrightarrow> i mod 8 = j mod 8 \<Longrightarrow> i = j"
  by (metis div_mult_mod_eq)

lemma bit_at_set:
  assumes "length buf = 1024" and "i < 8192" and "j < 8192"
  shows "bit_at (set_bit_at buf i) j \<longleftrightarrow> j = i \<or> bit_at buf j"
proof (cases "j div 8 = i div 8")
  case True
  then have "j mod 8 = i mod 8 \<longleftrightarrow> j = i"
    using div_mod_8_eq by metis
  then show ?thesis
    using assms True by (auto simp: bit_at_def set_bit_at_def bit_simps)
qed (use assms in \<open>auto simp: bit_at_def set_bit_at_def\<close>)

lemma bit_at_clear:
  assumes "length buf = 1024" and "i < 8192" and "j < 8192"
  shows "bit_at (clear_bit_at buf i) j \<longleftrightarrow> j \<noteq> i \<and> bit_at buf j"
proof (cases "j div 8 = i div 8")
  case True
  then have "j mod 8 = i mod 8 \<longleftrightarrow> j = i"
    using div_mod_8_eq by metis
  then show ?thesis
    using assms True by (auto simp: bit_at_def clear_bit_at_def bit_simps)
qed (use assms in \<open>auto simp: bit_at_def clear_bit_at_def\<close>)

lemma clear_set_bit_at:
  assumes "length buf = 1024" and "i < 8192" and "\<not> bit_at buf i"
  shows "clear_bit_at (set_bit_at buf i) i = buf"
proof -
  have "(buf ! (i div 8) OR push_bit (i mod 8) 1) AND NOT (push_bit (i mod 8) 1) = buf ! (i div 8)"
    using assms(3) by (intro bit_eqI) (auto simp: bit_at_def bit_simps)
  then show ?thesis
    using assms by (simp add: clear_bit_at_def set_bit_at_def)
qed

lemma first_clear_None: "first_clear buf i = None \<Longrightarrow> i \<le> j \<Longrightarrow> j < 8192 \<Longrightarrow> bit_at buf j"
proof (induction buf i rule: first_clear.induct)
  case (1 buf i)
  then show ?case
    by (cases "j = i") (auto simp: first_clear.simps [of buf i] bit_at_def split: if_splits)
qed

lemma first_clear_Some:
  "first_clear buf i = Some k \<Longrightarrow> i \<le> k \<and> k < 8192 \<and> \<not> bit_at buf k \<and> (\<forall>j. i \<le> j \<longrightarrow> j < k \<longrightarrow> bit_at buf j)"
proof (induction buf i rule: first_clear.induct)
  case (1 buf i)
  show ?case
  proof (cases "i < 8192 \<and> bit_at buf i")
    case True
    then have "first_clear buf (i + 1) = Some k"
      using "1.prems" by (simp add: first_clear.simps [of buf i] bit_at_def)
    then have "i + 1 \<le> k \<and> k < 8192 \<and> \<not> bit_at buf k \<and> (\<forall>j. i + 1 \<le> j \<longrightarrow> j < k \<longrightarrow> bit_at buf j)"
      using "1.IH" True by (simp add: bit_at_def)
    then show ?thesis
      using True by (metis Suc_eq_plus1 Suc_leD Suc_leI le_neq_implies_less)
  next
    case False
    then show ?thesis
      using "1.prems" by (auto simp: first_clear.simps [of buf i] bit_at_def split: if_splits)
  qed
qed

section \<open>Bits of a map\<close>

definition map_bit :: "fs \<Rightarrow> u32 \<Rightarrow> nat \<Rightarrow> bool" where
  "map_bit s start k \<longleftrightarrow> bit_at (content s (start + of_nat (k div 8192))) (k mod 8192)"

definition set_map_bit :: "u32 \<Rightarrow> nat \<Rightarrow> fs \<Rightarrow> fs" where
  "set_map_bit start k s =
     put_block (start + of_nat (k div 8192))
       (set_bit_at (content s (start + of_nat (k div 8192))) (k mod 8192)) s"

definition clear_map_bit :: "u32 \<Rightarrow> nat \<Rightarrow> fs \<Rightarrow> fs" where
  "clear_map_bit start k s =
     put_block (start + of_nat (k div 8192))
       (clear_bit_at (content s (start + of_nat (k div 8192))) (k mod 8192)) s"

text \<open>A map of \<open>n\<close> blocks from \<open>start\<close> on, all of them usable.\<close>

definition map_region :: "fs \<Rightarrow> u32 \<Rightarrow> nat \<Rightarrow> bool" where
  "map_region s start n \<longleftrightarrow> n < 65536 \<and> (\<forall>b < n. usable s (start + of_nat b))"

lemma map_region_usable: "map_region s start n \<Longrightarrow> k < 8192 * n \<Longrightarrow> usable s (start + of_nat (k div 8192))"
  by (simp add: map_region_def less_mult_imp_div_less mult.commute)

lemma of_nat_inj_u32: "(a :: nat) < 65536 \<Longrightarrow> b < 65536 \<Longrightarrow> (of_nat a :: u32) = of_nat b \<longleftrightarrow> a = b"
proof -
  assume "a < 65536" "b < 65536"
  then have "unat (of_nat a :: u32) = a" "unat (of_nat b :: u32) = b"
    by (simp_all add: unat_of_nat)
  then show ?thesis
    by metis
qed

lemma map_block_eq:
  assumes "map_region s start n" and "k < 8192 * n" and "j < 8192 * n"
  shows "start + of_nat (j div 8192) = start + of_nat (k div 8192) \<longleftrightarrow> j div 8192 = k div 8192"
proof -
  have "j div 8192 < n" "k div 8192 < n"
    using assms by (simp_all add: less_mult_imp_div_less mult.commute)
  then show ?thesis
    using assms(1) by (simp add: map_region_def of_nat_inj_u32)
qed

lemma div_mod_8192_eq: "(i :: nat) div 8192 = j div 8192 \<Longrightarrow> i mod 8192 = j mod 8192 \<longleftrightarrow> i = j"
  by (metis div_mult_mod_eq)

lemma set_map_bit_spec [fs_simps]:
  assumes "fs_ok s" and "map_region s start n" and "k < 8192 * n"
  shows "fs_ok (set_map_bit start k s)"
    and "usable (set_map_bit start k s) c \<longleftrightarrow> usable s c"
    and "j < 8192 * n \<Longrightarrow> map_bit (set_map_bit start k s) start j \<longleftrightarrow> j = k \<or> map_bit s start j"
    and "addressable c \<Longrightarrow> c \<noteq> start + of_nat (k div 8192) \<Longrightarrow> content (set_map_bit start k s) c = content s c"
proof -
  let ?b = "start + of_nat (k div 8192)"
  have u: "usable s ?b"
    using assms(2,3) by (rule map_region_usable)
  note put = put_block_disk [OF assms(1) u, of "set_bit_at (content s ?b) (k mod 8192)"]
  show "fs_ok (set_map_bit start k s)" "usable (set_map_bit start k s) c \<longleftrightarrow> usable s c"
    using assms(1) by (simp_all add: set_map_bit_def put)
  show "content (set_map_bit start k s) c = content s c" if "addressable c" "c \<noteq> ?b"
    using assms(1) that by (simp add: set_map_bit_def put)
  show "map_bit (set_map_bit start k s) start j \<longleftrightarrow> j = k \<or> map_bit s start j" if j: "j < 8192 * n"
  proof -
    have a: "addressable (start + of_nat (j div 8192))"
      using map_region_usable [OF assms(2) j] by simp
    show ?thesis
    proof (cases "j div 8192 = k div 8192")
      case True
      then show ?thesis
        using assms(1) a div_mod_8192_eq [OF True]
        by (simp add: map_bit_def set_map_bit_def put bit_at_set)
    next
      case False
      then have "start + of_nat (j div 8192) \<noteq> ?b" "j \<noteq> k"
        using map_block_eq [OF assms(2,3) j] by auto
      then show ?thesis
        using assms(1) a by (simp add: map_bit_def set_map_bit_def put)
    qed
  qed
qed

lemma map_static [simp]:
  "sb (set_map_bit st k s) = sb s" "imap_start (set_map_bit st k s) = imap_start s"
  "zmap_start (set_map_bit st k s) = zmap_start s" "inode_start (set_map_bit st k s) = inode_start s"
  "junk (set_map_bit st k s) = junk s" "mounted (set_map_bit st k s) = mounted s"
  "inode_block j (set_map_bit st k s) = inode_block j s"
  by (simp_all add: set_map_bit_def)

section \<open>Finding and clearing\<close>

lemma unat_of_nat_16: "n < 65536 \<Longrightarrow> unat (of_nat n :: u32) = n"
  by (simp add: unat_of_nat)

lemma unat_of_nat_32: "n < 4294967296 \<Longrightarrow> unat (of_nat n :: u32) = n"
  by (simp add: unat_of_nat)

lemma find_free_step:
  assumes "fs_ok s" and "map_region s start n" and "b < n" and "length buf = 1024"
  shows "find_free_loop start (of_nat n) (of_nat b) buf s =
    (case first_clear (content s (start + of_nat b)) 0 of
       Some i \<Rightarrow> (Some (of_nat (8192 * b + i)), set_map_bit start (8192 * b + i) s)
     | None \<Rightarrow> find_free_loop start (of_nat n) (of_nat (b + 1)) (content s (start + of_nat b)) s)"
proof -
  have n: "n < 65536" and u: "usable s (start + of_nat b)"
    using assms by (simp_all add: map_region_def)
  have less: "(of_nat b :: u32) < of_nat n"
    using assms(3) n by (simp add: word_less_nat_alt unat_of_nat_16)
  show ?thesis
  proof (cases "first_clear (content s (start + of_nat b)) 0")
    case None
    then show ?thesis
      using less assms by (subst find_free_loop.simps) (simp add: block_read_usable u ac_simps)
  next
    case (Some i)
    have "i < 8192"
      using first_clear_Some [OF Some] by simp
    then have "(8192 * b + i) div 8192 = b" "(8192 * b + i) mod 8192 = i"
      by simp_all
    then show ?thesis
      using less assms Some
      by (subst find_free_loop.simps) (simp add: block_read_usable block_write_usable u set_map_bit_def)
  qed
qed

lemma map_bit_in_block: "i < 8192 \<Longrightarrow> map_bit s start (8192 * b + i) \<longleftrightarrow> bit_at (content s (start + of_nat b)) i"
  by (simp add: map_bit_def)

lemma find_free_loop_full:
  assumes "fs_ok s" and "map_region s start n" and "\<And>j. j < 8192 * n \<Longrightarrow> map_bit s start j"
    and "b \<le> n" and "length buf = 1024"
  shows "find_free_loop start (of_nat n) (of_nat b) buf s = (None, s)"
  using assms(4,5)
proof (induction "n - b" arbitrary: b buf)
  case 0
  then show ?case
    by (subst find_free_loop.simps) simp
next
  case (Suc m)
  then have b: "b < n"
    by simp
  have "first_clear (content s (start + of_nat b)) 0 = None"
  proof (cases "first_clear (content s (start + of_nat b)) 0")
    case (Some i)
    then have i: "i < 8192" "\<not> bit_at (content s (start + of_nat b)) i"
      using first_clear_Some by auto
    moreover have "8192 * b + i < 8192 * n"
      using i(1) b by linarith
    ultimately show ?thesis
      using assms(3) [of "8192 * b + i"] by (simp add: map_bit_in_block)
  qed
  then show ?case
    using find_free_step [OF assms(1,2) b Suc.prems(2)] Suc.hyps(1) [of "b + 1"] Suc.hyps(2) b assms(1) by simp
qed

lemma find_free_loop_lowest:
  assumes "fs_ok s" and "map_region s start n" and "k < 8192 * n" and "\<not> map_bit s start k"
    and "\<And>j. j < k \<Longrightarrow> map_bit s start j" and "8192 * b \<le> k" and "length buf = 1024"
  shows "find_free_loop start (of_nat n) (of_nat b) buf s = (Some (of_nat k), set_map_bit start k s)"
  using assms(6,7)
proof (induction "n - b" arbitrary: b buf)
  case 0
  then show ?case
    using assms(3) by linarith
next
  case (Suc m)
  then have b: "b < n"
    by simp
  note step = find_free_step [OF assms(1,2) b Suc.prems(2)]
  show ?case
  proof (cases "first_clear (content s (start + of_nat b)) 0")
    case None
    have "8192 * (b + 1) \<le> k"
    proof (rule ccontr)
      assume "\<not> 8192 * (b + 1) \<le> k"
      then have "k = 8192 * b + (k - 8192 * b)" "k - 8192 * b < 8192"
        using Suc.prems(1) by simp_all
      then show False
        using first_clear_None [OF None, of "k - 8192 * b"] assms(4) map_bit_in_block [of "k - 8192 * b" s start b]
        by simp
    qed
    then show ?thesis
      using step None Suc.hyps(1) [of "b + 1"] Suc.hyps(2) assms(1) by simp
  next
    case (Some i)
    then have i: "i < 8192" "\<not> bit_at (content s (start + of_nat b)) i"
      "\<And>j. j < i \<Longrightarrow> bit_at (content s (start + of_nat b)) j"
      using first_clear_Some by auto
    have "\<not> map_bit s start (8192 * b + i)"
      using i by (simp add: map_bit_in_block)
    then have "\<not> 8192 * b + i < k"
      using assms(5) by blast
    moreover have "\<not> k < 8192 * b + i"
    proof
      assume "k < 8192 * b + i"
      then have "k = 8192 * b + (k - 8192 * b)" "k - 8192 * b < i"
        using Suc.prems(1) by simp_all
      then show False
        using i(1) i(3) [of "k - 8192 * b"] assms(4) map_bit_in_block [of "k - 8192 * b" s start b] by simp
    qed
    ultimately have "8192 * b + i = k"
      by simp
    then show ?thesis
      using step Some by simp
  qed
qed

lemma bitmap_find_free_full:
  assumes "fs_ok s" and "map_region s start n" and "\<And>j. j < 8192 * n \<Longrightarrow> map_bit s start j"
  shows "bitmap_find_free start (of_nat n) s = (None, s)"
  using find_free_loop_full [OF assms, of 0 "junk s"] assms(1) by (simp add: bitmap_find_free_def)

lemma bitmap_find_free_lowest:
  assumes "fs_ok s" and "map_region s start n" and "k < 8192 * n" and "\<not> map_bit s start k"
    and "\<And>j. j < k \<Longrightarrow> map_bit s start j"
  shows "bitmap_find_free start (of_nat n) s = (Some (of_nat k), set_map_bit start k s)"
  using find_free_loop_lowest [OF assms, of 0 "junk s"] assms(1) by (simp add: bitmap_find_free_def)

lemma bitmap_clear_usable:
  assumes "fs_ok s" and "map_region s start n" and "k < 8192 * n"
  shows "bitmap_clear start (of_nat k) s = (2, clear_map_bit start k s)"
proof -
  have k: "k < 4294967296"
    using assms by (simp add: map_region_def)
  then have "unat (of_nat k :: u32) = k"
    by (simp add: unat_of_nat)
  then have "(of_nat k :: u32) div 8192 = of_nat (k div 8192)" "unat ((of_nat k :: u32) mod 8192) = k mod 8192"
    by (simp_all add: word_unat_eq_iff unat_div unat_mod unat_of_nat)
  then show ?thesis
    using assms map_region_usable [OF assms(2,3)] by (simp add: bitmap_clear_def clear_map_bit_def fs_simps Let_def)
qed

lemma set_bit_contents:
  assumes "fs_ok s" and "usable s b"
  shows "content (put_block b (set_bit_at (content s b) i) s) b = set_bit_at (content s b) i"
  using assms by (simp add: fs_simps)

lemma bitmap_find_free_cases:
  assumes "fs_ok s" and "map_region s start n"
  obtains (full) "\<And>j. j < 8192 * n \<Longrightarrow> map_bit s start j" "bitmap_find_free start (of_nat n) s = (None, s)"
  | (found) k where "k < 8192 * n" "\<not> map_bit s start k" "\<And>j. j < k \<Longrightarrow> map_bit s start j"
      "unat (of_nat k :: u32) = k"
      "bitmap_find_free start (of_nat n) s = (Some (of_nat k), set_map_bit start k s)"
proof (cases "\<forall>j < 8192 * n. map_bit s start j")
  case True
  then show thesis
    using full bitmap_find_free_full [OF assms] by blast
next
  case False
  define k where "k = (LEAST j. j < 8192 * n \<and> \<not> map_bit s start j)"
  have k: "k < 8192 * n" "\<not> map_bit s start k"
    using LeastI_ex [of "\<lambda>j. j < 8192 * n \<and> \<not> map_bit s start j"] False by (auto simp: k_def)
  have low: "map_bit s start j" if "j < k" for j
    using not_less_Least [of j "\<lambda>j. j < 8192 * n \<and> \<not> map_bit s start j"] that k(1) by (auto simp: k_def)
  have "unat (of_nat k :: u32) = k"
    using k(1) assms(2) by (simp add: map_region_def unat_of_nat)
  then show thesis
    using found [OF k low] bitmap_find_free_lowest [OF assms k low] by blast
qed

text \<open>
  \<^verbatim>\<open>bitmap_find_free\<close> takes the lowest clear bit of the map and sets it, changing no other bit and
  no other block; it fails exactly when every bit is set, and then changes nothing.
\<close>

theorem bitmap_find_free_first_fit:
  assumes "fs_ok s" and "map_region s start n" and "bitmap_find_free start (of_nat n) s = (res, s')"
  shows "case res of
      None \<Rightarrow> s' = s \<and> (\<forall>j < 8192 * n. map_bit s start j)
    | Some num \<Rightarrow> unat num < 8192 * n \<and> \<not> map_bit s start (unat num) \<and> (\<forall>j < unat num. map_bit s start j)
        \<and> (\<forall>j < 8192 * n. map_bit s' start j \<longleftrightarrow> j = unat num \<or> map_bit s start j)
        \<and> (\<forall>c. addressable c \<and> (\<forall>b < n. c \<noteq> start + of_nat b) \<longrightarrow> content s' c = content s c)"
  using assms(1,2)
proof (cases rule: bitmap_find_free_cases)
  case full
  then show ?thesis
    using assms(3) by auto
next
  case (found k)
  have "k div 8192 < n"
    using found(1) by (simp add: less_mult_imp_div_less mult.commute)
  moreover have "res = Some (of_nat k)" "s' = set_map_bit start k s"
    using found(5) assms(3) by auto
  ultimately show ?thesis
    using found(1-4) set_map_bit_spec [OF assms(1,2) found(1)] by simp
qed

lemma blank_map:
  "map_region blank_fs 2 1" "\<not> map_bit blank_fs 2 0"
  "bitmap_find_free 2 (of_nat 1) blank_fs = (Some (of_nat 0), set_map_bit 2 0 blank_fs)"
proof -
  show reg: "map_region blank_fs 2 1"
    by (simp add: map_region_def blank_fs_ok addressable_def)
  show clear: "\<not> map_bit blank_fs 2 0"
    by (simp add: map_bit_def bit_at_def content_def block_def blank_fs_def blank_disk_def nth_append)
  show "bitmap_find_free 2 (of_nat 1) blank_fs = (Some (of_nat 0), set_map_bit 2 0 blank_fs)"
    by (rule bitmap_find_free_lowest [OF blank_fs_ok(1) reg _ clear]) simp_all
qed

theorem bitmap_find_free_first_fit_witness:
  "\<not> map_bit blank_fs 2 0 \<and> map_bit (set_map_bit 2 0 blank_fs) 2 0 \<and> \<not> map_bit (set_map_bit 2 0 blank_fs) 2 1"
proof -
  have "\<not> map_bit blank_fs 2 1"
    by (simp add: map_bit_def bit_at_def content_def block_def blank_fs_def blank_disk_def nth_append)
  then show ?thesis
    using bitmap_find_free_first_fit [OF blank_fs_ok(1) blank_map(1,3)] by auto
qed

text \<open>
  Clearing the bit that was just found restores the map: freeing an inode or a zone undoes its
  allocation.
\<close>

lemma bitmap_clear_undoes_find_free:
  assumes "fs_ok s" and "map_region s start n" and "bitmap_find_free start (of_nat n) s = (Some num, s1)"
  shows "\<exists>s2. bitmap_clear start num s1 = (2, s2) \<and> (\<forall>c. addressable c \<longrightarrow> content s2 c = content s c)"
  using assms(1,2)
proof (cases rule: bitmap_find_free_cases)
  case full
  then show ?thesis
    using assms(3) by auto
next
  case (found k)
  let ?b = "start + of_nat (k div 8192)"
  have res: "num = of_nat k" "s1 = set_map_bit start k s"
    using found(5) assms(3) by auto
  note set = set_map_bit_spec [OF assms(1,2) found(1)]
  have u: "usable s ?b"
    using assms(2) found(1) by (rule map_region_usable)
  have reg: "map_region s1 start n"
    using assms(2) set(2) by (simp add: res map_region_def)
  have ok1: "fs_ok s1" "usable s1 ?b"
    using set(1,2) u by (simp_all add: res)
  have c1: "content s1 ?b = set_bit_at (content s ?b) (k mod 8192)"
    using set_bit_contents [OF assms(1) u] by (simp add: res set_map_bit_def)
  have undo: "clear_bit_at (content s1 ?b) (k mod 8192) = content s ?b"
    using clear_set_bit_at [of "content s ?b" "k mod 8192"] assms(1) found(2) by (simp add: c1 map_bit_def)
  have "content (clear_map_bit start k s1) c = content s c" if "addressable c" for c
    using content_put_block [OF ok1, of "content s ?b" c] set(4) [OF that] that assms(1)
    by (auto simp: clear_map_bit_def undo) (simp add: res)
  then show ?thesis
    using bitmap_clear_usable [OF ok1(1) reg found(1)] by (simp add: res)
qed

section \<open>Zones\<close>

definition fdz :: "fs \<Rightarrow> nat" where
  "fdz s = unat (s_firstdatazone (sb s))"

definition zmap_len :: "fs \<Rightarrow> nat" where
  "zmap_len s = unat (s_zmap_blocks (sb s))"

definition nzones :: "fs \<Rightarrow> nat" where
  "nzones s = unat (s_zones (sb s))"

text \<open>
  The zones of the disk whose bit in the zone map is clear; bit \<open>k\<close> stands for zone \<open>fdz + k - 1\<close>. The
  map has bits past the last zone, which the formatting tool leaves clear.
\<close>

definition zone_free :: "fs \<Rightarrow> u32 \<Rightarrow> bool" where
  "zone_free s z \<longleftrightarrow> fdz s \<le> unat z \<and> unat z < nzones s \<and> unat z - fdz s + 1 < 8192 * zmap_len s
     \<and> \<not> map_bit s (zmap_start s) (unat z - fdz s + 1)"

text \<open>
  The geometry of a mounted file system: the zone map, the inode table and the data zones follow one
  another on usable blocks, the map has a bit for every zone, and its bit 0, which stands for none, is set.
\<close>

definition geom :: "fs \<Rightarrow> bool" where
  "geom s \<longleftrightarrow> fs_ok s
     \<and> unat (zmap_start s) + zmap_len s \<le> unat (inode_start s) \<and> unat (inode_start s) \<le> fdz s \<and> 0 < fdz s \<and> fdz s \<le> nzones s
     \<and> (\<forall>b. unat b < nzones s \<longrightarrow> usable s b)
     \<and> 0 < zmap_len s \<and> nzones s < fdz s + 8192 * zmap_len s \<and> map_bit s (zmap_start s) 0"

lemma geomD:
  assumes "geom s"
  shows "fs_ok s" "unat (inode_start s) \<le> fdz s" "fdz s \<le> nzones s" "unat b < nzones s \<Longrightarrow> usable s b"
    "unat (zmap_start s) + zmap_len s \<le> unat (inode_start s)" "0 < fdz s"
    "nzones s < fdz s + 8192 * zmap_len s"
  using assms by (auto simp: geom_def)

lemma nzones_less: "nzones s < 4294967296"
  unfolding nzones_def by (rule unat_less_32)

lemma zone_free_range: "geom s \<Longrightarrow> zone_free s z \<Longrightarrow> fdz s \<le> unat z \<and> unat z < nzones s"
  by (auto simp: geom_def zone_free_def)

lemma zmap_block_number:
  assumes "geom s" and "b < zmap_len s"
  shows "unat (zmap_start s + of_nat b) = unat (zmap_start s) + b"
proof -
  have "b < 4294967296" "unat (zmap_start s) + b < 4294967296"
    using assms geomD(2,3,5) [OF assms(1)] nzones_less [of s] by linarith+
  then show ?thesis
    by (simp add: unat_of_nat unat_add_no_wrap)
qed

lemma zmap_region: "geom s \<Longrightarrow> map_region s (zmap_start s) (zmap_len s)"
proof -
  assume g: "geom s"
  have "zmap_len s < 65536"
    using unsigned_less [of "s_zmap_blocks (sb s)"] by (simp add: zmap_len_def)
  then show ?thesis
    using geomD [OF g] zmap_block_number [OF g] by (auto simp: map_region_def)
qed

lemma sb_words:
  "ucast (s_zmap_blocks (sb s)) = (of_nat (zmap_len s) :: u32)"
  "ucast (s_firstdatazone (sb s)) = (of_nat (fdz s) :: u32)"
  by (simp_all add: zmap_len_def fdz_def)

text \<open>A state that differs only in the contents of the disk.\<close>

definition same_layout :: "fs \<Rightarrow> fs \<Rightarrow> bool" where
  "same_layout s s' \<longleftrightarrow> s' = s\<lparr>dsk := dsk s'\<rparr> \<and> (\<forall>c. usable s' c \<longleftrightarrow> usable s c) \<and> fs_ok s'"

lemma same_layout_trans: "same_layout s s' \<Longrightarrow> same_layout s' s'' \<Longrightarrow> same_layout s s''"
  unfolding same_layout_def by (metis fs.surjective fs.update_convs(7) fs.select_convs fs.equality)

lemma same_layout_put_block:
  "fs_ok s \<Longrightarrow> usable s b \<Longrightarrow> length buf = 1024 \<Longrightarrow> same_layout s (put_block b buf s)"
  unfolding same_layout_def by (intro conjI fs.equality) (simp_all add: fs_simps)

lemma same_layoutD:
  assumes "same_layout s s'"
  shows "fdz s' = fdz s" "zmap_len s' = zmap_len s" "nzones s' = nzones s" "zmap_start s' = zmap_start s"
    "inode_start s' = inode_start s" "inode_block i s' = inode_block i s" "usable s' c \<longleftrightarrow> usable s c" "fs_ok s'"
    "sb s' = sb s" "junk s' = junk s" "mounted s' = mounted s" "imap_start s' = imap_start s"
proof -
  have s': "s' = s\<lparr>dsk := dsk s'\<rparr>"
    using assms by (simp add: same_layout_def)
  show eqs: "sb s' = sb s" "zmap_start s' = zmap_start s" "inode_start s' = inode_start s"
    "junk s' = junk s" "mounted s' = mounted s" "imap_start s' = imap_start s"
    by (subst s'; simp)+
  then show "fdz s' = fdz s" "zmap_len s' = zmap_len s" "nzones s' = nzones s" "inode_block i s' = inode_block i s"
    by (simp_all add: fdz_def zmap_len_def nzones_def inode_block_def)
  show "usable s' c \<longleftrightarrow> usable s c" "fs_ok s'"
    using assms by (simp_all add: same_layout_def)
qed

lemma alloc_zone_spec:
  assumes "geom s" and "zone_free s z0"
  obtains z s' where "alloc_zone s = (z, s')" "zone_free s z" "same_layout s s'" "geom s'"
    "\<And>x. zone_free s' x \<longleftrightarrow> x \<noteq> z \<and> zone_free s x" "content s' z = replicate 1024 0"
    "\<And>c. addressable c \<Longrightarrow> c \<noteq> z \<Longrightarrow> unat (inode_start s) \<le> unat c \<Longrightarrow> content s' c = content s c"
  using geomD(1) [OF assms(1)] zmap_region [OF assms(1)]
proof (cases rule: bitmap_find_free_cases)
  case full
  then show thesis
    using assms(2) by (auto simp: zone_free_def)
next
  case (found k)
  let ?m = "zmap_start s" and ?s1 = "set_map_bit (zmap_start s) k s"
  define z where "z = (of_nat (fdz s + k - 1) :: u32)"
  note g = geomD [OF assms(1)]
  have "k \<noteq> 0"
    using assms(1) found(2) unfolding geom_def by metis
  moreover have "k \<le> unat z0 - fdz s + 1"
    using assms(2) found(3) unfolding zone_free_def by (meson not_le)
  ultimately have k: "1 \<le> k" "fdz s + k - 1 < nzones s"
    using assms(2) unfolding zone_free_def by linarith+
  then have uz: "unat z = fdz s + k - 1"
    unfolding z_def using nzones_less [of s] by (intro unat_of_nat_32) linarith
  have zs: "of_nat k + ucast (s_firstdatazone (sb s)) - 1 = z"
    using k(1) by (simp add: z_def sb_words of_nat_diff)
  note set = set_map_bit_spec [OF g(1) zmap_region [OF assms(1)] found(1)]
  have kb: "k div 8192 < zmap_len s"
    using found(1) by (simp add: less_mult_imp_div_less mult.commute)
  have usz: "usable s z"
    using g(4) uz k(2) by simp
  define s' where "s' = put_block z (replicate 1024 0) ?s1"
  note put = put_block_disk [of ?s1 z "replicate 1024 0"]
  have ok: "fs_ok ?s1" "usable ?s1 z"
    using set usz by simp_all
  have layout: "same_layout s s'"
  proof (rule same_layout_trans)
    show "same_layout s ?s1"
      unfolding set_map_bit_def
      using g(1) map_region_usable [OF zmap_region [OF assms(1)] found(1)] by (intro same_layout_put_block) simp_all
    show "same_layout ?s1 s'"
      unfolding s'_def using ok by (intro same_layout_put_block) simp_all
  qed
  have cont: "content s' c = content ?s1 c" if "addressable c" "c \<noteq> z" for c
    using put(4) [OF ok] that by (simp add: s'_def)
  have zb: "zmap_start s + of_nat b \<noteq> z" "unat (zmap_start s + of_nat b) < unat (inode_start s)"
      if "b < zmap_len s" for b
    using zmap_block_number [OF assms(1) that] g(2,5) uz that k(1) by auto
  have bits: "map_bit s' ?m j \<longleftrightarrow> j = k \<or> map_bit s ?m j" if "j < 8192 * zmap_len s" for j
  proof -
    have "j div 8192 < zmap_len s"
      using that by (simp add: less_mult_imp_div_less mult.commute)
    moreover have "addressable (?m + of_nat (j div 8192))"
      using map_region_usable [OF zmap_region [OF assms(1)] that] by simp
    ultimately have "map_bit s' ?m j \<longleftrightarrow> map_bit ?s1 ?m j"
      using cont zb(1) by (simp add: map_bit_def)
    then show ?thesis
      using set(3) [OF that] by simp
  qed
  have free: "zone_free s' x \<longleftrightarrow> x \<noteq> z \<and> zone_free s x" for x
  proof -
    have "unat x - fdz s + 1 = k \<longleftrightarrow> x = z" if "fdz s \<le> unat x"
      using that uz k(1) by (auto simp: word_unat_eq_iff)
    then show ?thesis
      using bits by (auto simp: zone_free_def same_layoutD [OF layout])
  qed
  have A: "alloc_zone s = (z, s')"
    using found(5) put(1) [OF ok] by (simp add: alloc_zone_def sb_words(1) zs s'_def)
  have B: "zone_free s z"
    using found(1,2) uz k by (simp add: zone_free_def)
  have C: "geom s'"
    using assms(1) bits same_layoutD(8) [OF layout] unfolding geom_def same_layoutD(1-7) [OF layout] by simp
  have D: "content s' z = replicate 1024 0"
    using put(4) [OF ok] usz by (simp add: s'_def)
  have E: "content s' c = content s c"
    if "addressable c" "c \<noteq> z" "unat (inode_start s) \<le> unat c" for c
    using cont [OF that(1,2)] set(4) [OF that(1)] zb(2) [OF kb] that(3) by (metis not_less)
  show thesis
    by (rule that [OF A B layout C free D E])
qed

text \<open>Changes above the zone map leave it as it is.\<close>

lemma geom_cong:
  assumes "geom s" and "same_layout s s'"
    and "\<And>c. addressable c \<Longrightarrow> unat c < unat (inode_start s) \<Longrightarrow> content s' c = content s c"
  shows "geom s'" and "zone_free s' x \<longleftrightarrow> zone_free s x"
proof -
  have bits: "map_bit s' (zmap_start s) k \<longleftrightarrow> map_bit s (zmap_start s) k" if k: "k < 8192 * zmap_len s" for k
  proof -
    have "k div 8192 < zmap_len s"
      using k by (simp add: less_mult_imp_div_less mult.commute)
    then have "unat (zmap_start s + of_nat (k div 8192)) < unat (inode_start s)"
      using zmap_block_number [OF assms(1)] geomD(5) [OF assms(1)] by simp
    then show ?thesis
      using assms(3) map_region_usable [OF zmap_region [OF assms(1)] k] by (simp add: map_bit_def)
  qed
  then show "geom s'"
    using assms(1) same_layoutD(8) [OF assms(2)] unfolding geom_def same_layoutD(1-7) [OF assms(2)] by simp
  show "zone_free s' x \<longleftrightarrow> zone_free s x"
    using bits unfolding zone_free_def same_layoutD [OF assms(2)] by auto
qed

end
