(* ===== verification/FsTree.thy ===== *)
theory FsTree
  imports FsBitmap
begin

text \<open>
  The block tree of an inode, direct, indirect and double indirect. \<open>rz\<close> reads it as one function from
  references to zones, and \<open>file_byte\<close> is the byte array it stands for; \<^verbatim>\<open>map_block\<close> without allocation is
  that function, and with allocation it adds references to fresh zones and changes no byte of the file.
\<close>

section \<open>The block tree\<close>

datatype ref = Data nat | Ind | Dbl | Sng nat

text \<open>Entry \<open>i\<close> of the indirect block in zone \<open>t\<close>, zone 0 standing for a missing block.\<close>

definition entry_of :: "fs \<Rightarrow> u32 \<Rightarrow> nat \<Rightarrow> u32" where
  "entry_of s t i = (if t = 0 then 0 else get32 (content s t) (4 * i))"

fun rz :: "inode \<Rightarrow> fs \<Rightarrow> ref \<Rightarrow> u32" where
  "rz n s Ind = i_zone n ! 7"
| "rz n s Dbl = i_zone n ! 8"
| "rz n s (Sng k) = (if k < 256 then entry_of s (i_zone n ! 8) k else 0)"
| "rz n s (Data fb) =
     (if fb < 7 then i_zone n ! fb
      else if fb < 263 then entry_of s (i_zone n ! 7) (fb - 7)
      else if fb < 65799
      then entry_of s (entry_of s (i_zone n ! 8) ((fb - 263) div 256)) ((fb - 263) mod 256)
      else 0)"

definition data_zone :: "fs \<Rightarrow> u32 \<Rightarrow> bool" where
  "data_zone s z \<longleftrightarrow> fdz s \<le> unat z \<and> unat z < nzones s \<and> 0 < unat z \<and> \<not> zone_free s z"

text \<open>A file whose zones are data zones in use, each referenced once.\<close>

definition file_ok :: "inode \<Rightarrow> fs \<Rightarrow> bool" where
  "file_ok n s \<longleftrightarrow> length (i_zone n) = 10
     \<and> (\<forall>r. rz n s r \<noteq> 0 \<longrightarrow> data_zone s (rz n s r))
     \<and> (\<forall>r r'. rz n s r = rz n s r' \<longrightarrow> rz n s r \<noteq> 0 \<longrightarrow> r = r')"

definition file_byte :: "inode \<Rightarrow> fs \<Rightarrow> nat \<Rightarrow> u8" where
  "file_byte n s pos =
     (let z = rz n s (Data (pos div 1024)) in if z = 0 then 0 else content s z ! (pos mod 1024))"

text \<open>The references an indirect block holds, and the zone of one of them.\<close>

fun child :: "ref \<Rightarrow> nat \<Rightarrow> ref" where
  "child Ind i = Data (7 + i)"
| "child Dbl i = Sng i"
| "child (Sng k) i = Data (263 + 256 * k + i)"
| "child (Data fb) i = Data fb"

fun table_ref :: "ref \<Rightarrow> bool" where
  "table_ref (Data fb) \<longleftrightarrow> False"
| "table_ref (Sng k) \<longleftrightarrow> k < 256"
| "table_ref r \<longleftrightarrow> True"

lemma rz_child:
  "table_ref t \<Longrightarrow> i < 256 \<Longrightarrow> rz n s (child t i) = entry_of s (rz n s t) i"
  by (cases t) auto

lemma file_okD:
  assumes "file_ok n s"
  shows "length (i_zone n) = 10" "rz n s r \<noteq> 0 \<Longrightarrow> data_zone s (rz n s r)"
    "rz n s r = rz n s r' \<Longrightarrow> rz n s r \<noteq> 0 \<Longrightarrow> r = r'"
  using assms by (auto simp: file_ok_def)

lemma data_zone_usable: "geom s \<Longrightarrow> data_zone s z \<Longrightarrow> usable s z"
  by (simp add: data_zone_def geomD)

section \<open>Looking a block up\<close>

lemma table_zone_lookup:
  assumes "geom s" and "data_zone s t"
  shows "table_zone t i False s = (entry_of s t i, s)"
  using assms geomD(1) [OF assms(1)] data_zone_usable [OF assms]
  by (auto simp: table_zone_def entry_of_def fs_simps data_zone_def)

lemma fileblock_cases:
  fixes fb :: u32
  assumes "unat fb = b"
  obtains (direct) "fb < 7" "b < 7"
  | (single) "\<not> fb < 7" "fb - 7 < 256" "unat (fb - 7) = b - 7" "7 \<le> b" "b < 263"
  | (double) "\<not> fb < 7" "\<not> fb - 7 < 256" "\<not> (fb - 7 - 256) div 256 \<ge> 256"
      "unat ((fb - 7 - 256) div 256) = (b - 263) div 256" "unat ((fb - 7 - 256) mod 256) = (b - 263) mod 256"
      "263 \<le> b" "b < 65799"
  | (beyond) "\<not> fb < 7" "\<not> fb - 7 < 256" "(fb - 7 - 256) div 256 \<ge> 256" "65799 \<le> b"
proof (cases "b < 7")
  case True
  then show thesis
    using assms direct by (simp add: word_less_nat_alt)
next
  case False
  then have 7: "\<not> fb < 7" "unat (fb - 7) = b - 7"
    using assms by (simp_all add: word_less_nat_alt unat_sub word_le_nat_alt)
  show thesis
  proof (cases "b < 263")
    case True
    then show thesis
      using 7 False single by (simp add: word_less_nat_alt)
  next
    case F: False
    then have le: "256 \<le> fb - 7"
      using 7(2) False by (simp add: word_le_nat_alt)
    then have 256: "\<not> fb - 7 < 256" "unat (fb - 7 - 256) = b - 263"
      using unat_sub [OF le] unfolding 7(2) by (simp_all add: not_less)
    then have dm: "unat ((fb - 7 - 256) div 256) = (b - 263) div 256" "unat ((fb - 7 - 256) mod 256) = (b - 263) mod 256"
      by (simp_all only: unat_div unat_mod) simp_all
    show thesis
    proof (cases "b < 65799")
      case True
      then have "(b - 263) div 256 < 256"
        using F by (simp add: div_less_iff_less_mult)
      then show thesis
        using double 7(1) 256 dm F True by (simp add: word_le_nat_alt)
    next
      case False
      then have "256 \<le> (b - 263) div 256"
        by (simp add: less_eq_div_iff_mult_less_eq)
      then show thesis
        using beyond 7(1) 256 dm False by (simp add: word_le_nat_alt)
    qed
  qed
qed

lemma map_block_lookup [fs_simps]:
  assumes "geom s" and "file_ok n s"
  shows "map_block n fb False ino s = (rz n s (Data (unat fb)), n, s)"
  using refl [of "unat fb"]
proof (cases rule: fileblock_cases)
  case single
  then show ?thesis
    using table_zone_lookup [OF assms(1) file_okD(2) [OF assms(2), of Ind]]
    by (auto simp: map_block_def ensure_zone_def entry_of_def)
next
  case double
  have k: "(unat fb - 263) div 256 < 256"
    using double(7) by (simp add: div_less_iff_less_mult)
  note ind = table_zone_lookup [OF assms(1) file_okD(2) [OF assms(2), of Dbl]]
  show ?thesis
    using double k ind table_zone_lookup [OF assms(1) file_okD(2) [OF assms(2), of "Sng ((unat fb - 263) div 256)"]]
    by (auto simp: map_block_def ensure_zone_def entry_of_def Let_def)
qed (auto simp: map_block_def Let_def)

section \<open>Allocating a block\<close>

definition valid_ino :: "fs \<Rightarrow> u32 \<Rightarrow> bool" where
  "valid_ino s ino \<longleftrightarrow> ino \<noteq> 0 \<and> unat (inode_start s) \<le> unat (inode_block ino s) \<and> unat (inode_block ino s) < fdz s"

lemma valid_ino_usable: "geom s \<Longrightarrow> valid_ino s ino \<Longrightarrow> usable s (inode_block ino s)"
  using geomD(3) [of s] geomD(4) [of s "inode_block ino s"] by (simp add: valid_ino_def)

text \<open>Adding to the tree of \<open>n\<close>, the file of \<open>ino\<close>, the missing reference \<open>r\<close> to a fresh zone \<open>z\<close>.\<close>

definition grow :: "u32 \<Rightarrow> ref \<Rightarrow> u32 \<Rightarrow> inode \<Rightarrow> fs \<Rightarrow> inode \<Rightarrow> fs \<Rightarrow> bool" where
  "grow ino r z n s n' s' \<longleftrightarrow> same_layout s s' \<and> geom s' \<and> zone_free s z
     \<and> (\<forall>x. zone_free s' x \<longleftrightarrow> x \<noteq> z \<and> zone_free s x)
     \<and> rz n s r = 0 \<and> rz n' s' = (rz n s)(r := z) \<and> content s' z = replicate 1024 0
     \<and> n' = n\<lparr>i_zone := i_zone n'\<rparr> \<and> length (i_zone n') = 10 \<and> inode_of s' ino = n'
     \<and> (\<forall>fb. rz n s (Data fb) \<noteq> 0 \<longrightarrow> content s' (rz n s (Data fb)) = content s (rz n s (Data fb)))
     \<and> (\<forall>c. data_zone s c \<longrightarrow> (\<forall>r. c \<noteq> rz n s r) \<longrightarrow> content s' c = content s c)
     \<and> (\<forall>j. j \<noteq> ino \<longrightarrow> valid_ino s j \<longrightarrow> inode_of s' j = inode_of s j)"

lemma get32_zeros: "i + 4 \<le> 1024 \<Longrightarrow> get32 (replicate 1024 0) i = 0"
  by (simp add: get32_def word32_of_def)

lemma entry_of_zeros: "content s z = replicate 1024 0 \<Longrightarrow> i < 256 \<Longrightarrow> entry_of s z i = 0"
  by (simp add: entry_of_def get32_zeros)

lemma zone_free_data: "geom s \<Longrightarrow> zone_free s z \<Longrightarrow> usable s z \<and> z \<noteq> 0 \<and> unat (inode_start s) \<le> unat z"
  using zone_free_range [of s z] geomD(2,6) [of s] geomD(4) [of s z] by auto

lemma inode_of_cong:
  assumes "content s' (inode_block j s) = content s (inode_block j s)" and "inode_block j s' = inode_block j s"
  shows "inode_of s' j = inode_of s j"
  using assms by (simp add: inode_of_def)

definition slot :: "nat \<Rightarrow> ref" where
  "slot k = (if k < 7 then Data k else if k = 7 then Ind else Dbl)"

lemma rz_slot:
  assumes "file_ok n s" and "k < 9" and "i_zone n ! k = 0"
    and same: "\<And>t i. t = 0 \<or> data_zone s t \<Longrightarrow> entry_of s' t i = entry_of s t i"
    and zero: "\<And>i. i < 256 \<Longrightarrow> entry_of s' z i = 0"
  shows "rz (n\<lparr>i_zone := (i_zone n)[k := z]\<rparr>) s' = (rz n s)(slot k := z)"
proof
  fix r
  have len: "length (i_zone n) = 10"
    using assms(1) by (rule file_okD)
  have d: "i_zone n ! 7 = 0 \<or> data_zone s (i_zone n ! 7)" "i_zone n ! 8 = 0 \<or> data_zone s (i_zone n ! 8)"
    using file_okD(2) [OF assms(1), of Ind] file_okD(2) [OF assms(1), of Dbl] by auto
  have d2: "entry_of s (i_zone n ! 8) m = 0 \<or> data_zone s (entry_of s (i_zone n ! 8) m)" if "m < 256" for m
    using file_okD(2) [OF assms(1), of "Sng m"] that by auto
  have e0: "entry_of t 0 i = 0" for t i
    by (simp add: entry_of_def)
  show "rz (n\<lparr>i_zone := (i_zone n)[k := z]\<rparr>) s' r = ((rz n s)(slot k := z)) r"
  proof (cases r)
    case (Data fb)
    show ?thesis
    proof (cases "263 \<le> fb \<and> fb < 65799")
      case True
      then have m: "(fb - 263) div 256 < 256"
        by (simp add: div_less_iff_less_mult less_diff_conv2)
      have same_entry: "entry_of s' (entry_of s (i_zone n ! 8) ((fb - 263) div 256)) i
          = entry_of s (entry_of s (i_zone n ! 8) ((fb - 263) div 256)) i" for i
        using same [OF d2 [OF m]] .
      show ?thesis
        using Data True assms(2,3) len d m same_entry same [OF d(2)] zero
        by (cases "k = 8") (auto simp: slot_def e0)
    next
      case False
      then show ?thesis
        using Data assms(2,3) len same [OF d(1)] zero by (cases "k = 7") (auto simp: slot_def e0 nth_list_update)
    qed
  next
    case (Sng m)
    then show ?thesis
      using assms(2,3) len same [OF d(2)] zero by (cases "k = 8") (auto simp: slot_def e0)
  qed (use assms(2,3) len in \<open>auto simp: slot_def nth_list_update\<close>)
qed

lemma ensure_zone_grow:
  assumes "geom s" and "file_ok n s" and "valid_ino s ino" and "zone_free s z0" and "k < 9" and "i_zone n ! k = 0"
  obtains n' s' z where "ensure_zone k ino n s = (n', s')" "grow ino (slot k) z n s n' s'"
    "i_zone n' = (i_zone n)[k := z]"
  using assms(1,4)
proof (rule alloc_zone_spec)
  fix z s1
  assume A: "alloc_zone s = (z, s1)" "zone_free s z" "same_layout s s1" "geom s1"
    "\<And>x. zone_free s1 x \<longleftrightarrow> x \<noteq> z \<and> zone_free s x" "content s1 z = replicate 1024 0"
    "\<And>c. addressable c \<Longrightarrow> c \<noteq> z \<Longrightarrow> unat (inode_start s) \<le> unat c \<Longrightarrow> content s1 c = content s c"
  note L = same_layoutD [OF A(3)]
  define n' where "n' = n\<lparr>i_zone := (i_zone n)[k := z]\<rparr>"
  define s' where "s' = put_inode ino n' s1"
  note g = geomD [OF assms(1)] geomD [OF A(4)]
  have len: "length (i_zone n') = 10"
    using file_okD(1) [OF assms(2)] by (simp add: n'_def)
  have ub: "usable s1 (inode_block ino s1)"
    using valid_ino_usable [OF assms(1,3)] by (simp add: L)
  note put = put_inode_disk [OF L(8) ub len]
  have layout1: "same_layout s1 s'"
    unfolding s'_def put_inode_def using L(8) ub len by (intro same_layout_put_block) simp_all
  note layout = same_layout_trans [OF A(3) layout1]
  have ib: "unat (inode_start s) \<le> unat (inode_block ino s)" "unat (inode_block ino s) < fdz s"
    using assms(3) by (simp_all add: valid_ino_def)
  have meta: "content s' c = content s1 c" if "addressable c" "unat c < unat (inode_start s1)" for c
    using put(3) [OF that(1)] that(2) ib(1) unfolding s'_def L by (metis not_less)
  note gm = geom_cong [OF A(4) layout1 meta]
  have data: "content s' c = (if c = z then replicate 1024 0 else content s c)" if "addressable c" "fdz s \<le> unat c" for c
  proof -
    have "c \<noteq> inode_block ino s" "unat (inode_start s) \<le> unat c"
      using that(2) ib(2) g(2) by auto
    then show ?thesis
      using put(3) [OF that(1)] that(1) A(6,7) by (simp add: s'_def L)
  qed
  have z: "addressable z" "fdz s \<le> unat z"
    using zone_free_data [OF assms(1) A(2)] zone_free_range [OF assms(1) A(2)] by auto
  have dz: "content s' c = content s c" if "data_zone s c" for c
    using data [of c] data_zone_usable [OF assms(1) that] that A(2) by (auto simp: data_zone_def)
  have same: "entry_of s' t i = entry_of s t i" if "t = 0 \<or> data_zone s t" for t i
    using that dz by (auto simp: entry_of_def)
  have zero: "entry_of s' z i = 0" if "i < 256" for i
    using entry_of_zeros [of s' z i] data [OF z] that by simp
  have other: "inode_of s' j = inode_of s j" if "j \<noteq> ino" "valid_ino s j" for j
  proof -
    have "usable s (inode_block j s)" "unat (inode_start s) \<le> unat (inode_block j s)" "inode_block j s \<noteq> z"
      using valid_ino_usable [OF assms(1) that(2)] that(2) z(2) by (auto simp: valid_ino_def)
    moreover from this have "inode_of s1 j = inode_of s j"
      by (intro inode_of_cong A(7) L) simp_all
    ultimately show ?thesis
      using put(4) [of j] that(1) by (simp add: s'_def L)
  qed
  have ens: "ensure_zone k ino n s = (n', s')"
    using assms(3,6) A(1) write_inode_usable [OF L(8) ub _ len] by (simp add: ensure_zone_def n'_def s'_def valid_ino_def Let_def)
  moreover have "grow ino (slot k) z n s n' s'"
    unfolding grow_def
  proof (intro conjI allI impI)
    show "rz n' s' = (rz n s)(slot k := z)"
      unfolding n'_def using assms(2,5,6) same zero by (rule rz_slot)
    have "k < 7 \<or> k = 7 \<or> k = 8"
      using assms(5) by linarith
    then show "rz n s (slot k) = 0"
      using assms(6) by (auto simp: slot_def)
    show "n' = n\<lparr>i_zone := i_zone n'\<rparr>"
      by (simp add: n'_def)
    show "inode_of s' ino = n'"
      using put(4) [of ino] ub by (simp add: s'_def L)
    show "content s' (rz n s (Data fb)) = content s (rz n s (Data fb))" if "rz n s (Data fb) \<noteq> 0" for fb
      using dz file_okD(2) [OF assms(2) that] .
  qed (use layout gm A(2,5) data z len dz other in auto)
  ultimately show thesis
    by (rule that) (simp add: n'_def)
qed

lemma digit_256:
  assumes "256 * a + i = 256 * b + (j :: nat)" and "i < 256" and "j < 256"
  shows "a = b \<and> i = j"
proof -
  have "a = (256 * a + i) div 256" "b = (256 * b + j) div 256"
    using assms(2,3) by simp_all
  then have "a = b"
    using assms(1) by metis
  then show ?thesis
    using assms(1) by simp
qed

lemma child_inject: "table_ref t \<Longrightarrow> i < 256 \<Longrightarrow> table_ref t' \<Longrightarrow> i' < 256 \<Longrightarrow> child t i = child t' i' \<longleftrightarrow> t = t' \<and> i = i'"
  by (cases t; cases t') (auto dest: digit_256)

lemma ref_cases:
  obtains (root) k where "k < 9" "r = slot k"
  | (child) t i where "table_ref t" "i < 256" "r = child t i"
  | (none) "\<And>n s. rz n s r = 0" "\<And>k. r \<noteq> slot k" "\<And>t i. table_ref t \<Longrightarrow> i < 256 \<Longrightarrow> r \<noteq> child t i"
proof (cases r)
  case (Data fb)
  consider "fb < 7" | "7 \<le> fb" "fb < 263" | "263 \<le> fb" "fb < 65799" | "65799 \<le> fb"
    by linarith
  then show thesis
  proof cases
    case 1
    then show thesis
      using root [of fb] Data by (simp add: slot_def)
  next
    case 2
    then show thesis
      using child [of Ind "fb - 7"] Data by simp
  next
    case 3
    then have "fb = 263 + 256 * ((fb - 263) div 256) + (fb - 263) mod 256"
      by simp
    moreover have "(fb - 263) div 256 < 256" "(fb - 263) mod 256 < 256"
      using 3 by (simp_all add: div_less_iff_less_mult less_diff_conv2)
    ultimately show thesis
      using child [of "Sng ((fb - 263) div 256)" "(fb - 263) mod 256"] Data by simp
  next
    case 4
    have "Data fb \<noteq> child t i" if "table_ref t" "i < 256" for t i
      using that 4 by (cases t) auto
    then show thesis
      using none 4 Data by (simp add: slot_def)
  qed
next
  case Ind
  then show thesis
    using root [of 7] by (simp add: slot_def)
next
  case Dbl
  then show thesis
    using root [of 8] by (simp add: slot_def)
next
  case (Sng k)
  show thesis
  proof (cases "k < 256")
    case True
    then show thesis
      using child [of Dbl k] Sng by simp
  next
    case False
    have "Sng k \<noteq> child t i" if "table_ref t" "i < 256" for t i
      using that False by (cases t) auto
    then show thesis
      using none False Sng by (simp add: slot_def)
  qed
qed

lemma slot_not_child: "table_ref t \<Longrightarrow> slot k \<noteq> child t i"
  by (cases t) (auto simp: slot_def)

lemma rz_table:
  assumes "file_ok n s" and "geom s" and "table_ref t" and "rz n s t \<noteq> 0" and "i < 256" and "rz n s (child t i) = 0"
    and table: "content s' (rz n s t) = put32 (content s (rz n s t)) (4 * i) z"
    and same: "\<And>c. data_zone s c \<Longrightarrow> c \<noteq> rz n s t \<Longrightarrow> content s' c = content s c"
    and zero: "content s' z = replicate 1024 0"
  shows "rz n s' = (rz n s)(child t i := z)"
proof -
  have old: "entry_of s' (rz n s u) j = (if u = t \<and> j = i then z else entry_of s (rz n s u) j)" if "j < 256" for u j
  proof (cases "rz n s u = 0")
    case True
    then show ?thesis
      using assms(4) by (auto simp: entry_of_def)
  next
    case False
    have "4 * i + 4 \<le> length (content s (rz n s t))"
      using assms(5) geomD(1) [OF assms(2)] by simp
    then have "get32 (put32 (content s (rz n s t)) (4 * i) z) (4 * j) = (if j = i then z else get32 (content s (rz n s t)) (4 * j))"
      using get32_put32 get32_put32_other [of "4 * i" _ "4 * j"] by (cases "j < i"; cases "j = i") auto
    moreover have "rz n s u = rz n s t \<longleftrightarrow> u = t"
      using file_okD(3) [OF assms(1)] False by blast
    ultimately show ?thesis
      using False same [OF file_okD(2) [OF assms(1) False]] table by (auto simp: entry_of_def)
  qed
  have root: "rz n s' (slot k) = rz n s (slot k)" if "k < 9" for k
    using that by (auto simp: slot_def)
  have sub: "rz n s' (child u j) = ((rz n s)(child t i := z)) (child u j)"
    if "table_ref u" "j < 256" "rz n s' u = rz n s u" for u j
    using that old [OF that(2), of u] assms(3,5) by (auto simp: rz_child child_inject)
  have level: "rz n s' u = ((rz n s)(child t i := z)) u" if u: "table_ref u" for u
  proof (cases "u = Ind \<or> u = Dbl")
    case True
    then show ?thesis
      using root [of 7] root [of 8] assms(3) slot_not_child [of t 7 i] slot_not_child [of t 8 i] by (auto simp: slot_def)
  next
    case False
    then obtain k where "u = child Dbl k" "k < 256"
      using u by (cases u) auto
    then show ?thesis
      using sub [of Dbl k] by simp
  qed
  show ?thesis
  proof
    fix r
    show "rz n s' r = ((rz n s)(child t i := z)) r"
    proof (cases r rule: ref_cases)
      case (root k)
      then show ?thesis
        using \<open>\<And>k. k < 9 \<Longrightarrow> rz n s' (slot k) = rz n s (slot k)\<close> slot_not_child [OF assms(3)] by simp
    next
      case (child u j)
      show ?thesis
      proof (cases "u = child t i")
        case True
        then have "rz n s' u = z" "rz n s u = 0"
          using level [OF child(1)] assms(6) by simp_all
        moreover have "child u j \<noteq> child t i"
          using child_inject [OF child(1,2) assms(3,5)] True assms(3,4,6) by auto
        ultimately show ?thesis
          using child entry_of_zeros [OF zero child(2)] by (simp add: rz_child) (simp add: entry_of_def)
      next
        case False
        then show ?thesis
          using sub [OF child(1,2)] level [OF child(1)] child(3) by simp
      qed
    next
      case none
      then show ?thesis
        using assms(3,5) by auto
    qed
  qed
qed

lemma table_zone_grow:
  assumes "geom s" and "file_ok n s" and "valid_ino s ino" and "inode_of s ino = n" and "zone_free s z0"
    and "table_ref t" and "rz n s t \<noteq> 0" and "i < 256" and "rz n s (child t i) = 0"
  obtains s' z where "table_zone (rz n s t) i True s = (z, s')" "grow ino (child t i) z n s n s'"
  using assms(1,5)
proof (rule alloc_zone_spec)
  fix z s1
  assume A: "alloc_zone s = (z, s1)" "zone_free s z" "same_layout s s1" "geom s1"
    "\<And>x. zone_free s1 x \<longleftrightarrow> x \<noteq> z \<and> zone_free s x" "content s1 z = replicate 1024 0"
    "\<And>c. addressable c \<Longrightarrow> c \<noteq> z \<Longrightarrow> unat (inode_start s) \<le> unat c \<Longrightarrow> content s1 c = content s c"
  note L = same_layoutD [OF A(3)]
  note g = geomD [OF assms(1)]
  let ?t = "rz n s t"
  define buf where "buf = put32 (content s ?t) (4 * i) z"
  define s' where "s' = put_block ?t buf s1"
  have dt: "data_zone s ?t"
    using assms(2,7) by (rule file_okD)
  have ut: "usable s ?t"
    using assms(1) dt by (rule data_zone_usable)
  have len: "length buf = 1024"
    using assms(8) g(1) by (simp add: buf_def)
  have ut1: "usable s1 ?t"
    using ut by (simp add: L)
  note put = put_block_disk [OF L(8) ut1 len]
  have layout1: "same_layout s1 s'"
    unfolding s'_def using L(8) ut1 len by (rule same_layout_put_block)
  note layout = same_layout_trans [OF A(3) layout1]
  have tz: "?t \<noteq> z" "fdz s \<le> unat ?t"
    using dt A(2) by (auto simp: data_zone_def)
  have meta: "content s' c = content s1 c" if "addressable c" "unat c < fdz s" for c
    using put(4) [OF that(1)] that(2) tz(2) unfolding s'_def by (metis not_less)
  have "content s' c = content s1 c" if "addressable c" "unat c < unat (inode_start s1)" for c
    using meta that g(2) by (simp add: L)
  note gm = geom_cong [OF A(4) layout1 this]
  have z: "addressable z" "fdz s \<le> unat z"
    using zone_free_data [OF assms(1) A(2)] zone_free_range [OF assms(1) A(2)] by auto
  have zero: "content s' z = replicate 1024 0"
    using put(4) [OF z(1)] tz(1) A(6) by (simp add: s'_def)
  have table: "content s' ?t = put32 (content s ?t) (4 * i) z"
    using put(4) [of ?t] ut by (simp add: s'_def buf_def)
  have same: "content s' c = content s c" if "data_zone s c" "c \<noteq> ?t" for c
  proof -
    have "addressable c" "c \<noteq> z" "unat (inode_start s) \<le> unat c"
      using data_zone_usable [OF assms(1) that(1)] that(1) A(2) g(2) by (auto simp: data_zone_def)
    then show ?thesis
      using put(4) [of c] A(7) that(2) by (simp add: s'_def)
  qed
  have inodes: "inode_of s' j = inode_of s j" if "valid_ino s j" for j
  proof (rule inode_of_cong)
    have "addressable (inode_block j s)" "unat (inode_block j s) < fdz s" "inode_block j s \<noteq> z"
      "unat (inode_start s) \<le> unat (inode_block j s)"
      using valid_ino_usable [OF assms(1) that] that z(2) by (auto simp: valid_ino_def)
    then show "content s' (inode_block j s) = content s (inode_block j s)"
      using meta A(7) by simp
  qed (simp add: same_layoutD [OF layout])
  have "get32 (content s ?t) (4 * i) = 0"
    using rz_child [OF assms(6,8), of n s] assms(7,9) by (simp add: entry_of_def)
  moreover have "block_read ?t (junk s) s = (2, content s ?t)"
    using ut g(1) by (simp add: block_read_usable)
  ultimately have "table_zone ?t i True s = (z, s')"
    using A(1) put(1) unfolding table_zone_def buf_def s'_def by simp
  moreover have "grow ino (child t i) z n s n s'"
    unfolding grow_def
  proof (intro conjI allI impI)
    show "rz n s' = (rz n s)(child t i := z)"
      using assms(2,1,6-9) table same zero by (rule rz_table)
    show "content s' (rz n s (Data fb)) = content s (rz n s (Data fb))" if "rz n s (Data fb) \<noteq> 0" for fb
    proof (rule same)
      show "data_zone s (rz n s (Data fb))"
        using assms(2) that by (rule file_okD)
      have "Data fb \<noteq> t"
        using assms(6) by auto
      then show "rz n s (Data fb) \<noteq> ?t"
        using file_okD(3) [OF assms(2)] that by blast
    qed
    show "inode_of s' ino = n"
      using inodes [OF assms(3)] assms(4) by simp
  qed (use layout gm A(2,5) zero same inodes assms(9) file_okD(1) [OF assms(2)] in auto)
  ultimately show thesis
    by (rule that)
qed

section \<open>Growing a file\<close>

text \<open>
  What a number of allocations does: the file keeps its bytes and its references, at most \<open>m\<close> zones
  stop being free, and no other inode and no zone of another file changes.
\<close>

definition frees :: "fs \<Rightarrow> u32 set" where
  "frees s = {z. zone_free s z}"

definition foreign :: "inode \<Rightarrow> fs \<Rightarrow> u32 \<Rightarrow> bool" where
  "foreign n s c \<longleftrightarrow> data_zone s c \<and> (\<forall>r. c \<noteq> rz n s r)"

definition grown :: "nat \<Rightarrow> u32 \<Rightarrow> inode \<Rightarrow> fs \<Rightarrow> inode \<Rightarrow> fs \<Rightarrow> bool" where
  "grown m ino n s n' s' \<longleftrightarrow> same_layout s s' \<and> geom s' \<and> file_ok n' s' \<and> inode_of s' ino = n'
     \<and> n' = n\<lparr>i_zone := i_zone n'\<rparr> \<and> file_byte n' s' = file_byte n s
     \<and> (\<forall>r. rz n s r \<noteq> 0 \<longrightarrow> rz n' s' r = rz n s r)
     \<and> card (frees s) \<le> card (frees s') + m
     \<and> (\<forall>c. foreign n s c \<longrightarrow> foreign n' s' c \<and> content s' c = content s c)
     \<and> (\<forall>j. j \<noteq> ino \<longrightarrow> valid_ino s j \<longrightarrow> inode_of s' j = inode_of s j)"

lemma growD:
  assumes "grow ino r z n s n' s'"
  shows "same_layout s s'" "geom s'" "zone_free s z" "zone_free s' x \<longleftrightarrow> x \<noteq> z \<and> zone_free s x"
    "rz n s r = 0" "rz n' s' = (rz n s)(r := z)" "content s' z = replicate 1024 0" "n' = n\<lparr>i_zone := i_zone n'\<rparr>"
    "length (i_zone n') = 10" "inode_of s' ino = n'"
    "rz n s (Data fb) \<noteq> 0 \<Longrightarrow> content s' (rz n s (Data fb)) = content s (rz n s (Data fb))"
    "foreign n s c \<Longrightarrow> content s' c = content s c"
    "j \<noteq> ino \<Longrightarrow> valid_ino s j \<Longrightarrow> inode_of s' j = inode_of s j"
  using assms unfolding grow_def foreign_def by (blast+)

lemma grownD:
  assumes "grown m ino n s n' s'"
  shows "same_layout s s'" "geom s'" "file_ok n' s'" "inode_of s' ino = n'" "n' = n\<lparr>i_zone := i_zone n'\<rparr>"
    "file_byte n' s' = file_byte n s" "rz n s r \<noteq> 0 \<Longrightarrow> rz n' s' r = rz n s r"
    "card (frees s) \<le> card (frees s') + m" "foreign n s c \<Longrightarrow> foreign n' s' c" "foreign n s c \<Longrightarrow> content s' c = content s c"
    "j \<noteq> ino \<Longrightarrow> valid_ino s j \<Longrightarrow> inode_of s' j = inode_of s j"
  using assms unfolding grown_def by (blast+)

lemma valid_ino_layout: "same_layout s s' \<Longrightarrow> valid_ino s' j \<longleftrightarrow> valid_ino s j"
  by (simp add: valid_ino_def same_layoutD)

lemma grown_refl: "geom s \<Longrightarrow> file_ok n s \<Longrightarrow> inode_of s ino = n \<Longrightarrow> grown 0 ino n s n s"
  by (simp add: grown_def same_layout_def geomD)

lemma grown_trans:
  assumes "grown a ino n s n1 s1" and "grown b ino n1 s1 n2 s2"
  shows "grown (a + b) ino n s n2 s2"
  unfolding grown_def
proof (intro conjI allI impI)
  note A = grownD [OF assms(1)] and B = grownD [OF assms(2)]
  show "same_layout s s2"
    using A(1) B(1) by (rule same_layout_trans)
  show "geom s2" "file_ok n2 s2" "inode_of s2 ino = n2"
    using B(2-4) .
  show "n2 = n\<lparr>i_zone := i_zone n2\<rparr>"
    using A(5) B(5) by (metis inode.surjective inode.update_convs(9) inode.select_convs(9))
  show "file_byte n2 s2 = file_byte n s"
    using A(6) B(6) by simp
  show "rz n2 s2 r = rz n s r" if "rz n s r \<noteq> 0" for r
    using A(7) [OF that] B(7) [of r] that by simp
  show "card (frees s) \<le> card (frees s2) + (a + b)"
    using A(8) B(8) by simp
  show "foreign n2 s2 c" "content s2 c = content s c" if "foreign n s c" for c
    using A(9,10) [OF that] B(9,10) [of c] by simp_all
  show "inode_of s2 j = inode_of s j" if "j \<noteq> ino" "valid_ino s j" for j
    using A(11) [OF that] B(11) [OF that(1)] that(2) valid_ino_layout [OF A(1)] by simp
qed

lemma grown_mono: "grown m ino n s n' s' \<Longrightarrow> m \<le> m' \<Longrightarrow> grown m' ino n s n' s'"
  unfolding grown_def by fastforce

lemma grow_grown:
  assumes "geom s" and "file_ok n s" and "grow ino r z n s n' s'"
  shows "grown 1 ino n s n' s'" and "rz n' s' r = z" and "z \<noteq> 0"
proof -
  note G = growD [OF assms(3)] and L = same_layoutD [OF growD(1) [OF assms(3)]]
  note F = file_okD [OF assms(2)]
  show z0: "z \<noteq> 0"
    using zone_free_data [OF assms(1) G(3)] by simp
  show "rz n' s' r = z"
    by (simp add: G(6))
  have nz: "rz n s q \<noteq> z" for q
    using F(2) [of q] G(3) z0 by (auto simp: data_zone_def)
  have dz: "data_zone s' c" if "data_zone s c" for c
    using that G(3,4) by (auto simp: data_zone_def L)
  have dzz: "data_zone s' z"
    using zone_free_range [OF assms(1) G(3)] G(4) z0 by (auto simp: data_zone_def L unat_gt_0)
  have ok: "file_ok n' s'"
    unfolding file_ok_def
  proof (intro conjI allI impI)
    show "length (i_zone n') = 10"
      by (rule G(9))
    show "data_zone s' (rz n' s' q)" if "rz n' s' q \<noteq> 0" for q
      using that dz [OF F(2)] dzz unfolding G(6) by (cases "q = r") auto
    show "q = q'" if "rz n' s' q = rz n' s' q'" "rz n' s' q \<noteq> 0" for q q'
      using that F(3) [of q q'] nz [of q] nz [of q'] unfolding G(6) by (cases "q = r"; cases "q' = r") auto
  qed
  have bytes: "file_byte n' s' pos = file_byte n s pos" for pos
  proof (cases "r = Data (pos div 1024)")
    case True
    then show ?thesis
      using G(5,7) by (simp add: file_byte_def G(6) del: rz.simps)
  next
    case False
    then have "rz n' s' (Data (pos div 1024)) = rz n s (Data (pos div 1024))"
      by (simp add: G(6) del: rz.simps)
    then show ?thesis
      using G(11) [of "pos div 1024"] by (simp add: file_byte_def Let_def del: rz.simps)
  qed
  have "frees s = insert z (frees s')"
    using G(3,4) by (auto simp: frees_def)
  then have "card (frees s) \<le> card (frees s') + 1"
    by (simp add: card_insert_if)
  moreover have "foreign n' s' c" if "foreign n s c" for c
    using that dz [of c] G(3) unfolding foreign_def G(6) by (auto simp: data_zone_def)
  moreover have "rz n' s' q = rz n s q" if "rz n s q \<noteq> 0" for q
    using that G(5) unfolding G(6) by auto
  ultimately show "grown 1 ino n s n' s'"
    unfolding grown_def using G(1,2,8,10,12,13) ok bytes by blast
qed

lemma frees_nonempty: "0 < card (frees s) \<Longrightarrow> \<exists>z. zone_free s z"
  by (metis card.empty empty_Collect_eq frees_def less_irrefl)

lemma ensure_zone_grown:
  assumes "geom s" and "file_ok n s" and "valid_ino s ino" and "inode_of s ino = n" and "0 < card (frees s)" and "k < 9"
  obtains n' s' where "ensure_zone k ino n s = (n', s')" "grown 1 ino n s n' s'" "rz n' s' (slot k) \<noteq> 0"
proof (cases "i_zone n ! k = 0")
  case True
  obtain z0 where "zone_free s z0"
    using frees_nonempty [OF assms(5)] by blast
  from assms(1-3) this assms(6) True show thesis
    by (rule ensure_zone_grow) (use grow_grown [OF assms(1,2)] that in blast)
next
  case False
  have "k < 7 \<or> k = 7 \<or> k = 8"
    using assms(6) by linarith
  then have "rz n s (slot k) \<noteq> 0"
    using False by (auto simp: slot_def)
  then show thesis
    using that [of n s] False grown_mono [OF grown_refl [OF assms(1,2,4)], of 1] by (simp add: ensure_zone_def)
qed

lemma table_zone_grown:
  assumes "geom s" and "file_ok n s" and "valid_ino s ino" and "inode_of s ino = n" and "0 < card (frees s)"
    and "table_ref t" and "rz n s t \<noteq> 0" and "i < 256"
  obtains z s' where "table_zone (rz n s t) i True s = (z, s')" "grown 1 ino n s n s'" "rz n s' (child t i) = z" "z \<noteq> 0"
proof (cases "rz n s (child t i) = 0")
  case True
  obtain z0 where "zone_free s z0"
    using frees_nonempty [OF assms(5)] by blast
  from assms(1-4) this assms(6-8) True show thesis
    by (rule table_zone_grow) (use grow_grown [OF assms(1,2)] that in blast)
next
  case False
  have "usable s (rz n s t)"
    using data_zone_usable [OF assms(1) file_okD(2) [OF assms(2,7)]] .
  then have "block_read (rz n s t) (junk s) s = (2, content s (rz n s t))"
    using geomD(1) [OF assms(1)] by (simp add: block_read_usable)
  moreover have "rz n s (child t i) = get32 (content s (rz n s t)) (4 * i)"
    using rz_child [OF assms(6,8), of n s] assms(7) by (simp add: entry_of_def)
  ultimately have "table_zone (rz n s t) i True s = (rz n s (child t i), s)"
    using False by (simp add: table_zone_def)
  then show thesis
    using that False grown_mono [OF grown_refl [OF assms(1,2,4)], of 1] by simp
qed

lemma map_block_grown:
  assumes "geom s" and "file_ok n s" and "valid_ino s ino" and "inode_of s ino = n" and "3 \<le> card (frees s)"
    and "unat fb < 65799"
  obtains z n' s' where "map_block n fb True ino s = (z, n', s')" "grown 3 ino n s n' s'"
    "z = rz n' s' (Data (unat fb))" "z \<noteq> 0"
  using refl [of "unat fb"]
proof (cases rule: fileblock_cases)
  case direct
  obtain n' s' where "ensure_zone (unat fb) ino n s = (n', s')" "grown 1 ino n s n' s'" "rz n' s' (slot (unat fb)) \<noteq> 0"
    by (rule ensure_zone_grown [OF assms(1-4), of "unat fb"]) (use assms(5) direct in auto)
  then show thesis
    using that grown_mono [of 1 ino n s n' s' 3] direct by (simp add: map_block_def slot_def)
next
  case single
  obtain n1 s1 where E: "ensure_zone 7 ino n s = (n1, s1)" "grown 1 ino n s n1 s1" "rz n1 s1 (slot 7) \<noteq> 0"
    by (rule ensure_zone_grown [OF assms(1-4), of 7]) (use assms(5) in auto)
  note G = grownD [OF E(2)]
  have c: "0 < card (frees s1)"
    using G(8) assms(5) by linarith
  have v: "valid_ino s1 ino"
    using assms(3) valid_ino_layout [OF G(1)] by simp
  obtain z s2 where T: "table_zone (rz n1 s1 Ind) (unat fb - 7) True s1 = (z, s2)" "grown 1 ino n1 s1 n1 s2"
      "rz n1 s2 (child Ind (unat fb - 7)) = z" "z \<noteq> 0"
    by (rule table_zone_grown [OF G(2,3) v G(4) c, of Ind "unat fb - 7"]) (use E(3) single in \<open>auto simp: slot_def\<close>)
  have "map_block n fb True ino s = (z, n1, s2)"
    using single E(1) T(1) by (simp add: map_block_def)
  moreover have "grown 3 ino n s n1 s2"
    using grown_mono [OF grown_trans [OF E(2) T(2)]] by simp
  moreover have "z = rz n1 s2 (Data (unat fb))"
    using T(3) single by (simp del: rz.simps)
  ultimately show thesis
    using T(4) by (rule that)
next
  case double
  let ?k = "(unat fb - 263) div 256" and ?i = "(unat fb - 263) mod 256"
  have k: "?k < 256" "?i < 256" "263 + 256 * ?k + ?i = unat fb"
    using double(6,7) by (simp_all add: div_less_iff_less_mult less_diff_conv2)
  obtain n1 s1 where E: "ensure_zone 8 ino n s = (n1, s1)" "grown 1 ino n s n1 s1" "rz n1 s1 (slot 8) \<noteq> 0"
    by (rule ensure_zone_grown [OF assms(1-4), of 8]) (use assms(5) in auto)
  note G = grownD [OF E(2)]
  have c: "0 < card (frees s1)"
    using G(8) assms(5) by linarith
  have v: "valid_ino s1 ino"
    using assms(3) valid_ino_layout [OF G(1)] by simp
  obtain d s2 where D: "table_zone (rz n1 s1 Dbl) ?k True s1 = (d, s2)" "grown 1 ino n1 s1 n1 s2"
      "rz n1 s2 (child Dbl ?k) = d" "d \<noteq> 0"
    by (rule table_zone_grown [OF G(2,3) v G(4) c, of Dbl ?k]) (use E(3) k in \<open>auto simp: slot_def\<close>)
  note H = grownD [OF D(2)]
  have c2: "0 < card (frees s2)"
    using G(8) H(8) assms(5) by linarith
  have v2: "valid_ino s2 ino"
    using v valid_ino_layout [OF H(1)] by simp
  have d: "rz n1 s2 (Sng ?k) = d"
    using D(3) by (simp del: rz.simps)
  obtain z s3 where T: "table_zone (rz n1 s2 (Sng ?k)) ?i True s2 = (z, s3)" "grown 1 ino n1 s2 n1 s3"
      "rz n1 s3 (child (Sng ?k) ?i) = z" "z \<noteq> 0"
    by (rule table_zone_grown [OF H(2,3) v2 H(4) c2, of "Sng ?k" ?i]) (use d D(4) k in \<open>auto simp del: rz.simps\<close>)
  have "map_block n fb True ino s = (z, n1, s3)"
    using double E(1) D(1) T(1) unfolding d by (simp add: map_block_def Let_def)
  moreover have "grown 3 ino n s n1 s3"
    using grown_mono [OF grown_trans [OF grown_trans [OF E(2) D(2)] T(2)]] by simp
  moreover have "z = rz n1 s3 (Data (unat fb))"
    using T(3) k(3) by (simp del: rz.simps)
  ultimately show thesis
    using T(4) by (rule that)
next
  case beyond
  then show thesis
    using assms(6) by simp
qed

end
