(* ===== verification/FsFile.thy ===== *)
theory FsFile
  imports FsTree
begin

text \<open>
  Files as byte arrays: reading a file through \<^verbatim>\<open>minixfs_read\<close> is reading the array \<open>file_byte\<close> up to the size
  of the file, and \<^verbatim>\<open>minixfs_write\<close> updates it, block by block with allocation on the way. The theorems
  are stated for whole calls, with a small formatted disk as their concrete instance.
\<close>

section \<open>Reading\<close>

lemma file_byte_in_block:
  assumes "pos div 1024 = b"
  shows "file_byte n s pos = (if rz n s (Data b) = 0 then 0 else content s (rz n s (Data b)) ! (pos mod 1024))"
  using assms by (simp add: file_byte_def Let_def del: rz.simps)

lemma div_mod_1024:
  assumes "p mod 1024 + c \<le> 1024" and "k < (c :: nat)"
  shows "(p + k) div 1024 = p div 1024" "(p + k) mod 1024 = p mod 1024 + k"
proof -
  have "p + k = 1024 * (p div 1024) + (p mod 1024 + k)"
    by simp
  moreover have "p mod 1024 + k < 1024"
    using assms by simp
  ultimately show "(p + k) div 1024 = p div 1024" "(p + k) mod 1024 = p mod 1024 + k"
    by (metis div_mult_self4 div_less add.right_neutral zero_neq_numeral, metis mod_mult_self4 mod_less)
qed

lemma map_file_byte_chunk:
  assumes "fs_ok s" and "p mod 1024 + c \<le> 1024"
  shows "map (file_byte n s) [p..<p + c] =
    (if rz n s (Data (p div 1024)) = 0 then replicate c 0
     else slice (p mod 1024) c (content s (rz n s (Data (p div 1024)))))"
proof (rule nth_equalityI)
  fix k
  assume "k < length (map (file_byte n s) [p..<p + c])"
  then have k: "k < c"
    by simp
  note dm = div_mod_1024 [OF assms(2) k]
  show "map (file_byte n s) [p..<p + c] ! k =
      (if rz n s (Data (p div 1024)) = 0 then replicate c 0
       else slice (p mod 1024) c (content s (rz n s (Data (p div 1024))))) ! k"
    using k assms dm(2) by (simp add: file_byte_in_block [OF dm(1)] nth_slice del: rz.simps)
qed (use assms in \<open>simp del: rz.simps\<close>)

lemma pos_word:
  fixes offset count "done" :: u32
  assumes "unat offset + unat count < 4294967296" and "done \<le> count"
  shows "unat (offset + done) = unat offset + unat done"
  using assms by (intro unat_add_no_wrap) (simp add: word_le_nat_alt)

lemma unat_div_mod_1024:
  fixes w :: u32
  shows "unat (w div 1024) = unat w div 1024" "unat (w mod 1024) = unat w mod 1024"
  by (simp_all add: unat_div unat_mod)

text \<open>One round of the loops: the chunk stays in its block and the position moves past it.\<close>

lemma fs_chunk_pos:
  fixes offset count "done" :: u32
  assumes "unat offset + unat count < 4294967296" and "done < count"
  defines "p \<equiv> unat offset + unat done" and "c \<equiv> fs_chunk ((offset + done) mod 1024) count done"
  shows "unat ((offset + done) div 1024) = p div 1024" "unat ((offset + done) mod 1024) = p mod 1024"
    "unat c = min (1024 - p mod 1024) (unat count - unat done)" "unat (done + c) = unat done + unat c"
    "p mod 1024 + unat c \<le> 1024" "done + c \<le> count" "0 < unat c"
proof -
  have p: "unat (offset + done) = p"
    using pos_word [OF assms(1), of "done"] assms(2) by (simp add: p_def)
  show dm: "unat ((offset + done) div 1024) = p div 1024" "unat ((offset + done) mod 1024) = p mod 1024"
    by (simp_all add: unat_div_mod_1024 p)
  note c = fs_chunk_progress [OF assms(2) unat_mod_1024 [of "offset + done"]]
  show uc: "unat c = min (1024 - p mod 1024) (unat count - unat done)"
    using c(1) by (simp only: c_def dm)
  show ud: "unat (done + c) = unat done + unat c"
    using c by (simp only: c_def)
  have less: "p mod 1024 < 1024" "unat done < unat count"
    using assms(2) by (simp_all add: word_less_nat_alt)
  show "p mod 1024 + unat c \<le> 1024" "0 < unat c"
    using uc less by linarith+
  show "done + c \<le> count"
    unfolding word_le_nat_alt ud using uc less by linarith
qed

lemma fs_read_loop_eq:
  assumes "geom s" and "file_ok n s" and "unat offset + unat count < 4294967296" and "length blk = 1024"
    and "done \<le> count"
  shows "fs_read_loop ino n count offset done blk s =
    map (file_byte n s) [unat offset + unat done..<unat offset + unat count]"
  using assms(4,5)
proof (induction "unat count - unat done" arbitrary: "done" blk rule: less_induct)
  case less
  show ?case
  proof (cases "done < count")
    case False
    then have "done = count"
      using less.prems(2) by simp
    then show ?thesis
      by (simp add: fs_read_loop.simps)
  next
    case True
    define p where "p = unat offset + unat done"
    define c where "c = fs_chunk ((offset + done) mod 1024) count done"
    let ?z = "rz n s (Data (p div 1024))"
    note ch = fs_chunk_pos [OF assms(3) True, folded p_def c_def]
    have ok: "fs_ok s"
      using assms(1) by (rule geomD)
    have blk: "block_read ?z blk s = (2, content s ?z)" if "?z \<noteq> 0"
      using data_zone_usable [OF assms(1) file_okD(2) [OF assms(2) that]] less.prems(1) by (simp add: block_read_usable)
    have IH: "fs_read_loop ino n count offset (done + c) b s = map (file_byte n s) [p + unat c..<unat offset + unat count]"
      if "length b = 1024" for b
      using less.hyps [of "done + c" b] that ch(4,6,7) True by (simp add: p_def word_less_nat_alt add.assoc)
    have split: "[p..<unat offset + unat count] = [p..<p + unat c] @ [p + unat c..<unat offset + unat count]"
      using upt_add_eq_append [of p "p + unat c" "unat offset + unat count - (p + unat c)"] ch(4,6)
      by (simp add: p_def word_le_nat_alt)
    have "fs_read_loop ino n count offset done blk s =
        (if ?z = 0 then replicate (unat c) 0 else slice (p mod 1024) (unat c) (content s ?z))
        @ map (file_byte n s) [p + unat c..<unat offset + unat count]"
      using True blk IH less.prems(1) ok
      by (subst fs_read_loop.simps) (simp add: map_block_lookup [OF assms(1,2)] ch(1,2) c_def [symmetric] Let_def del: rz.simps)
    then show ?thesis
      using map_file_byte_chunk [OF ok ch(5), of n] by (simp add: split p_def [symmetric] del: rz.simps)
  qed
qed

lemma sint_nat:
  assumes "unat w < 2147483648"
  shows "sint (w :: u32) = int (unat w)"
proof -
  have "uint w = int (unat w)"
    by simp
  then have "uint w < 2147483648"
    using assms by linarith
  then have "signed_take_bit 31 (uint w) = uint w"
    by (intro signed_take_bit_int_eq_self) (simp_all add: order.trans [OF _ uint_ge_0])
  then show ?thesis
    by (simp add: sint_uint)
qed

lemma minixfs_read_eq:
  assumes "geom s" and "valid_ino s ino" and "file_ok (inode_of s ino) s"
    and "unat offset + unat count < 2147483648"
  defines "c \<equiv> min (unat count) (unat (i_size (inode_of s ino)) - unat offset)"
  shows "minixfs_read ino count offset s =
    (int c, map (file_byte (inode_of s ino) s) [unat offset..<unat offset + c])"
proof -
  let ?n = "inode_of s ino"
  have ok: "fs_ok s" and r: "read_inode ino s = Some ?n"
    using assms(1,2) geomD(1) [OF assms(1)] valid_ino_usable [OF assms(1,2)]
    by (simp_all add: read_inode_usable valid_ino_def)
  show ?thesis
  proof (cases "offset \<ge> i_size ?n")
    case True
    then show ?thesis
      by (simp add: minixfs_read_def r c_def word_le_nat_alt)
  next
    case False
    define k where "k = (if offset + count > i_size ?n then i_size ?n - offset else count)"
    have sum: "unat (offset + count) = unat offset + unat count"
      using assms(4) by (intro unat_add_no_wrap) simp
    have "unat (i_size ?n - offset) = unat (i_size ?n) - unat offset"
      using False by (simp add: unat_sub)
    then have k: "unat k = c"
      using False by (auto simp: k_def c_def word_less_nat_alt sum)
    have "c \<le> unat count"
      by (simp add: c_def)
    then have "sint k = int c" "unat offset + unat k < 4294967296"
      using assms(4) by (simp_all add: sint_nat k)
    moreover have "minixfs_read ino count offset s = (sint k, fs_read_loop ino ?n k offset 0 (junk s) s)"
      using False by (simp add: minixfs_read_def r k_def Let_def)
    ultimately show ?thesis
      using fs_read_loop_eq [OF assms(1,3), of offset k "junk s" 0 ino] ok by (simp add: k)
  qed
qed

section \<open>Writing\<close>

text \<open>
  What a write does to everything but the file's bytes: the layout, the other inodes and the zones of
  other files stay as they are, and at most \<open>m\<close> zones stop being free.
\<close>

definition evolved :: "nat \<Rightarrow> u32 \<Rightarrow> inode \<Rightarrow> fs \<Rightarrow> inode \<Rightarrow> fs \<Rightarrow> bool" where
  "evolved m ino n s n' s' \<longleftrightarrow> same_layout s s' \<and> geom s' \<and> file_ok n' s' \<and> inode_of s' ino = n'
     \<and> i_mode n' = i_mode n \<and> card (frees s) \<le> card (frees s') + m
     \<and> (\<forall>c. foreign n s c \<longrightarrow> foreign n' s' c \<and> content s' c = content s c)
     \<and> (\<forall>j. j \<noteq> ino \<longrightarrow> valid_ino s j \<longrightarrow> inode_of s' j = inode_of s j)"

lemma evolvedD:
  assumes "evolved m ino n s n' s'"
  shows "same_layout s s'" "geom s'" "file_ok n' s'" "inode_of s' ino = n'" "i_mode n' = i_mode n"
    "card (frees s) \<le> card (frees s') + m" "foreign n s c \<Longrightarrow> foreign n' s' c" "foreign n s c \<Longrightarrow> content s' c = content s c"
    "j \<noteq> ino \<Longrightarrow> valid_ino s j \<Longrightarrow> inode_of s' j = inode_of s j"
  using assms unfolding evolved_def by (blast+)

lemma grown_evolved: "grown m ino n s n' s' \<Longrightarrow> evolved m ino n s n' s'"
  unfolding grown_def evolved_def by (metis inode.select_convs(1) inode.surjective inode.update_convs(9))

lemma evolved_trans:
  assumes "evolved a ino n s n1 s1" and "evolved b ino n1 s1 n2 s2"
  shows "evolved (a + b) ino n s n2 s2"
  unfolding evolved_def
proof (intro conjI allI impI)
  note A = evolvedD [OF assms(1)] and B = evolvedD [OF assms(2)]
  show "same_layout s s2"
    using A(1) B(1) by (rule same_layout_trans)
  show "geom s2" "file_ok n2 s2" "inode_of s2 ino = n2"
    using B(2-4) .
  show "i_mode n2 = i_mode n"
    using A(5) B(5) by simp
  show "card (frees s) \<le> card (frees s2) + (a + b)"
    using A(6) B(6) by simp
  show "foreign n2 s2 c" "content s2 c = content s c" if "foreign n s c" for c
    using A(7,8) [OF that] B(7,8) [of c] by simp_all
  show "inode_of s2 j = inode_of s j" if "j \<noteq> ino" "valid_ino s j" for j
    using A(9) [OF that] B(9) [OF that(1)] that(2) valid_ino_layout [OF A(1)] by simp
qed

lemma evolved_mono: "evolved m ino n s n' s' \<Longrightarrow> m \<le> m' \<Longrightarrow> evolved m' ino n s n' s'"
  unfolding evolved_def by fastforce

text \<open>The block tree depends on the indirect blocks only.\<close>

lemma rz_cong:
  assumes "i_zone n' = i_zone n"
    and "\<And>t. table_ref t \<Longrightarrow> rz n s t \<noteq> 0 \<Longrightarrow> content s' (rz n s t) = content s (rz n s t)"
  shows "rz n' s' = rz n s"
proof -
  have entry: "entry_of s' (rz n s t) i = entry_of s (rz n s t) i" if "table_ref t" for t i
    using assms(2) [OF that] by (simp add: entry_of_def del: rz.simps)
  have root: "rz n' s' (slot k) = rz n s (slot k)" if "k < 9" for k
    using assms(1) that by (auto simp: slot_def)
  have sub: "rz n' s' (child t i) = rz n s (child t i)" if "table_ref t" "i < 256" "rz n' s' t = rz n s t" for t i
    using that entry [OF that(1)] by (simp add: rz_child)
  have level: "rz n' s' t = rz n s t" if t: "table_ref t" for t
  proof (cases "t = Ind \<or> t = Dbl")
    case True
    then show ?thesis
      using assms(1) by auto
  next
    case False
    then obtain k where "t = child Dbl k" "k < 256"
      using t by (cases t) auto
    then show ?thesis
      using sub [of Dbl k] assms(1) by simp
  qed
  show ?thesis
  proof
    fix r
    show "rz n' s' r = rz n s r"
      by (cases r rule: ref_cases) (use root sub level in auto)
  qed
qed

lemma put_data_block:
  assumes "geom s" and "file_ok n s" and "valid_ino s ino" and "inode_of s ino = n" and "length buf = 1024"
    and "rz n s (Data b) \<noteq> 0"
  defines "s' \<equiv> put_block (rz n s (Data b)) buf s"
  shows "block_write (rz n s (Data b)) buf s = (2, s')" "evolved 0 ino n s n s'"
    "file_byte n s' pos = (if pos div 1024 = b then buf ! (pos mod 1024) else file_byte n s pos)"
proof -
  let ?z = "rz n s (Data b)"
  note F = file_okD [OF assms(2)]
  have dz: "data_zone s ?z"
    using F(2) assms(6) .
  have u: "usable s ?z"
    using assms(1) dz by (rule data_zone_usable)
  have ok: "fs_ok s"
    using assms(1) by (rule geomD)
  note put = put_block_disk [OF ok u assms(5), folded s'_def]
  show "block_write ?z buf s = (2, s')"
    by (rule put(1))
  have layout: "same_layout s s'"
    unfolding s'_def using ok u assms(5) by (rule same_layout_put_block)
  have meta: "content s' c = content s c" if "addressable c" "unat c < fdz s" for c
    using put(4) [OF that(1)] that(2) dz by (auto simp: data_zone_def)
  have "content s' c = content s c" if "addressable c" "unat c < unat (inode_start s)" for c
    using meta that geomD(2) [OF assms(1)] by simp
  note gm = geom_cong [OF assms(1) layout this]
  have dzs: "data_zone s' c \<longleftrightarrow> data_zone s c" for c
    by (simp add: data_zone_def gm(2) same_layoutD [OF layout])
  have same: "content s' c = content s c" if "data_zone s c" "c \<noteq> ?z" for c
    using put(4) [of c] data_zone_usable [OF assms(1) that(1)] that(2) by simp
  have rz: "rz n s' = rz n s"
  proof (rule rz_cong)
    fix t
    assume t: "table_ref t" "rz n s t \<noteq> 0"
    then have "t \<noteq> Data b"
      by auto
    then have "rz n s t \<noteq> ?z"
      using F(3) t(2) by blast
    then show "content s' (rz n s t) = content s (rz n s t)"
      using same [OF F(2) [OF t(2)]] by blast
  qed simp
  have inodes: "inode_of s' j = inode_of s j" if "valid_ino s j" for j
  proof (rule inode_of_cong)
    show "content s' (inode_block j s) = content s (inode_block j s)"
      using meta valid_ino_usable [OF assms(1) that] that by (simp add: valid_ino_def)
  qed (simp add: same_layoutD [OF layout])
  show "evolved 0 ino n s n s'"
    unfolding evolved_def
  proof (intro conjI allI impI)
    show "file_ok n s'"
      using assms(2) by (simp add: file_ok_def rz dzs)
    show "inode_of s' ino = n"
      using inodes [OF assms(3)] assms(4) by simp
    show "card (frees s) \<le> card (frees s') + 0"
      by (simp add: frees_def gm(2))
    show "foreign n s' c" "content s' c = content s c" if "foreign n s c" for c
      using that same [of c] by (auto simp: foreign_def rz dzs simp del: rz.simps)
  qed (use layout gm inodes in simp_all)
  have "content s' (rz n s (Data k)) = content s (rz n s (Data k))" if "rz n s (Data k) \<noteq> 0" "k \<noteq> b" for k
    using same [OF F(2) [OF that(1)]] F(3) [of "Data k" "Data b"] that by blast
  then show "file_byte n s' pos = (if pos div 1024 = b then buf ! (pos mod 1024) else file_byte n s pos)"
    using assms(6) put(4) [of ?z] u by (simp add: file_byte_in_block rz del: rz.simps)
qed

text \<open>The rounds of the loop from position \<open>p\<close> to \<open>e\<close>: the blocks it touches.\<close>

definition blocks_touched :: "nat \<Rightarrow> nat \<Rightarrow> nat" where
  "blocks_touched p e = (if p < e then (e - 1) div 1024 - p div 1024 + 1 else 0)"

lemma blocks_touched_step:
  assumes "p < e" and "c = min (1024 - p mod 1024) (e - p)"
  shows "blocks_touched p e = blocks_touched (p + c) e + 1"
proof (cases "p + c < e")
  case True
  then have c: "c = 1024 - p mod 1024"
    using assms by linarith
  have "p + c = 1024 * (p div 1024) + 1024"
    using c mult_div_mod_eq [of 1024 p] mod_less_divisor [of 1024 p] by linarith
  then have "(p + c) div 1024 = p div 1024 + 1"
    by simp
  moreover have "(p + c) div 1024 \<le> (e - 1) div 1024"
    using True by (intro div_le_mono) linarith
  ultimately show ?thesis
    using True assms(1) unfolding blocks_touched_def by simp linarith
next
  case False
  then have c: "c = e - p" "e - p \<le> 1024 - p mod 1024"
    using assms by linarith+
  have "e - 1 = p + (e - 1 - p)" "p mod 1024 + (e - p) \<le> 1024" "e - 1 - p < e - p"
    using c assms(1) mod_less_divisor [of 1024 p] by linarith+
  then have "(e - 1) div 1024 = p div 1024"
    using div_mod_1024(1) [of p "e - p" "e - 1 - p"] by simp
  then show ?thesis
    using False assms(1) by (simp add: blocks_touched_def)
qed

lemma file_byte_put:
  assumes "fs_ok s" and "length old = 1024" and "p mod 1024 + length d \<le> 1024"
    and "\<And>k. k < 1024 \<Longrightarrow> old ! k = file_byte n s (1024 * (p div 1024) + k) \<or> (p mod 1024 \<le> k \<and> k < p mod 1024 + length d)"
    and "pos div 1024 = p div 1024"
  shows "put_bytes old (p mod 1024) d ! (pos mod 1024) =
    (if p \<le> pos \<and> pos < p + length d then d ! (pos - p) else file_byte n s pos)"
proof -
  have pos: "pos = 1024 * (p div 1024) + pos mod 1024" "p = 1024 * (p div 1024) + p mod 1024"
    using assms(5) by (metis mult_div_mod_eq)+
  have iff: "p \<le> pos \<longleftrightarrow> p mod 1024 \<le> pos mod 1024" "pos < p + length d \<longleftrightarrow> pos mod 1024 < p mod 1024 + length d"
    "pos - p = pos mod 1024 - p mod 1024"
    using pos by linarith+
  have "pos mod 1024 < 1024"
    by simp
  then have "old ! (pos mod 1024) = file_byte n s pos \<or> (p mod 1024 \<le> pos mod 1024 \<and> pos mod 1024 < p mod 1024 + length d)"
    using assms(4) [of "pos mod 1024"] pos(1) by metis
  then show ?thesis
    using assms(2,3) unfolding iff by (auto simp: nth_put_bytes)
qed

text \<open>One round of the write loop.\<close>

lemma write_round:
  fixes offset count "done" :: u32
  assumes "geom s" and "file_ok n s" and "valid_ino s ino" and "inode_of s ino = n" and "3 \<le> card (frees s)"
    and "unat offset + unat count \<le> 67378176" and "done < count" and "unat count \<le> length src" and "length blk = 1024"
  defines "p \<equiv> unat offset + unat done" and "c \<equiv> fs_chunk ((offset + done) mod 1024) count done"
  obtains n' s' blk' where
    "fs_write_loop ino src count offset done n blk s = fs_write_loop ino src count offset (done + c) n' blk' s'"
    "evolved 3 ino n s n' s'" "i_size n' = i_size n" "length blk' = 1024"
    "\<And>pos. file_byte n' s' pos = (if p \<le> pos \<and> pos < p + unat c then src ! (pos - unat offset) else file_byte n s pos)"
proof -
  have wrap: "unat offset + unat count < 4294967296"
    using assms(6) by linarith
  note ch = fs_chunk_pos [OF wrap assms(7), folded p_def c_def]
  have "p < 67378176"
    using assms(6,7) by (simp add: p_def word_less_nat_alt)
  then have fb: "unat ((offset + done) div 1024) < 65799"
    unfolding ch(1) by (simp add: div_less_iff_less_mult)
  obtain z n' s1 where M: "map_block n ((offset + done) div 1024) True ino s = (z, n', s1)" "grown 3 ino n s n' s1"
      "z = rz n' s1 (Data (unat ((offset + done) div 1024)))" "z \<noteq> 0"
    by (rule map_block_grown [OF assms(1-5) fb])
  note G = grownD [OF M(2)]
  have z: "z = rz n' s1 (Data (p div 1024))"
    using M(3) unfolding ch(1) .
  have ok: "fs_ok s1"
    using G(2) by (rule geomD)
  have v: "valid_ino s1 ino"
    using assms(3) valid_ino_layout [OF G(1)] by simp
  define old where "old = (if (offset + done) mod 1024 \<noteq> 0 \<or> c \<noteq> 1024 then snd (block_read z blk s1) else replicate 1024 0)"
  define d where "d = slice (unat done) (unat c) src"
  define buf where "buf = put_bytes old (p mod 1024) d"
  have br: "block_read z blk s1 = (2, content s1 z)"
    using data_zone_usable [OF G(2) file_okD(2) [OF G(3)]] M(4) assms(9) by (simp add: z block_read_usable del: rz.simps)
  have old: "old = (if p mod 1024 = 0 \<and> unat c = 1024 then replicate 1024 0 else content s1 z)"
    using ch(2) by (auto simp: old_def br word_unat_eq_iff)
  have lold: "length old = 1024"
    using ok by (simp add: old)
  have "unat done + unat c \<le> length src"
    using ch(4,6) assms(8) by (simp add: word_le_nat_alt)
  then have ld: "length d = unat c" and nd: "\<And>k. k < unat c \<Longrightarrow> d ! k = src ! (unat done + k)"
    by (simp_all add: d_def nth_slice)
  have lbuf: "length buf = 1024"
    using lold ld ch(5) by (simp add: buf_def)
  note P = put_data_block [OF G(2,3) v G(4) lbuf, of "p div 1024", folded z, OF M(4)]
  define s2 where "s2 = put_block z buf s1"
  have "fs_write_loop ino src count offset done n blk s = fs_write_loop ino src count offset (done + c) n' buf s2"
    using assms(7) M(1,4) P(1) unfolding s2_def buf_def old_def d_def
    by (subst fs_write_loop.simps) (auto simp: Let_def c_def [symmetric] ch(2))
  moreover have "evolved 3 ino n s n' s2"
    using evolved_trans [OF grown_evolved [OF M(2)] P(2)] by (simp add: s2_def)
  moreover have "i_size n' = i_size n"
    by (subst G(5)) simp
  moreover note lbuf
  moreover have "file_byte n' s2 pos = (if p \<le> pos \<and> pos < p + unat c then src ! (pos - unat offset) else file_byte n s pos)"
    for pos
  proof (cases "pos div 1024 = p div 1024")
    case True
    have "old ! k = file_byte n' s1 (1024 * (p div 1024) + k) \<or> (p mod 1024 \<le> k \<and> k < p mod 1024 + length d)"
      if "k < 1024" for k
    proof (cases "p mod 1024 = 0 \<and> unat c = 1024")
      case False
      have "(1024 * (p div 1024) + k) div 1024 = p div 1024" "(1024 * (p div 1024) + k) mod 1024 = k"
        using that by simp_all
      then show ?thesis
        using False M(4) by (auto simp: old file_byte_in_block z [symmetric] simp del: rz.simps)
    qed (use that ld in simp)
    then have "buf ! (pos mod 1024) = (if p \<le> pos \<and> pos < p + length d then d ! (pos - p) else file_byte n' s1 pos)"
      unfolding buf_def using ok lold ch(5) ld True by (intro file_byte_put) simp_all
    moreover have "d ! (pos - p) = src ! (pos - unat offset)" if "p \<le> pos" "pos < p + unat c"
      using nd [of "pos - p"] that by (simp add: p_def)
    ultimately show ?thesis
      using P(3) [of pos] True G(6) by (simp add: s2_def ld)
  next
    case False
    have "\<not> (p \<le> pos \<and> pos < p + unat c)"
    proof
      assume "p \<le> pos \<and> pos < p + unat c"
      then have "pos - p < unat c" "p + (pos - p) = pos"
        by linarith+
      then show False
        using div_mod_1024(1) [OF ch(5)] False by metis
    qed
    then show ?thesis
      using P(3) [of pos] False G(6) by (auto simp: s2_def)
  qed
  ultimately show thesis
    by (rule that)
qed

lemma fs_write_loop_spec:
  fixes offset count "done" :: u32
  assumes "geom s" and "file_ok n s" and "valid_ino s ino" and "inode_of s ino = n"
    and "3 * blocks_touched (unat offset + unat done) (unat offset + unat count) \<le> card (frees s)"
    and "unat offset + unat count \<le> 67378176" and "done \<le> count" and "unat count \<le> length src" and "length blk = 1024"
  shows "\<exists>n' s' m. fs_write_loop ino src count offset done n blk s = (True, count, n', s')
    \<and> evolved m ino n s n' s' \<and> i_size n' = i_size n
    \<and> (\<forall>pos. file_byte n' s' pos =
         (if unat offset + unat done \<le> pos \<and> pos < unat offset + unat count then src ! (pos - unat offset)
          else file_byte n s pos))"
  using assms(1-5,7,9)
proof (induction "unat count - unat done" arbitrary: "done" n blk s rule: less_induct)
  case less
  show ?case
  proof (cases "done < count")
    case False
    then have "done = count"
      using less.prems(6) by simp
    moreover have "evolved 0 ino n s n s"
      using grown_evolved [OF grown_refl [OF less.prems(1,2,4)]] .
    ultimately show ?thesis
      by (subst fs_write_loop.simps) auto
  next
    case True
    define p where "p = unat offset + unat done"
    define c where "c = fs_chunk ((offset + done) mod 1024) count done"
    have wrap: "unat offset + unat count < 4294967296"
      using assms(6) by linarith
    note ch = fs_chunk_pos [OF wrap True, folded p_def c_def]
    have lt: "unat done < unat count"
      using True by (simp add: word_less_nat_alt)
    have bt: "blocks_touched p (unat offset + unat count) = blocks_touched (p + unat c) (unat offset + unat count) + 1"
      using ch(3) lt by (intro blocks_touched_step) (simp_all add: p_def)
    have c3: "3 \<le> card (frees s)"
      using less.prems(5) bt unfolding p_def [symmetric] by linarith
    obtain n1 s1 blk1 where R: "fs_write_loop ino src count offset done n blk s = fs_write_loop ino src count offset (done + c) n1 blk1 s1"
      "evolved 3 ino n s n1 s1" "i_size n1 = i_size n" "length blk1 = 1024"
      "\<And>pos. file_byte n1 s1 pos = (if p \<le> pos \<and> pos < p + unat c then src ! (pos - unat offset) else file_byte n s pos)"
      by (rule write_round [OF less.prems(1-4) c3 assms(6) True assms(8) less.prems(7), folded p_def c_def]) blast
    note E = evolvedD [OF R(2)]
    have pc: "unat offset + unat (done + c) = p + unat c"
      by (simp add: p_def ch(4))
    have "\<exists>n' s' m. fs_write_loop ino src count offset (done + c) n1 blk1 s1 = (True, count, n', s')
      \<and> evolved m ino n1 s1 n' s' \<and> i_size n' = i_size n1
      \<and> (\<forall>pos. file_byte n' s' pos =
           (if unat offset + unat (done + c) \<le> pos \<and> pos < unat offset + unat count then src ! (pos - unat offset)
            else file_byte n1 s1 pos))"
    proof (rule less.hyps [OF _ E(2,3) _ E(4)])
      show "unat count - unat (done + c) < unat count - unat done"
        using ch(4,7) lt by linarith
      show "valid_ino s1 ino"
        using less.prems(3) valid_ino_layout [OF E(1)] by simp
      show "3 * blocks_touched (unat offset + unat (done + c)) (unat offset + unat count) \<le> card (frees s1)"
        using less.prems(5) bt E(6) unfolding pc p_def [symmetric] by linarith
    qed (use ch(6) R(4) in auto)
    then obtain n' s' m where W: "fs_write_loop ino src count offset (done + c) n1 blk1 s1 = (True, count, n', s')"
      "evolved m ino n1 s1 n' s'" "i_size n' = i_size n1"
      "\<And>pos. file_byte n' s' pos =
         (if p + unat c \<le> pos \<and> pos < unat offset + unat count then src ! (pos - unat offset) else file_byte n1 s1 pos)"
      unfolding pc by blast
    have le: "p + unat c \<le> unat offset + unat count"
      using ch(4,6) by (simp add: p_def word_le_nat_alt)
    show ?thesis
    proof (intro exI conjI allI)
      show "fs_write_loop ino src count offset done n blk s = (True, count, n', s')"
        using R(1) W(1) by simp
      show "evolved (3 + m) ino n s n' s'"
        using R(2) W(2) by (rule evolved_trans)
      show "i_size n' = i_size n"
        using R(3) W(3) by simp
      show "file_byte n' s' pos =
        (if unat offset + unat done \<le> pos \<and> pos < unat offset + unat count then src ! (pos - unat offset)
         else file_byte n s pos)" for pos
        unfolding W(4) R(5) p_def [symmetric] using le by auto
    qed
  qed
qed

text \<open>Storing another size in the inode.\<close>

lemma put_inode_size:
  fixes w :: u32
  assumes "geom s" and "file_ok n s" and "valid_ino s ino" and "inode_of s ino = n"
  defines "n' \<equiv> n\<lparr>i_size := w\<rparr>" and "s' \<equiv> put_inode ino (n\<lparr>i_size := w\<rparr>) s"
  shows "write_inode ino n' s = (2, s')" "evolved 0 ino n s n' s'" "file_byte n' s' = file_byte n s"
proof -
  have ok: "fs_ok s" and u: "usable s (inode_block ino s)" and len: "length (i_zone n') = 10"
    using geomD(1) [OF assms(1)] valid_ino_usable [OF assms(1,3)] file_okD(1) [OF assms(2)] by (simp_all add: n'_def)
  note put = put_inode_disk [OF ok u len, folded s'_def [folded n'_def]]
  show w: "write_inode ino n' s = (2, s')"
    using write_inode_usable [OF ok u _ len] assms(3) by (simp add: s'_def n'_def valid_ino_def)
  have s': "s' = put_inode ino n' s"
    by (simp add: s'_def n'_def)
  have layout: "same_layout s s'"
    unfolding s' put_inode_def using ok u len by (intro same_layout_put_block) simp_all
  have ib: "unat (inode_start s) \<le> unat (inode_block ino s)" "unat (inode_block ino s) < fdz s"
    using assms(3) by (simp_all add: valid_ino_def)
  have "content s' c = content s c" if "addressable c" "unat c < unat (inode_start s)" for c
    using put(3) [OF that(1)] that(2) ib(1) by (metis not_less)
  note gm = geom_cong [OF assms(1) layout this]
  have dzs: "data_zone s' c \<longleftrightarrow> data_zone s c" for c
    by (simp add: data_zone_def gm(2) same_layoutD [OF layout])
  have same: "content s' c = content s c" if "data_zone s c" for c
  proof -
    have "c \<noteq> inode_block ino s"
      using that ib(2) by (auto simp: data_zone_def)
    then show ?thesis
      using put(3) [of c] data_zone_usable [OF assms(1) that] by simp
  qed
  have rz: "rz n' s' = rz n s"
    by (rule rz_cong) (use same file_okD(2) [OF assms(2)] in \<open>auto simp: n'_def simp del: rz.simps\<close>)
  show "file_byte n' s' = file_byte n s"
  proof
    fix pos
    show "file_byte n' s' pos = file_byte n s pos"
      using same [OF file_okD(2) [OF assms(2), of "Data (pos div 1024)"]]
      by (simp add: file_byte_def rz Let_def del: rz.simps)
  qed
  show "evolved 0 ino n s n' s'"
    unfolding evolved_def
  proof (intro conjI allI impI)
    show "file_ok n' s'"
      using assms(2) len unfolding file_ok_def rz dzs by blast
    show "inode_of s' ino = n'"
      using put(4) [of ino] u by simp
    show "inode_of s' j = inode_of s j" if "j \<noteq> ino" "valid_ino s j" for j
      using put(4) [of j] valid_ino_usable [OF assms(1) that(2)] that(1) by simp
    show "card (frees s) \<le> card (frees s') + 0"
      by (simp add: frees_def gm(2))
    show "foreign n' s' c" "content s' c = content s c" if "foreign n s c" for c
      using that same [of c] by (auto simp: foreign_def rz dzs simp del: rz.simps)
  qed (use layout gm in \<open>simp_all add: n'_def\<close>)
qed

lemma minixfs_write_spec:
  fixes offset count :: u32
  assumes "geom s" and "valid_ino s ino" and "file_ok (inode_of s ino) s"
    and "unat offset + unat count \<le> 67378176" and "unat count \<le> length src"
    and "3 * blocks_touched (unat offset) (unat offset + unat count) \<le> card (frees s)"
  obtains s' m where "minixfs_write ino src count offset s = (int (unat count), s')"
    "evolved m ino (inode_of s ino) s (inode_of s' ino) s'"
    "i_size (inode_of s' ino) = max (i_size (inode_of s ino)) (offset + count)"
    "\<And>pos. file_byte (inode_of s' ino) s' pos =
       (if unat offset \<le> pos \<and> pos < unat offset + unat count then src ! (pos - unat offset)
        else file_byte (inode_of s ino) s pos)"
proof -
  let ?n = "inode_of s ino"
  have ok: "fs_ok s"
    using assms(1) by (rule geomD)
  have r: "read_inode ino s = Some ?n"
    using assms(2) ok valid_ino_usable [OF assms(1,2)] by (simp add: read_inode_usable valid_ino_def)
  have "\<exists>n1 s1 m. fs_write_loop ino src count offset 0 ?n (junk s) s = (True, count, n1, s1)
    \<and> evolved m ino ?n s n1 s1 \<and> i_size n1 = i_size ?n
    \<and> (\<forall>pos. file_byte n1 s1 pos =
         (if unat offset + unat (0 :: u32) \<le> pos \<and> pos < unat offset + unat count then src ! (pos - unat offset)
          else file_byte ?n s pos))"
    using assms ok by (intro fs_write_loop_spec) simp_all
  then obtain n1 s1 m where W: "fs_write_loop ino src count offset 0 ?n (junk s) s = (True, count, n1, s1)"
    "evolved m ino ?n s n1 s1" "i_size n1 = i_size ?n"
    "\<And>pos. file_byte n1 s1 pos = (if unat offset \<le> pos \<and> pos < unat offset + unat count then src ! (pos - unat offset)
       else file_byte ?n s pos)"
    by auto
  note E = evolvedD [OF W(2)]
  have v: "valid_ino s1 ino"
    using assms(2) valid_ino_layout [OF E(1)] by simp
  have r1: "read_inode_into n1 ino s1 = n1"
    using v geomD(1) [OF E(2)] valid_ino_usable [OF E(2) v] E(4) by (simp add: read_inode_into_def read_inode_usable valid_ino_def)
  have sc: "sint count = int (unat count)"
    using assms(4) by (intro sint_nat) linarith
  note S = put_inode_size [OF E(2,3) v E(4), of "offset + count"]
  show thesis
  proof (cases "offset + count > i_size ?n")
    case True
    let ?s2 = "put_inode ino (n1\<lparr>i_size := offset + count\<rparr>) s1"
    note E2 = evolvedD [OF S(2)]
    have "minixfs_write ino src count offset s = (int (unat count), ?s2)"
      using True S(1) by (simp add: minixfs_write_def r W(1,3) r1 sc Let_def)
    moreover have "evolved (m + 0) ino ?n s (inode_of ?s2 ino) ?s2"
      unfolding E2(4) using W(2) S(2) by (rule evolved_trans)
    ultimately show thesis
      using True S(3) W(4) by (intro that [of ?s2]) (simp_all add: E2(4))
  next
    case False
    have "minixfs_write ino src count offset s = (int (unat count), s1)"
      using False by (simp add: minixfs_write_def r W(1,3) r1 sc)
    then show thesis
      using False W by (intro that [of s1 m]) (simp_all add: E(4))
  qed
qed

section \<open>A small file system\<close>

text \<open>
  A formatted disk of twelve blocks: superblock, inode map, zone map, one block of inodes, and the data
  zones 5 to 11. Inode 1 is the root directory, with the entries \<^verbatim>\<open>.\<close>, \<^verbatim>\<open>..\<close> and \<^verbatim>\<open>f\<close> in zone 5, and inode 2 the
  empty file \<^verbatim>\<open>f\<close>.
\<close>

definition tiny_root :: inode where
  "tiny_root = zero_inode\<lparr>i_mode := 0x41ED, i_nlinks := 2, i_size := 1024, i_zone := 5 # replicate 9 0\<rparr>"

definition tiny_file :: inode where
  "tiny_file = zero_inode\<lparr>i_mode := 0x81A4, i_nlinks := 1\<rparr>"

definition tiny_entry :: "u32 \<Rightarrow> bytes \<Rightarrow> dirent" where
  "tiny_entry ino name = \<lparr>d_inode = ino, d_name = name @ replicate (60 - length name) 0\<rparr>"

definition tiny_sector :: "u32 \<Rightarrow> bytes" where
  "tiny_sector l =
     (if l = 2 then [16, 0, 0, 0, 0, 0, 1, 0, 1, 0, 5, 0, 0, 0, 0, 0, 0, 0, 0, 4, 12, 0, 0, 0, 0x5A, 0x4D, 0, 0, 0, 4, 0]
        @ replicate 481 0
      else if l = 4 then 0x07 # replicate 511 0
      else if l = 6 then 0x03 # replicate 511 0
      else if l = 8 then encode_inode tiny_root @ encode_inode tiny_file @ replicate 384 0
      else if l = 10 then encode_dirent (tiny_entry 1 dot) @ encode_dirent (tiny_entry 1 dotdot)
        @ encode_dirent (tiny_entry 2 [0x66]) @ replicate 320 0
      else replicate 512 0)"

definition tiny_raw :: fs where
  "tiny_raw = \<lparr>sb = decode_superblock (replicate 1024 0), imap_start = 0, zmap_start = 0, inode_start = 0,
     data_start = 0, mounted = False, dsk = \<lparr>sector = tiny_sector, bad = (\<lambda>_. False)\<rparr>, junk = replicate 1024 0\<rparr>"

definition tiny_fs :: fs where
  "tiny_fs = snd (minixfs_mount tiny_raw)"

lemma tiny_lengths:
  "length (encode_inode tiny_root) = 64" "length (encode_inode tiny_file) = 64"
  "length (encode_dirent (tiny_entry 1 dot)) = 64" "length (encode_dirent (tiny_entry 1 dotdot)) = 64"
  "length (encode_dirent (tiny_entry 2 [0x66])) = 64"
  by (simp_all add: tiny_root_def tiny_file_def zero_inode_def tiny_entry_def dot_def dotdot_def encode_dirent_def enc32_def)

lemma tiny_raw_ok: "fs_ok tiny_raw" "usable tiny_raw b \<longleftrightarrow> addressable b"
  by (simp_all add: fs_ok_def tiny_raw_def disk_wf_def tiny_sector_def tiny_lengths usable_def good_def)

lemma tiny_blocks:
  "content tiny_raw 1 = tiny_sector 2 @ tiny_sector 3" "content tiny_raw 2 = tiny_sector 4 @ tiny_sector 5"
  "content tiny_raw 3 = tiny_sector 6 @ tiny_sector 7"
  "content tiny_raw 4 = tiny_sector 8 @ tiny_sector 9" "content tiny_raw 5 = tiny_sector 10 @ tiny_sector 11"
  by (simp_all add: content_def block_def tiny_raw_def lba28_small)

lemma tiny_superblock:
  "decode_superblock (content tiny_raw 1) =
     \<lparr>s_ninodes = 16, s_imap_blocks = 1, s_zmap_blocks = 1, s_firstdatazone = 5, s_log_zone_size = 0,
      s_max_size = 0x4000000, s_zones = 12, s_magic = MINIX3_MAGIC, s_blocksize = 0x400, s_disk_version = 0\<rparr>"
  by (simp add: tiny_blocks tiny_sector_def decode_superblock_def get16_def get32_def word16_of_def word32_of_def
      MINIX3_MAGIC_def)

lemma tiny_fs_eq:
  "minixfs_mount tiny_raw = (0, tiny_fs)"
  "tiny_fs = tiny_raw\<lparr>sb := decode_superblock (content tiny_raw 1), imap_start := 2, zmap_start := 3, inode_start := 4,
     data_start := 5, mounted := True\<rparr>"
proof -
  have "block_read 1 (junk tiny_raw) tiny_raw = (2, content tiny_raw 1)"
    using tiny_raw_ok by (simp add: block_read_usable addressable_def)
  then have "minixfs_mount tiny_raw =
      (0, tiny_raw\<lparr>sb := decode_superblock (content tiny_raw 1), imap_start := 2, zmap_start := 3, inode_start := 4,
     data_start := 5, mounted := True\<rparr>)"
    by (simp add: minixfs_mount_def tiny_superblock)
  then show "minixfs_mount tiny_raw = (0, tiny_fs)" "tiny_fs = tiny_raw\<lparr>sb := decode_superblock (content tiny_raw 1),
      imap_start := 2, zmap_start := 3, inode_start := 4, data_start := 5, mounted := True\<rparr>"
    by (simp_all add: tiny_fs_def)
qed

lemma tiny_fs_fields:
  "fdz tiny_fs = 5" "zmap_len tiny_fs = 1" "nzones tiny_fs = 12" "zmap_start tiny_fs = 3" "inode_start tiny_fs = 4"
  "imap_start tiny_fs = 2" "mounted tiny_fs" "fs_ok tiny_fs" "usable tiny_fs b \<longleftrightarrow> addressable b"
  "content tiny_fs b = content tiny_raw b"
proof -
  show "fdz tiny_fs = 5" "zmap_len tiny_fs = 1" "nzones tiny_fs = 12" "zmap_start tiny_fs = 3" "inode_start tiny_fs = 4"
    "imap_start tiny_fs = 2" "mounted tiny_fs"
    by (simp_all add: tiny_fs_eq(2) fdz_def zmap_len_def nzones_def tiny_superblock)
  show "fs_ok tiny_fs" "usable tiny_fs b \<longleftrightarrow> addressable b" "content tiny_fs b = content tiny_raw b"
    using tiny_raw_ok by (simp_all add: tiny_fs_eq(2) content_def fs_ok_def usable_def)
qed

lemma tiny_inodes: "inode_of tiny_fs 1 = tiny_root" "inode_of tiny_fs 2 = tiny_file"
proof -
  have b: "inode_block 1 tiny_fs = 4" "inode_block 2 tiny_fs = 4" "inode_index 1 = 0" "inode_index 2 = 1"
    by (simp_all add: inode_block_def inode_index_def tiny_fs_fields)
  have "length (i_zone tiny_root) = 10" "length (i_zone tiny_file) = 10"
    by (simp_all add: tiny_root_def tiny_file_def zero_inode_def)
  then show "inode_of tiny_fs 1 = tiny_root" "inode_of tiny_fs 2 = tiny_file"
    by (simp_all add: inode_of_def b tiny_fs_fields tiny_blocks tiny_sector_def inode_at_def slice_def tiny_lengths)
qed

lemma tiny_map_bit:
  assumes "k < 8192"
  shows "map_bit tiny_fs 3 k \<longleftrightarrow> k < 2"
proof (cases "k < 8")
  case True
  then have "k = 0 \<or> k = 1 \<or> k = 2 \<or> k = 3 \<or> k = 4 \<or> k = 5 \<or> k = 6 \<or> k = 7"
    by linarith
  then show ?thesis
    using assms by (auto simp: map_bit_def bit_at_def tiny_fs_fields tiny_blocks tiny_sector_def)
next
  case False
  then have "content tiny_raw 3 ! (k div 8) = 0"
    using assms by (cases "k div 8") (auto simp: tiny_blocks tiny_sector_def nth_append nth_Cons')
  then show ?thesis
    using assms False by (simp add: map_bit_def bit_at_def tiny_fs_fields)
qed

lemma tiny_geom: "geom tiny_fs"
proof -
  have "usable tiny_fs b" if "unat b < 12" for b
    using that by (simp add: tiny_fs_fields addressable_def)
  then show ?thesis
    using tiny_map_bit by (auto simp: geom_def tiny_fs_fields)
qed

lemma tiny_free: "zone_free tiny_fs z \<longleftrightarrow> 6 \<le> unat z \<and> unat z < 12"
proof (cases "5 \<le> unat z")
  case True
  then obtain j where j: "unat z = 5 + j"
    using le_Suc_ex by blast
  show ?thesis
    using tiny_map_bit [of "j + 1"] by (cases "j + 1 < 8192") (auto simp: zone_free_def tiny_fs_fields j)
qed (simp add: zone_free_def tiny_fs_fields)

lemma tiny_frees: "3 \<le> card (frees tiny_fs)"
proof -
  have "{6, 7, 8} \<subseteq> frees tiny_fs"
    by (auto simp: frees_def tiny_free)
  then have "card {6, 7, 8 :: u32} \<le> card (frees tiny_fs)"
    by (intro card_mono) simp_all
  then show ?thesis
    by simp
qed

lemma tiny_valid: "valid_ino tiny_fs 1" "valid_ino tiny_fs 2"
  by (simp_all add: valid_ino_def inode_block_def tiny_fs_fields)

lemma tiny_file_ok: "file_ok (inode_of tiny_fs 2) tiny_fs"
proof -
  have "rz tiny_file tiny_fs r = 0" for r
    by (cases r) (auto simp: tiny_file_def zero_inode_def entry_of_def)
  moreover have "length (i_zone tiny_file) = 10"
    by (simp add: tiny_file_def zero_inode_def)
  ultimately show ?thesis
    by (simp add: file_ok_def tiny_inodes del: rz.simps)
qed

section \<open>Properties\<close>



text \<open>
  C4. Writing refines the byte array: with enough free zones for the blocks it touches, a write
  anywhere in the addressable part of a file stores all its bytes at the offset, keeps every other byte of the
  file, extends the size to the end of the write when it lies beyond, and keeps the tree well-formed.
  No other inode changes, and no byte of another file whose zones are its own.
\<close>

theorem minixfs_write_refines:
  fixes offset count :: u32
  assumes "geom s" and "valid_ino s ino" and "file_ok (inode_of s ino) s"
    and "unat offset + unat count \<le> 67378176" and "unat count \<le> length src"
    and "3 * blocks_touched (unat offset) (unat offset + unat count) \<le> card (frees s)"
  shows "\<exists>s'. minixfs_write ino src count offset s = (int (unat count), s')
    \<and> geom s' \<and> file_ok (inode_of s' ino) s'
    \<and> i_size (inode_of s' ino) = max (i_size (inode_of s ino)) (offset + count)
    \<and> (\<forall>pos. file_byte (inode_of s' ino) s' pos =
         (if unat offset \<le> pos \<and> pos < unat offset + unat count then src ! (pos - unat offset)
          else file_byte (inode_of s ino) s pos))
    \<and> (\<forall>j. j \<noteq> ino \<longrightarrow> valid_ino s j \<longrightarrow> inode_of s' j = inode_of s j
         \<and> ((\<forall>r. rz (inode_of s j) s r \<noteq> 0 \<longrightarrow> foreign (inode_of s ino) s (rz (inode_of s j) s r))
            \<longrightarrow> file_byte (inode_of s' j) s' = file_byte (inode_of s j) s))"
proof -
  obtain s' m where W: "minixfs_write ino src count offset s = (int (unat count), s')"
    "evolved m ino (inode_of s ino) s (inode_of s' ino) s'"
    "i_size (inode_of s' ino) = max (i_size (inode_of s ino)) (offset + count)"
    "\<And>pos. file_byte (inode_of s' ino) s' pos =
       (if unat offset \<le> pos \<and> pos < unat offset + unat count then src ! (pos - unat offset)
        else file_byte (inode_of s ino) s pos)"
    by (rule minixfs_write_spec [OF assms]) blast
  note E = evolvedD [OF W(2)]
  have "file_byte (inode_of s j) s' = file_byte (inode_of s j) s"
    if "\<And>r. rz (inode_of s j) s r \<noteq> 0 \<Longrightarrow> foreign (inode_of s ino) s (rz (inode_of s j) s r)" for j
  proof -
    have same: "content s' (rz (inode_of s j) s r) = content s (rz (inode_of s j) s r)" if "rz (inode_of s j) s r \<noteq> 0" for r
      using E(8) that \<open>\<And>r. rz (inode_of s j) s r \<noteq> 0 \<Longrightarrow> _ r\<close> by blast
    then have "rz (inode_of s j) s' = rz (inode_of s j) s"
      by (intro rz_cong) simp_all
    then show ?thesis
      using same by (intro ext) (simp add: file_byte_def Let_def del: rz.simps)
  qed
  then show ?thesis
    using W E(2,3,9) by (intro exI [of _ s']) simp
qed

theorem minixfs_write_refines_witness:
  "\<exists>s'. minixfs_write 2 [10, 20, 30] 3 0 tiny_fs = (3, s') \<and> file_byte (inode_of s' 2) s' 1 = 20
     \<and> i_size (inode_of s' 2) = 3 \<and> inode_of s' 1 = inode_of tiny_fs 1"
proof -
  have "3 * blocks_touched (unat (0 :: u32)) (unat (0 :: u32) + unat (3 :: u32)) \<le> card (frees tiny_fs)"
    using tiny_frees by (simp add: blocks_touched_def)
  from minixfs_write_refines [OF tiny_geom tiny_valid(2) tiny_file_ok _ _ this, of "[10, 20, 30]"]
  show ?thesis
    using tiny_valid(1) by (auto simp: tiny_inodes tiny_file_def zero_inode_def)
qed

text \<open>
  C23. What was written is read back: reading the range of a completed write returns exactly the bytes
  that were written.
\<close>

theorem minixfs_write_read:
  fixes offset count :: u32
  assumes "geom s" and "valid_ino s ino" and "file_ok (inode_of s ino) s"
    and "unat offset + unat count \<le> 67378176" and "unat count \<le> length src"
    and "3 * blocks_touched (unat offset) (unat offset + unat count) \<le> card (frees s)"
    and "minixfs_write ino src count offset s = (r, s')"
  shows "minixfs_read ino count offset s' = (r, take (unat count) src)"
proof -
  obtain m where W: "r = int (unat count)"
    "evolved m ino (inode_of s ino) s (inode_of s' ino) s'"
    "i_size (inode_of s' ino) = max (i_size (inode_of s ino)) (offset + count)"
    "\<And>pos. file_byte (inode_of s' ino) s' pos =
       (if unat offset \<le> pos \<and> pos < unat offset + unat count then src ! (pos - unat offset)
        else file_byte (inode_of s ino) s pos)"
    by (rule minixfs_write_spec [OF assms(1-6)]) (use assms(7) in auto)
  note E = evolvedD [OF W(2)]
  have v: "valid_ino s' ino"
    using assms(2) valid_ino_layout [OF E(1)] by simp
  have sum: "unat (offset + count) = unat offset + unat count"
    using assms(4) by (intro unat_add_no_wrap) linarith
  have "unat (offset + count) \<le> unat (i_size (inode_of s' ino))"
    unfolding W(3) by (simp add: word_le_nat_alt [symmetric])
  then have c: "min (unat count) (unat (i_size (inode_of s' ino)) - unat offset) = unat count"
    using sum by linarith
  have "map (file_byte (inode_of s' ino) s') [unat offset..<unat offset + unat count] = take (unat count) src"
    using assms(5) by (intro nth_equalityI) (simp_all add: W(4))
  then show ?thesis
    using minixfs_read_eq [OF E(2) v E(3), of offset count] assms(4) by (simp add: c W(1))
qed

theorem minixfs_write_read_witness:
  "minixfs_read 2 3 0 (snd (minixfs_write 2 [10, 20, 30] 3 0 tiny_fs)) = (fst (minixfs_write 2 [10, 20, 30] 3 0 tiny_fs), [10, 20, 30])"
proof -
  have "3 * blocks_touched (unat (0 :: u32)) (unat (0 :: u32) + unat (3 :: u32)) \<le> card (frees tiny_fs)"
    using tiny_frees by (simp add: blocks_touched_def)
  from minixfs_write_read [OF tiny_geom tiny_valid(2) tiny_file_ok _ _ this, of "[10, 20, 30]"]
  show ?thesis
    by (cases "minixfs_write 2 [10, 20, 30] 3 0 tiny_fs") simp
qed

end
