(* ===== verification/FsDir.thy ===== *)
theory FsDir
  imports FsFile
begin

text \<open>
  Directories as maps from names to inode numbers. An entry is 64 bytes of the directory's byte array,
  so that \<^verbatim>\<open>dir_lookup\<close>, \<^verbatim>\<open>dir_add\<close> and \<^verbatim>\<open>dir_remove\<close> read and update the map \<open>dir_map\<close> of the entries in use.
\<close>

section \<open>Names\<close>

definition good_name :: "bytes \<Rightarrow> bool" where
  "good_name name \<longleftrightarrow> 0 \<notin> set name \<and> length name \<le> 60 \<and> name \<noteq> []"

lemma cstr_literal: "0 \<notin> set name \<Longrightarrow> cstr (name @ [0]) = name"
  by (rule cstr_no_zero)

lemma length_cstr_le: "length (cstr b) \<le> length b"
  unfolding cstr_def by (rule length_takeWhile_le)

lemma name_is_cstr:
  assumes "length f = 60" and "good_name name"
  shows "name_is f name \<longleftrightarrow> cstr f = name"
proof -
  have "\<exists>r. strncmp f (name @ [0]) 60 = Some r \<and> (r = 0 \<longleftrightarrow> take 60 (cstr f) = take 60 (cstr (name @ [0])))"
    by (rule strncmp_eq_0) (use assms(1) in \<open>simp_all add: terminated_def\<close>)
  then show ?thesis
    using assms length_cstr_le [of f] by (auto simp: name_is_def MINIX_NAME_MAX_def cstr_literal good_name_def)
qed

lemma name_field_eq:
  assumes "length f = 60" and "good_name name"
  shows "name_field f name = name @ replicate (60 - length name) 0"
  using assms strncpy_eq [of 60 f "name @ [0]"]
  by (simp add: name_field_def MINIX_NAME_MAX_def cstr_literal good_name_def terminated_def)

lemma cstr_name_field:
  assumes "length f = 60" and "good_name name"
  shows "cstr (name_field f name) = name" "length (name_field f name) = 60"
proof -
  have "cstr (name @ replicate k 0) = name" for k
    using assms(2) cstr_no_zero [of name] by (cases k) (auto simp: good_name_def cstr_def takeWhile_eq_all_conv)
  then show "cstr (name_field f name) = name"
    by (simp add: name_field_eq [OF assms])
  show "length (name_field f name) = 60"
    using assms by (simp add: name_field_eq [OF assms] good_name_def)
qed

section \<open>Entries\<close>

text \<open>Entry \<open>k\<close> of a directory with the bytes \<open>F\<close>, and the first of \<open>m\<close> entries in use with a name.\<close>

definition dent :: "(nat \<Rightarrow> u8) \<Rightarrow> nat \<Rightarrow> dirent" where
  "dent F k = decode_dirent (map F [64 * k..<64 * k + 64])"

definition dents :: "inode \<Rightarrow> fs \<Rightarrow> dirent list" where
  "dents n s = map (dent (file_byte n s)) [0..<16 * unat (dir_nblocks n)]"

definition live :: "bytes \<Rightarrow> dirent \<Rightarrow> bool" where
  "live name e \<longleftrightarrow> d_inode e \<noteq> 0 \<and> cstr (d_name e) = name"

definition dir_map :: "inode \<Rightarrow> fs \<Rightarrow> bytes \<Rightarrow> u32 option" where
  "dir_map n s name = map_option d_inode (find (live name) (dents n s))"

lemma dent_block:
  assumes "fs_ok s" and "i < 16"
  shows "dent (file_byte n s) (16 * b + i) =
    (if rz n s (Data b) = 0 then decode_dirent (replicate 64 0) else dirent_at (content s (rz n s (Data b))) i)"
proof -
  have dm: "(64 * (16 * b + i)) mod 1024 = 64 * i" "(64 * (16 * b + i)) div 1024 = b"
    using assms(2) by simp_all
  have "map (file_byte n s) [64 * (16 * b + i)..<64 * (16 * b + i) + 64] =
    (if rz n s (Data b) = 0 then replicate 64 0 else slice (64 * i) 64 (content s (rz n s (Data b))))"
    using map_file_byte_chunk [OF assms(1), of "64 * (16 * b + i)" 64 n] assms(2) unfolding dm by simp
  then show ?thesis
    by (simp add: dent_def dirent_at_def)
qed

lemma zero_dirent: "d_inode (decode_dirent (replicate 64 0)) = 0"
  by (simp add: decode_dirent_def get32_def word32_of_def)

text \<open>The scan over the blocks is a search through the entries.\<close>

lemma find_entry_eq:
  "i \<le> 16 \<Longrightarrow> map_option (dirent_at buf) (find_entry P buf i) = find P (map (dirent_at buf) [i..<16])"
proof (induction P buf i rule: find_entry.induct)
  case (1 P buf i)
  show ?case
  proof (cases "i < 16")
    case True
    then have "[i..<16] = i # [i + 1..<16]"
      by (simp add: upt_conv_Cons)
    then show ?thesis
      using 1 True by (subst find_entry.simps) simp
  next
    case False
    then show ?thesis
      using "1.prems" by (subst find_entry.simps) simp
  qed
qed

lemma find_entry_Some: "find_entry P buf i = Some j \<Longrightarrow> j < 16 \<and> P (dirent_at buf j) \<and> (\<forall>k. i \<le> k \<longrightarrow> k < j \<longrightarrow> \<not> P (dirent_at buf k))"
proof (induction P buf i rule: find_entry.induct)
  case (1 P buf i)
  show ?case
  proof (cases "i < 16 \<and> \<not> P (dirent_at buf i)")
    case True
    then have "find_entry P buf (i + 1) = Some j"
      using "1.prems" by (simp add: find_entry.simps [of P buf i])
    then have "j < 16 \<and> P (dirent_at buf j) \<and> (\<forall>k. i + 1 \<le> k \<longrightarrow> k < j \<longrightarrow> \<not> P (dirent_at buf k))"
      using "1.IH" True by simp
    then show ?thesis
      using True by (metis Suc_eq_plus1 Suc_leI le_neq_implies_less)
  next
    case False
    then show ?thesis
      using "1.prems" by (auto simp: find_entry.simps [of P buf i] split: if_splits)
  qed
qed

lemma find_entry_None: "find_entry P buf i = None \<Longrightarrow> i \<le> k \<Longrightarrow> k < 16 \<Longrightarrow> \<not> P (dirent_at buf k)"
proof (induction P buf i rule: find_entry.induct)
  case (1 P buf i)
  then show ?case
    by (cases "k = i") (auto simp: find_entry.simps [of P buf i] split: if_splits)
qed

lemma find_append: "find P (xs @ ys) = (case find P xs of None \<Rightarrow> find P ys | Some x \<Rightarrow> Some x)"
  by (induction xs) auto

lemma dents_split:
  assumes "b < m"
  shows "map f [16 * b..<16 * m] = map (\<lambda>i. f (16 * b + i)) [0..<16] @ map f [16 * (b + 1)..<16 * m]"
proof -
  have "[16 * b..<16 * m] = [16 * b..<16 * b + 16] @ [16 * (b + 1)..<16 * m]"
    using upt_add_eq_append [of "16 * b" "16 * b + 16" "16 * m - (16 * b + 16)"] assms by (simp add: add.commute)
  moreover have "map f [16 * b..<16 * b + 16] = map (\<lambda>i. f (16 * b + i)) [0..<16]"
    by (rule nth_equalityI) simp_all
  ultimately show ?thesis
    by simp
qed

lemma scan_dir_step:
  assumes "geom s" and "file_ok n s" and "b < m" and "m < 4294967296" and "length buf = 1024"
  shows "scan_dir P n dir (of_nat m) (of_nat b) buf s =
    (let z = rz n s (Data b) in
     if z = 0 then scan_dir P n dir (of_nat m) (of_nat (b + 1)) buf s
     else case find_entry P (content s z) 0 of
       Some i \<Rightarrow> Some (z, content s z, i)
     | None \<Rightarrow> scan_dir P n dir (of_nat m) (of_nat (b + 1)) (content s z) s)"
proof -
  have u: "unat (of_nat b :: u32) = b" "(of_nat b :: u32) < of_nat m"
    using assms(3,4) by (simp_all add: unat_of_nat_32 word_less_nat_alt)
  have "block_read (rz n s (Data b)) buf s = (2, content s (rz n s (Data b)))" if "rz n s (Data b) \<noteq> 0"
    using data_zone_usable [OF assms(1) file_okD(2) [OF assms(2) that]] assms(5) by (simp add: block_read_usable)
  then show ?thesis
    using u by (subst scan_dir.simps)
      (simp add: map_block_lookup [OF assms(1,2)] Let_def add.commute del: rz.simps split: option.split)
qed

lemma scan_dir_find:
  assumes "geom s" and "file_ok n s" and "m < 4294967296" and "\<And>e. P e \<Longrightarrow> d_inode e \<noteq> 0"
    and "b \<le> m" and "length buf = 1024"
  shows "map_option (\<lambda>(z, buf, i). dirent_at buf i) (scan_dir P n dir (of_nat m) (of_nat b) buf s)
    = find P (map (dent (file_byte n s)) [16 * b..<16 * m])"
  using assms(5,6)
proof (induction "m - b" arbitrary: b buf)
  case 0
  then show ?case
    by (subst scan_dir.simps) simp
next
  case (Suc k)
  then have b: "b < m"
    by simp
  let ?z = "rz n s (Data b)"
  have ok: "fs_ok s"
    using assms(1) by (rule geomD)
  have blk: "map (\<lambda>i. dent (file_byte n s) (16 * b + i)) [0..<16] =
      (if ?z = 0 then replicate 16 (decode_dirent (replicate 64 0)) else map (dirent_at (content s ?z)) [0..<16])"
    by (rule nth_equalityI) (simp_all add: dent_block [OF ok] del: rz.simps)
  have zero: "find P (replicate 16 (decode_dirent (replicate 64 0))) = None"
    using assms(4) zero_dirent by (auto simp: find_None_iff)
  note IH = Suc.hyps(1) [of "b + 1"]
  note split = dents_split [OF b, of "dent (file_byte n s)"]
  note step = scan_dir_step [OF assms(1,2) b assms(3) Suc.prems(2), of P dir]
  show ?case
  proof (cases "?z = 0")
    case True
    then show ?thesis
      unfolding step split find_append blk using IH Suc.hyps(2) Suc.prems b zero by (simp del: rz.simps)
  next
    case False
    note fe = find_entry_eq [of 0 "content s ?z" P, symmetric]
    show ?thesis
      unfolding step split find_append blk using False IH [of "content s ?z"] Suc.hyps(2) b ok fe
      by (cases "find_entry P (content s ?z) 0") (simp_all add: Let_def del: rz.simps)
  qed
qed

lemma scan_dir_Some:
  assumes "geom s" and "file_ok n s" and "m < 4294967296" and "b \<le> m" and "length buf = 1024"
    and "scan_dir P n dir (of_nat m) (of_nat b) buf s = Some (z, buf', i)"
  shows "\<exists>c. b \<le> c \<and> c < m \<and> z = rz n s (Data c) \<and> z \<noteq> 0 \<and> buf' = content s z \<and> i < 16 \<and> P (dirent_at buf' i)"
  using assms(4-6)
proof (induction "m - b" arbitrary: b buf)
  case 0
  then show ?case
    by (subst (asm) scan_dir.simps) simp
next
  case (Suc k)
  then have b: "b < m"
    by simp
  let ?z = "rz n s (Data b)"
  have ok: "fs_ok s"
    using assms(1) by (rule geomD)
  note step = scan_dir_step [OF assms(1,2) b assms(3) Suc.prems(2), of P dir]
  have IH: "\<exists>c. b + 1 \<le> c \<and> c < m \<and> z = rz n s (Data c) \<and> z \<noteq> 0 \<and> buf' = content s z \<and> i < 16 \<and> P (dirent_at buf' i)"
    if "scan_dir P n dir (of_nat m) (of_nat (b + 1)) x s = Some (z, buf', i)" "length x = 1024" for x
    using Suc.hyps(1) [of "b + 1" x] Suc.hyps(2) b that by simp
  show ?case
  proof (cases "?z \<noteq> 0 \<and> find_entry P (content s ?z) 0 \<noteq> None")
    case True
    then show ?thesis
      using step Suc.prems(3) find_entry_Some [of P "content s ?z" 0] b by (auto simp: Let_def simp del: rz.simps)
  next
    case False
    then obtain x where "scan_dir P n dir (of_nat m) (of_nat (b + 1)) x s = Some (z, buf', i)" "length x = 1024"
      using step Suc.prems(2,3) ok by (auto simp: Let_def simp del: rz.simps split: if_splits)
    from IH [OF this] obtain c where "b + 1 \<le> c" "c < m" "z = rz n s (Data c)" "z \<noteq> 0" "buf' = content s z" "i < 16"
        "P (dirent_at buf' i)"
      by blast
    then show ?thesis
      by (intro exI [of _ c]) (simp del: rz.simps)
  qed
qed

section \<open>Lookup\<close>

definition dir_ok :: "fs \<Rightarrow> u32 \<Rightarrow> bool" where
  "dir_ok s dir \<longleftrightarrow> geom s \<and> valid_ino s dir \<and> file_ok (inode_of s dir) s \<and> S_ISDIR (i_mode (inode_of s dir))
     \<and> unat (i_size (inode_of s dir)) \<le> 67378176"

lemma dir_okD:
  assumes "dir_ok s dir"
  shows "geom s" "valid_ino s dir" "file_ok (inode_of s dir) s" "S_ISDIR (i_mode (inode_of s dir))"
    "unat (i_size (inode_of s dir)) \<le> 67378176" "fs_ok s" "read_inode dir s = Some (inode_of s dir)"
    "length (junk s) = 1024"
proof -
  show g: "geom s" "valid_ino s dir" "file_ok (inode_of s dir) s" "S_ISDIR (i_mode (inode_of s dir))"
    "unat (i_size (inode_of s dir)) \<le> 67378176"
    using assms by (simp_all add: dir_ok_def)
  then show "fs_ok s" "length (junk s) = 1024"
    using geomD(1) by auto
  then show "read_inode dir s = Some (inode_of s dir)"
    using valid_ino_usable [OF g(1,2)] g(2) by (simp add: read_inode_usable valid_ino_def)
qed

lemma length_dent_name [simp]: "length (d_name (dent F k)) = 60"
  by (simp add: dent_def decode_dirent_def)

lemma scan_dir_dents:
  assumes "dir_ok s dir" and "\<And>e. P e \<Longrightarrow> d_inode e \<noteq> 0"
  defines "n \<equiv> inode_of s dir"
  shows "map_option (\<lambda>(z, buf, i). dirent_at buf i) (scan_dir P n dir (dir_nblocks n) 0 (junk s) s) = find P (dents n s)"
  using scan_dir_find [of s n "unat (dir_nblocks n)" P 0 "junk s" dir] dir_okD [OF assms(1)] assms(2) unat_less_32
  by (simp add: dents_def n_def)

lemma find_live:
  assumes "good_name name"
  shows "find (\<lambda>e. d_inode e \<noteq> 0 \<and> name_is (d_name e) name) (dents n s) = find (live name) (dents n s)"
  using assms by (intro find_cong) (auto simp: dents_def live_def name_is_cstr)

lemma dir_lookup_map:
  assumes "dir_ok s dir" and "good_name name"
  shows "dir_lookup dir name s = dir_map (inode_of s dir) s name"
proof -
  let ?n = "inode_of s dir"
  let ?P = "\<lambda>e. d_inode e \<noteq> 0 \<and> name_is (d_name e) name"
  note D = dir_okD [OF assms(1)]
  have "map_option (\<lambda>(z, buf, i). dirent_at buf i) (scan_dir ?P ?n dir (dir_nblocks ?n) 0 (junk s) s)
      = find (live name) (dents ?n s)"
    using scan_dir_dents [OF assms(1), of ?P] find_live [OF assms(2)] by simp
  then have "dir_map ?n s name = map_option d_inode (map_option (\<lambda>(z, buf, i). dirent_at buf i) (scan_dir ?P ?n dir (dir_nblocks ?n) 0 (junk s) s))"
    by (simp add: dir_map_def)
  also have "\<dots> = dir_lookup dir name s"
    using D(4,7) by (auto simp: dir_lookup_def split: option.split)
  finally show ?thesis
    by simp
qed

section \<open>Adding an entry\<close>

lemma map_block_mapped:
  assumes "geom s" and "file_ok n s" and "rz n s (Data (unat fb)) \<noteq> 0"
  shows "map_block n fb True ino s = (rz n s (Data (unat fb)), n, s)"
  using refl [of "unat fb"]
proof (cases rule: fileblock_cases)
  case direct
  then show ?thesis
    using assms(3) by (simp add: map_block_def ensure_zone_def)
next
  case single
  have tz: "table_zone (i_zone n ! 7) i True s = (entry_of s (i_zone n ! 7) i, s)"
    if "entry_of s (i_zone n ! 7) i \<noteq> 0" for i
    using that table_zone_lookup [OF assms(1) file_okD(2) [OF assms(2), of Ind], of i]
    by (auto simp: table_zone_def entry_of_def Let_def split: prod.splits if_splits)
  show ?thesis
    using single assms(3) tz [of "unat fb - 7"] by (auto simp: map_block_def ensure_zone_def entry_of_def split: if_splits)
next
  case double
  let ?k = "(unat fb - 263) div 256" and ?i = "(unat fb - 263) mod 256"
  have k: "?k < 256"
    using double(7) by (simp add: div_less_iff_less_mult)
  have tz: "table_zone t i True s = (entry_of s t i, s)" if "data_zone s t" "entry_of s t i \<noteq> 0" for t i
    using that table_zone_lookup [OF assms(1) that(1), of i]
    by (auto simp: table_zone_def entry_of_def Let_def split: prod.splits if_splits)
  have e: "entry_of s (entry_of s (i_zone n ! 8) ?k) ?i \<noteq> 0" "rz n s (Data (unat fb)) = entry_of s (entry_of s (i_zone n ! 8) ?k) ?i"
    using assms(3) double by auto
  then have d: "entry_of s (i_zone n ! 8) ?k \<noteq> 0" "i_zone n ! 8 \<noteq> 0"
    by (auto simp: entry_of_def)
  have "data_zone s (i_zone n ! 8)" "data_zone s (entry_of s (i_zone n ! 8) ?k)"
    using file_okD(2) [OF assms(2), of Dbl] file_okD(2) [OF assms(2), of "Sng ?k"] d k by simp_all
  then show ?thesis
    using double d e tz by (simp add: map_block_def ensure_zone_def Let_def del: rz.simps)
next
  case beyond
  then show ?thesis
    using assms(3) by simp
qed

declare rz.simps [simp del]

text \<open>Replacing a block of the directory, and one entry of a block.\<close>

lemma dent_put_block:
  assumes "geom s" and "file_ok n s" and "valid_ino s dir" and "inode_of s dir = n" and "length buf = 1024"
    and "rz n s (Data b) \<noteq> 0"
  defines "s' \<equiv> put_block (rz n s (Data b)) buf s"
  shows "dent (file_byte n s') k = (if k div 16 = b then dirent_at buf (k mod 16) else dent (file_byte n s) k)"
proof -
  note P = put_data_block [OF assms(1-6), folded s'_def]
  have pos: "(64 * k + j) div 1024 = k div 16" "(64 * k + j) mod 1024 = 64 * (k mod 16) + j" if "j < 64" for j
  proof -
    have "64 * k + j = 1024 * (k div 16) + (64 * (k mod 16) + j)"
      using mult_div_mod_eq [of 16 k] by linarith
    moreover have "64 * (k mod 16) + j < 1024"
      using that mod_less_divisor [of 16 k] by linarith
    ultimately show "(64 * k + j) div 1024 = k div 16" "(64 * k + j) mod 1024 = 64 * (k mod 16) + j"
      by (metis div_mult_self4 div_less add.right_neutral zero_neq_numeral, metis mod_mult_self4 mod_less)
  qed
  have le: "64 * (k mod 16) + 64 \<le> 1024"
    using mod_less_divisor [of 16 k] by linarith
  have "map (file_byte n s') [64 * k..<64 * k + 64] =
      (if k div 16 = b then slice (64 * (k mod 16)) 64 buf else map (file_byte n s) [64 * k..<64 * k + 64])"
    using le assms(5) by (intro nth_equalityI) (auto simp: P(3) pos nth_slice)
  then show ?thesis
    by (simp add: dent_def dirent_at_def)
qed

lemma dent_put:
  assumes "geom s" and "file_ok n s" and "valid_ino s dir" and "inode_of s dir = n" and "rz n s (Data b) \<noteq> 0"
    and "i < 16" and "length (d_name e) = 60"
  defines "buf \<equiv> set_dirent_at (content s (rz n s (Data b))) i e"
  defines "s' \<equiv> put_block (rz n s (Data b)) buf s"
  shows "block_write (rz n s (Data b)) buf s = (2, s')" "evolved 0 dir n s n s'"
    "dent (file_byte n s') k = (if k = 16 * b + i then e else dent (file_byte n s) k)"
proof -
  have ok: "fs_ok s"
    using assms(1) by (rule geomD)
  have len: "length buf = 1024"
    using assms(6,7) ok by (simp add: buf_def)
  show "block_write (rz n s (Data b)) buf s = (2, s')" "evolved 0 dir n s n s'"
    using put_data_block [OF assms(1-4) len assms(5), folded s'_def] by simp_all
  note D = dent_put_block [OF assms(1-4) len assms(5), folded s'_def, of k]
  show "dent (file_byte n s') k = (if k = 16 * b + i then e else dent (file_byte n s) k)"
  proof (cases "k div 16 = b")
    case True
    then have k: "k = 16 * b + k mod 16" "k mod 16 < 16"
      by auto
    have "dent (file_byte n s') k = (if k mod 16 = i then e else dirent_at (content s (rz n s (Data b))) (k mod 16))"
      using True D ok assms(6,7) by (simp add: buf_def dirent_at_set)
    also have "dirent_at (content s (rz n s (Data b))) (k mod 16) = dent (file_byte n s) k"
      using dent_block [OF ok k(2), of n b] assms(5) unfolding k(1) [symmetric] by simp
    also have "k mod 16 = i \<longleftrightarrow> k = 16 * b + i"
      using k(1) by linarith
    finally show ?thesis .
  qed (use D assms(6) in auto)
qed

definition free_entry :: "dirent \<Rightarrow> bool" where
  "free_entry e \<longleftrightarrow> d_inode e = 0"

definition new_entry :: "bytes \<Rightarrow> u32 \<Rightarrow> dirent" where
  "new_entry name ino = \<lparr>d_inode = ino, d_name = name @ replicate (60 - length name) 0\<rparr>"

lemma length_new_entry [simp]: "good_name name \<Longrightarrow> length (d_name (new_entry name ino)) = 60"
  by (simp add: new_entry_def good_name_def)

lemma dir_add_loop_spec:
  assumes "geom s" and "file_ok n s" and "valid_ino s dir" and "inode_of s dir = n" and "3 \<le> card (frees s)"
    and "good_name name" and "m \<le> 65799" and "b \<le> m" and "length buf = 1024"
    and "\<And>k. k < 16 * b \<Longrightarrow> \<not> free_entry (dent (file_byte n s) k)"
  shows "if \<exists>k < 16 * m. free_entry (dent (file_byte n s) k)
    then \<exists>n' s' k. dir_add_loop dir name ino (of_nat m) (of_nat b) n buf s = (True, n', s') \<and> evolved 3 dir n s n' s'
      \<and> i_size n' = i_size n \<and> k < 16 * m \<and> free_entry (dent (file_byte n s) k)
      \<and> dent (file_byte n' s') = (dent (file_byte n s))(k := new_entry name ino)
    else dir_add_loop dir name ino (of_nat m) (of_nat b) n buf s = (False, n, s)"
  using assms(8-)
proof (induction "m - b" arbitrary: b buf)
  case 0
  then have bm: "b = m"
    by simp
  then have none: "\<not> (\<exists>k < 16 * m. free_entry (dent (file_byte n s) k))"
    using "0.prems"(3) by blast
  have "dir_add_loop dir name ino (of_nat m) (of_nat b) n buf s = (False, n, s)"
    unfolding bm by (subst dir_add_loop.simps) simp
  then show ?case
    using none by (simp only: if_False)
next
  case (Suc c)
  then have b: "b < m"
    by simp
  have ok: "fs_ok s"
    using assms(1) by (rule geomD)
  have u: "unat (of_nat b :: u32) = b" "(of_nat b :: u32) < of_nat m"
    using b assms(7) by (simp_all add: unat_of_nat_32 word_less_nat_alt)
  let ?z = "rz n s (Data b)"
  consider (full) "?z \<noteq> 0" "find_entry free_entry (content s ?z) 0 = None"
    | (slot) i where "?z \<noteq> 0" "find_entry free_entry (content s ?z) 0 = Some i"
    | (hole) "?z = 0"
    by blast
  then show ?case
  proof cases
    case full
    have "map_block n (of_nat b) True dir s = (?z, n, s)"
      using map_block_mapped [OF assms(1,2), of "of_nat b"] full(1) unfolding u by blast
    moreover have "block_read ?z buf s = (2, content s ?z)"
      using data_zone_usable [OF assms(1) file_okD(2) [OF assms(2) full(1)]] Suc.prems(2) by (simp add: block_read_usable)
    moreover have "find_entry (\<lambda>e. d_inode e = 0) (content s ?z) 0 = None"
      using full(2) unfolding free_entry_def .
    ultimately have step: "dir_add_loop dir name ino (of_nat m) (of_nat b) n buf s =
        dir_add_loop dir name ino (of_nat m) (of_nat (b + 1)) n (content s ?z) s"
      using u by (subst dir_add_loop.simps) (simp add: add.commute del: rz.simps)
    have "\<not> free_entry (dent (file_byte n s) k)" if "k < 16 * (b + 1)" for k
    proof (cases "k < 16 * b")
      case True
      then show ?thesis
        by (rule Suc.prems(3))
    next
      case False
      then have k: "k = 16 * b + (k - 16 * b)" "k - 16 * b < 16"
        using that by simp_all
      show ?thesis
        using dent_block [OF ok k(2), of n b] k(1) full find_entry_None [OF full(2) _ k(2)] by (simp del: rz.simps)
    qed
    then show ?thesis
      unfolding step by (intro Suc.hyps(1)) (use Suc.hyps(2) b ok in simp_all)
  next
    case (slot i)
    then have i: "i < 16" "free_entry (dirent_at (content s ?z) i)"
      using find_entry_Some [OF slot(2)] by auto
    have mb: "map_block n (of_nat b) True dir s = (?z, n, s)"
      using map_block_mapped [OF assms(1,2), of "of_nat b"] slot(1) unfolding u by blast
    have br: "block_read ?z buf s = (2, content s ?z)"
      using data_zone_usable [OF assms(1) file_okD(2) [OF assms(2) slot(1)]] Suc.prems(2) by (simp add: block_read_usable)
    have fe: "find_entry (\<lambda>e. d_inode e = 0) (content s ?z) 0 = Some i"
      using slot(2) unfolding free_entry_def .
    have e: "\<lparr>d_inode = ino, d_name = name_field (d_name (dirent_at (content s ?z) i)) name\<rparr> = new_entry name ino"
      using name_field_eq [of "d_name (dirent_at (content s ?z) i)" name] i(1) ok assms(6) by (simp add: new_entry_def)
    note D = dent_put [OF assms(1-4) slot(1) i(1), of "new_entry name ino", OF length_new_entry [OF assms(6)]]
    let ?s' = "put_block ?z (set_dirent_at (content s ?z) i (new_entry name ino)) s"
    have "dir_add_loop dir name ino (of_nat m) (of_nat b) n buf s = (True, n, ?s')"
      using u mb br fe e D(1) by (subst dir_add_loop.simps) (simp add: Let_def del: rz.simps)
    moreover have k: "16 * b + i < 16 * m" "free_entry (dent (file_byte n s) (16 * b + i))"
      using i b dent_block [OF ok i(1), of n b] slot(1) by (simp_all del: rz.simps)
    moreover have "dent (file_byte n ?s') = (dent (file_byte n s))(16 * b + i := new_entry name ino)"
      using D(3) by (intro ext) simp
    moreover have "evolved 3 dir n s n ?s'"
      using evolved_mono [OF D(2)] by simp
    ultimately show ?thesis
      by (metis (full_types))
  next
    case hole
    have "unat (of_nat b :: u32) < 65799"
      using u(1) b assms(7) by simp
    then obtain z n' s1 where M: "map_block n (of_nat b) True dir s = (z, n', s1)" "grown 3 dir n s n' s1"
        "z = rz n' s1 (Data (unat (of_nat b :: u32)))" "z \<noteq> 0"
      by (rule map_block_grown [OF assms(1-5)])
    note G = grownD [OF M(2)]
    have z: "z = rz n' s1 (Data b)" "rz n' s1 (Data b) \<noteq> 0"
      using M(3,4) unfolding u by simp_all
    have ok1: "fs_ok s1"
      using G(2) by (rule geomD)
    have v1: "valid_ino s1 dir"
      using assms(3) valid_ino_layout [OF G(1)] by simp
    have zero: "d_inode (dirent_at (content s1 z) i) = 0" if "i < 16" for i
      using dent_block [OF ok1 that, of n' b] dent_block [OF ok that, of n b] G(6) hole z zero_dirent
      by (simp del: rz.simps)
    have br: "block_read z buf s1 = (2, content s1 z)"
      using data_zone_usable [OF G(2) file_okD(2) [OF G(3) z(2)]] Suc.prems(2) by (simp add: block_read_usable z(1) del: rz.simps)
    have fe: "find_entry (\<lambda>e. d_inode e = 0) (content s1 z) 0 = Some 0"
      using zero [of 0] by (subst find_entry.simps) simp
    have e: "\<lparr>d_inode = ino, d_name = name_field (d_name (dirent_at (content s1 z) 0)) name\<rparr> = new_entry name ino"
      using name_field_eq [of "d_name (dirent_at (content s1 z) 0)" name] ok1 assms(6) by (simp add: new_entry_def)
    note D = dent_put [OF G(2,3) v1 G(4) z(2), of 0 "new_entry name ino", OF _ length_new_entry [OF assms(6)], folded z(1)]
    let ?s' = "put_block z (set_dirent_at (content s1 z) 0 (new_entry name ino)) s1"
    have "dir_add_loop dir name ino (of_nat m) (of_nat b) n buf s = (True, n', ?s')"
      using u M(1) br fe e D(1) by (subst dir_add_loop.simps) (simp add: Let_def del: rz.simps)
    moreover have k: "16 * b < 16 * m" "free_entry (dent (file_byte n s) (16 * b))"
      using b dent_block [OF ok, of 0 n b] hole zero_dirent by (simp_all add: free_entry_def del: rz.simps)
    moreover have "dent (file_byte n' ?s') = (dent (file_byte n s))(16 * b := new_entry name ino)"
      using D(3) G(6) by (intro ext) simp
    moreover have "evolved 3 dir n s n' ?s'"
      using evolved_trans [OF grown_evolved [OF M(2)] D(2)] by simp
    moreover have "i_size n' = i_size n"
      by (subst G(5)) simp
    ultimately show ?thesis
      by (metis (full_types))
  qed
qed

lemma dir_nblocks_eq:
  assumes "unat (i_size n) \<le> 67378176"
  shows "unat (dir_nblocks n) = (unat (i_size n) + 1023) div 1024"
proof -
  have "unat (1023 + i_size n) = 1023 + unat (i_size n)"
    using assms by (simp add: unat_add_no_wrap)
  moreover have "dir_nblocks n = (1023 + i_size n) div 1024"
    by (simp add: dir_nblocks_def add.commute)
  ultimately show ?thesis
    by (simp only: unat_div_mod_1024 add.commute)
qed

lemma dirent_at_zeros: "i < 16 \<Longrightarrow> dirent_at (replicate 1024 0) i = decode_dirent (replicate 64 0)"
  by (simp add: dirent_at_def slice_def)

text \<open>The list of entries after an addition: a free entry is filled, after an extension by an empty block if there is none.\<close>

lemma dir_add_spec:
  assumes "dir_ok s dir" and "good_name name" and "3 \<le> card (frees s)"
    and "unat (i_size (inode_of s dir)) \<le> 67377152"
  obtains s' m j k where "dir_add dir name ino s = (0, s')" "evolved m dir (inode_of s dir) s (inode_of s' dir) s'" "dir_ok s' dir"
    "dents (inode_of s' dir) s' =
       (dents (inode_of s dir) s @ replicate j (decode_dirent (replicate 64 0)))[k := new_entry name ino]"
    "k < length (dents (inode_of s dir) s) + j"
    "free_entry ((dents (inode_of s dir) s @ replicate j (decode_dirent (replicate 64 0))) ! k)"
proof -
  define n where "n = inode_of s dir"
  define m where "m = unat (dir_nblocks n)"
  define F where "F = file_byte n s"
  note D = dir_okD [OF assms(1), folded n_def]
  have m: "m = (unat (i_size n) + 1023) div 1024"
    using dir_nblocks_eq [of n] D(5) by (simp add: m_def)
  have m65798: "m \<le> 65798"
    unfolding m using assms(4) by (simp add: n_def)
  have nb: "dir_nblocks n = of_nat m"
    by (simp add: m_def)
  have dents: "dents n s = map (dent F) [0..<16 * m]"
    by (simp add: dents_def m_def F_def)
  have loop: "if \<exists>k < 16 * m. free_entry (dent F k)
    then \<exists>n' s' k. dir_add_loop dir name ino (of_nat m) (of_nat 0) n (junk s) s = (True, n', s') \<and> evolved 3 dir n s n' s'
      \<and> i_size n' = i_size n \<and> k < 16 * m \<and> free_entry (dent F k)
      \<and> dent (file_byte n' s') = (dent F)(k := new_entry name ino)
    else dir_add_loop dir name ino (of_nat m) (of_nat 0) n (junk s) s = (False, n, s)"
    unfolding F_def using D(1-3,8) assms(2,3) m65798 by (intro dir_add_loop_spec) (simp_all add: n_def)
  show thesis
  proof (cases "\<exists>k < 16 * m. free_entry (dent F k)")
    case True
    then obtain n' s' k where L: "dir_add_loop dir name ino (of_nat m) (of_nat 0) n (junk s) s = (True, n', s')"
      "evolved 3 dir n s n' s'" "i_size n' = i_size n" "k < 16 * m" "free_entry (dent F k)"
      "dent (file_byte n' s') = (dent F)(k := new_entry name ino)"
      using loop by auto
    note E = evolvedD [OF L(2)]
    have n': "inode_of s' dir = n'"
      by (rule E(4))
    have add: "dir_add dir name ino s = (0, s')"
      using D(7) L(1) by (simp add: dir_add_def nb)
    have ok': "dir_ok s' dir"
      using E(2,3,5) D(2,4,5) valid_ino_layout [OF E(1)] L(3) by (simp add: dir_ok_def n')
    have "dir_nblocks n' = dir_nblocks n"
      by (simp add: dir_nblocks_def L(3))
    then have "dents n' s' = map ((dent F)(k := new_entry name ino)) [0..<16 * m]"
      by (simp add: dents_def L(6) m_def)
    also have "\<dots> = (dents n s)[k := new_entry name ino]"
      using L(4) by (intro nth_equalityI) (auto simp: dents nth_list_update)
    finally have "dents n' s' = (dents n s)[k := new_entry name ino]" .
    then show thesis
      using that [of s' 3 0 k] add L(2,4,5) ok' by (simp add: n' n_def [symmetric] dents)
  next
    case False
    then have L: "dir_add_loop dir name ino (of_nat m) (of_nat 0) n (junk s) s = (False, n, s)"
      using loop by (simp only: if_False)
    have um: "unat (of_nat m :: u32) = m"
      using m65798 by (simp add: unat_of_nat_32)
    then have "unat (of_nat m :: u32) < 65799"
      using m65798 by simp
    then obtain z n2 s2 where M: "map_block n (of_nat m) True dir s = (z, n2, s2)" "grown 3 dir n s n2 s2"
        "z = rz n2 s2 (Data (unat (of_nat m :: u32)))" "z \<noteq> 0"
      by (rule map_block_grown [OF D(1,3,2) n_def [symmetric] assms(3)])
    note G = grownD [OF M(2)]
    have z: "z = rz n2 s2 (Data m)" "rz n2 s2 (Data m) \<noteq> 0"
      using M(3,4) unfolding um by simp_all
    have v2: "valid_ino s2 dir"
      using D(2) valid_ino_layout [OF G(1)] by simp
    define buf where "buf = set_dirent_at (replicate 1024 0) 0 (new_entry name ino)"
    have e: "\<lparr>d_inode = ino, d_name = name_field (replicate 60 0) name\<rparr> = new_entry name ino"
      using name_field_eq [of "replicate 60 0" name] assms(2) by (simp add: new_entry_def)
    have len: "length buf = 1024"
      using assms(2) by (simp add: buf_def)
    note P = put_data_block [OF G(2,3) v2 G(4) len z(2), folded z(1)]
    note DP = dent_put_block [OF G(2,3) v2 G(4) len z(2), folded z(1)]
    define s3 where "s3 = put_block z buf s2"
    note E3 = evolvedD [OF P(2), folded s3_def]
    have v3: "valid_ino s3 dir"
      using v2 valid_ino_layout [OF E3(1)] by simp
    define n4 where "n4 = n2\<lparr>i_size := (of_nat m + 1) * 1024\<rparr>"
    define s4 where "s4 = put_inode dir n4 s3"
    note S = put_inode_size [OF E3(2,3) v3 E3(4), of "(of_nat m + 1) * 1024", folded n4_def, folded s4_def]
    note E4 = evolvedD [OF S(2)]
    have add: "dir_add dir name ino s = (0, s4)"
      using D(7) L M(1,4) P(1) S(1) by (simp add: dir_add_def nb e Let_def buf_def s3_def n4_def)
    have ev: "evolved (3 + 0 + 0) dir n s n4 s4"
      using evolved_trans [OF evolved_trans [OF grown_evolved [OF M(2)] P(2)], folded s3_def, OF S(2)] .
    have "i_size n4 = of_nat ((m + 1) * 1024)"
      by (simp add: n4_def algebra_simps)
    then have sz: "unat (i_size n4) = (m + 1) * 1024"
      using m65798 unat_of_nat_32 [of "(m + 1) * 1024"] by (simp del: of_nat_mult)
    have ok': "dir_ok s4 dir"
      using E4(2-4) evolvedD(5) [OF ev] D(2,4) valid_ino_layout [OF evolvedD(1) [OF ev]] sz m65798 by (simp add: dir_ok_def)
    have "unat (dir_nblocks n4) = m + 1"
      using dir_nblocks_eq [of n4] sz m65798 by simp
    then have "dents n4 s4 = map (dent (file_byte n2 s3)) [0..<16 * (m + 1)]"
      by (simp add: dents_def S(3))
    also have "\<dots> = (dents n s @ replicate 16 (decode_dirent (replicate 64 0)))[16 * m := new_entry name ino]"
    proof (rule nth_equalityI)
      fix k
      assume "k < length (map (dent (file_byte n2 s3)) [0..<16 * (m + 1)])"
      then have k: "k < 16 * (m + 1)"
        by simp
      show "map (dent (file_byte n2 s3)) [0..<16 * (m + 1)] ! k =
          (dents n s @ replicate 16 (decode_dirent (replicate 64 0)))[16 * m := new_entry name ino] ! k"
      proof (cases "k < 16 * m")
        case True
        then have "k div 16 \<noteq> m"
          by auto
        then show ?thesis
          using True DP [of k] G(6) by (simp add: s3_def dents nth_append F_def)
      next
        case False
        then have kd: "k div 16 = m"
          using k by auto
        have "k mod 16 = 0 \<longleftrightarrow> k = 16 * m"
          using mult_div_mod_eq [of 16 k] unfolding kd by linarith
        then show ?thesis
          using k kd False DP [of k] assms(2)
          by (auto simp: s3_def dents nth_append nth_list_update buf_def dirent_at_set dirent_at_zeros)
      qed
    qed (simp add: dents)
    finally have "dents n4 s4 = (dents n s @ replicate 16 (decode_dirent (replicate 64 0)))[16 * m := new_entry name ino]" .
    then show thesis
      using that [of s4 3 16 "16 * m"] add ev ok' zero_dirent
      by (simp add: E4(4) n_def [symmetric] dents nth_append free_entry_def)
  qed
qed

section \<open>The map of a directory\<close>

lemma find_update_other:
  "k < length xs \<Longrightarrow> \<not> P e \<Longrightarrow> \<not> P (xs ! k) \<Longrightarrow> find P (xs[k := e]) = find P xs"
proof (induction xs arbitrary: k)
  case (Cons x xs)
  then show ?case
    by (cases k) auto
qed simp

lemma find_update_new: "k < length xs \<Longrightarrow> P e \<Longrightarrow> find P xs = None \<Longrightarrow> find P (xs[k := e]) = Some e"
proof (induction xs arbitrary: k)
  case (Cons x xs)
  then show ?case
    by (cases k) (auto split: if_splits)
qed simp

lemma find_append_none: "\<forall>y \<in> set ys. \<not> P y \<Longrightarrow> find P (xs @ ys) = find P xs"
  by (induction xs) (auto simp: find_None_iff)

lemma cstr_zeros [simp]: "cstr (replicate k 0) = []"
  by (cases k) simp_all

lemma cstr_padded: "0 \<notin> set name \<Longrightarrow> cstr (name @ replicate k 0) = name"
  by (induction name) simp_all

lemma live_new_entry: "good_name name \<Longrightarrow> ino \<noteq> 0 \<Longrightarrow> live nm (new_entry name ino) \<longleftrightarrow> nm = name"
  by (auto simp: live_def new_entry_def cstr_padded good_name_def)

lemma free_not_live: "free_entry e \<Longrightarrow> \<not> live nm e"
  by (simp add: free_entry_def live_def)

lemma dir_map_add:
  assumes "dents n' s' = (dents n s @ replicate j (decode_dirent (replicate 64 0)))[k := new_entry name ino]"
    and "k < length (dents n s) + j" and "free_entry ((dents n s @ replicate j (decode_dirent (replicate 64 0))) ! k)"
    and "good_name name" and "ino \<noteq> 0" and "dir_map n s name = None"
  shows "dir_map n' s' = (dir_map n s)(name \<mapsto> ino)"
proof
  fix nm
  let ?xs = "dents n s @ replicate j (decode_dirent (replicate 64 0))"
  have zeros: "find (live nm) ?xs = find (live nm) (dents n s)" for nm
    by (rule find_append_none) (simp add: live_def zero_dirent)
  show "dir_map n' s' nm = ((dir_map n s)(name \<mapsto> ino)) nm"
  proof (cases "nm = name")
    case True
    then have "find (live nm) ?xs = None"
      using assms(6) zeros by (simp add: dir_map_def)
    then have "find (live nm) (?xs[k := new_entry name ino]) = Some (new_entry name ino)"
      using assms(2,4,5) True by (intro find_update_new) (simp_all add: live_new_entry)
    then show ?thesis
      using True by (simp add: dir_map_def assms(1) new_entry_def)
  next
    case False
    then have "find (live nm) (?xs[k := new_entry name ino]) = find (live nm) ?xs"
      using assms(2-5) by (intro find_update_other) (simp_all add: live_new_entry free_not_live)
    then show ?thesis
      using False zeros by (simp add: dir_map_def assms(1))
  qed
qed

text \<open>No two entries in use have the same name.\<close>

definition dir_unique :: "inode \<Rightarrow> fs \<Rightarrow> bool" where
  "dir_unique n s \<longleftrightarrow> (\<forall>nm. \<forall>i < length (dents n s). \<forall>j < length (dents n s).
     live nm (dents n s ! i) \<longrightarrow> live nm (dents n s ! j) \<longrightarrow> i = j)"

lemma dir_map_None: "dir_map n s nm = None \<longleftrightarrow> (\<forall>i < length (dents n s). \<not> live nm (dents n s ! i))"
  by (auto simp: dir_map_def find_None_iff in_set_conv_nth)

lemma dir_unique_add:
  assumes "dents n' s' = (dents n s @ replicate j (decode_dirent (replicate 64 0)))[k := new_entry name ino]"
    and "good_name name" and "ino \<noteq> 0" and "dir_map n s name = None" and "dir_unique n s"
  shows "dir_unique n' s'"
proof -
  let ?xs = "dents n s"
  have old: "i < length ?xs \<and> live nm (?xs ! i)" if "i \<noteq> k" "live nm (dents n' s' ! i)" "i < length (dents n' s')" for i nm
    using that by (auto simp: assms(1) nth_append live_def zero_dirent split: if_splits)
  have new: "nm = name" if "live nm (dents n' s' ! k)" "k < length (dents n' s')" for nm
    using that assms(2,3) by (simp add: assms(1) live_new_entry)
  show ?thesis
    unfolding dir_unique_def
  proof (intro allI impI)
    fix nm i l
    assume a: "i < length (dents n' s')" "l < length (dents n' s')" "live nm (dents n' s' ! i)" "live nm (dents n' s' ! l)"
    have none: "\<not> live name (?xs ! i)" if "i < length ?xs" for i
      using assms(4) that by (simp add: dir_map_None)
    show "i = l"
    proof (cases "i = k \<or> l = k")
      case True
      then have "nm = name"
        using new a by auto
      then show ?thesis
        using True old [of i nm] old [of l nm] a none by auto
    next
      case False
      then show ?thesis
        using old [of i nm] old [of l nm] a assms(5) unfolding dir_unique_def by blast
    qed
  qed
qed

lemma dir_remove_spec:
  assumes "dir_ok s dir" and "good_name name"
  defines "n \<equiv> inode_of s dir"
  shows "if dir_map n s name = None then dir_remove dir name s = (- 1, s)
    else \<exists>s' k. dir_remove dir name s = (0, s') \<and> evolved 0 dir n s n s' \<and> k < length (dents n s) \<and> live name (dents n s ! k)
      \<and> dents n s' = (dents n s)[k := \<lparr>d_inode = 0, d_name = replicate 60 0\<rparr>]"
proof -
  let ?P = "\<lambda>e. d_inode e \<noteq> 0 \<and> name_is (d_name e) name"
  let ?scan = "scan_dir ?P n dir (dir_nblocks n) 0 (junk s) s"
  note D = dir_okD [OF assms(1), folded n_def]
  have eq: "map_option (\<lambda>(z, buf, i). dirent_at buf i) ?scan = find (live name) (dents n s)"
    using scan_dir_dents [OF assms(1), of ?P] find_live [OF assms(2)] by (simp add: n_def)
  show ?thesis
  proof (cases ?scan)
    case None
    then have "find (live name) (dents n s) = None"
      using eq by simp
    moreover have "dir_remove dir name s = (- 1, s)"
      unfolding dir_remove_def D(7) option.case None ..
    ultimately show ?thesis
      by (simp add: dir_map_def)
  next
    case (Some r)
    obtain z buf i where r: "r = (z, buf, i)"
      by (cases r) auto
    have "\<exists>c. 0 \<le> c \<and> c < unat (dir_nblocks n) \<and> z = rz n s (Data c) \<and> z \<noteq> 0 \<and> buf = content s z \<and> i < 16
        \<and> ?P (dirent_at buf i)"
      by (rule scan_dir_Some [OF D(1,3) unat_less_32 _ D(8)]) (use Some in \<open>simp_all add: r\<close>)
    then obtain c where c: "c < unat (dir_nblocks n)" "z = rz n s (Data c)" "rz n s (Data c) \<noteq> 0" "buf = content s z" "i < 16"
        "?P (dirent_at buf i)"
      by auto
    let ?e = "\<lparr>d_inode = 0, d_name = replicate 60 0\<rparr>"
    have nd: "inode_of s dir = n"
      by (simp add: n_def)
    note P = dent_put [OF D(1,3,2) nd c(3,5), of ?e, folded c(2), folded c(4)]
    let ?s' = "put_block z (set_dirent_at buf i ?e) s"
    have "find (live name) (dents n s) \<noteq> None"
      using eq [symmetric] Some by simp
    then have some: "dir_map n s name \<noteq> None"
      by (simp add: dir_map_def)
    have rm: "dir_remove dir name s = (0, ?s')"
      unfolding dir_remove_def D(7) option.case Some r prod.case using P(1) by simp
    have k: "16 * c + i < length (dents n s)"
      using c(1,5) by (simp add: dents_def)
    have "dents n s ! (16 * c + i) = dirent_at buf i"
      using k dent_block [OF D(6) c(5), of n c] c(2,3,4) by (simp add: dents_def)
    then have "live name (dents n s ! (16 * c + i))"
      using c(6) name_is_cstr [OF _ assms(2)] k by (simp add: live_def c(4,5) D(6))
    moreover have "dents n ?s' = (dents n s)[16 * c + i := ?e]"
      using P(3) by (intro nth_equalityI) (auto simp: dents_def nth_list_update)
    ultimately show ?thesis
      using some rm P(2) k by auto
  qed
qed

lemma dir_map_remove:
  assumes "dents n s' = (dents n s)[k := \<lparr>d_inode = 0, d_name = replicate 60 0\<rparr>]" and "k < length (dents n s)"
    and "live name (dents n s ! k)" and "dir_unique n s"
  shows "dir_map n s' = (dir_map n s)(name := None)" and "dir_unique n s'"
proof -
  let ?e = "\<lparr>d_inode = 0, d_name = replicate 60 0\<rparr> :: dirent"
  have e: "\<not> live nm ?e" for nm
    by (simp add: live_def)
  have live: "i \<noteq> k \<and> live nm (dents n s ! i)" if "live nm (dents n s' ! i)" "i < length (dents n s)" for i nm
    using that e assms(2) by (cases "i = k") (auto simp: assms(1))
  show "dir_map n s' = (dir_map n s)(name := None)"
  proof
    fix nm
    show "dir_map n s' nm = ((dir_map n s)(name := None)) nm"
    proof (cases "nm = name")
      case True
      have len: "length (dents n s') = length (dents n s)"
        by (simp add: assms(1))
      have "dir_map n s' name = None"
        unfolding dir_map_None len using live assms(2-4) unfolding dir_unique_def by blast
      then show ?thesis
        using True by simp
    next
      case False
      then have "\<not> live nm (dents n s ! k)"
        using assms(3) by (auto simp: live_def)
      then show ?thesis
        using False e find_update_other [OF assms(2)] by (simp add: dir_map_def assms(1))
    qed
  qed
  show "dir_unique n s'"
    using assms(4) live unfolding dir_unique_def by (simp add: assms(1)) blast
qed

section \<open>Properties\<close>

lemma tiny_rz: "rz tiny_root tiny_fs r = (if r = Data 0 then 5 else 0)"
proof (cases r)
  case (Data fb)
  have z: "i_zone tiny_root ! 7 = 0" "i_zone tiny_root ! 8 = 0" "i_zone tiny_root ! 0 = 5"
    "fb < 7 \<Longrightarrow> fb \<noteq> 0 \<Longrightarrow> i_zone tiny_root ! fb = 0"
    by (simp_all add: tiny_root_def nth_Cons')
  show ?thesis
    by (cases "fb = 0") (simp_all add: Data rz.simps z entry_of_def)
qed (simp_all add: rz.simps tiny_root_def nth_Cons' entry_of_def)

lemma tiny_dir_ok: "dir_ok tiny_fs 1"
proof -
  have "data_zone tiny_fs 5"
    by (simp add: data_zone_def tiny_fs_fields tiny_free)
  then have "file_ok tiny_root tiny_fs"
    by (simp add: file_ok_def tiny_rz) (simp add: tiny_root_def)
  then show ?thesis
    using tiny_geom tiny_valid(1)
    by (simp add: dir_ok_def tiny_inodes) (simp add: tiny_root_def S_ISDIR_def S_IFMT_def S_IFDIR_def)
qed

lemma tiny_dents:
  "dents tiny_root tiny_fs = [tiny_entry 1 dot, tiny_entry 1 dotdot, tiny_entry 2 [0x66]]
     @ replicate 13 (decode_dirent (replicate 64 0))"
proof (rule nth_equalityI)
  have nb: "unat (dir_nblocks tiny_root) = 1"
    by (simp add: dir_nblocks_def tiny_root_def)
  then show "length (dents tiny_root tiny_fs) = length ([tiny_entry 1 dot, tiny_entry 1 dotdot, tiny_entry 2 [0x66]]
     @ replicate 13 (decode_dirent (replicate 64 0)))"
    by (simp add: dents_def)
  fix i
  assume "i < length (dents tiny_root tiny_fs)"
  then have i: "i < 16"
    by (simp add: dents_def nb)
  let ?es = "encode_dirent (tiny_entry 1 dot) @ encode_dirent (tiny_entry 1 dotdot) @ encode_dirent (tiny_entry 2 [0x66])"
  have blk: "content tiny_raw 5 = ?es @ replicate 832 0"
    by (simp add: tiny_blocks tiny_sector_def flip: replicate_add)
  have "dents tiny_root tiny_fs ! i = dirent_at (content tiny_fs 5) i"
    using dent_block [OF tiny_fs_fields(8) i, of tiny_root 0] i by (simp add: dents_def nb tiny_rz)
  also have "\<dots> = ([tiny_entry 1 dot, tiny_entry 1 dotdot, tiny_entry 2 [0x66]]
     @ replicate 13 (decode_dirent (replicate 64 0))) ! i"
  proof -
    have len: "length (d_name (tiny_entry 1 dot)) = 60" "length (d_name (tiny_entry 1 dotdot)) = 60"
      "length (d_name (tiny_entry 2 [0x66])) = 60"
      by (simp_all add: tiny_entry_def dot_def dotdot_def)
    consider "i = 0" | "i = 1" | "i = 2" | "3 \<le> i"
      by linarith
    then show ?thesis
    proof cases
      case 4
      then obtain j where "i = 3 + j"
        using le_Suc_ex by blast
      then show ?thesis
        using i by (simp add: dirent_at_def slice_def tiny_fs_fields blk tiny_lengths nth_append)
    qed (simp_all add: dirent_at_def slice_def tiny_fs_fields blk tiny_lengths decode_encode_dirent len)
  qed
  finally show "dents tiny_root tiny_fs ! i = ([tiny_entry 1 dot, tiny_entry 1 dotdot, tiny_entry 2 [0x66]]
     @ replicate 13 (decode_dirent (replicate 64 0))) ! i" .
qed

lemma tiny_names:
  "live nm (tiny_entry 1 dot) \<longleftrightarrow> nm = dot" "live nm (tiny_entry 1 dotdot) \<longleftrightarrow> nm = dotdot"
  "live nm (tiny_entry 2 [0x66]) \<longleftrightarrow> nm = [0x66]" "\<not> live nm (decode_dirent (replicate 64 0))"
  by (auto simp: live_def tiny_entry_def dot_def dotdot_def zero_dirent)

lemma tiny_dir_map:
  "dir_map tiny_root tiny_fs nm =
     (if nm = dot then Some 1 else if nm = dotdot then Some 1 else if nm = [0x66] then Some 2 else None)"
proof -
  have "find (live nm) (replicate 13 (decode_dirent (replicate 64 0))) = None"
    by (simp add: find_None_iff tiny_names)
  then show ?thesis
    by (simp add: dir_map_def tiny_dents find_append tiny_names) (simp add: tiny_entry_def)
qed

lemma tiny_dir_unique: "dir_unique tiny_root tiny_fs"
proof -
  have "dot \<noteq> dotdot" "dot \<noteq> [0x66]" "dotdot \<noteq> [0x66]"
    by (simp_all add: dot_def dotdot_def)
  moreover have "live nm (dents tiny_root tiny_fs ! i) \<Longrightarrow> i < 16 \<Longrightarrow>
      (i = 0 \<and> nm = dot) \<or> (i = 1 \<and> nm = dotdot) \<or> (i = 2 \<and> nm = [0x66])" for nm i
    by (auto simp: tiny_dents nth_append nth_Cons' tiny_names split: if_splits)
  ultimately show ?thesis
    unfolding dir_unique_def by (simp add: tiny_dents [THEN arg_cong, of length]) metis
qed

text \<open>
  C7. \<^verbatim>\<open>dir_add\<close> of a name that is absent maps it to the inode number and keeps every other
  name, in a free entry or in a new block at the end; the directory stays well-formed with distinct names, and
  every other inode and every zone of another file is unchanged.
\<close>

theorem dir_add_updates_map:
  assumes "dir_ok s dir" and "good_name name" and "3 \<le> card (frees s)"
    and "unat (i_size (inode_of s dir)) \<le> 67377152"
    and "ino \<noteq> 0" and "dir_unique (inode_of s dir) s" and "dir_map (inode_of s dir) s name = None"
  shows "\<exists>s'. dir_add dir name ino s = (0, s') \<and> dir_ok s' dir \<and> dir_unique (inode_of s' dir) s'
    \<and> dir_map (inode_of s' dir) s' = (dir_map (inode_of s dir) s)(name \<mapsto> ino)
    \<and> dir_lookup dir name s' = Some ino
    \<and> (\<forall>j. j \<noteq> dir \<longrightarrow> valid_ino s j \<longrightarrow> inode_of s' j = inode_of s j)
    \<and> (\<forall>c. foreign (inode_of s dir) s c \<longrightarrow> content s' c = content s c)"
proof -
  obtain s' m j k where A: "dir_add dir name ino s = (0, s')" "evolved m dir (inode_of s dir) s (inode_of s' dir) s'" "dir_ok s' dir"
    "dents (inode_of s' dir) s' = (dents (inode_of s dir) s @ replicate j (decode_dirent (replicate 64 0)))[k := new_entry name ino]"
    "k < length (dents (inode_of s dir) s) + j"
    "free_entry ((dents (inode_of s dir) s @ replicate j (decode_dirent (replicate 64 0))) ! k)"
    by (rule dir_add_spec [OF assms(1-4)])
  have "dir_map (inode_of s' dir) s' = (dir_map (inode_of s dir) s)(name \<mapsto> ino)"
    using A(4-6) assms(2,5,7) by (rule dir_map_add)
  moreover have "dir_unique (inode_of s' dir) s'"
    using A(4) assms(2,5,7,6) by (rule dir_unique_add)
  ultimately show ?thesis
    using A(1,3) evolvedD(8,9) [OF A(2)] dir_lookup_map [OF A(3) assms(2)] by auto
qed

theorem dir_add_updates_map_witness:
  "\<exists>s'. dir_add 1 [0x67] 3 tiny_fs = (0, s') \<and> dir_lookup 1 [0x67] s' = Some 3 \<and> inode_of s' 2 = inode_of tiny_fs 2"
proof -
  have "unat (i_size tiny_root) \<le> 67377152"
    by (simp add: tiny_root_def)
  then show ?thesis
    using dir_add_updates_map [OF tiny_dir_ok, of "[0x67]" 3] tiny_frees tiny_valid(2)
    by (auto simp: tiny_inodes tiny_dir_map tiny_dir_unique good_name_def dot_def dotdot_def)
qed

text \<open>
  C30. \<^verbatim>\<open>dir_remove\<close> fails without a change when the name is absent, and otherwise removes exactly
  that name from the map.
\<close>

theorem dir_remove_updates_map:
  assumes "dir_ok s dir" and "good_name name" and "dir_unique (inode_of s dir) s"
    and "dir_remove dir name s = (r, s')"
  shows "if dir_map (inode_of s dir) s name = None then r = - 1 \<and> s' = s
    else r = 0 \<and> dir_ok s' dir \<and> dir_unique (inode_of s' dir) s'
      \<and> dir_map (inode_of s' dir) s' = (dir_map (inode_of s dir) s)(name := None)
      \<and> dir_lookup dir name s' = None"
proof (cases "dir_map (inode_of s dir) s name = None")
  case True
  then show ?thesis
    using dir_remove_spec [OF assms(1,2)] assms(4) by simp
next
  case False
  let ?n = "inode_of s dir"
  obtain k where R: "r = 0" "evolved 0 dir ?n s ?n s'" "k < length (dents ?n s)" "live name (dents ?n s ! k)"
      "dents ?n s' = (dents ?n s)[k := \<lparr>d_inode = 0, d_name = replicate 60 0\<rparr>]"
    using dir_remove_spec [OF assms(1,2)] assms(4) False by auto
  note E = evolvedD [OF R(2)] and M = dir_map_remove [OF R(5,3,4) assms(3)]
  have "dir_ok s' dir"
    using dir_okD [OF assms(1)] E(2-4) valid_ino_layout [OF E(1)] by (simp add: dir_ok_def)
  then show ?thesis
    using False R(1) M dir_lookup_map [OF _ assms(2)] by (simp add: E(4))
qed

theorem dir_remove_updates_map_witness:
  "\<exists>s'. dir_remove 1 [0x66] tiny_fs = (0, s') \<and> dir_lookup 1 [0x66] s' = None"
proof -
  obtain r s' where r: "dir_remove 1 [0x66] tiny_fs = (r, s')"
    by fastforce
  show ?thesis
    using dir_remove_updates_map [OF tiny_dir_ok _ _ r]
    by (simp add: r tiny_inodes tiny_dir_unique tiny_dir_map good_name_def dot_def dotdot_def)
qed

end
