(* ===== verification/FsPath.thy ===== *)
theory FsPath
  imports FsDir
begin

text \<open>
  Paths: \<^verbatim>\<open>minixfs_resolve\<close> and \<^verbatim>\<open>split_path\<close> against a reference that splits a path at its slashes and walks
  the components from the root.
\<close>

section \<open>The reference\<close>

fun split_slash :: "bytes \<Rightarrow> bytes list" where
  "split_slash [] = [[]]"
| "split_slash (c # p) =
     (if c = slash then [] # split_slash p
      else case split_slash p of [] \<Rightarrow> [[c]] | w # ws \<Rightarrow> (c # w) # ws)"

definition components :: "bytes \<Rightarrow> bytes list" where
  "components p = map (take 60) (filter (\<lambda>c. c \<noteq> []) (split_slash (cstr p)))"

fun walk :: "(u32 \<Rightarrow> bytes \<Rightarrow> u32 option) \<Rightarrow> u32 \<Rightarrow> bytes list \<Rightarrow> u32 option" where
  "walk look cur [] = Some cur"
| "walk look cur (c # cs) = (case look cur c of None \<Rightarrow> None | Some i \<Rightarrow> walk look i cs)"

section \<open>Walking any name space\<close>

text \<open>All the path code needs of a directory lookup is that it never returns inode number 0.\<close>

locale name_space =
  fixes look :: "u32 \<Rightarrow> bytes \<Rightarrow> u32 option"
  assumes look_nonzero: "look d c = Some i \<Longrightarrow> i \<noteq> 0"
begin

lemma walk_nonzero: "cur \<noteq> 0 \<Longrightarrow> walk look cur cs = Some i \<Longrightarrow> i \<noteq> 0"
  by (induction cs arbitrary: cur) (auto split: option.splits dest: look_nonzero)

lemma walk_append: "walk look cur (cs @ ds) = (case walk look cur cs of None \<Rightarrow> None | Some i \<Rightarrow> walk look i ds)"
  by (induction cs arbitrary: cur) (auto split: option.split)

lemma walk_last:
  "cs \<noteq> [] \<Longrightarrow> walk look cur cs = (case walk look cur (butlast cs) of None \<Rightarrow> None | Some d \<Rightarrow> look d (last cs))"
  using walk_append [of cur "butlast cs" "[last cs]"] by (auto split: option.splits)

end

lemma scan_dir_match: "scan_dir P n dir nb b buf s = Some (z, buf', i) \<Longrightarrow> P (dirent_at buf' i)"
proof (induction P n dir nb b buf s rule: scan_dir.induct)
  case (1 P n dir nb b buf s)
  obtain zone n' s' where m: "map_block n b False dir s = (zone, n', s')"
    using prod_cases3 by blast
  obtain r blk where r: "block_read zone buf s = (r, blk)"
    by fastforce
  show ?case
    using "1.prems" "1.IH" [OF _ m [symmetric] refl refl] find_entry_Some [of P blk 0]
    by (subst (asm) scan_dir.simps)
      (auto simp: m r split: if_splits option.splits)
qed

interpretation paths: name_space "\<lambda>d c. dir_lookup d c s" for s
  by unfold_locales (auto simp: dir_lookup_def split: option.splits if_splits dest: scan_dir_match)

section \<open>Scanning\<close>

definition comp_char :: "u8 \<Rightarrow> bool" where
  "comp_char c \<longleftrightarrow> c \<noteq> 0 \<and> c \<noteq> slash"

lemma scan_comp_eq:
  "length cmp \<le> 60 \<Longrightarrow> scan_comp cmp p =
     (take 60 (cmp @ takeWhile comp_char p), dropWhile comp_char p)"
proof (induction cmp p rule: scan_comp.induct)
  case (2 cmp c p)
  then show ?case
    by (cases "length cmp < 60") (auto simp: comp_char_def MINIX_NAME_MAX_def take_Cons')
qed simp

lemma split_slash_not_Nil [simp]: "split_slash p \<noteq> []"
  by (induction p) (auto split: list.split)

lemma split_slash_word:
  "slash \<notin> set w \<Longrightarrow> split_slash (w @ p) = (w @ hd (split_slash p)) # tl (split_slash p)"
proof (induction w)
  case Nil
  then show ?case
    by simp
next
  case (Cons c w)
  then show ?case
    by auto
qed

lemma components_slash: "components (slash # p) = components p"
  by (simp add: components_def slash_def)

lemma components_skip: "components (skip_slashes p) = components p"
  by (induction p rule: skip_slashes.induct) (simp_all add: components_slash)

lemma components_at_end: "at_end p \<Longrightarrow> components p = []"
  by (cases p) (auto simp: at_end_def components_def)

lemma components_word:
  assumes "takeWhile comp_char p \<noteq> []"
  shows "components p = take 60 (takeWhile comp_char p) # components (dropWhile comp_char p)"
proof -
  let ?w = "takeWhile comp_char p" and ?r = "dropWhile comp_char p"
  have w: "slash \<notin> set ?w" "0 \<notin> set ?w"
    by (auto dest: set_takeWhileD simp: comp_char_def)
  have cs: "cstr (v @ q) = v @ cstr q" if "0 \<notin> set v" for v q
    using that by (induction v) auto
  have "cstr p = ?w @ cstr ?r"
    using cs [OF w(2), of ?r] by simp
  moreover have "cstr ?r = [] \<or> (\<exists>q. ?r = slash # q \<and> cstr ?r = slash # cstr q)"
  proof (cases ?r)
    case (Cons c q)
    then have "\<not> comp_char c"
      using hd_dropWhile [of comp_char p] by simp
    then show ?thesis
      unfolding Cons by (auto simp: comp_char_def slash_def)
  next
    case Nil
    show ?thesis
      unfolding Nil by simp
  qed
  ultimately show ?thesis
    using assms w(1) split_slash_word [OF w(1), of "cstr ?r"] by (auto simp: components_def)
qed

lemma takeWhile_Nil_at_end: "takeWhile comp_char p = [] \<Longrightarrow> at_end p \<or> (\<exists>q. p = slash # q)"
  by (cases p) (auto simp: comp_char_def at_end_def split: if_splits)

lemma skip_slashes_head: "skip_slashes p \<noteq> slash # q"
  by (induction p rule: skip_slashes.induct) auto

lemma resolve_loop_walk:
  assumes "\<And>q. p \<noteq> slash # q" and "cur \<noteq> 0"
  shows "resolve_loop cur p s = (case walk (\<lambda>d c. dir_lookup d c s) cur (components p) of None \<Rightarrow> 0 | Some i \<Rightarrow> i)"
  using assms
proof (induction cur p s rule: resolve_loop.induct)
  case (1 cur p s)
  show ?case
  proof (cases "at_end p")
    case True
    then show ?thesis
      by (subst resolve_loop.simps) (simp add: components_at_end)
  next
    case False
    then have w: "takeWhile comp_char p \<noteq> []"
      using takeWhile_Nil_at_end "1.prems"(1) by blast
    let ?c = "take 60 (takeWhile comp_char p)" and ?p2 = "skip_slashes (dropWhile comp_char p)"
    have sc: "scan_comp [] p = (?c, dropWhile comp_char p)"
      using scan_comp_eq [of "[]" p] by simp
    have cs: "components p = ?c # components ?p2"
      using components_word [OF w] components_skip by simp
    have step: "resolve_loop cur p s = (case dir_lookup cur ?c s of None \<Rightarrow> 0 | Some nxt \<Rightarrow> resolve_loop nxt ?p2 s)"
      using False w by (subst resolve_loop.simps) (simp add: sc Let_def)
    show ?thesis
    proof (cases "dir_lookup cur ?c s")
      case None
      then show ?thesis
        by (simp add: step cs)
    next
      case (Some nxt)
      then have "nxt \<noteq> 0"
        by (rule paths.look_nonzero)
      then have "resolve_loop nxt ?p2 s = (case walk (\<lambda>d c. dir_lookup d c s) nxt (components ?p2) of None \<Rightarrow> 0 | Some i \<Rightarrow> i)"
        using "1.IH" [OF False sc [symmetric] refl refl _ Some] w skip_slashes_head by simp
      then show ?thesis
        using Some by (simp add: step cs)
    qed
  qed
qed

lemma split_loop_walk:
  assumes "\<And>q. p \<noteq> slash # q"
  shows "split_loop cur p s =
    (if components p = [] then Some (MINIX_ROOT_INO, [])
     else case walk (\<lambda>d c. dir_lookup d c s) cur (butlast (components p)) of
       None \<Rightarrow> None | Some d \<Rightarrow> Some (d, last (components p)))"
  using assms
proof (induction cur p s rule: split_loop.induct)
  case (1 cur p s)
  let ?c = "take 60 (takeWhile comp_char p)" and ?p2 = "skip_slashes (dropWhile comp_char p)"
  have sc: "scan_comp [] p = (?c, dropWhile comp_char p)"
    using scan_comp_eq [of "[]" p] by simp
  show ?case
  proof (cases "at_end p")
    case True
    then have "takeWhile comp_char p = []" "?p2 = p"
      using scan_at_end [of p "[]"] scan_comp_eq [of "[]" p] by auto
    then show ?thesis
      using True by (subst split_loop.simps) (simp add: sc components_at_end)
  next
    case False
    then have w: "takeWhile comp_char p \<noteq> []"
      using takeWhile_Nil_at_end "1.prems" by blast
    have cs: "components p = ?c # components ?p2"
      using components_word [OF w] components_skip by simp
    show ?thesis
    proof (cases "at_end ?p2")
      case True
      then show ?thesis
        using w cs components_at_end [OF True] by (subst split_loop.simps) (simp add: sc Let_def)
    next
      case nend: False
      have ne: "components ?p2 \<noteq> []"
      proof -
        have "takeWhile comp_char ?p2 \<noteq> []"
          using takeWhile_Nil_at_end [of ?p2] nend skip_slashes_head by blast
        then show ?thesis
          using components_word by simp
      qed
      have step: "split_loop cur p s = (case dir_lookup cur ?c s of None \<Rightarrow> None | Some nxt \<Rightarrow> split_loop nxt ?p2 s)"
        using nend by (subst split_loop.simps) (simp add: sc Let_def)
      show ?thesis
      proof (cases "dir_lookup cur ?c s")
        case None
        then show ?thesis
          using ne by (simp add: step cs)
      next
        case (Some nxt)
        then show ?thesis
          using "1.IH" [OF sc [symmetric] refl refl nend Some] skip_slashes_head ne
          unfolding step cs by (simp split: option.split)
      qed
    qed
  qed
qed

lemma resolve_root_path: "strcmp (path @ [0]) [slash, 0] = Some 0 \<Longrightarrow> 0 \<notin> set path \<Longrightarrow> path = [slash]"
proof -
  assume a: "strcmp (path @ [0]) [slash, 0] = Some 0" "0 \<notin> set path"
  have "terminated (path @ [0])" "terminated [slash, 0]"
    by (simp_all add: terminated_def)
  then have "cstr (path @ [0]) = cstr [slash, 0]"
    using strcmp_spec a(1) by fastforce
  then show ?thesis
    using a(2) by (simp add: cstr_literal slash_def split: if_splits)
qed

section \<open>Properties\<close>


lemma tiny_lookup: "dir_lookup 1 [0x66] tiny_fs = Some 2"
  using dir_lookup_map [OF tiny_dir_ok, of "[0x66]"]
  by (simp add: tiny_inodes tiny_dir_map good_name_def dot_def dotdot_def)


text \<open>
  A path that starts with two slashes resolves to the root directory, whatever follows: the
  first component is empty, and the loop ends at an empty component instead of skipping it.
\<close>

theorem minixfs_resolve_double_slash:
  assumes "mounted s"
  shows "minixfs_resolve (slash # slash # p) s = MINIX_ROOT_INO"
proof -
  have "resolve_loop MINIX_ROOT_INO (slash # p) s = MINIX_ROOT_INO"
    by (subst resolve_loop.simps) (simp add: at_end_def slash_def)
  then show ?thesis
    using assms by (simp add: minixfs_resolve_def)
qed

theorem minixfs_resolve_double_slash_witness: "minixfs_resolve [slash, slash, 0x67] tiny_fs = MINIX_ROOT_INO"
  using minixfs_resolve_double_slash [OF tiny_fs_fields(7), of "[0x67]"] .

text \<open>
  \<^verbatim>\<open>split_path\<close> and \<^verbatim>\<open>minixfs_resolve\<close> agree: where a path splits into a parent directory and a last
  component, it resolves to what a lookup of that component in that directory finds.
\<close>

theorem split_path_resolve:
  assumes "mounted s" and "path = slash # p" and "\<And>q. p \<noteq> slash # q" and "0 \<notin> set p"
    and "split_path path s = Some (parent, leaf)" and "leaf \<noteq> []"
  shows "minixfs_resolve path s = (case dir_lookup parent leaf s of None \<Rightarrow> 0 | Some i \<Rightarrow> i)"
proof -
  let ?w = "walk (\<lambda>d c. dir_lookup d c s) MINIX_ROOT_INO"
  have sp: "split_path path s = split_loop MINIX_ROOT_INO p s"
    by (simp add: split_path_def assms(2))
  have ne: "components p \<noteq> []"
    using assms(5,6) split_loop_walk [OF assms(3), of MINIX_ROOT_INO s] unfolding sp by auto
  then have "?w (butlast (components p)) = Some parent" "last (components p) = leaf"
    using assms(5) split_loop_walk [OF assms(3), of MINIX_ROOT_INO s] unfolding sp by (auto split: option.splits)
  then have wl: "?w (components p) = dir_lookup parent leaf s"
    using paths.walk_last [OF ne, of s MINIX_ROOT_INO] by simp
  have "resolve_loop MINIX_ROOT_INO p s = (case ?w (components p) of None \<Rightarrow> 0 | Some i \<Rightarrow> i)"
    using assms(3) by (rule resolve_loop_walk) (simp add: MINIX_ROOT_INO_def)
  moreover have "strcmp (path @ [0]) [slash, 0] \<noteq> Some 0"
  proof
    assume "strcmp (path @ [0]) [slash, 0] = Some 0"
    from resolve_root_path [OF this] have "p = []"
      using assms(2,4) by (simp add: slash_def)
    then show False
      using ne by (simp add: components_def)
  qed
  ultimately show ?thesis
    using assms(1,2) wl by (simp add: minixfs_resolve_def)
qed

theorem split_path_resolve_witness:
  "split_path [slash, 0x66] tiny_fs = Some (1, [0x66]) \<and> minixfs_resolve [slash, 0x66] tiny_fs = 2"
proof -
  have "components [0x66] = [[0x66]]"
    by (simp add: components_def slash_def)
  then have "split_path [slash, 0x66] tiny_fs = Some (1, [0x66])"
    using split_loop_walk [of "[0x66]" MINIX_ROOT_INO tiny_fs] by (simp add: split_path_def slash_def MINIX_ROOT_INO_def)
  then show ?thesis
    using split_path_resolve [OF tiny_fs_fields(7) refl, of "[0x66]" 1 "[0x66]"] tiny_lookup by (simp add: slash_def)
qed

end
