(* ===== verification/FsLimits.thy ===== *)
theory FsLimits
  imports FsPath
begin

text \<open>
  The file system at its limits: what freeing a zone does, what truncation on open leaves behind, and what
  the allocators do when the inodes run out.
\<close>

unbundle bit_operations_syntax

section \<open>Freeing zones\<close>

lemma clear_map_bit_spec:
  assumes "fs_ok s" and "map_region s start n" and "k < 8192 * n"
  shows "same_layout s (clear_map_bit start k s)"
    and "j < 8192 * n \<Longrightarrow> map_bit (clear_map_bit start k s) start j \<longleftrightarrow> j \<noteq> k \<and> map_bit s start j"
    and "addressable c \<Longrightarrow> c \<noteq> start + of_nat (k div 8192) \<Longrightarrow> content (clear_map_bit start k s) c = content s c"
proof -
  let ?b = "start + of_nat (k div 8192)"
  have u: "usable s ?b"
    using assms(2,3) by (rule map_region_usable)
  have len: "length (clear_bit_at (content s ?b) (k mod 8192)) = 1024"
    using assms(1) by simp
  note put = put_block_disk [OF assms(1) u len]
  show "same_layout s (clear_map_bit start k s)"
    unfolding clear_map_bit_def using assms(1) u len by (rule same_layout_put_block)
  show "content (clear_map_bit start k s) c = content s c" if "addressable c" "c \<noteq> ?b"
    using that by (simp add: clear_map_bit_def put)
  show "map_bit (clear_map_bit start k s) start j \<longleftrightarrow> j \<noteq> k \<and> map_bit s start j" if j: "j < 8192 * n"
  proof -
    have a: "addressable (start + of_nat (j div 8192))"
      using map_region_usable [OF assms(2) j] by simp
    show ?thesis
    proof (cases "j div 8192 = k div 8192")
      case True
      then show ?thesis
        using assms(1) a div_mod_8192_eq [OF True] by (simp add: map_bit_def clear_map_bit_def put bit_at_clear)
    next
      case False
      then have "start + of_nat (j div 8192) \<noteq> ?b" "j \<noteq> k"
        using map_block_eq [OF assms(2,3) j] by auto
      then show ?thesis
        using a by (simp add: map_bit_def clear_map_bit_def put)
    qed
  qed
qed

lemma free_zone_spec:
  assumes "geom s" and "fdz s \<le> unat z" and "unat z < nzones s"
  shows "same_layout s (free_zone z s)" and "geom (free_zone z s)"
    and "zone_free (free_zone z s) x \<longleftrightarrow> x = z \<or> zone_free s x"
    and "addressable c \<Longrightarrow> unat (inode_start s) \<le> unat c \<Longrightarrow> content (free_zone z s) c = content s c"
proof -
  note g = geomD [OF assms(1)] and reg = zmap_region [OF assms(1)]
  define k where "k = unat z - fdz s + 1"
  have k: "k < 8192 * zmap_len s" "1 \<le> k"
    using g(7) assms(2,3) by (simp_all add: k_def)
  have f: "unat (ucast (s_firstdatazone (sb s)) :: u32) = fdz s"
    using g(3) nzones_less [of s] by (simp add: sb_words unat_of_nat_32)
  have "z - ucast (s_firstdatazone (sb s)) + 1 = of_nat k"
    using assms(2) by (simp add: k_def sb_words of_nat_diff)
  moreover have "\<not> z < ucast (s_firstdatazone (sb s))"
    using assms(2) f by (simp add: word_less_nat_alt)
  ultimately have fz: "free_zone z s = clear_map_bit (zmap_start s) k s"
    using bitmap_clear_usable [OF g(1) reg k(1)] by (simp add: free_zone_def)
  note C = clear_map_bit_spec [OF g(1) reg k(1), folded fz]
  show layout: "same_layout s (free_zone z s)"
    by (rule C(1))
  have kb: "k div 8192 < zmap_len s"
    using k(1) by (simp add: less_mult_imp_div_less mult.commute)
  show "content (free_zone z s) c = content s c" if "addressable c" "unat (inode_start s) \<le> unat c"
  proof -
    have "c \<noteq> zmap_start s + of_nat (k div 8192)"
      using that(2) zmap_block_number [OF assms(1) kb] g(5) kb by auto
    then show ?thesis
      using C(3) that(1) by blast
  qed
  have zl: "0 < 8192 * zmap_len s"
    using k(1) by linarith
  show "geom (free_zone z s)"
    using assms(1) C(2) [OF zl] k(2) same_layoutD(8) [OF layout] unfolding geom_def same_layoutD(1-7) [OF layout] by simp
  have "unat x - fdz s + 1 = k \<longleftrightarrow> x = z" if "fdz s \<le> unat x"
    using that assms(2) by (auto simp: k_def word_unat_eq_iff)
  then show "zone_free (free_zone z s) x \<longleftrightarrow> x = z \<or> zone_free s x"
    using C(2) k(1) assms(2,3) unfolding zone_free_def same_layoutD [OF layout] by (auto simp: k_def)
qed

lemma trunc_zones_spec:
  assumes "geom s" and "length (i_zone n) = 10" and "distinct is" and "set is \<subseteq> {0..<10}"
    and "\<And>i. i \<in> set is \<Longrightarrow> i_zone n ! i \<noteq> 0 \<Longrightarrow> fdz s \<le> unat (i_zone n ! i) \<and> unat (i_zone n ! i) < nzones s"
    and "trunc_zones is n s = (n', s')"
  shows "same_layout s s' \<and> geom s' \<and> (\<forall>c. addressable c \<longrightarrow> unat (inode_start s) \<le> unat c \<longrightarrow> content s' c = content s c)
    \<and> n' = n\<lparr>i_zone := i_zone n'\<rparr> \<and> length (i_zone n') = 10
    \<and> (\<forall>k. i_zone n' ! k = (if k \<in> set is then 0 else i_zone n ! k))"
  using assms
proof (induction "is" n s rule: trunc_zones.induct)
  case (1 n s)
  then show ?case
    by (simp add: same_layout_def geomD)
next
  case (2 i "is" n s)
  show ?case
  proof (cases "i_zone n ! i = 0")
    case True
    have "same_layout s s' \<and> geom s' \<and> (\<forall>c. addressable c \<longrightarrow> unat (inode_start s) \<le> unat c \<longrightarrow> content s' c = content s c)
      \<and> n' = n\<lparr>i_zone := i_zone n'\<rparr> \<and> length (i_zone n') = 10 \<and> (\<forall>k. i_zone n' ! k = (if k \<in> set is then 0 else i_zone n ! k))"
      by (rule "2.IH"(2)) (use "2.prems" True in auto)
    then show ?thesis
      using True by auto
  next
    case False
    let ?z = "i_zone n ! i" and ?n = "n\<lparr>i_zone := (i_zone n)[i := 0]\<rparr>"
    have i: "i < length (i_zone n)" "i \<notin> set is"
      using "2.prems"(2-4) by auto
    have r: "fdz s \<le> unat ?z" "unat ?z < nzones s"
      using "2.prems"(5) [of i] False by auto
    note F = free_zone_spec [OF "2.prems"(1) r]
    note L = same_layoutD [OF F(1)]
    have "same_layout (free_zone ?z s) s' \<and> geom s'
      \<and> (\<forall>c. addressable c \<longrightarrow> unat (inode_start (free_zone ?z s)) \<le> unat c \<longrightarrow> content s' c = content (free_zone ?z s) c)
      \<and> n' = ?n\<lparr>i_zone := i_zone n'\<rparr> \<and> length (i_zone n') = 10
      \<and> (\<forall>k. i_zone n' ! k = (if k \<in> set is then 0 else i_zone ?n ! k))"
    proof (rule "2.IH"(1) [OF False F(2)])
      show "fdz (free_zone ?z s) \<le> unat (i_zone ?n ! j) \<and> unat (i_zone ?n ! j) < nzones (free_zone ?z s)"
        if "j \<in> set is" "i_zone ?n ! j \<noteq> 0" for j
        using that "2.prems"(5) [of j] i by (auto simp: L nth_list_update)
    qed (use "2.prems" False in auto)
    then show ?thesis
      using same_layout_trans [OF F(1)] F(4) i by (auto simp: L nth_list_update)
  qed
qed

section \<open>Properties\<close>

text \<open>
  C38. Opening a regular file with \<^verbatim>\<open>O_TRUNC\<close> sets its size to 0 and drops its seven direct zones, but keeps
  the indirect and the double indirect block: every byte from 7168 on is still in the tree, and is in
  the file again as soon as a write extends it that far.
\<close>

theorem minixfs_open_trunc_keeps_indirect:
  assumes "geom s" and "minixfs_resolve path s = ino" and "valid_ino s ino" and "file_ok (inode_of s ino) s"
    and "S_ISREG (i_mode (inode_of s ino))" and "flags AND O_TRUNC \<noteq> 0"
  shows "\<exists>s'. minixfs_open path flags mode s = (sint ino, s') \<and> i_size (inode_of s' ino) = 0
    \<and> (\<forall>k < 7. i_zone (inode_of s' ino) ! k = 0)
    \<and> (\<forall>pos \<ge> 7168. file_byte (inode_of s' ino) s' pos = file_byte (inode_of s ino) s pos)"
proof -
  let ?n = "inode_of s ino"
  note g = geomD [OF assms(1)] and F = file_okD [OF assms(4)]
  have ino: "ino \<noteq> 0"
    using assms(3) by (simp add: valid_ino_def)
  have r: "read_inode_into (junk_inode s) ino s = ?n"
    using g(1) valid_ino_usable [OF assms(1,3)] ino by (simp add: read_inode_into_def read_inode_usable)
  obtain n1 s1 where T: "trunc_zones [0..<7] ?n s = (n1, s1)"
    by fastforce
  have range: "fdz s \<le> unat (i_zone ?n ! i) \<and> unat (i_zone ?n ! i) < nzones s" if "i \<in> set [0..<7]" "i_zone ?n ! i \<noteq> 0" for i
    using F(2) [of "Data i"] that by (simp add: rz.simps data_zone_def)
  have S: "same_layout s s1" "geom s1" "\<And>c. addressable c \<Longrightarrow> unat (inode_start s) \<le> unat c \<Longrightarrow> content s1 c = content s c"
      "n1 = ?n\<lparr>i_zone := i_zone n1\<rparr>" "length (i_zone n1) = 10" "\<And>k. i_zone n1 ! k = (if k \<in> set [0..<7] then 0 else i_zone ?n ! k)"
    using trunc_zones_spec [OF assms(1) F(1) _ _ range T] by auto
  note L = same_layoutD [OF S(1)]
  define n2 where "n2 = n1\<lparr>i_size := 0\<rparr>"
  define s2 where "s2 = put_inode ino n2 s1"
  have v1: "valid_ino s1 ino"
    using assms(3) valid_ino_layout [OF S(1)] by simp
  have u1: "usable s1 (inode_block ino s1)" and len: "length (i_zone n2) = 10" and ok1: "fs_ok s1"
    using valid_ino_usable [OF S(2) v1] S(5) geomD(1) [OF S(2)] by (simp_all add: n2_def)
  note put = put_inode_disk [OF ok1 u1 len, folded s2_def]
  have "write_inode ino n2 s1 = (2, s2)"
    using write_inode_usable [OF ok1 u1 ino len] by (simp add: s2_def)
  then have op: "minixfs_open path flags mode s = (sint ino, s2)"
    using assms(2,5,6) ino r T by (simp add: minixfs_open_def Let_def n2_def)
  have n2: "inode_of s2 ino = n2"
    using put(4) [of ino] u1 by simp
  have cont: "content s2 c = content s c" if "data_zone s c" for c
  proof -
    have "addressable c" "c \<noteq> inode_block ino s1" "unat (inode_start s) \<le> unat c"
      using data_zone_usable [OF assms(1) that] that assms(3) g(2) by (auto simp: data_zone_def valid_ino_def L)
    then show ?thesis
      using put(3) S(3) by simp
  qed
  have entry: "entry_of s2 t i = entry_of s t i" if "t = 0 \<or> data_zone s t" for t i
    using that cont by (auto simp: entry_of_def)
  have rz: "rz n2 s2 (Data fb) = rz ?n s (Data fb)" if "7 \<le> fb" for fb
  proof -
    have "i_zone n2 ! 7 = i_zone ?n ! 7" "i_zone n2 ! 8 = i_zone ?n ! 8"
      using S(6) [of 7] S(6) [of 8] by (simp_all add: n2_def)
    moreover have "i_zone ?n ! 7 = 0 \<or> data_zone s (i_zone ?n ! 7)" "i_zone ?n ! 8 = 0 \<or> data_zone s (i_zone ?n ! 8)"
      using F(2) [of Ind] F(2) [of Dbl] by (auto simp: rz.simps)
    moreover have "entry_of s (i_zone ?n ! 8) k = 0 \<or> data_zone s (entry_of s (i_zone ?n ! 8) k)" if "k < 256" for k
      using F(2) [of "Sng k"] that by (auto simp: rz.simps)
    moreover have "(fb - 263) div 256 < 256" if "fb < 65799"
      using that by (simp add: div_less_iff_less_mult)
    ultimately show ?thesis
      using that by (simp add: rz.simps entry)
  qed
  have "file_byte n2 s2 pos = file_byte ?n s pos" if "7168 \<le> pos" for pos
  proof -
    have "7 \<le> pos div 1024"
      using that by (simp add: less_eq_div_iff_mult_less_eq)
    then show ?thesis
      using rz cont F(2) [of "Data (pos div 1024)"] by (simp add: file_byte_def Let_def)
  qed
  moreover have "\<forall>k < 7. i_zone n2 ! k = 0"
    using S(6) by (simp add: n2_def)
  ultimately show ?thesis
    using op n2 by (simp add: n2_def)
qed

theorem minixfs_open_trunc_keeps_indirect_witness:
  "\<exists>s'. minixfs_open [slash, 0x66] O_TRUNC 0 tiny_fs = (2, s') \<and> i_size (inode_of s' 2) = 0"
proof -
  have "components [0x66] = [[0x66]]"
    by (simp add: components_def slash_def)
  then have r: "minixfs_resolve [slash, 0x66] tiny_fs = 2"
    using resolve_loop_walk [of "[0x66]" MINIX_ROOT_INO tiny_fs] tiny_lookup
    by (simp add: minixfs_resolve_def tiny_fs_fields slash_def MINIX_ROOT_INO_def)
  have "S_ISREG (i_mode (inode_of tiny_fs 2))"
    by (simp add: tiny_inodes tiny_file_def S_ISREG_def S_IFMT_def S_IFREG_def)
  moreover have "O_TRUNC AND O_TRUNC \<noteq> 0"
    by (simp add: O_TRUNC_def)
  ultimately show ?thesis
    using minixfs_open_trunc_keeps_indirect [OF tiny_geom r tiny_valid(2) tiny_file_ok, of O_TRUNC 0] by auto
qed

text \<open>
  The inode allocator does not look at the number of inodes: once all of them are in use, it
  hands out the next bit of the map, and where the inode table ends at the first data zone the new inode's
  slot lies in a data block.
\<close>

theorem alloc_inode_overruns_table:
  assumes "fs_ok s" and "map_region s (imap_start s) (unat (s_imap_blocks (sb s)))"
    and "N = unat (s_ninodes (sb s))" and "\<And>j. j \<le> N \<Longrightarrow> map_bit s (imap_start s) j"
    and "N + 1 < 8192 * unat (s_imap_blocks (sb s))" and "\<not> map_bit s (imap_start s) (N + 1)"
    and "unat (inode_start s) + N div 16 = fdz s"
  shows "\<exists>ino s'. alloc_inode s = (ino, s') \<and> unat ino = N + 1 \<and> fdz s \<le> unat (inode_block ino s)"
proof -
  let ?m = "unat (s_imap_blocks (sb s))"
  have low: "map_bit s (imap_start s) j" if "j < N + 1" for j
    using assms(4) that by simp
  have m: "?m < 65536"
    using assms(2) by (simp add: map_region_def)
  have u: "unat (of_nat (N + 1) :: u32) = N + 1"
    using assms(5) m by (intro unat_of_nat_32) linarith
  have "ucast (s_imap_blocks (sb s)) = (of_nat ?m :: u32)"
    by simp
  then have "alloc_inode s = (of_nat (N + 1), set_map_bit (imap_start s) (N + 1) s)"
    using bitmap_find_free_lowest [OF assms(1,2,5,6) low] unfolding alloc_inode_def by (simp del: of_nat_add)
  moreover have "fdz s \<le> unat (inode_block (of_nat (N + 1)) s)"
  proof -
    have "unat (of_nat N :: u32) = N"
      using assms(5) m by (intro unat_of_nat_32) linarith
    then have "unat (of_nat (N + 1) - 1 :: u32) = N"
      by simp
    then have d: "unat ((of_nat (N + 1) - 1 :: u32) div 16) = N div 16"
      by (simp add: unat_div)
    have "fdz s < 65536"
      using unsigned_less [of "s_firstdatazone (sb s)"] by (simp add: fdz_def)
    then have "unat (inode_start s) + unat ((of_nat (N + 1) - 1 :: u32) div 16) < 4294967296"
      unfolding d using assms(7) by linarith
    from unat_add_no_wrap [OF this] have "unat (inode_block (of_nat (N + 1)) s) = unat (inode_start s) + N div 16"
      unfolding inode_block_def d .
    then show ?thesis
      using assms(7) by simp
  qed
  ultimately show ?thesis
    using u by blast
qed

definition full_map :: bytes where
  "full_map = [0xFF, 0xFF, 0x01] @ replicate 1021 0"

definition full_fs :: fs where
  "full_fs = put_block 2 full_map tiny_fs"

lemma full_fs_facts:
  "fs_ok full_fs" "imap_start full_fs = 2" "inode_start full_fs = 4" "fdz full_fs = 5" "s_ninodes (sb full_fs) = 16"
  "s_imap_blocks (sb full_fs) = 1" "map_region full_fs 2 1" "content full_fs 2 = full_map"
proof -
  have u: "usable tiny_fs 2" and len: "length full_map = 1024"
    by (simp_all add: tiny_fs_fields addressable_def full_map_def)
  note put = put_block_disk [OF tiny_fs_fields(8) u len, folded full_fs_def]
  show "fs_ok full_fs" "content full_fs 2 = full_map"
    using put(2,4) by (simp_all add: addressable_def)
  show "imap_start full_fs = 2" "inode_start full_fs = 4"
    by (simp_all add: full_fs_def tiny_fs_fields)
  have sb: "sb full_fs = decode_superblock (content tiny_raw 1)"
    by (simp add: full_fs_def tiny_fs_eq(2))
  then show "fdz full_fs = 5" "s_ninodes (sb full_fs) = 16" "s_imap_blocks (sb full_fs) = 1"
    by (simp_all add: fdz_def tiny_superblock)
  show "map_region full_fs 2 1"
    using put(3) u by (simp add: map_region_def)
qed

lemma full_map_bits: "j \<le> 16 \<Longrightarrow> map_bit full_fs 2 j" "\<not> map_bit full_fs 2 17"
proof -
  have "(0xFF :: u8) = - 1"
    by simp
  then have ff: "bit (0xFF :: u8) k" if "k < 8" for k
    using that by (metis bit_minus_1_iff possible_bit_word len_num0 len_bit0 mult_2 numeral_Bit0 len_num1 numeral_One)
  show "map_bit full_fs 2 j" if "j \<le> 16"
  proof -
    have "j < 8 \<and> j div 8 = 0 \<or> 8 \<le> j \<and> j div 8 = 1 \<or> j = 16"
      using that by auto
    then show ?thesis
      using that ff [of "j mod 8"] by (auto simp: map_bit_def bit_at_def full_fs_facts full_map_def)
  qed
  show "\<not> map_bit full_fs 2 17"
    by (simp add: map_bit_def bit_at_def full_fs_facts full_map_def)
qed

theorem alloc_inode_overruns_table_witness:
  "\<exists>ino s'. alloc_inode full_fs = (ino, s') \<and> unat ino = 17 \<and> 5 \<le> unat (inode_block ino full_fs)"
  using alloc_inode_overruns_table [of full_fs 16] full_fs_facts full_map_bits by simp

end
