(* ===== verification/Libc.thy ===== *)
theory Libc
  imports CString Console
begin

text \<open>
  The user library: \<^verbatim>\<open>user/lib/string.c\<close> and the formatting of \<^verbatim>\<open>user/lib/stdio.c\<close>. A
  string is its bytes without the terminator; reading at its end yields the terminator. An \<^verbatim>\<open>int\<close> is a
  32-bit word, read as a signed number where the code compares or prints it.
\<close>

unbundle bit_operations_syntax

section \<open>Memory and strings\<close>

text \<open>
  These routines have the text of the kernel's (\<^verbatim>\<open>kernel/lib/string.c\<close>, theory \<open>CString\<close>), on buffers with a
  terminator; \<open>None\<close> is an access behind the end of a buffer.
\<close>

definition u_strlen :: "bytes \<Rightarrow> nat option" where
  "u_strlen s = strlen s"

definition u_strcmp :: "bytes \<Rightarrow> bytes \<Rightarrow> int option" where
  "u_strcmp a b = strcmp a b"

definition u_strncmp :: "bytes \<Rightarrow> bytes \<Rightarrow> nat \<Rightarrow> int option" where
  "u_strncmp a b n = strncmp a b n"

definition u_strcpy :: "bytes \<Rightarrow> bytes \<Rightarrow> bytes option" where
  "u_strcpy d s = strcpy d s"

definition u_strncpy :: "bytes \<Rightarrow> bytes \<Rightarrow> nat \<Rightarrow> bytes option" where
  "u_strncpy d s n = strncpy d s n"

definition u_strchr :: "bytes \<Rightarrow> u8 \<Rightarrow> nat option option" where
  "u_strchr s c = strchr s c"

definition u_memcpy :: "bytes \<Rightarrow> bytes \<Rightarrow> nat \<Rightarrow> bytes option" where
  "u_memcpy d s n = memcpy d s n"

definition u_memset :: "bytes \<Rightarrow> u8 \<Rightarrow> nat \<Rightarrow> bytes option" where
  "u_memset d c n = memset d c n"

fun strcat :: "bytes \<Rightarrow> bytes \<Rightarrow> bytes option" where
  "strcat [] s = None"
| "strcat (x # d) s = (if x \<noteq> 0 then map_option ((#) x) (strcat d s) else u_strcpy (x # d) s)"

section \<open>Characters\<close>

definition isdigit :: "u8 \<Rightarrow> bool" where
  "isdigit c \<longleftrightarrow> 0x30 \<le> c \<and> c \<le> 0x39"

definition isalpha :: "u8 \<Rightarrow> bool" where
  "isalpha c \<longleftrightarrow> (0x61 \<le> c \<and> c \<le> 0x7A) \<or> (0x41 \<le> c \<and> c \<le> 0x5A)"

definition isalnum :: "u8 \<Rightarrow> bool" where
  "isalnum c \<longleftrightarrow> isalpha c \<or> isdigit c"

definition isspace :: "u8 \<Rightarrow> bool" where
  "isspace c \<longleftrightarrow> c = 0x20 \<or> c = 9 \<or> c = 10 \<or> c = 13 \<or> c = 12 \<or> c = 11"

definition toupper :: "u8 \<Rightarrow> u8" where
  "toupper c = (if 0x61 \<le> c \<and> c \<le> 0x7A then c - 32 else c)"

definition tolower :: "u8 \<Rightarrow> u8" where
  "tolower c = (if 0x41 \<le> c \<and> c \<le> 0x5A then c + 32 else c)"

section \<open>Numbers\<close>

fun atoi_digits :: "u32 \<Rightarrow> bytes \<Rightarrow> u32" where
  "atoi_digits v [] = v"
| "atoi_digits v (c # s) = (if isdigit c then atoi_digits (v * 10 + ucast (c - 0x30)) s else v)"

fun skip_blanks :: "bytes \<Rightarrow> bytes" where
  "skip_blanks [] = []"
| "skip_blanks (c # s) = (if c = 0x20 \<or> c = 9 then skip_blanks s else c # s)"

definition atoi :: "bytes \<Rightarrow> u32" where
  "atoi s =
     (case skip_blanks s of
        [] \<Rightarrow> 0
      | c # s \<Rightarrow>
          if c = 0x2D then - atoi_digits 0 s
          else if c = 0x2B then atoi_digits 0 s
          else atoi_digits 0 (c # s))"

text \<open>
  \<^verbatim>\<open>itoa_u\<close>: the digits are collected from the least significant one and copied in reverse. The code calls
  it with the bases 10 and 16.
\<close>

definition dig :: "bool \<Rightarrow> u32 \<Rightarrow> u8" where
  "dig upper d = (if d < 10 then 0x30 + ucast d else (if upper then 0x41 else 0x61) + ucast d - 10)"

function tmp_digits :: "bool \<Rightarrow> u32 \<Rightarrow> u32 \<Rightarrow> bytes" where
  "tmp_digits upper base v =
     (if v = 0 \<or> base < 2 then [] else dig upper (v mod base) # tmp_digits upper base (v div base))"
  by pat_completeness auto
termination
proof (relation "measure (\<lambda>(upper, base, v). unat v)")
  fix upper :: bool and v base :: u32
  assume "\<not> (v = 0 \<or> base < 2)"
  then have "0 < unat v" "2 \<le> unat base"
    by (simp_all add: word_less_nat_alt not_less word_unat_eq_iff)
  then show "((upper, base, v div base), (upper, base, v)) \<in> measure (\<lambda>(upper, base, v). unat v)"
    by (simp add: unat_div)
qed simp

declare tmp_digits.simps [simp del]

definition itoa_u :: "u32 \<Rightarrow> u32 \<Rightarrow> bool \<Rightarrow> bytes" where
  "itoa_u v base upper = rev (if v = 0 then [0x30] else tmp_digits upper base v)"

definition itoa_s :: "u32 \<Rightarrow> bytes" where
  "itoa_s v = (if sint v < 0 then 0x2D # itoa_u (- v) 10 False else itoa_u v 10 False)"

section \<open>Formats\<close>

text \<open>
  \<^verbatim>\<open>vformat\<close> as the list of the byte strings it passes to \<^verbatim>\<open>write\<close>, in order. An argument that is
  missing would be read from the stack: \<open>None\<close>.
\<close>

definition fmt_str :: "fmt_arg \<Rightarrow> bytes option" where
  "fmt_str a = (case a of IntArg _ \<Rightarrow> None | StrArg None \<Rightarrow> Some [0x28, 0x6E, 0x75, 0x6C, 0x6C, 0x29] | StrArg (Some s) \<Rightarrow> Some s)"

definition fmt_int :: "fmt_arg \<Rightarrow> u32 option" where
  "fmt_int a = (case a of IntArg v \<Rightarrow> Some v | StrArg _ \<Rightarrow> None)"

fun vformat :: "bytes \<Rightarrow> fmt_arg list \<Rightarrow> bytes list option" where
  "vformat [] args = Some []"
| "vformat [c] args = (if c \<noteq> 0x25 then Some [[c]] else Some [])"
| "vformat (c # d # p) args =
     (if c \<noteq> 0x25 then map_option ((#) [c]) (vformat (d # p) args)
      else if d = 0x64 \<or> d = 0x69 \<or> d = 0x75 \<or> d = 0x78 \<or> d = 0x58 \<or> d = 0x63
      then (case args of
              [] \<Rightarrow> None
            | a # args \<Rightarrow>
                (case fmt_int a of
                   None \<Rightarrow> None
                 | Some v \<Rightarrow>
                     map_option ((#)
                       (if d = 0x64 \<or> d = 0x69 then itoa_s v
                        else if d = 0x75 then itoa_u v 10 False
                        else if d = 0x78 then itoa_u v 16 False
                        else if d = 0x58 then itoa_u v 16 True
                        else [ucast v])) (vformat p args)))
      else if d = 0x73
      then (case args of
              [] \<Rightarrow> None
            | a # args \<Rightarrow> (case fmt_str a of None \<Rightarrow> None | Some s \<Rightarrow> map_option ((#) s) (vformat p args)))
      else if d = 0x25 then map_option ((#) [0x25]) (vformat p args)
      else map_option (\<lambda>ws. [0x25] # [d] # ws) (vformat p args))"

text \<open>The functions that write: \<open>wr\<close> is the system call, with the descriptor and the bytes.\<close>

definition putchar :: "(int \<Rightarrow> bytes \<Rightarrow> 'k \<Rightarrow> 'k) \<Rightarrow> u8 \<Rightarrow> 'k \<Rightarrow> 'k" where
  "putchar wr c = wr 1 [c]"

definition puts :: "(int \<Rightarrow> bytes \<Rightarrow> 'k \<Rightarrow> 'k) \<Rightarrow> bytes \<Rightarrow> 'k \<Rightarrow> 'k" where
  "puts wr s = wr 1 s"

definition fprintf :: "(int \<Rightarrow> bytes \<Rightarrow> 'k \<Rightarrow> 'k) \<Rightarrow> int \<Rightarrow> bytes \<Rightarrow> fmt_arg list \<Rightarrow> 'k \<Rightarrow> 'k option" where
  "fprintf wr fd fmt args k = map_option (\<lambda>ws. fold (wr fd) ws k) (vformat fmt args)"

definition printf :: "(int \<Rightarrow> bytes \<Rightarrow> 'k \<Rightarrow> 'k) \<Rightarrow> bytes \<Rightarrow> fmt_arg list \<Rightarrow> 'k \<Rightarrow> 'k option" where
  "printf wr fmt args k = fprintf wr 1 fmt args k"

section \<open>Lines\<close>

text \<open>
  \<^verbatim>\<open>getline\<close> on the bytes that are still to be read: the line and the rest of the input. The first
  argument is the room left in the buffer, the second the line so far, last character first.
\<close>

fun getline_loop :: "nat \<Rightarrow> bytes \<Rightarrow> bytes \<Rightarrow> bytes \<times> bytes" where
  "getline_loop room acc [] = (rev acc, [])"
| "getline_loop room acc (c # inp) =
     (if \<not> length acc < room - 1 then (rev acc, c # inp)
      else if c = 10 then (rev acc, inp)
      else if c = 8 \<or> c = 127 then getline_loop room (tl acc) inp
      else getline_loop room (c # acc) inp)"

definition getline :: "nat \<Rightarrow> bytes \<Rightarrow> bytes \<times> bytes" where
  "getline room inp = getline_loop room [] inp"

section \<open>Facts\<close>

lemma cstr_append_0: "cstr (cstr s @ 0 # r) = cstr s"
  by (induction s) simp_all

lemma strcat_appends:
  "terminated d \<Longrightarrow> terminated s \<Longrightarrow> length (cstr d) + length (cstr s) < length d \<Longrightarrow>
    \<exists>r. strcat d s = Some r \<and> length r = length d \<and> cstr r = cstr d @ cstr s"
proof (induction d)
  case (Cons x d)
  then show ?case
    using strcpy_eq [of s "x # d"] by (auto simp: u_strcpy_def cstr_append_0)
qed simp

lemma digit_char:
  assumes "unat d < 10"
  shows "isdigit (dig u d)" and "ucast (dig u d - 0x30) = d"
proof -
  have l: "d < 10"
    using assms by (simp add: word_less_nat_alt)
  have u8: "unat (ucast d :: u8) = unat d"
    using assms by (simp add: unsigned_ucast_eq take_bit_eq_mod)
  then have "unat (dig u d) = 48 + unat d"
    using l assms by (simp add: dig_def unat_word_ariths)
  then show "isdigit (dig u d)"
    using assms by (simp add: isdigit_def word_le_nat_alt)
  have "dig u d - 0x30 = ucast d"
    using l by (simp add: dig_def)
  then show "ucast (dig u d - 0x30) = d"
    using u8 by (simp add: word_unat_eq_iff unsigned_ucast_eq take_bit_eq_mod)
qed

lemma atoi_digits_append: "\<forall>c\<in>set a. isdigit c \<Longrightarrow> atoi_digits v (a @ b) = atoi_digits (atoi_digits v a) b"
  by (induction a arbitrary: v) simp_all

lemma tmp_digits_10:
  "(\<forall>c\<in>set (tmp_digits u 10 v). isdigit c) \<and> atoi_digits 0 (rev (tmp_digits u 10 v)) = v"
proof (induction u "10 :: u32" v rule: tmp_digits.induct)
  case (1 u v)
  show ?case
  proof (cases "v = 0")
    case False
    have m: "unat (v mod 10) < 10"
      by (simp add: unat_mod)
    have "\<forall>c\<in>set (tmp_digits u 10 (v div 10)). isdigit c" "atoi_digits 0 (rev (tmp_digits u 10 (v div 10))) = v div 10"
      using 1 False by (simp_all add: word_less_nat_alt)
    moreover have "v div 10 * 10 + v mod 10 = v"
      by (rule div_mult_mod_eq)
    ultimately show ?thesis
      using False digit_char [OF m, of u]
      by (simp add: tmp_digits.simps [of u 10 v] word_less_nat_alt atoi_digits_append)
  qed (simp add: tmp_digits.simps)
qed

lemma itoa_u_10:
  "itoa_u v 10 u \<noteq> []" "\<forall>c\<in>set (itoa_u v 10 u). isdigit c" "atoi_digits 0 (itoa_u v 10 u) = v"
proof -
  show "itoa_u v 10 u \<noteq> []"
    by (simp add: itoa_u_def tmp_digits.simps [of u 10 v] word_less_nat_alt)
  show "\<forall>c\<in>set (itoa_u v 10 u). isdigit c" "atoi_digits 0 (itoa_u v 10 u) = v"
    using tmp_digits_10 [of u v] by (simp_all add: itoa_u_def isdigit_def)
qed

lemma digit_not_blank: "isdigit c \<Longrightarrow> c \<noteq> 0x20 \<and> c \<noteq> 9 \<and> c \<noteq> 0x2D \<and> c \<noteq> 0x2B"
  by (auto simp: isdigit_def)

text \<open>
  \<^verbatim>\<open>atoi\<close> reads back what \<^verbatim>\<open>printf\<close> writes for \<^verbatim>\<open>%d\<close>, for every 32-bit integer, with
  blanks before it and anything but a digit after it.
\<close>

theorem atoi_itoa_s:
  assumes "set blanks \<subseteq> {0x20, 9}" and "rest = [] \<or> \<not> isdigit (hd rest)"
  shows "atoi (blanks @ itoa_s v @ rest) = v"
proof -
  have b: "skip_blanks (blanks @ s) = skip_blanks s" for s
    using assms(1) by (induction blanks) auto
  have r: "atoi_digits w rest = w" for w
    using assms(2) by (cases rest) auto
  have all: "atoi_digits 0 (itoa_u w 10 False @ rest) = w" for w
    using itoa_u_10 [of w False] atoi_digits_append [of "itoa_u w 10 False" 0 rest] r by simp
  obtain c s where cs: "itoa_u v 10 False = c # s"
    using itoa_u_10(1) by (cases "itoa_u v 10 False") auto
  have "isdigit c"
    using itoa_u_10(2) [of v False] cs by simp
  then show ?thesis
    using all [of v] all [of "- v"] cs digit_not_blank [of c] by (simp add: atoi_def b itoa_s_def)
qed

theorem atoi_itoa_s_witness: "atoi ([0x20] @ itoa_s 0x80000000 @ [10]) = 0x80000000"
  by (rule atoi_itoa_s) (simp_all add: isdigit_def)

end
