(* ===== verification/Unistd.thy ===== *)
theory Unistd
  imports SysObjects Libc
begin

text \<open>
  System calls from user mode: the stubs of \<^verbatim>\<open>user/lib/syscall.s\<close> and the wrappers of
  \<^verbatim>\<open>user/lib/unistd.c\<close>. A stub puts the number and the arguments into \<^verbatim>\<open>eax\<close>, \<^verbatim>\<open>ebx\<close>,
  \<^verbatim>\<open>ecx\<close> and \<^verbatim>\<open>edx\<close>, traps, and finds the result in \<^verbatim>\<open>eax\<close>; the other registers of the process
  are those of the frame \<open>tf\<close>. A call ends with the word it returns, or, after a successful
  \<^verbatim>\<open>execve\<close>, with the entry point and stack pointer of the new program. Pointers are addresses of the
  process.
\<close>

type_synonym user_call = "sys \<Rightarrow> ((u32 + u32 \<times> u32) \<times> sys) option"

section \<open>Stubs\<close>

definition int_0x90 :: "(nat \<Rightarrow> sys \<Rightarrow> sys) \<Rightarrow> trapframe \<Rightarrow> user_call" where
  "int_0x90 others tf s = map_option (map_prod (map_sum tf_eax id) id) (isr_dispatch others 0 (tf\<lparr>tf_int_no := 144\<rparr>) s)"

definition syscall0 :: "(nat \<Rightarrow> sys \<Rightarrow> sys) \<Rightarrow> trapframe \<Rightarrow> u32 \<Rightarrow> user_call" where
  "syscall0 others tf n = int_0x90 others (tf\<lparr>tf_eax := n\<rparr>)"

definition syscall1 :: "(nat \<Rightarrow> sys \<Rightarrow> sys) \<Rightarrow> trapframe \<Rightarrow> u32 \<Rightarrow> u32 \<Rightarrow> user_call" where
  "syscall1 others tf n a = int_0x90 others (tf\<lparr>tf_eax := n, tf_ebx := a\<rparr>)"

definition syscall2 :: "(nat \<Rightarrow> sys \<Rightarrow> sys) \<Rightarrow> trapframe \<Rightarrow> u32 \<Rightarrow> u32 \<Rightarrow> u32 \<Rightarrow> user_call" where
  "syscall2 others tf n a b = int_0x90 others (tf\<lparr>tf_eax := n, tf_ebx := a, tf_ecx := b\<rparr>)"

definition syscall3 :: "(nat \<Rightarrow> sys \<Rightarrow> sys) \<Rightarrow> trapframe \<Rightarrow> u32 \<Rightarrow> u32 \<Rightarrow> u32 \<Rightarrow> u32 \<Rightarrow> user_call" where
  "syscall3 others tf n a b c = int_0x90 others (tf\<lparr>tf_eax := n, tf_ebx := a, tf_ecx := b, tf_edx := c\<rparr>)"

section \<open>Wrappers\<close>

definition u_exit :: "(nat \<Rightarrow> sys \<Rightarrow> sys) \<Rightarrow> trapframe \<Rightarrow> int \<Rightarrow> user_call" where
  "u_exit others tf code = syscall1 others tf 1 (word_of_int code)"

definition u_fork :: "(nat \<Rightarrow> sys \<Rightarrow> sys) \<Rightarrow> trapframe \<Rightarrow> user_call" where
  "u_fork others tf = syscall0 others tf 2"

definition u_execve :: "(nat \<Rightarrow> sys \<Rightarrow> sys) \<Rightarrow> trapframe \<Rightarrow> u32 \<Rightarrow> u32 \<Rightarrow> u32 \<Rightarrow> user_call" where
  "u_execve others tf path av envp = syscall3 others tf 59 path av envp"

definition u_waitpid :: "(nat \<Rightarrow> sys \<Rightarrow> sys) \<Rightarrow> trapframe \<Rightarrow> int \<Rightarrow> u32 \<Rightarrow> int \<Rightarrow> user_call" where
  "u_waitpid others tf p status options = syscall3 others tf 7 (word_of_int p) status (word_of_int options)"

definition u_wait :: "(nat \<Rightarrow> sys \<Rightarrow> sys) \<Rightarrow> trapframe \<Rightarrow> u32 \<Rightarrow> user_call" where
  "u_wait others tf status = syscall3 others tf 7 (- 1) status 0"

definition u_read :: "(nat \<Rightarrow> sys \<Rightarrow> sys) \<Rightarrow> trapframe \<Rightarrow> int \<Rightarrow> u32 \<Rightarrow> u32 \<Rightarrow> user_call" where
  "u_read others tf fd buf count = syscall3 others tf 3 (word_of_int fd) buf count"

definition u_write :: "(nat \<Rightarrow> sys \<Rightarrow> sys) \<Rightarrow> trapframe \<Rightarrow> int \<Rightarrow> u32 \<Rightarrow> u32 \<Rightarrow> user_call" where
  "u_write others tf fd buf count = syscall3 others tf 4 (word_of_int fd) buf count"

definition u_open :: "(nat \<Rightarrow> sys \<Rightarrow> sys) \<Rightarrow> trapframe \<Rightarrow> u32 \<Rightarrow> int \<Rightarrow> u16 \<Rightarrow> user_call" where
  "u_open others tf path flags mode = syscall3 others tf 5 path (word_of_int flags) (ucast mode)"

definition u_close :: "(nat \<Rightarrow> sys \<Rightarrow> sys) \<Rightarrow> trapframe \<Rightarrow> int \<Rightarrow> user_call" where
  "u_close others tf fd = syscall1 others tf 6 (word_of_int fd)"

definition u_creat :: "(nat \<Rightarrow> sys \<Rightarrow> sys) \<Rightarrow> trapframe \<Rightarrow> u32 \<Rightarrow> u16 \<Rightarrow> user_call" where
  "u_creat others tf path mode = syscall2 others tf 8 path (ucast mode)"

definition u_unlink :: "(nat \<Rightarrow> sys \<Rightarrow> sys) \<Rightarrow> trapframe \<Rightarrow> u32 \<Rightarrow> user_call" where
  "u_unlink others tf path = syscall1 others tf 10 path"

definition u_chdir :: "(nat \<Rightarrow> sys \<Rightarrow> sys) \<Rightarrow> trapframe \<Rightarrow> u32 \<Rightarrow> user_call" where
  "u_chdir others tf path = syscall1 others tf 12 path"

definition u_chmod :: "(nat \<Rightarrow> sys \<Rightarrow> sys) \<Rightarrow> trapframe \<Rightarrow> u32 \<Rightarrow> u16 \<Rightarrow> user_call" where
  "u_chmod others tf path mode = syscall2 others tf 15 path (ucast mode)"

definition u_lseek :: "(nat \<Rightarrow> sys \<Rightarrow> sys) \<Rightarrow> trapframe \<Rightarrow> int \<Rightarrow> int \<Rightarrow> int \<Rightarrow> user_call" where
  "u_lseek others tf fd off whence = syscall3 others tf 19 (word_of_int fd) (word_of_int off) (word_of_int whence)"

definition u_getpid :: "(nat \<Rightarrow> sys \<Rightarrow> sys) \<Rightarrow> trapframe \<Rightarrow> user_call" where
  "u_getpid others tf = syscall0 others tf 20"

definition u_getppid :: "(nat \<Rightarrow> sys \<Rightarrow> sys) \<Rightarrow> trapframe \<Rightarrow> user_call" where
  "u_getppid others tf = syscall0 others tf 39"

definition u_getuid :: "(nat \<Rightarrow> sys \<Rightarrow> sys) \<Rightarrow> trapframe \<Rightarrow> user_call" where
  "u_getuid others tf = syscall0 others tf 24"

definition u_getgid :: "(nat \<Rightarrow> sys \<Rightarrow> sys) \<Rightarrow> trapframe \<Rightarrow> user_call" where
  "u_getgid others tf = syscall0 others tf 47"

definition u_setuid :: "(nat \<Rightarrow> sys \<Rightarrow> sys) \<Rightarrow> trapframe \<Rightarrow> u16 \<Rightarrow> user_call" where
  "u_setuid others tf new_id = syscall1 others tf 23 (ucast new_id)"

definition u_setgid :: "(nat \<Rightarrow> sys \<Rightarrow> sys) \<Rightarrow> trapframe \<Rightarrow> u16 \<Rightarrow> user_call" where
  "u_setgid others tf new_id = syscall1 others tf 181 (ucast new_id)"

definition u_kill :: "(nat \<Rightarrow> sys \<Rightarrow> sys) \<Rightarrow> trapframe \<Rightarrow> int \<Rightarrow> int \<Rightarrow> user_call" where
  "u_kill others tf p sig = syscall2 others tf 37 (word_of_int p) (word_of_int sig)"

definition u_ioctl :: "(nat \<Rightarrow> sys \<Rightarrow> sys) \<Rightarrow> trapframe \<Rightarrow> int \<Rightarrow> int \<Rightarrow> u32 \<Rightarrow> user_call" where
  "u_ioctl others tf fd request arg = syscall3 others tf 54 (word_of_int fd) (word_of_int request) arg"

definition u_dup :: "(nat \<Rightarrow> sys \<Rightarrow> sys) \<Rightarrow> trapframe \<Rightarrow> int \<Rightarrow> user_call" where
  "u_dup others tf fd = syscall1 others tf 41 (word_of_int fd)"

definition u_dup2 :: "(nat \<Rightarrow> sys \<Rightarrow> sys) \<Rightarrow> trapframe \<Rightarrow> int \<Rightarrow> int \<Rightarrow> user_call" where
  "u_dup2 others tf oldfd newfd = syscall2 others tf 90 (word_of_int oldfd) (word_of_int newfd)"

definition u_pipe :: "(nat \<Rightarrow> sys \<Rightarrow> sys) \<Rightarrow> trapframe \<Rightarrow> u32 \<Rightarrow> user_call" where
  "u_pipe others tf fds = syscall1 others tf 42 fds"

definition u_mkdir :: "(nat \<Rightarrow> sys \<Rightarrow> sys) \<Rightarrow> trapframe \<Rightarrow> u32 \<Rightarrow> u16 \<Rightarrow> user_call" where
  "u_mkdir others tf path mode = syscall2 others tf 136 path (ucast mode)"

definition u_rmdir :: "(nat \<Rightarrow> sys \<Rightarrow> sys) \<Rightarrow> trapframe \<Rightarrow> u32 \<Rightarrow> user_call" where
  "u_rmdir others tf path = syscall1 others tf 137 path"

definition u_stat :: "(nat \<Rightarrow> sys \<Rightarrow> sys) \<Rightarrow> trapframe \<Rightarrow> u32 \<Rightarrow> u32 \<Rightarrow> user_call" where
  "u_stat others tf path st = syscall2 others tf 63 path st"

definition u_fstat :: "(nat \<Rightarrow> sys \<Rightarrow> sys) \<Rightarrow> trapframe \<Rightarrow> int \<Rightarrow> u32 \<Rightarrow> user_call" where
  "u_fstat others tf fd st = syscall2 others tf 62 (word_of_int fd) st"

definition u_getdents :: "(nat \<Rightarrow> sys \<Rightarrow> sys) \<Rightarrow> trapframe \<Rightarrow> int \<Rightarrow> u32 \<Rightarrow> u32 \<Rightarrow> user_call" where
  "u_getdents others tf fd out index = syscall3 others tf 64 (word_of_int fd) out index"

definition u_yield :: "(nat \<Rightarrow> sys \<Rightarrow> sys) \<Rightarrow> trapframe \<Rightarrow> user_call" where
  "u_yield others tf = syscall0 others tf 65"

definition u_sync :: "(nat \<Rightarrow> sys \<Rightarrow> sys) \<Rightarrow> trapframe \<Rightarrow> user_call" where
  "u_sync others tf = syscall0 others tf 66"

text \<open>\<^verbatim>\<open>getcwd\<close> returns the buffer, or the null pointer where the call fails.\<close>

definition u_getcwd :: "(nat \<Rightarrow> sys \<Rightarrow> sys) \<Rightarrow> trapframe \<Rightarrow> u32 \<Rightarrow> u32 \<Rightarrow> user_call" where
  "u_getcwd others tf buf sz s =
     map_option (map_prod (map_sum (\<lambda>r. if sint r < 0 then 0 else buf) id) id) (syscall2 others tf 326 buf sz s)"

text \<open>The call behind \<^verbatim>\<open>sbrk\<close>: 0 reads the break.\<close>

definition u_brk :: "trapframe \<Rightarrow> u32 \<Rightarrow> sys \<Rightarrow> u32 \<times> sys" where
  "u_brk tf a s = (case syscall1 (\<lambda>_ s. s) tf 17 a s of Some (Inl r, s) \<Rightarrow> (r, s) | _ \<Rightarrow> (- 1, s))"

definition sbrk :: "(u32 \<Rightarrow> 'k \<Rightarrow> u32 \<times> 'k) \<Rightarrow> u32 \<Rightarrow> 'k \<Rightarrow> u32 \<times> 'k" where
  "sbrk brk_call incr k =
     (let (cur, k) = brk_call 0 k in
      if incr = 0 then (cur, k)
      else let (nw, k) = brk_call (cur + incr) k in
        (if nw \<noteq> cur + incr then - 1 else cur, k))"

section \<open>The interface of the kernel\<close>

text \<open>What a process sees of the end of a handler.\<close>

definition user_result :: "(outcome \<times> sys) option \<Rightarrow> ((u32 + u32 \<times> u32) \<times> sys) option" where
  "user_result r = map_option (\<lambda>(x, s). (case x of Return i \<Rightarrow> Inl (word_of_int i) | Enter_user start sp \<Rightarrow> Inr (start, sp), s)) r"

lemma int_0x90_result:
  assumes "dispatch others (tf\<lparr>tf_int_no := 144\<rparr>) s = r"
  shows "int_0x90 others tf s = user_result r"
  using assms by (auto simp: int_0x90_def isr_dispatch_def user_result_def split: option.split outcome.split)

lemmas wrapper_defs = syscall0_def syscall1_def syscall2_def syscall3_def
  u_exit_def u_fork_def u_execve_def u_waitpid_def u_wait_def u_read_def u_write_def u_open_def
  u_close_def u_creat_def u_unlink_def u_chdir_def u_chmod_def u_lseek_def u_getpid_def u_getppid_def
  u_getuid_def u_getgid_def u_setuid_def u_setgid_def u_kill_def u_ioctl_def u_dup_def u_dup2_def
  u_pipe_def u_mkdir_def u_rmdir_def u_stat_def u_fstat_def u_getdents_def u_yield_def u_sync_def


lemma sys_brk_call: "syscall1 others tf 17 a s = user_result (sys_brk (tf\<lparr>tf_eax := 17, tf_ebx := a, tf_int_no := 144\<rparr>) s)"
  by (simp add: syscall1_def int_0x90_result dispatch_def)

lemma u_brk_spec:
  "u_brk tf 0 s = (brk (curtask s), s)"
  "a \<noteq> 0 \<Longrightarrow> fst (u_brk tf a s) = a \<and> brk (curtask (snd (u_brk tf a s))) = a"
  by (simp_all add: u_brk_def sys_brk_call user_result_def sys_brk_def Let_def curtask_def modify_cur_def
      modify_task_def put_mm_def modify_mm_def)

end
