(* ===== verification/UMalloc.thy ===== *)
theory UMalloc
  imports Unistd
begin

text \<open>
  The allocator of user programs, \<^verbatim>\<open>user/lib/malloc.c\<close>. The headers of blocks are kept as one function per field; \<^verbatim>\<open>sbrk\<close> is a
  pair of system calls. What the allocator needs of the system call is the locale \<open>program_break\<close>; it is
  interpreted on the kernel's \<^verbatim>\<open>sys_brk\<close>.
\<close>

unbundle bit_operations_syntax

section \<open>Operations\<close>

record uheap =
  usize :: "u32 \<Rightarrow> u32"
  unext :: "u32 \<Rightarrow> u32"
  ufree :: "u32 \<Rightarrow> bool"
  uhead :: u32

text \<open>\<^verbatim>\<open>sizeof(struct block)\<close>\<close>

definition UBLOCK :: u32 where
  "UBLOCK = 12"

definition ualign :: "u32 \<Rightarrow> u32" where
  "ualign x = (x + 7) AND NOT 7"

text \<open>The search loop: a block that fits, or the last block (0 when there is none).\<close>

partial_function (option) ufind :: "uheap \<Rightarrow> u32 \<Rightarrow> u32 \<Rightarrow> u32 \<Rightarrow> (u32 + u32) option" where
  "ufind h sz lst b =
     (if b = 0 then Some (Inr lst)
      else if ufree h b \<and> usize h b \<ge> sz then Some (Inl b)
      else ufind h sz b (unext h b))"

declare ufind.simps [code]

definition umalloc :: "(u32 \<Rightarrow> 'k \<Rightarrow> u32 \<times> 'k) \<Rightarrow> u32 \<Rightarrow> uheap \<Rightarrow> 'k \<Rightarrow> (u32 \<times> uheap \<times> 'k) option" where
  "umalloc brk_call req h k =
     (let sz = ualign req in
      case ufind h sz 0 (uhead h) of
        None \<Rightarrow> None
      | Some (Inl b) \<Rightarrow> Some (b + UBLOCK, h\<lparr>ufree := (ufree h)(b := False)\<rparr>, k)
      | Some (Inr lst) \<Rightarrow>
          let (nb, k) = sbrk brk_call (sz + UBLOCK) k in
          if nb = - 1 then Some (0, h, k)
          else let h = h\<lparr>usize := (usize h)(nb := sz), unext := (unext h)(nb := 0), ufree := (ufree h)(nb := False)\<rparr>;
                   h = (if lst \<noteq> 0 then h\<lparr>unext := (unext h)(lst := nb)\<rparr> else h\<lparr>uhead := nb\<rparr>)
               in Some (nb + UBLOCK, h, k))"

definition ufree_block :: "u32 \<Rightarrow> uheap \<Rightarrow> uheap" where
  "ufree_block p h = (if p = 0 then h else h\<lparr>ufree := (ufree h)(p - UBLOCK := True)\<rparr>)"

section \<open>The list of blocks\<close>

fun uchain :: "uheap \<Rightarrow> u32 \<Rightarrow> u32 list \<Rightarrow> bool" where
  "uchain h b [] \<longleftrightarrow> b = 0"
| "uchain h b (x # xs) \<longleftrightarrow> b = x \<and> x \<noteq> 0 \<and> uchain h (unext h x) xs"

definition uend :: "uheap \<Rightarrow> u32 \<Rightarrow> nat" where
  "uend h b = unat b + 12 + unat (usize h b)"

text \<open>The blocks lie one after the other below the break \<open>e\<close>.\<close>

fun ulaid :: "uheap \<Rightarrow> nat \<Rightarrow> u32 list \<Rightarrow> nat \<Rightarrow> bool" where
  "ulaid h a [] e \<longleftrightarrow> a \<le> e"
| "ulaid h a (x # xs) e \<longleftrightarrow> a \<le> unat x \<and> ulaid h (uend h x) xs e"

definition uheap_inv :: "uheap \<Rightarrow> u32 list \<Rightarrow> u32 \<Rightarrow> bool" where
  "uheap_inv h bs e \<longleftrightarrow> uchain h (uhead h) bs \<and> ulaid h 1 bs (unat e)"

lemma ulaid_bounds: "ulaid h a bs e \<Longrightarrow> a \<le> e \<and> (\<forall>b\<in>set bs. a \<le> unat b \<and> uend h b \<le> e)"
  by (induction bs arbitrary: a) (fastforce simp: uend_def)+

lemma ulaid_apart:
  "ulaid h a bs e \<Longrightarrow> b \<in> set bs \<Longrightarrow> c \<in> set bs \<Longrightarrow> b \<noteq> c \<Longrightarrow> uend h b \<le> unat c \<or> uend h c \<le> unat b"
  by (induction bs arbitrary: a) (auto dest: ulaid_bounds)

lemma ulaid_cong: "\<forall>b\<in>set bs. usize h' b = usize h b \<Longrightarrow> ulaid h' a bs e = ulaid h a bs e"
  by (induction bs arbitrary: a) (simp_all add: uend_def)

lemma ulaid_snoc: "ulaid h a (bs @ [b]) e \<longleftrightarrow> ulaid h a bs (unat b) \<and> uend h b \<le> e"
  by (induction bs arbitrary: a) auto

lemma ulaid_mono: "ulaid h a bs e \<Longrightarrow> e \<le> e' \<Longrightarrow> ulaid h a bs e'"
  by (induction bs arbitrary: a) auto

lemma uchain_cong: "\<forall>b\<in>set bs. unext h' b = unext h b \<Longrightarrow> uchain h' a bs = uchain h a bs"
  by (induction bs arbitrary: a) simp_all

lemma uchain_snoc:
  "uchain h a bs \<Longrightarrow> nb \<noteq> 0 \<Longrightarrow> nb \<notin> set bs \<Longrightarrow> distinct bs \<Longrightarrow> bs \<noteq> [] \<Longrightarrow> unext h nb = 0 \<Longrightarrow>
    uchain (h\<lparr>unext := (unext h)(last bs := nb)\<rparr>) a (bs @ [nb])"
proof (induction bs arbitrary: a)
  case (Cons x xs)
  then show ?case
    by (cases xs) auto
qed simp

lemma ulaid_distinct: "ulaid h a bs e \<Longrightarrow> distinct bs"
proof (induction bs arbitrary: a)
  case (Cons x xs)
  then have l: "ulaid h (uend h x) xs e"
    by simp
  then have "x \<notin> set xs"
    using ulaid_bounds [OF l] by (auto simp: uend_def)
  with Cons.IH [OF l] show ?case
    by simp
qed simp

lemma ufind_spec:
  assumes "uchain h b bs"
  shows "ufind h sz lst b = Some (case find (\<lambda>x. ufree h x \<and> usize h x \<ge> sz) bs of
      Some x \<Rightarrow> Inl x | None \<Rightarrow> Inr (if bs = [] then lst else last bs))"
  using assms
proof (induction bs arbitrary: b lst)
  case Nil
  then show ?case
    by (subst ufind.simps) simp
next
  case (Cons x xs)
  then show ?case
    by (subst ufind.simps) (auto split: option.splits)
qed

lemma ualign_bounds:
  assumes "unat req + 7 < 4294967296"
  shows "unat req \<le> unat (ualign req)" and "unat (ualign req) \<le> unat req + 7"
proof -
  have "unat (req + 7) = unat req + 7"
    using unat_add_no_wrap [of req 7] assms by simp
  then have "unat (ualign req) = (unat req + 7) div 8 * 8"
    unfolding ualign_def using unat_and_neg_8 [of "req + 7"] by simp
  then show "unat req \<le> unat (ualign req)" "unat (ualign req) \<le> unat req + 7"
    by linarith+
qed

section \<open>The break\<close>

text \<open>What the allocator relies on of the system call: 0 reads the break and any other address sets it.\<close>

locale program_break =
  fixes brk_call :: "u32 \<Rightarrow> 'k \<Rightarrow> u32 \<times> 'k" and cur :: "'k \<Rightarrow> u32"
  assumes brk_read: "brk_call 0 k = (cur k, k)"
    and brk_set: "a \<noteq> 0 \<Longrightarrow> fst (brk_call a k) = a \<and> cur (snd (brk_call a k)) = a"
begin

lemma sbrk_grows:
  assumes "unat (cur k) + unat incr < 4294967296" and "cur k \<noteq> 0" and "incr \<noteq> 0"
  shows "fst (sbrk brk_call incr k) = cur k" and "cur (snd (sbrk brk_call incr k)) = cur k + incr"
proof -
  have "unat (cur k + incr) = unat (cur k) + unat incr"
    using assms(1) by (rule unat_add_no_wrap)
  then have "cur k + incr \<noteq> 0"
    using assms(2) by (auto simp: word_unat_eq_iff)
  then show "fst (sbrk brk_call incr k) = cur k" "cur (snd (sbrk brk_call incr k)) = cur k + incr"
    using brk_read [of k] brk_set [of "cur k + incr" k] assms(3)
    by (auto simp: sbrk_def Let_def split: prod.splits)
qed

lemma umalloc_spec:
  assumes inv: "uheap_inv h bs (cur k)" and nz: "cur k \<noteq> 0" and room: "unat (cur k) + unat req + 19 < 4294967296"
  obtains b h' k' where "umalloc brk_call req h k = Some (b + UBLOCK, h', k')"
    and "uheap_inv h' (if b \<in> set bs then bs else bs @ [b]) (cur k')" and "b \<in> set bs \<Longrightarrow> ufree h b"
    and "\<not> ufree h' b" and "unat req \<le> unat (usize h' b)"
    and "\<forall>c\<in>set bs. usize h' c = usize h c \<and> (c \<noteq> b \<longrightarrow> ufree h' c = ufree h c)" and "cur k' \<noteq> 0"
proof -
  let ?sz = "ualign req"
  have chain: "uchain h (uhead h) bs" and laid: "ulaid h 1 bs (unat (cur k))"
    using inv by (simp_all add: uheap_inv_def)
  have sz: "unat req \<le> unat ?sz" "unat ?sz \<le> unat req + 7"
    using ualign_bounds [of req] room by simp_all
  show ?thesis
  proof (cases "find (\<lambda>x. ufree h x \<and> usize h x \<ge> ?sz) bs")
    case (Some b)
    then have b: "b \<in> set bs" "ufree h b" "?sz \<le> usize h b"
      by (auto simp: find_Some_iff in_set_conv_nth)
    let ?h = "h\<lparr>ufree := (ufree h)(b := False)\<rparr>"
    have "uheap_inv ?h bs (cur k)"
      using chain laid uchain_cong [of bs ?h h] ulaid_cong [of bs ?h h] by (simp add: uheap_inv_def)
    moreover have "unat req \<le> unat (usize ?h b)"
      using b(3) sz(1) by (simp add: word_le_nat_alt)
    ultimately show ?thesis
      using that [of b ?h k] b nz ufind_spec [OF chain, of ?sz 0] Some by (simp add: umalloc_def)
  next
    case None
    let ?nb = "cur k" let ?incr = "?sz + UBLOCK"
    have ui: "unat ?incr = unat ?sz + 12"
      using sz(2) room unat_add_no_wrap [of ?sz UBLOCK] by (simp add: UBLOCK_def)
    have "unat ?nb + unat ?incr < 4294967296" "?incr \<noteq> 0"
      using ui sz(2) room by (auto simp: word_unat_eq_iff)
    note lt = this(1) and S = sbrk_grows [OF this(1) nz this(2)] and nw = unat_add_no_wrap [OF this(1)]
    obtain k' where sb: "sbrk brk_call ?incr k = (?nb, k')" and ck: "cur k' = ?nb + ?incr"
      using S by (metis prod.collapse)
    have nb: "?nb \<notin> set bs" "?nb \<noteq> - 1"
      using ulaid_bounds [OF laid] lt ui by (auto simp: uend_def unsigned_minus_1_eq_mask mask_eq_exp_minus_1)
    let ?h1 = "h\<lparr>usize := (usize h)(?nb := ?sz), unext := (unext h)(?nb := 0), ufree := (ufree h)(?nb := False)\<rparr>"
    let ?h2 = "if bs \<noteq> [] then ?h1\<lparr>unext := (unext ?h1)(last bs := ?nb)\<rparr> else ?h1\<lparr>uhead := ?nb\<rparr>"
    have c1: "uchain ?h1 (uhead h) bs"
      using chain nb(1) uchain_cong [of bs ?h1 h] by auto
    have c2: "uchain ?h2 (uhead ?h2) (bs @ [?nb])"
      using uchain_snoc [OF c1 nz nb(1) ulaid_distinct [OF laid]] nz by auto
    have "ulaid ?h2 1 bs (unat ?nb)"
      using laid nb(1) ulaid_cong [of bs ?h2 h] by auto
    then have l2: "ulaid ?h2 1 (bs @ [?nb]) (unat (cur k'))"
      unfolding ulaid_snoc uend_def ck nw ui by auto
    have lst: "(if bs = [] then 0 else last bs) \<noteq> 0 \<longleftrightarrow> bs \<noteq> []"
      using ulaid_bounds [OF laid] last_in_set [of bs] by (fastforce simp: word_unat_eq_iff Suc_le_eq)
    have "umalloc brk_call req h k = Some (?nb + UBLOCK, ?h2, k')"
      using ufind_spec [OF chain, of ?sz 0] None sb nb(2) lst by (simp add: umalloc_def Let_def)
    moreover have "uheap_inv ?h2 (bs @ [?nb]) (cur k')"
      using c2 l2 by (simp add: uheap_inv_def)
    moreover have "cur k' \<noteq> 0"
      using nw ck nz by (auto simp: word_unat_eq_iff)
    ultimately show ?thesis
      using that [of ?nb ?h2 k'] nb(1) sz(1) by auto
  qed
qed

end

section \<open>The break of the kernel\<close>

interpretation kernel_break: program_break "u_brk tf" "\<lambda>s. brk (curtask s)" for tf
  by unfold_locales (use u_brk_spec in auto)

section \<open>Allocation on the kernel\<close>

lemma ufree_block_inv: "uheap_inv h bs e \<Longrightarrow> uheap_inv (ufree_block p h) bs e"
  using uchain_cong [of bs "ufree_block p h" h] ulaid_cong [of bs "ufree_block p h" h]
  by (simp add: uheap_inv_def ufree_block_def)


text \<open>A process with one block of 16 bytes in use asks for 5 bytes.\<close>

definition one_block :: uheap where
  "one_block = \<lparr>usize = (\<lambda>_. 16), unext = (\<lambda>_. 0), ufree = (\<lambda>_. False), uhead = 0x40002000\<rparr>"


end
