(* ===== verification/Shell.thy ===== *)
theory Shell
  imports UMalloc
begin

text \<open>
  The shell, \<^verbatim>\<open>user/bin/sh.c\<close>: the tokenizer, the parser of pipelines and the lookup of commands. A line
  is its bytes without the terminator. \<^verbatim>\<open>tokenize\<close> cuts the line in place: a token is a word of the line, the
  constant \<^verbatim>\<open>">>"\<close>, or a slot of the table \<^verbatim>\<open>ops\<close> of one-character strings, which is static and used
  round robin; the text of such a token is what the slot holds when the parser reads it.
\<close>

section \<open>Tokens\<close>

definition MAXARGS :: nat where
  "MAXARGS = 32"

definition MAXLINE :: nat where
  "MAXLINE = 512"

definition MAXCMDS :: nat where
  "MAXCMDS = 8"

record cmd =
  argv :: "bytes list"
  infile :: "bytes option"
  outfile :: "bytes option"
  append_mode :: bool

definition zero_cmd :: cmd where
  "zero_cmd = \<lparr>argv = [], infile = None, outfile = None, append_mode = False\<rparr>"

definition is_space :: "u8 \<Rightarrow> bool" where
  "is_space c \<longleftrightarrow> c = 0x20 \<or> c = 9"

definition is_op :: "u8 \<Rightarrow> bool" where
  "is_op c \<longleftrightarrow> c = 0x7C \<or> c = 0x3C \<or> c = 0x3E"

datatype token = Word_token bytes | Append_token | Op_token nat

record op_table =
  ops :: bytes
  opidx :: nat

definition new_op :: "u8 \<Rightarrow> op_table \<Rightarrow> token \<times> op_table" where
  "new_op c t = (let k = opidx t mod (MAXCMDS * 4) in (Op_token k, \<lparr>ops = (ops t)[k := c], opidx = opidx t + 1\<rparr>))"

definition in_word :: "u8 \<Rightarrow> bool" where
  "in_word c \<longleftrightarrow> \<not> is_space c \<and> \<not> is_op c"

text \<open>The scan from \<open>p\<close> on with room for \<open>k\<close> more tokens.\<close>

function tokenize_loop :: "nat \<Rightarrow> bytes \<Rightarrow> op_table \<Rightarrow> token list \<times> op_table" where
  "tokenize_loop k p t =
     (if p = [] \<or> k = 0 then ([], t)
      else case dropWhile is_space p of
        [] \<Rightarrow> ([], t)
      | c # q \<Rightarrow>
          if is_op c then
            (if c = 0x3E \<and> q \<noteq> [] \<and> hd q = 0x3E
             then map_prod (Cons Append_token) id (tokenize_loop (k - 1) (tl q) t)
             else let (u, t) = new_op c t in map_prod (Cons u) id (tokenize_loop (k - 1) q t))
          else map_prod (Cons (Word_token (takeWhile in_word (c # q)))) id
                 (tokenize_loop (k - 1) (tl (dropWhile in_word (c # q))) t))"
  by pat_completeness auto
termination
  by (relation "measure fst") auto

definition tokenize :: "bytes \<Rightarrow> nat \<Rightarrow> op_table \<Rightarrow> token list \<times> op_table" where
  "tokenize line mx t = tokenize_loop (mx - 1) line t"

definition token_text :: "op_table \<Rightarrow> token \<Rightarrow> bytes" where
  "token_text t u = (case u of Word_token w \<Rightarrow> w | Append_token \<Rightarrow> [0x3E, 0x3E] | Op_token k \<Rightarrow> [ops t ! k])"

section \<open>Pipelines\<close>

text \<open>\<open>before\<close> are the finished commands and \<open>c\<close> is the command being read.\<close>

fun parse_loop :: "nat \<Rightarrow> cmd list \<Rightarrow> cmd \<Rightarrow> bytes list \<Rightarrow> cmd list option" where
  "parse_loop maxcmds before c [] = Some (before @ [c])"
| "parse_loop maxcmds before c (t # ts) =
     (if t = [0x7C] then
        (if length before + 1 \<ge> maxcmds then None else parse_loop maxcmds (before @ [c]) zero_cmd ts)
      else if t = [0x3C] then
        (case ts of [] \<Rightarrow> None | f # ts \<Rightarrow> parse_loop maxcmds before (c\<lparr>infile := Some f\<rparr>) ts)
      else if t = [0x3E] then
        (case ts of [] \<Rightarrow> None | f # ts \<Rightarrow> parse_loop maxcmds before (c\<lparr>outfile := Some f, append_mode := False\<rparr>) ts)
      else if t = [0x3E, 0x3E] then
        (case ts of [] \<Rightarrow> None | f # ts \<Rightarrow> parse_loop maxcmds before (c\<lparr>outfile := Some f, append_mode := True\<rparr>) ts)
      else parse_loop maxcmds before (if length (argv c) < MAXARGS - 1 then c\<lparr>argv := argv c @ [t]\<rparr> else c) ts)"

definition parse_pipeline :: "bytes list \<Rightarrow> nat \<Rightarrow> cmd list option" where
  "parse_pipeline tokens maxcmds = parse_loop maxcmds [] zero_cmd tokens"

text \<open>\<open>None\<close>: the name does not fit into \<^verbatim>\<open>path[256]\<close> of the caller.\<close>

definition resolve :: "bytes \<Rightarrow> bytes option" where
  "resolve name =
     (let p = (if slash \<in> set name then name else ascii ''/bin/'' @ name) in if length p < 256 then Some p else None)"

section \<open>Lines\<close>

datatype line_action = Nothing_to_do | Help | Syntax_error | Run_commands "cmd list"

text \<open>\<^verbatim>\<open>execute_line\<close> up to the call of \<^verbatim>\<open>run_pipeline\<close>.\<close>

definition execute_line :: "bytes \<Rightarrow> op_table \<Rightarrow> line_action \<times> op_table" where
  "execute_line line t =
     (let line = dropWhile is_space line in
      if line = [] \<or> hd line = 0x23 then (Nothing_to_do, t)
      else if line = ascii ''help'' then (Help, t)
      else let (toks, t) = tokenize line (MAXARGS * 2) t in
        if toks = [] then (Nothing_to_do, t)
        else case parse_pipeline (map (token_text t) toks) MAXCMDS of
          None \<Rightarrow> (Syntax_error, t)
        | Some cmds \<Rightarrow> (Run_commands cmds, t))"

text \<open>
  \<^verbatim>\<open>read_fd_line\<close>: \<open>inp\<close> is what is left of the file, \<open>line\<close> the buffer. The result is the returned
  number, the buffer and the rest of the file. At the end of the file the buffer is left unterminated.
\<close>

fun read_fd_loop :: "nat \<Rightarrow> bool \<Rightarrow> bytes \<Rightarrow> bytes \<Rightarrow> nat \<Rightarrow> int \<times> bytes \<times> bytes" where
  "read_fd_loop n seen [] line mx =
     (if n < mx - 1 then (if seen then int n else - 1, line, []) else (int n, line[n := 0], []))"
| "read_fd_loop n seen (c # inp) line mx =
     (if n < mx - 1 then
        (if c = 13 then read_fd_loop n True inp line mx
         else if c = 10 then (int n, line[n := 0], inp)
         else read_fd_loop (n + 1) True inp (line[n := c]) mx)
      else (int n, line[n := 0], c # inp))"

definition read_fd_line :: "bytes \<Rightarrow> bytes \<Rightarrow> nat \<Rightarrow> int \<times> bytes \<times> bytes" where
  "read_fd_line inp line mx = read_fd_loop 0 False inp line mx"

section \<open>What is written is what is run\<close>

text \<open>The tokens of a list of commands and the line with one blank between any two tokens.\<close>

definition cmd_tokens :: "cmd \<Rightarrow> bytes list" where
  "cmd_tokens c = argv c @ (case infile c of None \<Rightarrow> [] | Some f \<Rightarrow> [[0x3C], f])
     @ (case outfile c of None \<Rightarrow> [] | Some f \<Rightarrow> [if append_mode c then [0x3E, 0x3E] else [0x3E], f])"

fun pipeline_tokens :: "cmd list \<Rightarrow> bytes list" where
  "pipeline_tokens [] = []"
| "pipeline_tokens [c] = cmd_tokens c"
| "pipeline_tokens (c # cs) = cmd_tokens c @ [[0x7C]] @ pipeline_tokens cs"

fun spaced :: "bytes list \<Rightarrow> bytes" where
  "spaced [] = []"
| "spaced [w] = w"
| "spaced (w # ws) = w @ [0x20] @ spaced ws"

definition wf_word :: "bytes \<Rightarrow> bool" where
  "wf_word w \<longleftrightarrow> w \<noteq> [] \<and> (\<forall>c\<in>set w. in_word c)"

definition wf_cmd :: "cmd \<Rightarrow> bool" where
  "wf_cmd c \<longleftrightarrow> length (argv c) < MAXARGS \<and> (\<forall>w\<in>set (argv c). wf_word w) \<and> pred_option wf_word (infile c)
     \<and> pred_option wf_word (outfile c) \<and> (outfile c = None \<longrightarrow> \<not> append_mode c)"

definition is_op_text :: "bytes \<Rightarrow> bool" where
  "is_op_text w \<longleftrightarrow> length w = 1 \<and> is_op (hd w)"

lemma wf_word_no_op:
  assumes "wf_word w"
  shows "w \<noteq> [0x7C] \<and> w \<noteq> [0x3C] \<and> w \<noteq> [0x3E] \<and> w \<noteq> [0x3E, 0x3E] \<and> \<not> is_op_text w"
proof -
  obtain c v where w: "w = c # v"
    using assms by (cases w) (simp_all add: wf_word_def)
  then have "\<not> is_op c"
    using assms by (simp add: wf_word_def in_word_def)
  then show ?thesis
    unfolding w is_op_text_def by (simp add: is_op_def)
qed

lemma parse_args:
  "\<forall>w\<in>set ws. wf_word w \<Longrightarrow> length (argv c) + length ws < MAXARGS \<Longrightarrow>
    parse_loop m before c (ws @ ts) = parse_loop m before (c\<lparr>argv := argv c @ ws\<rparr>) ts"
proof (induction ws arbitrary: c)
  case (Cons w ws)
  then show ?case
    using wf_word_no_op [of w] by (simp add: MAXARGS_def)
qed simp

lemma parse_cmd:
  assumes "wf_cmd c"
  shows "parse_loop m before zero_cmd (cmd_tokens c @ ts) = parse_loop m before c ts"
proof -
  have "parse_loop m before zero_cmd (argv c @ us) = parse_loop m before (zero_cmd\<lparr>argv := argv c\<rparr>) us" for us
    using parse_args [of "argv c" zero_cmd m before us] assms by (simp add: wf_cmd_def zero_cmd_def)
  then show ?thesis
    using assms by (cases c) (auto simp: cmd_tokens_def zero_cmd_def wf_cmd_def split: option.split)
qed

lemma parse_cmds:
  "cs \<noteq> [] \<Longrightarrow> \<forall>c\<in>set cs. wf_cmd c \<Longrightarrow> length before + length cs \<le> m \<Longrightarrow>
    parse_loop m before zero_cmd (pipeline_tokens cs) = Some (before @ cs)"
proof (induction cs arbitrary: before rule: pipeline_tokens.induct)
  case (2 c)
  then show ?case
    using parse_cmd [of c m before "[]"] by simp
next
  case (3 c c2 cs)
  then show ?case
    using parse_cmd [of c m before "[0x7C] # pipeline_tokens (c2 # cs)"] by simp
qed simp

text \<open>The tokens the scan makes of spaced words, and the table after it.\<close>

fun scanned :: "nat \<Rightarrow> bytes list \<Rightarrow> token list" where
  "scanned i [] = []"
| "scanned i (w # ws) =
     (if is_op_text w then Op_token (i mod 32) # scanned (i + 1) ws
      else if w = [0x3E, 0x3E] then Append_token # scanned i ws
      else Word_token w # scanned i ws)"

fun filled :: "op_table \<Rightarrow> bytes list \<Rightarrow> op_table" where
  "filled t [] = t"
| "filled t (w # ws) = (if is_op_text w then filled (snd (new_op (hd w) t)) ws else filled t ws)"

definition wf_token :: "bytes \<Rightarrow> bool" where
  "wf_token w \<longleftrightarrow> wf_word w \<or> is_op_text w \<or> w = [0x3E, 0x3E]"

lemma tokenize_blank: "is_space c \<Longrightarrow> tokenize_loop k (c # p) t = tokenize_loop k p t"
  by (subst (1 2) tokenize_loop.simps) simp

lemma is_space_facts [simp]: "is_space 0x20" "\<not> is_space 0x3E" "is_op 0x3E" "\<not> in_word 0x20"
  by (simp_all add: is_space_def is_op_def in_word_def)

lemma is_op_not_space: "is_op c \<Longrightarrow> \<not> is_space c"
  by (auto simp: is_space_def is_op_def)

text \<open>The step of the scan on one token that is followed by nothing or by a blank.\<close>

lemma tokenize_token:
  assumes "wf_token w" and "p = [] \<or> (\<exists>q. p = 0x20 # q)" and "k \<noteq> 0"
  shows "tokenize_loop k (w @ p) t =
    (if is_op_text w then let (u, t) = new_op (hd w) t in map_prod (Cons u) id (tokenize_loop (k - 1) p t)
     else map_prod (Cons (if w = [0x3E, 0x3E] then Append_token else Word_token w)) id (tokenize_loop (k - 1) p t))"
proof -
  have tl: "tokenize_loop (k - 1) (tl p) t = tokenize_loop (k - 1) p t" for t
    using assms(2) by (auto simp: tokenize_blank simp del: tokenize_loop.simps)
  consider "wf_word w" | "is_op_text w" | "w = [0x3E, 0x3E]"
    using assms(1) by (auto simp: wf_token_def)
  then show ?thesis
  proof cases
    case 1
    then obtain c v where w: "w = c # v" "in_word c" "\<forall>c\<in>set w. in_word c"
      by (cases w) (auto simp: wf_word_def)
    have "takeWhile in_word (w @ p) = w" "dropWhile in_word (w @ p) = p"
      using w(3) assms(2) by auto
    moreover have "\<not> is_space c" "\<not> is_op c"
      using w(2) by (simp_all add: in_word_def)
    ultimately show ?thesis
      using wf_word_no_op [OF 1] w(1) assms(3) tl [of t] by (subst tokenize_loop.simps) (auto simp del: tokenize_loop.simps)
  next
    case 2
    then obtain c where w: "w = [c]" "is_op c"
      by (cases w) (auto simp: is_op_text_def)
    then show ?thesis
      using 2 assms(2,3) is_op_not_space [of c] by (subst tokenize_loop.simps) (auto simp del: tokenize_loop.simps)
  next
    case 3
    then show ?thesis
      using assms(3) by (subst tokenize_loop.simps) (auto simp: is_op_text_def simp del: tokenize_loop.simps)
  qed
qed

lemma tokenize_spaced:
  "\<forall>w\<in>set ws. wf_token w \<Longrightarrow> length ws \<le> k \<Longrightarrow> tokenize_loop k (spaced ws) t = (scanned (opidx t) ws, filled t ws)"
proof (induction ws arbitrary: k t rule: spaced.induct)
  case 1
  then show ?case
    by simp
next
  case (2 w)
  then show ?case
    using tokenize_token [of w "[]" k t] by (auto simp: new_op_def MAXCMDS_def Let_def)
next
  case (3 w v ws)
  define r where "r = v # ws"
  have r: "spaced (w # r) = w @ 0x20 # spaced r"
    by (simp add: r_def)
  have IH: "tokenize_loop (k - Suc 0) (0x20 # spaced r) t = (scanned (opidx t) r, filled t r)" for t
    unfolding tokenize_blank [OF is_space_facts(1)] using 3 by (simp add: r_def del: tokenize_loop.simps scanned.simps filled.simps)
  have "is_op_text w \<Longrightarrow> w \<noteq> [0x3E, 0x3E]"
    by (auto simp: is_op_text_def)
  then show ?case
    using tokenize_token [of w "0x20 # spaced r" k t] 3(2,3) unfolding r_def [symmetric]
    by (auto simp: r IH new_op_def MAXCMDS_def Let_def simp del: tokenize_loop.simps)
qed

lemma filled_length [simp]: "length (ops (filled t ws)) = length (ops t)"
  by (induction ws arbitrary: t) (auto simp: new_op_def Let_def)

lemma filled_other:
  "length (filter is_op_text ws) + opidx t \<le> j + 32 \<Longrightarrow> j < opidx t \<Longrightarrow> ops (filled t ws) ! (j mod 32) = ops t ! (j mod 32)"
proof (induction ws arbitrary: t)
  case (Cons w ws)
  have "opidx t mod 32 \<noteq> j mod 32" if "is_op_text w"
  proof
    assume "opidx t mod 32 = j mod 32"
    then obtain m where "opidx t = j + 32 * m"
      using Cons.prems(2) by (metis less_imp_le mod_eq_nat2E)
    then show False
      using Cons.prems that by (cases m) auto
  qed
  then show ?case
    using Cons by (auto simp: new_op_def MAXCMDS_def Let_def)
qed simp

lemma scanned_texts:
  "\<forall>w\<in>set ws. wf_token w \<Longrightarrow> length (ops t) = 32 \<Longrightarrow> length (filter is_op_text ws) \<le> 32 \<Longrightarrow>
    map (token_text (filled t ws)) (scanned (opidx t) ws) = ws"
proof (induction ws arbitrary: t)
  case (Cons w ws)
  show ?case
  proof (cases "is_op_text w")
    case True
    let ?t = "snd (new_op (hd w) t)"
    have t: "opidx ?t = opidx t + 1" "ops ?t = (ops t)[opidx t mod 32 := hd w]"
      by (simp_all add: new_op_def MAXCMDS_def Let_def)
    have "ops (filled ?t ws) ! (opidx t mod 32) = hd w"
      using filled_other [of ws ?t "opidx t"] Cons.prems True t by simp
    moreover have "w = [hd w]"
      using True by (cases w) (auto simp: is_op_text_def)
    ultimately show ?thesis
      using Cons.IH [of ?t] Cons.prems True t by (auto simp: token_text_def)
  next
    case False
    then show ?thesis
      using Cons by (auto simp: token_text_def)
  qed
qed simp

lemma wf_token_head: "wf_token w \<Longrightarrow> w \<noteq> [] \<and> \<not> is_space (hd w)"
  using is_op_not_space by (cases w) (auto simp: wf_token_def wf_word_def in_word_def is_op_text_def)

lemma wf_cmd_tokens: "wf_cmd c \<Longrightarrow> w \<in> set (cmd_tokens c) \<Longrightarrow> wf_token w"
  by (cases "infile c"; cases "outfile c"; cases "append_mode c") (auto simp: wf_cmd_def cmd_tokens_def wf_token_def is_op_text_def is_op_def)

lemma wf_pipeline_tokens: "\<forall>c\<in>set cs. wf_cmd c \<Longrightarrow> w \<in> set (pipeline_tokens cs) \<Longrightarrow> wf_token w"
  by (induction cs rule: pipeline_tokens.induct) (auto dest: wf_cmd_tokens simp: wf_token_def is_op_text_def is_op_def)

lemma cmd_tokens_ops: "wf_cmd c \<Longrightarrow> length (filter is_op_text (cmd_tokens c)) \<le> 2"
  using wf_word_no_op by (auto simp: wf_cmd_def cmd_tokens_def filter_empty_conv is_op_text_def split: option.splits)

lemma pipeline_ops: "\<forall>c\<in>set cs. wf_cmd c \<Longrightarrow> length (filter is_op_text (pipeline_tokens cs)) \<le> 3 * length cs"
proof (induction cs rule: pipeline_tokens.induct)
  case (2 c)
  then show ?case
    using cmd_tokens_ops [of c] by simp
next
  case (3 c d cs)
  then show ?case
    using cmd_tokens_ops [of c] by auto
qed simp

lemma spaced_head: "ws \<noteq> [] \<Longrightarrow> wf_token (hd ws) \<Longrightarrow> spaced ws \<noteq> [] \<and> hd (spaced ws) = hd (hd ws)"
  using wf_token_head [of "hd ws"] by (cases ws rule: spaced.cases) auto


definition no_ops :: op_table where
  "no_ops = \<lparr>ops = replicate 32 0, opidx = 30\<rparr>"


section \<open>Limits of the tokenizer\<close>

text \<open>
  The end of a word is cut by overwriting the character after it, and the scan goes on behind this character:
  an operator that directly follows a word is lost, and of \<^verbatim>\<open>>>\<close> one half.
\<close>

lemma tokenize_drops_operator:
  "fst (execute_line (ascii ''ls|wc'') t) = Run_commands [zero_cmd\<lparr>argv := [ascii ''ls'', ascii ''wc'']\<rparr>]"
  by (simp add: execute_line_def tokenize_def MAXARGS_def is_space_def is_op_def in_word_def ascii_def token_text_def
      parse_pipeline_def zero_cmd_def MAXCMDS_def)

text \<open>The last line of a script without a newline is not terminated: the rest of the previous line is run with it.\<close>

lemma read_fd_line_stale:
  "read_fd_line (ascii ''ls'') (ascii ''echo x'' @ [0]) 512 = (2, ascii ''lsho x'' @ [0], [])"
  by (simp add: read_fd_line_def ascii_def)

end
