(* ===== verification/ShellRun.thy ===== *)
theory ShellRun
  imports Shell
begin

text \<open>
  How the shell runs a pipeline: \<^verbatim>\<open>builtin\<close>, \<^verbatim>\<open>run_child\<close> and \<^verbatim>\<open>run_pipeline\<close> of
  \<^verbatim>\<open>user/bin/sh.c\<close>. The system calls are a parameter, the record \<open>calls\<close>. After \<^verbatim>\<open>fork\<close> the text
  goes on in two processes; the value that \<open>c_fork\<close> returns selects the one that is followed. What the shell
  needs of the descriptor calls is the locale \<open>descriptor_calls\<close>, which is interpreted on the kernel.
\<close>

unbundle bit_operations_syntax

section \<open>Running commands\<close>

record 'k calls =
  c_open :: "bytes \<Rightarrow> u32 \<Rightarrow> u16 \<Rightarrow> 'k \<Rightarrow> int \<times> 'k"
  c_close :: "int \<Rightarrow> 'k \<Rightarrow> int \<times> 'k"
  c_dup2 :: "int \<Rightarrow> int \<Rightarrow> 'k \<Rightarrow> int \<times> 'k"
  c_pipe :: "'k \<Rightarrow> (int \<times> int \<times> int) \<times> 'k"
  c_fork :: "'k \<Rightarrow> int \<times> 'k"
  c_waitpid :: "int \<Rightarrow> 'k \<Rightarrow> 'k"
  c_execve :: "bytes \<Rightarrow> bytes list \<Rightarrow> bytes list \<Rightarrow> 'k \<Rightarrow> bool \<times> 'k"
  c_chdir :: "bytes \<Rightarrow> 'k \<Rightarrow> int \<times> 'k"
  c_getcwd :: "'k \<Rightarrow> bytes option \<times> 'k"
  c_write :: "int \<Rightarrow> bytes \<Rightarrow> 'k \<Rightarrow> 'k"

text \<open>How the text ends in a process: it leaves for another program, exits, or returns to the prompt.\<close>

datatype process_end = Entered bytes | Exited int | Returned

definition builtin :: "'k calls \<Rightarrow> cmd \<Rightarrow> 'k \<Rightarrow> (process_end \<times> 'k) option" where
  "builtin io c k =
     (case argv c of
        [] \<Rightarrow> Some (Returned, k)
      | a # args \<Rightarrow>
          if a = ascii ''exit'' then Some (Exited (if args \<noteq> [] then sint (atoi (hd args)) else 0), k)
          else if a = ascii ''cd'' then
            (let dir = (if args \<noteq> [] then hd args else ascii ''/'');
                 (r, k) = c_chdir io dir k
             in Some (Returned, if r < 0 then c_write io 2 (ascii ''cd: '' @ dir @ ascii '': no such directory'' @ [10]) k else k))
          else if a = ascii ''pwd'' then
            (let (d, k) = c_getcwd io k
             in Some (Returned, case d of Some d \<Rightarrow> c_write io 1 (d @ [10]) k | None \<Rightarrow> k))
          else None)"

text \<open>A redirection of \<open>target\<close>; \<open>Inl\<close>: the file cannot be opened.\<close>

definition redirect :: "'k calls \<Rightarrow> bytes option \<Rightarrow> u32 \<Rightarrow> u16 \<Rightarrow> int \<Rightarrow> 'k \<Rightarrow> 'k + 'k" where
  "redirect io file flags mode target k =
     (case file of
        None \<Rightarrow> Inr k
      | Some f \<Rightarrow>
          let (fd, k) = c_open io f flags mode k in
          if fd < 0 then Inl (c_write io 2 (ascii ''sh: cannot open '' @ f @ [10]) k)
          else Inr (snd (c_close io fd (snd (c_dup2 io fd target k)))))"

text \<open>\<open>None\<close>: there is no command name, or it overruns the buffer for the path.\<close>

definition run_child :: "'k calls \<Rightarrow> cmd \<Rightarrow> 'k \<Rightarrow> (process_end \<times> 'k) option" where
  "run_child io c k =
     (case redirect io (infile c) 0 0 0 k of
        Inl k \<Rightarrow> Some (Exited 1, k)
      | Inr k \<Rightarrow>
          case redirect io (outfile c) (0x0001 OR 0x0100 OR (if append_mode c then 0x0400 else 0x0200)) 0x1A4 1 k of
            Inl k \<Rightarrow> Some (Exited 1, k)
          | Inr k \<Rightarrow>
              case argv c of
                [] \<Rightarrow> None
              | a # _ \<Rightarrow>
                  map_option (\<lambda>path.
                    let (entered, k) = c_execve io path (argv c) [ascii ''PATH=/bin'', ascii ''HOME=/''] k in
                    if entered then (Entered path, k)
                    else (Exited 127, c_write io 2 (ascii ''sh: '' @ a @ ascii '': command not found'' @ [10]) k))
                  (resolve a))"

text \<open>The descriptors of a child: standard input from the previous pipe and standard output to the next one.\<close>

definition plumb :: "'k calls \<Rightarrow> int \<Rightarrow> int \<times> int \<Rightarrow> 'k \<Rightarrow> 'k" where
  "plumb io prev_read pfd k =
     (let k = (if prev_read \<ge> 0 then snd (c_close io prev_read (snd (c_dup2 io prev_read 0 k))) else k);
          k = (if snd pfd \<ge> 0 then snd (c_close io (snd pfd) (snd (c_dup2 io (snd pfd) 1 k))) else k)
      in if fst pfd \<ge> 0 then snd (c_close io (fst pfd) k) else k)"

definition close_open :: "'k calls \<Rightarrow> int \<Rightarrow> 'k \<Rightarrow> 'k" where
  "close_open io fd k = (if fd \<ge> 0 then snd (c_close io fd k) else k)"

text \<open>The loop that starts the commands; \<open>pids\<close> are the children so far.\<close>

fun spawn_loop :: "'k calls \<Rightarrow> cmd list \<Rightarrow> int \<Rightarrow> int list \<Rightarrow> 'k \<Rightarrow> ((process_end + int list) \<times> 'k) option" where
  "spawn_loop io [] prev_read pids k = Some (Inr pids, close_open io prev_read k)"
| "spawn_loop io (c # cs) prev_read pids k =
     (let ((r, pfd), k) = (if cs \<noteq> [] then c_pipe io k else ((0, - 1, - 1), k)) in
      if r < 0 then Some (Inl Returned, c_write io 2 (ascii ''sh: pipe failed'' @ [10]) k)
      else let (p, k) = c_fork io k in
        if p = 0 then map_option (map_prod Inl id) (run_child io c (plumb io prev_read pfd k))
        else spawn_loop io cs (fst pfd) (pids @ [p]) (close_open io (snd pfd) (close_open io prev_read k)))"

definition run_pipeline :: "'k calls \<Rightarrow> cmd list \<Rightarrow> 'k \<Rightarrow> (process_end \<times> 'k) option" where
  "run_pipeline io cmds k =
     (case (if length cmds = 1 then builtin io (hd cmds) k else None) of
        Some x \<Rightarrow> Some x
      | None \<Rightarrow>
          case spawn_loop io cmds (- 1) [] k of
            None \<Rightarrow> None
          | Some (Inl e, k) \<Rightarrow> Some (e, k)
          | Some (Inr pids, k) \<Rightarrow> Some (Returned, fold (c_waitpid io) pids k))"

section \<open>Descriptors\<close>

text \<open>
  The contract of the descriptor calls: \<open>fd_of k fd\<close> is the open file behind a descriptor of the running
  process and 0 where there is none.
\<close>

locale descriptor_calls =
  fixes io :: "'k calls" and fd_of :: "'k \<Rightarrow> int \<Rightarrow> u32" and ok :: "'k \<Rightarrow> bool"
  assumes dup2_sets: "ok k \<Longrightarrow> fd_of k a \<noteq> 0 \<Longrightarrow> 0 \<le> b \<Longrightarrow> b < 32 \<Longrightarrow> a \<noteq> b \<Longrightarrow>
      ok (snd (c_dup2 io a b k)) \<and> fd_of (snd (c_dup2 io a b k)) = (fd_of k)(b := fd_of k a)"
    and close_clears: "ok k \<Longrightarrow> fd_of k a \<noteq> 0 \<Longrightarrow>
      ok (snd (c_close io a k)) \<and> fd_of (snd (c_close io a k)) = (fd_of k)(a := 0)"
    and none_below: "a < 0 \<Longrightarrow> fd_of k a = 0"
begin

lemma move_spec:
  assumes "ok k" and "fd_of k a \<noteq> 0" and "0 \<le> b" and "b < 32" and "a \<noteq> b"
  shows "ok (snd (c_close io a (snd (c_dup2 io a b k))))"
    and "fd_of (snd (c_close io a (snd (c_dup2 io a b k)))) = (fd_of k)(b := fd_of k a, a := 0)"
  using dup2_sets [OF assms] close_clears [of "snd (c_dup2 io a b k)" a] assms(2,5) by simp_all

lemma plumb_spec:
  assumes "ok k" and "prev < 0 \<or> fd_of k prev \<noteq> 0 \<and> 1 < prev"
    and "r < 0 \<and> w < 0 \<or> fd_of k r \<noteq> 0 \<and> fd_of k w \<noteq> 0 \<and> 1 < r \<and> 1 < w \<and> r \<noteq> w \<and> r \<noteq> prev \<and> w \<noteq> prev"
  shows "fd_of (plumb io prev (r, w) k) = (\<lambda>fd.
      if fd = 0 \<and> 0 \<le> prev then fd_of k prev
      else if fd = 1 \<and> 0 \<le> w then fd_of k w
      else if fd = prev \<or> fd = r \<or> fd = w then 0 else fd_of k fd)"
proof -
  define k1 where "k1 = (if prev \<ge> 0 then snd (c_close io prev (snd (c_dup2 io prev 0 k))) else k)"
  define k2 where "k2 = (if w \<ge> 0 then snd (c_close io w (snd (c_dup2 io w 1 k1))) else k1)"
  have k1: "ok k1 \<and> fd_of k1 = (if prev \<ge> 0 then (fd_of k)(0 := fd_of k prev, prev := 0) else fd_of k)"
    using assms(1,2) move_spec [of k prev 0] by (cases "0 \<le> prev") (simp_all add: k1_def)
  then have "w \<ge> 0 \<Longrightarrow> fd_of k1 w = fd_of k w"
    using assms(2,3) by auto
  then have k2: "ok k2 \<and> fd_of k2 = (if w \<ge> 0 then (fd_of k1)(1 := fd_of k w, w := 0) else fd_of k1)"
    using assms(3) k1 move_spec [of k1 w 1] by (cases "0 \<le> w") (simp_all add: k2_def)
  then have "r \<ge> 0 \<Longrightarrow> fd_of k2 r = fd_of k r"
    using assms(2,3) k1 by auto
  then have last: "fd_of (plumb io prev (r, w) k) = (if r \<ge> 0 then (fd_of k2)(r := 0) else fd_of k2)"
    using assms(3) k2 close_clears [of k2 r] unfolding plumb_def Let_def fst_conv snd_conv k1_def [symmetric] k2_def [symmetric]
    by (cases "0 \<le> r") simp_all
  show ?thesis
  proof (rule ext, goal_cases)
    case (1 fd)
    show ?case
      unfolding last conjunct2 [OF k2] conjunct2 [OF k1] fun_upd_apply using assms(2,3) none_below [of fd k]
      by (elim disjE conjE; cases "fd < 0"; cases "fd = 0"; cases "fd = 1") auto
  qed
qed

end

section \<open>Pipelines on the kernel\<close>

definition call_result :: "((u32 + u32 \<times> u32) \<times> sys) option \<Rightarrow> sys \<Rightarrow> int \<times> sys" where
  "call_result x s = (case x of Some (Inl r, s) \<Rightarrow> (sint r, s) | _ \<Rightarrow> (- 1, s))"

definition kernel_calls :: "trapframe \<Rightarrow> sys calls \<Rightarrow> sys calls" where
  "kernel_calls tf io = io\<lparr>c_dup2 := (\<lambda>a b s. call_result (u_dup2 (\<lambda>_ s. s) tf a b s) s),
     c_close := (\<lambda>a s. call_result (u_close (\<lambda>_ s. s) tf a s) s)\<rparr>"

definition fd_of :: "sys \<Rightarrow> int \<Rightarrow> u32" where
  "fd_of s fd = (if 0 \<le> fd \<and> fd < int MAX_FILES then tfiles (curtask s) ! nat fd else 0)"

definition full_table :: "sys \<Rightarrow> bool" where
  "full_table s \<longleftrightarrow> length (tfiles (curtask s)) = MAX_FILES"

lemma sint_fd: "0 \<le> i \<Longrightarrow> i < 32 \<Longrightarrow> sint (word_of_int i :: u32) = i"
  by (simp add: signed_of_int signed_take_bit_int_eq_self)

lemma curtask_objs [simp]: "curtask (close_file f s) = curtask s" "curtask (ref_file f s) = curtask s"
  by (simp_all add: close_file_def ref_file_def curtask_def)

lemma fd_of_set_fd:
  assumes "full_table s" and "0 \<le> b" and "b < int MAX_FILES"
  shows "full_table (set_fd b f s) \<and> fd_of (set_fd b f s) = (fd_of s)(b := f)"
  using assms by (auto simp: full_table_def fd_of_def set_fd_def curtask_def modify_cur_def modify_task_def nth_list_update fun_eq_iff)

lemma fd_of_objs [simp]:
  "fd_of (close_file f s) = fd_of s" "fd_of (ref_file f s) = fd_of s"
  "full_table (close_file f s) = full_table s" "full_table (ref_file f s) = full_table s"
  by (simp_all add: fd_of_def full_table_def fun_eq_iff)

lemma kernel_dup2_spec:
  assumes "full_table s" and "fd_of s a \<noteq> 0" and "0 \<le> b" and "b < 32" and "a \<noteq> b"
  shows "full_table (snd (c_dup2 (kernel_calls tf io) a b s))
    \<and> fd_of (snd (c_dup2 (kernel_calls tf io) a b s)) = (fd_of s)(b := fd_of s a)"
proof -
  have a: "0 \<le> a" "a < 32" "\<not> bad_fd a (curtask s)" "fd_file a (curtask s) = fd_of s a"
    using assms(2) by (auto simp: fd_of_def bad_fd_def fd_file_def MAX_FILES_def split: if_splits)
  show ?thesis
    using a assms fd_of_set_fd [of _ b "fd_of s a"]
    by (auto simp: kernel_calls_def call_result_def wrapper_defs int_0x90_result dispatch_def user_result_def
        sys_dup2_def Let_def sint_fd MAX_FILES_def)
qed

lemma kernel_close_spec:
  assumes "full_table s" and "fd_of s a \<noteq> 0"
  shows "full_table (snd (c_close (kernel_calls tf io) a s))
    \<and> fd_of (snd (c_close (kernel_calls tf io) a s)) = (fd_of s)(a := 0)"
proof -
  have a: "0 \<le> a" "a < 32" "\<not> bad_fd a (curtask s)"
    using assms(2) by (auto simp: fd_of_def bad_fd_def fd_file_def MAX_FILES_def split: if_splits)
  show ?thesis
    using a assms(1) fd_of_set_fd [of _ a 0]
    by (auto simp: kernel_calls_def call_result_def wrapper_defs int_0x90_result dispatch_def user_result_def
        sys_close_def Let_def sint_fd MAX_FILES_def)
qed

interpretation kernel_descriptors: descriptor_calls "kernel_calls tf io" fd_of full_table for tf io
  using kernel_dup2_spec kernel_close_spec by unfold_locales (auto simp: fd_of_def)

text \<open>
  C16. A child of a pipeline, after its descriptor calls reached the kernel: standard input is the read end of the
  pipe before the command and standard output the write end of the pipe behind it, where there is one; the
  child holds no other end of these pipes, and every other descriptor is the one it inherited.
\<close>

theorem pipeline_child_descriptors:
  assumes "length (tfiles (curtask s)) = 32"
    and "prev < 0 \<or> fd_of s prev \<noteq> 0 \<and> 1 < prev"
    and "r < 0 \<and> w < 0 \<or> fd_of s r \<noteq> 0 \<and> fd_of s w \<noteq> 0 \<and> 1 < r \<and> 1 < w \<and> r \<noteq> w \<and> r \<noteq> prev \<and> w \<noteq> prev"
  shows "fd_of (plumb (kernel_calls tf io) prev (r, w) s) fd =
     (if fd = 0 \<and> 0 \<le> prev then fd_of s prev
      else if fd = 1 \<and> 0 \<le> w then fd_of s w
      else if fd = prev \<or> fd = r \<or> fd = w then 0 else fd_of s fd)"
  using kernel_descriptors.plumb_spec [OF _ assms(2,3), of tf io] assms(1) by (simp add: full_table_def MAX_FILES_def)

text \<open>A process with the ends of one pipe at the descriptors 3 and 4 becomes the writer of this pipe.\<close>

definition piped_sys :: sys where
  "piped_sys = modify_cur (\<lambda>t. t\<lparr>tfiles := [0x2000014, 0x2000014, 0x2000014, 0x2000100, 0x2000200] @ replicate 27 0\<rparr>) one_sys"

theorem pipeline_child_descriptors_witness:
  "\<forall>io. fd_of (plumb (kernel_calls zero_frame io) (- 1) (3, 4) piped_sys) 1 = 0x2000200
    \<and> fd_of (plumb (kernel_calls zero_frame io) (- 1) (3, 4) piped_sys) 3 = 0"
proof -
  have t: "tfiles (curtask piped_sys) = [0x2000014, 0x2000014, 0x2000014, 0x2000100, 0x2000200] @ replicate 27 0"
    by (simp add: piped_sys_def curtask_def modify_cur_def modify_task_def)
  then have "length (tfiles (curtask piped_sys)) = 32" "fd_of piped_sys 3 = 0x2000100" "fd_of piped_sys 4 = 0x2000200"
    by (simp_all add: fd_of_def MAX_FILES_def)
  then show ?thesis
    using pipeline_child_descriptors [of piped_sys "- 1" 3 4 zero_frame] by simp
qed

end
