(* ===== verification/Tools.thy ===== *)
theory Tools
  imports ShellRun
begin

text \<open>
  The small programs of \<^verbatim>\<open>user/bin\<close>. A file that is read is the list of the pieces that \<^verbatim>\<open>read\<close> returns;
  a piece without bytes is the end of the file or an error. What is written to standard output is a list of
  bytes, or goes through the calls of theory \<open>ShellRun\<close>.
\<close>

unbundle bit_operations_syntax

section \<open>Counting: wc\<close>

definition is_blank :: "u8 \<Rightarrow> bool" where
  "is_blank c \<longleftrightarrow> c = 0x20 \<or> c = 9 \<or> c = 10"

record wc_state =
  wlines :: u32
  wwords :: u32
  wbytes :: u32
  inword :: bool

definition count_byte :: "u8 \<Rightarrow> wc_state \<Rightarrow> wc_state" where
  "count_byte c s =
     (let s = s\<lparr>wbytes := wbytes s + 1\<rparr>;
          s = (if c = 10 then s\<lparr>wlines := wlines s + 1\<rparr> else s)
      in if is_blank c then s\<lparr>inword := False\<rparr>
         else if \<not> inword s then s\<lparr>inword := True, wwords := wwords s + 1\<rparr>
         else s)"

fun count_fd :: "bytes list \<Rightarrow> wc_state \<Rightarrow> wc_state" where
  "count_fd [] s = s"
| "count_fd (w # ws) s = (if w = [] then s else count_fd ws (fold count_byte w s))"

section \<open>The first lines: head\<close>

text \<open>One piece: what is written and the number of lines so far; \<open>True\<close> when the function returns.\<close>

fun head_piece :: "bytes \<Rightarrow> int \<Rightarrow> int \<Rightarrow> bytes \<times> int \<times> bool" where
  "head_piece [] printed n = ([], printed, False)"
| "head_piece (c # w) printed n =
     (let printed = (if c = 10 then printed + 1 else printed) in
      if c = 10 \<and> printed \<ge> n then ([c], printed, True)
      else let (o1, p, r) = head_piece w printed n in (c # o1, p, r))"

fun head_fd :: "bytes list \<Rightarrow> int \<Rightarrow> int \<Rightarrow> bytes" where
  "head_fd [] printed n = []"
| "head_fd (w # ws) printed n =
     (if printed < n \<and> w \<noteq> []
      then let (o1, p, r) = head_piece w printed n in if r then o1 else o1 @ head_fd ws p n
      else [])"

section \<open>Copying: cat, cp and echo\<close>

fun dump :: "bytes list \<Rightarrow> bytes" where
  "dump [] = []"
| "dump (w # ws) = (if w = [] then [] else w @ dump ws)"

definition cp_main :: "'k calls \<Rightarrow> (int \<Rightarrow> 'k \<Rightarrow> bytes list) \<Rightarrow> bytes list \<Rightarrow> 'k \<Rightarrow> int \<times> 'k" where
  "cp_main io pieces args k =
     (case args of
        [src, dst] \<Rightarrow>
          let (inp, k) = c_open io src 0 0 k in
          if inp < 0 then (1, c_write io 2 (ascii ''cp: '' @ src @ ascii '': cannot open'' @ [10]) k)
          else let (outp, k) = c_open io dst 0x301 0x1A4 k in
            if outp < 0 then (1, snd (c_close io inp (c_write io 2 (ascii ''cp: '' @ dst @ ascii '': cannot create'' @ [10]) k)))
            else let k = fold (c_write io outp) (takeWhile (\<lambda>w. w \<noteq> []) (pieces inp k)) k
                 in (0, snd (c_close io outp (snd (c_close io inp k))))
      | _ \<Rightarrow> (1, c_write io 2 (ascii ''usage: cp SRC DST'' @ [10]) k))"

definition echo_main :: "bytes list \<Rightarrow> bytes" where
  "echo_main args =
     (let nl = \<not> (args \<noteq> [] \<and> hd args = ascii ''-n''); ws = (if nl then args else tl args) in
      concat (map (\<lambda>i. ws ! i @ (if i < length ws - 1 then [0x20] else [])) [0..<length ws]) @ (if nl then [10] else []))"

section \<open>Names: rm, rmdir, mkdir and touch\<close>

text \<open>The loop these programs share: \<open>f\<close> is the call for one name and tells whether it failed.\<close>

fun each_name :: "(bytes \<Rightarrow> 'k \<Rightarrow> bool \<times> 'k) \<Rightarrow> (bytes \<Rightarrow> 'k \<Rightarrow> 'k) \<Rightarrow> bytes list \<Rightarrow> int \<Rightarrow> 'k \<Rightarrow> int \<times> 'k" where
  "each_name f complain [] rc k = (rc, k)"
| "each_name f complain (a # args) rc k =
     (let (failed, k) = f a k in
      if failed then each_name f complain args 1 (complain a k) else each_name f complain args rc k)"

definition names_main :: "string \<Rightarrow> string \<Rightarrow> 'k calls \<Rightarrow> (bytes \<Rightarrow> 'k \<Rightarrow> bool \<times> 'k) \<Rightarrow> bytes list \<Rightarrow> 'k \<Rightarrow> int \<times> 'k" where
  "names_main prog what io f args k =
     (if args = [] then (1, c_write io 2 (ascii (''usage: '' @ prog @ '' '' @ what @ ''...'') @ [10]) k)
      else each_name f (\<lambda>a. c_write io 2 (ascii (prog @ '': '') @ a @ ascii '': failed'' @ [10])) args 0 k)"

definition rm_main :: "'k calls \<Rightarrow> (bytes \<Rightarrow> 'k \<Rightarrow> int \<times> 'k) \<Rightarrow> bytes list \<Rightarrow> 'k \<Rightarrow> int \<times> 'k" where
  "rm_main io unlink = names_main ''rm'' ''FILE'' io (\<lambda>a k. let (r, k) = unlink a k in (r < 0, k))"

definition rmdir_main :: "'k calls \<Rightarrow> (bytes \<Rightarrow> 'k \<Rightarrow> int \<times> 'k) \<Rightarrow> bytes list \<Rightarrow> 'k \<Rightarrow> int \<times> 'k" where
  "rmdir_main io rmdir = names_main ''rmdir'' ''DIR'' io (\<lambda>a k. let (r, k) = rmdir a k in (r < 0, k))"

definition mkdir_main :: "'k calls \<Rightarrow> (bytes \<Rightarrow> u16 \<Rightarrow> 'k \<Rightarrow> int \<times> 'k) \<Rightarrow> bytes list \<Rightarrow> 'k \<Rightarrow> int \<times> 'k" where
  "mkdir_main io mkdir = names_main ''mkdir'' ''DIR'' io (\<lambda>a k. let (r, k) = mkdir a 0x1ED k in (r < 0, k))"

definition touch_main :: "'k calls \<Rightarrow> bytes list \<Rightarrow> 'k \<Rightarrow> int \<times> 'k" where
  "touch_main io = names_main ''touch'' ''FILE'' io
     (\<lambda>a k. let (fd, k) = c_open io a 0x101 0x1A4 k in if fd < 0 then (True, k) else (False, snd (c_close io fd k)))"

section \<open>Listings: ls\<close>

definition libc_S_ISDIR :: "u16 \<Rightarrow> bool" where
  "libc_S_ISDIR m \<longleftrightarrow> m AND 0xF000 = 0x4000"

definition modestr :: "u16 \<Rightarrow> bytes" where
  "modestr m =
     (if libc_S_ISDIR m then 0x64 else if m AND 0xF000 = 0x2000 then 0x63 else 0x2D)
     # map (\<lambda>(b, c). if m AND b \<noteq> 0 then c else 0x2D)
         [(0x100, 0x72), (0x80, 0x77), (0x40, 0x78), (0x20, 0x72), (0x10, 0x77), (8, 0x78), (4, 0x72), (2, 0x77), (1, 0x78)]"

text \<open>
  The line for one entry with its name; \<open>st\<close> are mode and size when \<^verbatim>\<open>stat\<close> of the joined path succeeds.
  \<open>None\<close>: the joined path overruns its buffer.
\<close>

definition ls_line :: "bool \<Rightarrow> (bytes \<Rightarrow> (u16 \<times> u32) option) \<Rightarrow> bytes \<Rightarrow> bytes \<Rightarrow> bytes option" where
  "ls_line longfmt st path name =
     (if name = [] \<or> name = ascii ''.'' \<or> name = ascii ''..'' then Some []
      else if longfmt then
        (let full = path @ (if path \<noteq> [] \<and> last path \<noteq> slash then [slash] else []) @ name in
         if length full < 512
         then Some (case st full of
                Some (m, sz) \<Rightarrow> modestr m @ [0x20] @ itoa_u sz 10 False @ [0x20] @ name @ [10]
              | None \<Rightarrow> ascii ''?????????? 0 '' @ name @ [10])
         else None)
      else Some (name @ [10]))"

section \<open>What is counted\<close>

definition word_starts :: "bytes \<Rightarrow> nat set" where
  "word_starts s = {i. i < length s \<and> \<not> is_blank (s ! i) \<and> (i = 0 \<or> is_blank (s ! (i - 1)))}"

lemma word_starts_snoc:
  "word_starts (s @ [c]) = (if \<not> is_blank c \<and> (s = [] \<or> is_blank (last s)) then insert (length s) (word_starts s) else word_starts s)"
  by (cases s rule: rev_cases) (auto simp: word_starts_def nth_append less_Suc_eq)

lemma finite_word_starts [simp]: "finite (word_starts s)"
  by (rule finite_subset [of _ "{..<length s}"]) (auto simp: word_starts_def)

lemma fold_count_byte:
  "fold count_byte s \<lparr>wlines = 0, wwords = 0, wbytes = 0, inword = False\<rparr> =
    \<lparr>wlines = of_nat (count_list s 10), wwords = of_nat (card (word_starts s)), wbytes = of_nat (length s),
     inword = (s \<noteq> [] \<and> \<not> is_blank (last s))\<rparr>"
proof (induction s rule: rev_induct)
  case Nil
  show ?case
    by (simp add: word_starts_def)
next
  case (snoc c s)
  have "length s \<notin> word_starts s"
    by (simp add: word_starts_def)
  moreover have "is_blank 10"
    by (simp add: is_blank_def)
  ultimately show ?case
    unfolding fold_append comp_apply snoc by (auto simp: count_byte_def word_starts_snoc Let_def)
qed

lemma count_fd_concat: "count_fd ws s = fold count_byte (concat (takeWhile (\<lambda>w. w \<noteq> []) ws)) s"
  by (induction ws arbitrary: s) simp_all

text \<open>
  \<^verbatim>\<open>wc\<close> counts the newlines, the words and the bytes of a file, modulo the width of its counters, however the file
  is cut into pieces.
\<close>

lemma count_fd_counts:
  "[] \<notin> set ws \<Longrightarrow> count_fd ws \<lparr>wlines = 0, wwords = 0, wbytes = 0, inword = False\<rparr> =
    \<lparr>wlines = of_nat (count_list (concat ws) 10), wwords = of_nat (card (word_starts (concat ws))),
     wbytes = of_nat (length (concat ws)), inword = (concat ws \<noteq> [] \<and> \<not> is_blank (last (concat ws)))\<rparr>"
proof -
  assume "[] \<notin> set ws"
  then have "takeWhile (\<lambda>w. w \<noteq> []) ws = ws"
    by (auto simp: takeWhile_eq_all_conv)
  then show ?thesis
    by (simp only: count_fd_concat fold_count_byte)
qed

section \<open>What is printed\<close>

text \<open>\<open>x\<close> is the part of \<open>s\<close> up to its \<open>n\<close>-th newline, or all of it.\<close>

definition first_lines :: "nat \<Rightarrow> bytes \<Rightarrow> bytes \<Rightarrow> bool" where
  "first_lines n s x \<longleftrightarrow> (\<exists>r. s = x @ r \<and> (r = [] \<and> count_list x 10 \<le> n \<or> count_list x 10 = n \<and> (x = [] \<or> last x = 10)))"

lemma head_piece_spec:
  "printed < n \<Longrightarrow> head_piece w printed n = (x, p, r) \<Longrightarrow>
    \<exists>y. w = x @ y \<and> p = printed + int (count_list x 10) \<and> (if r then p = n \<and> x \<noteq> [] \<and> last x = 10 else y = [] \<and> p < n)"
proof (induction w arbitrary: printed x)
  case (Cons c w)
  show ?case
  proof (cases "c = 10 \<and> printed + 1 \<ge> n")
    case True
    then show ?thesis
      using Cons.prems by auto
  next
    case False
    obtain x' where x: "x = c # x'" "head_piece w (if c = 10 then printed + 1 else printed) n = (x', p, r)"
      using Cons.prems(2) False by (auto simp: Let_def split: prod.splits if_splits)
    have "(if c = 10 then printed + 1 else printed) < n"
      using False Cons.prems(1) by auto
    from Cons.IH [OF this x(2)] show ?thesis
      using x(1) by (auto split: if_splits)
  qed
qed auto

lemma head_fd_lines: "[] \<notin> set ws \<Longrightarrow> printed \<le> n \<Longrightarrow> first_lines (nat (n - printed)) (concat ws) (head_fd ws printed n)"
proof (induction ws arbitrary: printed)
  case (Cons w ws)
  show ?case
  proof (cases "printed < n")
    case True
    obtain x p r where h: "head_piece w printed n = (x, p, r)"
      by (metis prod_cases3)
    obtain y where y: "w = x @ y" "p = printed + int (count_list x 10)"
        "if r then p = n \<and> x \<noteq> [] \<and> last x = 10 else y = [] \<and> p < n"
      using head_piece_spec [OF True h] by blast
    show ?thesis
    proof (cases r)
      case True
      then have "count_list x 10 = nat (n - printed)"
        using y by auto
      then show ?thesis
        using True y h Cons.prems \<open>printed < n\<close> by (auto simp: first_lines_def)
    next
      case False
      then have "first_lines (nat (n - p)) (concat ws) (head_fd ws p n)"
        using Cons y by simp
      then obtain q where q: "concat ws = head_fd ws p n @ q"
          "q = [] \<and> count_list (head_fd ws p n) 10 \<le> nat (n - p)
            \<or> count_list (head_fd ws p n) 10 = nat (n - p) \<and> (head_fd ws p n = [] \<or> last (head_fd ws p n) = 10)"
        by (auto simp: first_lines_def)
      have "head_fd ws p n \<noteq> [] \<or> q = []"
        using q False y by auto
      moreover have "head_fd (w # ws) printed n = w @ head_fd ws p n"
        using False y h Cons.prems \<open>printed < n\<close> by auto
      moreover have "nat (n - printed) = count_list w 10 + nat (n - p)"
        using False y by auto
      ultimately show ?thesis
        using q by (auto simp: first_lines_def)
    qed
  next
    case False
    then show ?thesis
      using Cons.prems by (auto simp: first_lines_def)
  qed
qed (auto simp: first_lines_def)

end
