(* ===== verification/Basic.thy ===== *)
theory Basic
  imports Libc Proc "HOL-Library.Signed_Division"
begin

text \<open>
  The BASIC interpreter, \<^verbatim>\<open>user/bin/basic.c\<close>. The pointer \<^verbatim>\<open>ep\<close> is the part of the line still to be
  read; an \<^verbatim>\<open>int\<close> is a 32-bit word. The recursive evaluator takes a bound on the depth of its calls:
  \<open>More\<close> is the result where the bound is too small, and \<open>expr_ends\<close> shows which bound is always enough.
\<close>

section \<open>Expressions\<close>

text \<open>\<open>Trap\<close>: the processor faults on a quotient that does not fit.\<close>

datatype eval = Val u32 bytes | Trap | More

definition eval_bind :: "eval \<Rightarrow> (u32 \<Rightarrow> bytes \<Rightarrow> eval) \<Rightarrow> eval" where
  "eval_bind e f = (case e of Val v s \<Rightarrow> f v s | Trap \<Rightarrow> Trap | More \<Rightarrow> More)"

definition int_div :: "u32 \<Rightarrow> u32 \<Rightarrow> u32 option" where
  "int_div v d =
     (if d = 0 then Some 0
      else if v = 0x80000000 \<and> d = - 1 then None
      else Some (word_of_int (sint v sdiv sint d)))"

definition int_mod :: "u32 \<Rightarrow> u32 \<Rightarrow> u32 option" where
  "int_mod v d =
     (if d = 0 then Some 0
      else if v = 0x80000000 \<and> d = - 1 then None
      else Some (word_of_int (sint v smod sint d)))"

definition letter_index :: "u8 \<Rightarrow> nat" where
  "letter_index c = unat (toupper c - 0x41)"

text \<open>
  The bodies of the three functions and of their loops; the parameters are the calls they make.
\<close>

definition factor_body :: "u32 list \<Rightarrow> (bytes \<Rightarrow> eval) \<Rightarrow> (bytes \<Rightarrow> eval) \<Rightarrow> bytes \<Rightarrow> eval" where
  "factor_body vars expr factor s =
     (case skip_blanks s of
        [] \<Rightarrow> Val 0 []
      | c # r \<Rightarrow>
          if c = 0x28 then
            eval_bind (expr r) (\<lambda>v r. Val v (case skip_blanks r of [] \<Rightarrow> [] | d # q \<Rightarrow> if d = 0x29 then q else d # q))
          else if c = 0x2D then eval_bind (factor r) (\<lambda>v r. Val (- v) r)
          else if isalpha c then Val (vars ! letter_index c) r
          else Val (atoi_digits 0 (c # r)) (dropWhile isdigit (c # r)))"

definition term_body :: "(bytes \<Rightarrow> eval) \<Rightarrow> (u32 \<Rightarrow> bytes \<Rightarrow> eval) \<Rightarrow> u32 \<Rightarrow> bytes \<Rightarrow> eval" where
  "term_body factor again v s =
     (case skip_blanks s of
        [] \<Rightarrow> Val v []
      | c # r \<Rightarrow>
          if c = 0x2A then eval_bind (factor r) (\<lambda>d r. again (v * d) r)
          else if c = 0x2F then eval_bind (factor r) (\<lambda>d r. case int_div v d of None \<Rightarrow> Trap | Some v \<Rightarrow> again v r)
          else if c = 0x25 then eval_bind (factor r) (\<lambda>d r. case int_mod v d of None \<Rightarrow> Trap | Some v \<Rightarrow> again v r)
          else Val v (c # r))"

definition expr_body :: "(bytes \<Rightarrow> eval) \<Rightarrow> (u32 \<Rightarrow> bytes \<Rightarrow> eval) \<Rightarrow> u32 \<Rightarrow> bytes \<Rightarrow> eval" where
  "expr_body bterm again v s =
     (case skip_blanks s of
        [] \<Rightarrow> Val v []
      | c # r \<Rightarrow>
          if c = 0x2B then eval_bind (bterm r) (\<lambda>d r. again (v + d) r)
          else if c = 0x2D then eval_bind (bterm r) (\<lambda>d r. again (v - d) r)
          else Val v (c # r))"

text \<open>The calls of the evaluator, and their values with at most \<open>n\<close> calls inside each other.\<close>

datatype call = Factor bytes | Term_loop u32 bytes | Term bytes | Expr_loop u32 bytes | Expr bytes

primrec evaluate :: "u32 list \<Rightarrow> nat \<Rightarrow> call \<Rightarrow> eval" where
  "evaluate vars 0 c = More"
| "evaluate vars (Suc n) c =
     (case c of
        Factor s \<Rightarrow> factor_body vars (\<lambda>s. evaluate vars n (Expr s)) (\<lambda>s. evaluate vars n (Factor s)) s
      | Term s \<Rightarrow> eval_bind (evaluate vars n (Factor s)) (\<lambda>v s. evaluate vars n (Term_loop v s))
      | Term_loop v s \<Rightarrow> term_body (\<lambda>s. evaluate vars n (Factor s)) (\<lambda>v s. evaluate vars n (Term_loop v s)) v s
      | Expr s \<Rightarrow> eval_bind (evaluate vars n (Term s)) (\<lambda>v s. evaluate vars n (Expr_loop v s))
      | Expr_loop v s \<Rightarrow> expr_body (\<lambda>s. evaluate vars n (Term s)) (\<lambda>v s. evaluate vars n (Expr_loop v s)) v s)"

section \<open>Evaluation always ends\<close>

lemma skip_blanks_length: "length (skip_blanks s) \<le> length s"
  by (induction s) auto

definition shorter :: "nat \<Rightarrow> eval \<Rightarrow> bool" where
  "shorter k e = (case e of Val v r \<Rightarrow> length r \<le> k | _ \<Rightarrow> True)"

lemma shorter_bind:
  "shorter k e \<Longrightarrow> (\<And>v r. e = Val v r \<Longrightarrow> length r \<le> k \<Longrightarrow> shorter m (f v r)) \<Longrightarrow> shorter m (eval_bind e f)"
  by (cases e) (simp_all add: eval_bind_def shorter_def)

definition ends :: "eval \<Rightarrow> bool" where
  "ends e \<longleftrightarrow> e \<noteq> More"

lemma ends_simps [simp]: "ends (Val v s)" "ends Trap"
  by (simp_all add: ends_def)

lemma ends_bind:
  "ends e \<Longrightarrow> shorter k e \<Longrightarrow> (\<And>v r. e = Val v r \<Longrightarrow> length r \<le> k \<Longrightarrow> ends (f v r)) \<Longrightarrow> ends (eval_bind e f)"
  by (cases e) (simp_all add: eval_bind_def shorter_def ends_def)

lemma shorter_closing: "length r \<le> k \<Longrightarrow> length (case skip_blanks r of [] \<Rightarrow> [] | d # q \<Rightarrow> if d = 0x29 then q else d # q) \<le> k"
  using skip_blanks_length [of r] by (auto split: list.split)

lemma skip_blanks_Cons: "skip_blanks s = c # r \<Longrightarrow> length r < length s"
  using skip_blanks_length [of s] by simp

lemma shorter_mono: "shorter k e \<Longrightarrow> k \<le> m \<Longrightarrow> shorter m e"
  by (auto simp: shorter_def split: eval.splits)

lemma shorter_all:
  "(\<forall>s. shorter (length s) (evaluate vars n (Factor s))) \<and> (\<forall>v s. shorter (length s) (evaluate vars n (Term_loop v s)))
    \<and> (\<forall>s. shorter (length s) (evaluate vars n (Term s))) \<and> (\<forall>v s. shorter (length s) (evaluate vars n (Expr_loop v s)))
    \<and> (\<forall>s. shorter (length s) (evaluate vars n (Expr s)))"
proof (induction n)
  case 0
  show ?case
    by (simp add: shorter_def)
next
  case (Suc n)
  then have IH: "shorter (length s) (evaluate vars n (Factor s))" "shorter (length s) (evaluate vars n (Term_loop v s))"
      "shorter (length s) (evaluate vars n (Term s))" "shorter (length s) (evaluate vars n (Expr_loop v s))" "shorter (length s) (evaluate vars n (Expr s))" for v s
    by blast+
  note [intro] = shorter_bind [OF IH(1)] shorter_bind [OF IH(3)] shorter_bind [OF IH(5)]
  have val: "shorter k (Val v r) \<longleftrightarrow> length r \<le> k" "shorter k Trap" for k v r
    by (simp_all add: shorter_def)
  have F: "shorter (length s) (evaluate vars (Suc n) (Factor s))" for s
  proof (cases "skip_blanks s")
    case (Cons c r)
    then have "length r < length s"
      by (rule skip_blanks_Cons)
    then show ?thesis
      using Cons length_dropWhile_le [of isdigit "c # r"]
      by (auto simp: val factor_body_def simp del: dropWhile.simps intro!: shorter_bind [OF IH(1)] shorter_bind [OF IH(5)] shorter_closing)
  qed (simp add: val factor_body_def)
  have TL: "shorter (length s) (evaluate vars (Suc n) (Term_loop v s))" for v s
  proof (cases "skip_blanks s")
    case (Cons c r)
    then have "length r < length s"
      by (rule skip_blanks_Cons)
    then show ?thesis
      using Cons by (auto simp: val term_body_def split: option.split intro!: shorter_bind [OF IH(1)] shorter_mono [OF IH(2)])
  qed (simp add: val term_body_def)
  have EL: "shorter (length s) (evaluate vars (Suc n) (Expr_loop v s))" for v s
  proof (cases "skip_blanks s")
    case (Cons c r)
    then have "length r < length s"
      by (rule skip_blanks_Cons)
    then show ?thesis
      using Cons by (auto simp: val expr_body_def intro!: shorter_bind [OF IH(3)] shorter_mono [OF IH(4)])
  qed (simp add: val expr_body_def)
  have "shorter (length s) (evaluate vars (Suc n) (Term s))" "shorter (length s) (evaluate vars (Suc n) (Expr s))" for s
    by (auto intro!: shorter_bind [OF IH(1)] shorter_mono [OF IH(2)] shorter_bind [OF IH(3)] shorter_mono [OF IH(4)])
  with F TL EL show ?case
    by blast
qed

lemma ends_all:
  "(\<forall>s. 4 * length s + 1 \<le> n \<longrightarrow> ends (evaluate vars n (Factor s))) \<and> (\<forall>v s. 4 * length s + 1 \<le> n \<longrightarrow> ends (evaluate vars n (Term_loop v s)))
    \<and> (\<forall>s. 4 * length s + 2 \<le> n \<longrightarrow> ends (evaluate vars n (Term s))) \<and> (\<forall>v s. 4 * length s + 1 \<le> n \<longrightarrow> ends (evaluate vars n (Expr_loop v s)))
    \<and> (\<forall>s. 4 * length s + 3 \<le> n \<longrightarrow> ends (evaluate vars n (Expr s)))"
proof (induction n)
  case (Suc n)
  then have IH: "4 * length s + 1 \<le> n \<Longrightarrow> ends (evaluate vars n (Factor s))" "4 * length s + 1 \<le> n \<Longrightarrow> ends (evaluate vars n (Term_loop v s))"
      "4 * length s + 2 \<le> n \<Longrightarrow> ends (evaluate vars n (Term s))" "4 * length s + 1 \<le> n \<Longrightarrow> ends (evaluate vars n (Expr_loop v s))"
      "4 * length s + 3 \<le> n \<Longrightarrow> ends (evaluate vars n (Expr s))" for v s
    by blast+
  have S: "shorter (length s) (evaluate vars n (Factor s))" "shorter (length s) (evaluate vars n (Term s))" "shorter (length s) (evaluate vars n (Expr s))" for s
    using shorter_all [of vars n] by blast+
  have F: "ends (evaluate vars (Suc n) (Factor s))" if "4 * length s + 1 \<le> Suc n" for s
  proof (cases "skip_blanks s")
    case (Cons c r)
    then have "length r < length s"
      by (rule skip_blanks_Cons)
    then show ?thesis
      using Cons that by (auto simp: factor_body_def intro!: ends_bind [OF IH(1) S(1)] ends_bind [OF IH(5) S(3)])
  qed (simp add: factor_body_def)
  have TL: "ends (evaluate vars (Suc n) (Term_loop v s))" if "4 * length s + 1 \<le> Suc n" for v s
  proof (cases "skip_blanks s")
    case (Cons c r)
    then have "length r < length s"
      by (rule skip_blanks_Cons)
    then show ?thesis
      using Cons that by (auto simp: term_body_def split: option.split intro!: ends_bind [OF IH(1) S(1)] IH(2))
  qed (simp add: term_body_def)
  have EL: "ends (evaluate vars (Suc n) (Expr_loop v s))" if "4 * length s + 1 \<le> Suc n" for v s
  proof (cases "skip_blanks s")
    case (Cons c r)
    then have "length r < length s"
      by (rule skip_blanks_Cons)
    then show ?thesis
      using Cons that by (auto simp: expr_body_def intro!: ends_bind [OF IH(3) S(2)] IH(4))
  qed (simp add: expr_body_def)
  have "ends (evaluate vars (Suc n) (Term s))" if "4 * length s + 2 \<le> Suc n" for s
    using that by (auto intro!: ends_bind [OF IH(1) S(1)] IH(2))
  moreover have "ends (evaluate vars (Suc n) (Expr s))" if "4 * length s + 3 \<le> Suc n" for s
    using that by (auto intro!: ends_bind [OF IH(3) S(2)] IH(4))
  ultimately show ?case
    using F TL EL by blast
qed simp

section \<open>The evaluator without a bound\<close>

definition need :: "call \<Rightarrow> nat" where
  "need c = (case c of Factor s \<Rightarrow> 4 * length s + 1 | Term_loop v s \<Rightarrow> 4 * length s + 1 | Term s \<Rightarrow> 4 * length s + 2
     | Expr_loop v s \<Rightarrow> 4 * length s + 1 | Expr s \<Rightarrow> 4 * length s + 3)"

definition run_call :: "u32 list \<Rightarrow> call \<Rightarrow> eval" where
  "run_call vars c = evaluate vars (need c) c"

definition expr :: "u32 list \<Rightarrow> bytes \<Rightarrow> eval" where
  "expr vars s = run_call vars (Expr s)"

lemma run_call_ends: "ends (run_call vars c)"
  using ends_all [of "need c" vars] by (cases c) (simp_all add: run_call_def need_def)

lemma bind_mono:
  assumes "ends (eval_bind e f)" and "ends e \<Longrightarrow> e' = e" and "\<And>v s. e = Val v s \<Longrightarrow> ends (f v s) \<Longrightarrow> f' v s = f v s"
  shows "eval_bind e' f' = eval_bind e f"
  using assms by (cases e) (simp_all add: eval_bind_def ends_def)

lemma evaluate_mono: "ends (evaluate vars n c) \<Longrightarrow> n \<le> m \<Longrightarrow> evaluate vars m c = evaluate vars n c"
proof (induction n arbitrary: m c)
  case 0
  then show ?case
    by (simp add: ends_def)
next
  case (Suc n)
  then obtain k where m: "m = Suc k" "n \<le> k"
    by (cases m) auto
  have IH: "ends (evaluate vars n c) \<Longrightarrow> evaluate vars k c = evaluate vars n c" for c
    using Suc.IH m(2) by blast
  show ?case
    using Suc.prems(1) unfolding m(1)
    by (cases c) (auto simp: factor_body_def term_body_def expr_body_def IH split: list.splits if_splits option.splits
        intro!: bind_mono)
qed

lemma run_call_eq: "need c \<le> n \<Longrightarrow> evaluate vars n c = run_call vars c"
  using evaluate_mono [of vars "need c" c n] run_call_ends [of vars c] by (simp add: run_call_def)

lemma run_call_shorter:
  "shorter (length s) (run_call vars (Factor s))" "shorter (length s) (run_call vars (Term s))" "shorter (length s) (run_call vars (Expr s))"
  using shorter_all by (simp_all add: run_call_def)

lemma bind_cong:
  "e = e' \<Longrightarrow> (\<And>v s. e' = Val v s \<Longrightarrow> f v s = f' v s) \<Longrightarrow> eval_bind e f = eval_bind e' f'"
  by (cases e') (simp_all add: eval_bind_def)

lemma shorterD: "shorter k e \<Longrightarrow> e = Val v r \<Longrightarrow> length r \<le> k"
  by (simp add: shorter_def)

text \<open>The equations of the code.\<close>

lemma run_factor:
  "run_call vars (Factor s) = factor_body vars (\<lambda>s. run_call vars (Expr s)) (\<lambda>s. run_call vars (Factor s)) s"
proof -
  have "run_call vars (Factor s) = evaluate vars (Suc (4 * length s)) (Factor s)"
    by (simp add: run_call_def need_def)
  then show ?thesis
    by (auto simp: factor_body_def need_def run_call_eq split: list.split dest!: skip_blanks_Cons intro!: bind_cong)
qed

lemma run_term: "run_call vars (Term s) = eval_bind (run_call vars (Factor s)) (\<lambda>v s. run_call vars (Term_loop v s))"
proof -
  define n where "n = 4 * length s + 1"
  then have n: "4 * length s + 1 \<le> n"
    by simp
  have "run_call vars (Term s) = eval_bind (evaluate vars n (Factor s)) (\<lambda>v s. evaluate vars n (Term_loop v s))"
    using run_call_eq [of "Term s" "Suc n" vars] by (simp add: need_def) (simp add: n_def)
  then show ?thesis
    using n shorterD [OF run_call_shorter(1), of vars s] by (force simp: need_def run_call_eq intro!: bind_cong)
qed

lemma run_expr: "run_call vars (Expr s) = eval_bind (run_call vars (Term s)) (\<lambda>v s. run_call vars (Expr_loop v s))"
proof -
  define n where "n = 4 * length s + 2"
  then have n: "4 * length s + 2 \<le> n"
    by simp
  have "run_call vars (Expr s) = eval_bind (evaluate vars n (Term s)) (\<lambda>v s. evaluate vars n (Expr_loop v s))"
    using run_call_eq [of "Expr s" "Suc n" vars] by (simp add: need_def) (simp add: n_def)
  then show ?thesis
    using n shorterD [OF run_call_shorter(2), of vars s] by (force simp: need_def run_call_eq intro!: bind_cong)
qed

lemma run_term_loop:
  "run_call vars (Term_loop v s) = term_body (\<lambda>s. run_call vars (Factor s)) (\<lambda>v s. run_call vars (Term_loop v s)) v s"
proof -
  have *: "run_call vars (Term_loop v s) = evaluate vars (Suc (4 * length s)) (Term_loop v s)"
    by (simp add: run_call_def need_def)
  have F: "evaluate vars (4 * length s) (Factor r) = run_call vars (Factor r)" if "skip_blanks s = c # r" for c r
    using skip_blanks_Cons [OF that] by (simp add: run_call_eq need_def)
  have L: "evaluate vars (4 * length s) (Term_loop w q) = run_call vars (Term_loop w q)"
    if "skip_blanks s = c # r" "run_call vars (Factor r) = Val d q" for c r w q d
    using skip_blanks_Cons [OF that(1)] shorterD [OF run_call_shorter(1) that(2)] by (simp add: run_call_eq need_def)
  show ?thesis
    unfolding * by (auto simp: term_body_def F L split: list.split option.split intro!: bind_cong)
qed

lemma run_expr_loop:
  "run_call vars (Expr_loop v s) = expr_body (\<lambda>s. run_call vars (Term s)) (\<lambda>v s. run_call vars (Expr_loop v s)) v s"
proof -
  have *: "run_call vars (Expr_loop v s) = evaluate vars (Suc (4 * length s)) (Expr_loop v s)"
    by (simp add: run_call_def need_def)
  have F: "evaluate vars (4 * length s) (Term r) = run_call vars (Term r)" if "skip_blanks s = c # r" for c r
    using skip_blanks_Cons [OF that] by (simp add: run_call_eq need_def)
  have L: "evaluate vars (4 * length s) (Expr_loop w q) = run_call vars (Expr_loop w q)"
    if "skip_blanks s = c # r" "run_call vars (Term r) = Val d q" for c r w q d
    using skip_blanks_Cons [OF that(1)] shorterD [OF run_call_shorter(2) that(2)] by (simp add: run_call_eq need_def)
  show ?thesis
    unfolding * by (auto simp: expr_body_def F L split: list.split intro!: bind_cong)
qed

section \<open>Expressions and their text\<close>

datatype bop = Plus | Minus | Times | Over | Rem

datatype bexp = Num u32 | Var nat | Neg bexp | Bin bop bexp bexp

fun apply_op :: "bop \<Rightarrow> u32 \<Rightarrow> u32 \<Rightarrow> u32 option" where
  "apply_op Plus a b = Some (a + b)"
| "apply_op Minus a b = Some (a - b)"
| "apply_op Times a b = Some (a * b)"
| "apply_op Over a b = int_div a b"
| "apply_op Rem a b = int_mod a b"

fun aval :: "u32 list \<Rightarrow> bexp \<Rightarrow> u32 option" where
  "aval vars (Num n) = Some n"
| "aval vars (Var i) = Some (vars ! i)"
| "aval vars (Neg a) = map_option uminus (aval vars a)"
| "aval vars (Bin f a b) = (case aval vars a of None \<Rightarrow> None | Some v \<Rightarrow> case aval vars b of None \<Rightarrow> None | Some w \<Rightarrow> apply_op f v w)"

fun op_char :: "bop \<Rightarrow> u8" where
  "op_char Plus = 0x2B"
| "op_char Minus = 0x2D"
| "op_char Times = 0x2A"
| "op_char Over = 0x2F"
| "op_char Rem = 0x25"

fun op_level :: "bop \<Rightarrow> nat" where
  "op_level Plus = 0"
| "op_level Minus = 0"
| "op_level Times = 1"
| "op_level Over = 1"
| "op_level Rem = 1"

text \<open>The text of an expression where an operand of the given level is expected, with \<open>sp\<close> before every token.\<close>

fun show_exp :: "bytes \<Rightarrow> nat \<Rightarrow> bexp \<Rightarrow> bytes" where
  "show_exp sp l (Num n) = sp @ itoa_u n 10 False"
| "show_exp sp l (Var i) = sp @ [0x41 + of_nat i]"
| "show_exp sp l (Neg a) = sp @ [0x2D] @ show_exp sp 2 a"
| "show_exp sp l (Bin f a b) =
     (if l > op_level f then sp @ [0x28] else []) @ show_exp sp (op_level f) a @ sp @ [op_char f]
       @ show_exp sp (op_level f + 1) b @ (if l > op_level f then sp @ [0x29] else [])"

fun wf_exp :: "bexp \<Rightarrow> bool" where
  "wf_exp (Num n) \<longleftrightarrow> True"
| "wf_exp (Var i) \<longleftrightarrow> i < 26"
| "wf_exp (Neg a) \<longleftrightarrow> wf_exp a"
| "wf_exp (Bin f a b) \<longleftrightarrow> wf_exp a \<and> wf_exp b"

definition opt_eval :: "u32 option \<Rightarrow> (u32 \<Rightarrow> eval) \<Rightarrow> eval" where
  "opt_eval x f = (case x of None \<Rightarrow> Trap | Some v \<Rightarrow> f v)"

definition no_digit :: "bytes \<Rightarrow> bool" where
  "no_digit r \<longleftrightarrow> r = [] \<or> \<not> isdigit (hd r)"

definition no_product :: "bytes \<Rightarrow> bool" where
  "no_product r \<longleftrightarrow> (case skip_blanks r of [] \<Rightarrow> True | c # _ \<Rightarrow> c \<noteq> 0x2A \<and> c \<noteq> 0x2F \<and> c \<noteq> 0x25)"

lemma opt_eval_simps [simp]: "opt_eval None f = Trap" "opt_eval (Some v) f = f v"
  "eval_bind Trap g = Trap" "eval_bind (Val v s) g = g v s"
  by (simp_all add: opt_eval_def eval_bind_def)

lemma bind_opt: "eval_bind (opt_eval x f) g = opt_eval x (\<lambda>v. eval_bind (f v) g)"
  by (cases x) simp_all

lemma skip_blanks_idem [simp]: "skip_blanks (skip_blanks s) = skip_blanks s"
  by (induction s) auto

lemma skip_blanks_blank: "set sp \<subseteq> {0x20, 9} \<Longrightarrow> skip_blanks (sp @ s) = skip_blanks s"
  by (induction sp) auto

lemma loop_skip:
  "run_call vars (Term_loop v (skip_blanks r)) = run_call vars (Term_loop v r)"
  "run_call vars (Expr_loop v (skip_blanks r)) = run_call vars (Expr_loop v r)"
  by (simp_all add: run_term_loop [of vars v] run_expr_loop [of vars v] term_body_def expr_body_def)

lemma factor_skip: "set sp \<subseteq> {0x20, 9} \<Longrightarrow> run_call vars (Factor (sp @ s)) = run_call vars (Factor s)"
  by (simp add: run_factor [of vars "sp @ s"] run_factor [of vars s] factor_body_def skip_blanks_blank)

lemma loop_stops: "no_product r \<Longrightarrow> run_call vars (Term_loop v r) = Val v (skip_blanks r)"
  by (auto simp: run_term_loop [of vars v] term_body_def no_product_def split: list.splits)

lemma letter_facts:
  assumes "i < 26"
  shows "isalpha (0x41 + of_nat i)" "letter_index (0x41 + of_nat i) = i" "(0x41 + of_nat i :: u8) \<noteq> 0x28" "(0x41 + of_nat i :: u8) \<noteq> 0x2D"
    "skip_blanks ((0x41 + of_nat i) # s) = (0x41 + of_nat i) # s"
proof -
  define c :: u8 where "c = 0x41 + of_nat i"
  have u: "unat c = 65 + i"
    using assms by (simp add: c_def unat_word_ariths unat_of_nat)
  then have "isalpha c" "c \<noteq> 0x28" "c \<noteq> 0x2D" "skip_blanks (c # s) = c # s" "toupper c = c"
    using assms by (auto simp: isalpha_def toupper_def word_le_nat_alt)
  moreover have "unat (c - 0x41) = i"
    using assms by (simp add: c_def unat_of_nat)
  ultimately show "isalpha (0x41 + of_nat i)" "(0x41 + of_nat i :: u8) \<noteq> 0x28" "(0x41 + of_nat i :: u8) \<noteq> 0x2D"
      "skip_blanks ((0x41 + of_nat i) # s) = (0x41 + of_nat i) # s" "letter_index (0x41 + of_nat i) = i"
    unfolding c_def [symmetric] by (simp_all add: letter_index_def)
qed

lemma factor_num:
  assumes "no_digit r"
  shows "run_call vars (Factor (itoa_u n 10 False @ r)) = Val n r"
proof -
  obtain c s where cs: "itoa_u n 10 False = c # s"
    using itoa_u_10(1) [of n False] by (cases "itoa_u n 10 False") auto
  have d: "isdigit c"
    using itoa_u_10(2) [of n False] cs by simp
  then have c: "c \<noteq> 0x28" "\<not> isalpha c" "c \<noteq> 0x2D" "c \<noteq> 0x20" "c \<noteq> 9"
    by (auto simp: isdigit_def isalpha_def word_le_nat_alt)
  have "atoi_digits 0 (itoa_u n 10 False @ r) = n"
    using atoi_digits_append [OF itoa_u_10(2)] itoa_u_10(3) [of n False] assms
    by (cases r) (simp_all add: no_digit_def)
  moreover have "dropWhile isdigit (itoa_u n 10 False @ r) = r"
    using itoa_u_10(2) [of n False] assms by (cases r) (simp_all add: no_digit_def dropWhile_append2)
  ultimately show ?thesis
    using c unfolding cs by (simp add: run_factor [of vars "c # s @ r"] factor_body_def)
qed

text \<open>The three levels of the evaluator on the text of an expression.\<close>

definition reads_factor :: "u32 list \<Rightarrow> bytes \<Rightarrow> u32 option \<Rightarrow> bool" where
  "reads_factor vars s x \<longleftrightarrow> (\<forall>r. no_digit r \<longrightarrow> run_call vars (Factor (s @ r)) = opt_eval x (\<lambda>v. Val v r))"

definition reads_term :: "u32 list \<Rightarrow> bytes \<Rightarrow> u32 option \<Rightarrow> bool" where
  "reads_term vars s x \<longleftrightarrow>
     (\<forall>r. no_digit r \<longrightarrow> run_call vars (Term (s @ r)) = opt_eval x (\<lambda>v. run_call vars (Term_loop v r)))"

definition reads_expr :: "u32 list \<Rightarrow> bytes \<Rightarrow> u32 option \<Rightarrow> bool" where
  "reads_expr vars s x \<longleftrightarrow>
     (\<forall>r. no_digit r \<longrightarrow> no_product r \<longrightarrow> run_call vars (Expr (s @ r)) = opt_eval x (\<lambda>v. run_call vars (Expr_loop v r)))"

lemma term_of_factor: "reads_factor vars s x \<Longrightarrow> reads_term vars s x"
  by (simp add: reads_factor_def reads_term_def run_term bind_opt)

lemma expr_of_term: "reads_term vars s x \<Longrightarrow> reads_expr vars s x"
  by (simp add: reads_term_def reads_expr_def run_expr bind_opt loop_stops loop_skip)

lemma blank_stop:
  assumes "set sp \<subseteq> {0x20, 9}" and "\<not> isdigit c" and "c \<noteq> 0x20" and "c \<noteq> 9"
  shows "no_digit (sp @ c # r)" and "skip_blanks (sp @ c # r) = c # r"
proof -
  show "no_digit (sp @ c # r)"
    using assms(1,2) by (cases sp) (auto simp: no_digit_def isdigit_def)
  show "skip_blanks (sp @ c # r) = c # r"
    using skip_blanks_blank [OF assms(1)] assms(3,4) by simp
qed

lemma factor_of_expr:
  assumes "reads_expr vars s x" and sp: "set sp \<subseteq> {0x20, 9}"
  shows "reads_factor vars (sp @ [0x28] @ s @ sp @ [0x29]) x"
  unfolding reads_factor_def
proof (intro allI impI)
  fix r :: bytes
  let ?r = "sp @ 0x29 # r"
  have close: "no_digit ?r" "skip_blanks ?r = 0x29 # r"
    using blank_stop [OF sp, of "0x29" r] by (simp_all add: isdigit_def)
  then have "no_product ?r"
    by (simp add: no_product_def)
  then have e: "run_call vars (Expr (s @ ?r)) = opt_eval x (\<lambda>v. run_call vars (Expr_loop v ?r))"
    using assms(1) close(1) by (simp add: reads_expr_def)
  have "run_call vars (Expr_loop v ?r) = Val v (0x29 # r)" for v
    using close(2) by (simp add: run_expr_loop [of vars v] expr_body_def)
  then show "run_call vars (Factor ((sp @ [0x28] @ s @ sp @ [0x29]) @ r)) = opt_eval x (\<lambda>v. Val v r)"
    using factor_skip [OF sp, of vars "0x28 # s @ ?r"] e
    by (simp add: run_factor [of vars "0x28 # s @ ?r"] factor_body_def bind_opt)
qed

lemma product_text:
  assumes a: "reads_term vars s x" and b: "reads_factor vars u y" and f: "op_level f = 1" and sp: "set sp \<subseteq> {0x20, 9}"
  shows "reads_term vars (s @ sp @ [op_char f] @ u)
    (case x of None \<Rightarrow> None | Some v \<Rightarrow> case y of None \<Rightarrow> None | Some w \<Rightarrow> apply_op f v w)"
  unfolding reads_term_def
proof (intro allI impI)
  fix r :: bytes
  assume r: "no_digit r"
  let ?r = "sp @ op_char f # u @ r"
  have op: "no_digit ?r" "skip_blanks ?r = op_char f # u @ r"
    using blank_stop [OF sp, of "op_char f" "u @ r"] by (cases f; simp add: isdigit_def)+
  have "run_call vars (Factor (u @ r)) = opt_eval y (\<lambda>v. Val v r)"
    using b r by (simp add: reads_factor_def)
  then have "run_call vars (Term_loop v ?r) = opt_eval (case y of None \<Rightarrow> None | Some w \<Rightarrow> apply_op f v w) (\<lambda>v. run_call vars (Term_loop v r))" for v
    unfolding run_term_loop [of vars v ?r] term_body_def op(2) using f by (cases f; cases y) (simp_all add: opt_eval_def)
  then show "run_call vars (Term ((s @ sp @ [op_char f] @ u) @ r)) =
      opt_eval (case x of None \<Rightarrow> None | Some v \<Rightarrow> case y of None \<Rightarrow> None | Some w \<Rightarrow> apply_op f v w) (\<lambda>v. run_call vars (Term_loop v r))"
    using a op(1) by (cases x) (simp_all add: reads_term_def)
qed

lemma sum_text:
  assumes a: "reads_expr vars s x" and b: "reads_term vars u y" and f: "op_level f = 0" and sp: "set sp \<subseteq> {0x20, 9}"
  shows "reads_expr vars (s @ sp @ [op_char f] @ u)
    (case x of None \<Rightarrow> None | Some v \<Rightarrow> case y of None \<Rightarrow> None | Some w \<Rightarrow> apply_op f v w)"
  unfolding reads_expr_def
proof (intro allI impI)
  fix r :: bytes
  assume r: "no_digit r" "no_product r"
  let ?r = "sp @ op_char f # u @ r"
  have op: "no_digit ?r" "skip_blanks ?r = op_char f # u @ r"
    using blank_stop [OF sp, of "op_char f" "u @ r"] f by (cases f; simp add: isdigit_def)+
  have "no_product ?r"
    using f op(2) by (cases f) (simp_all add: no_product_def)
  have "run_call vars (Term (u @ r)) = opt_eval y (\<lambda>v. Val v (skip_blanks r))"
    using b r loop_stops [OF r(2)] by (simp add: reads_term_def)
  then have "run_call vars (Expr_loop v ?r) = opt_eval (case y of None \<Rightarrow> None | Some w \<Rightarrow> apply_op f v w) (\<lambda>v. run_call vars (Expr_loop v r))" for v
    unfolding run_expr_loop [of vars v ?r] expr_body_def op(2) using f by (cases f; cases y) (simp_all add: loop_skip)
  then show "run_call vars (Expr ((s @ sp @ [op_char f] @ u) @ r)) =
      opt_eval (case x of None \<Rightarrow> None | Some v \<Rightarrow> case y of None \<Rightarrow> None | Some w \<Rightarrow> apply_op f v w) (\<lambda>v. run_call vars (Expr_loop v r))"
    using a op(1) \<open>no_product ?r\<close> by (cases x) (simp_all add: reads_expr_def)
qed

lemma show_exp_levels: "op_level f < l \<Longrightarrow> op_level f < m \<Longrightarrow> show_exp sp l (Bin f a b) = show_exp sp m (Bin f a b)"
  by simp

lemma reads_exp:
  assumes sp: "set sp \<subseteq> {0x20, 9}" and "wf_exp e"
  shows "reads_factor vars (show_exp sp 2 e) (aval vars e) \<and> reads_term vars (show_exp sp 1 e) (aval vars e)
    \<and> reads_expr vars (show_exp sp 0 e) (aval vars e)"
  using assms(2)
proof (induction e)
  case (Num n)
  have "reads_factor vars (sp @ itoa_u n 10 False) (Some n)"
    using factor_skip [OF sp] factor_num by (simp add: reads_factor_def)
  then show ?case
    using term_of_factor expr_of_term by auto
next
  case (Var i)
  then have "reads_factor vars (sp @ [0x41 + of_nat i]) (Some (vars ! i))"
    using factor_skip [OF sp] letter_facts [of i]
    by (simp add: reads_factor_def run_factor [of vars "_ # _"] factor_body_def)
  then show ?case
    using term_of_factor expr_of_term by auto
next
  case (Neg a)
  then have "reads_factor vars (show_exp sp 2 a) (aval vars a)"
    by simp
  then have "reads_factor vars (sp @ [0x2D] @ show_exp sp 2 a) (map_option uminus (aval vars a))"
    using factor_skip [OF sp]
    by (cases "aval vars a") (simp_all add: reads_factor_def run_factor [of vars "0x2D # _"] factor_body_def)
  then show ?case
    using term_of_factor expr_of_term by auto
next
  case (Bin f a b)
  let ?x = "aval vars (Bin f a b)"
  consider "op_level f = 0" | "op_level f = 1"
    by (cases f) auto
  then show ?case
  proof cases
    case 1
    then have e: "reads_expr vars (show_exp sp 0 (Bin f a b)) ?x"
      using Bin sum_text [OF _ _ 1 sp] by simp
    then have r: "reads_factor vars (show_exp sp 2 (Bin f a b)) ?x"
      using factor_of_expr [OF e sp] 1 by simp
    have "show_exp sp 2 (Bin f a b) = show_exp sp 1 (Bin f a b)"
      by (rule show_exp_levels) (simp_all add: 1)
    then show ?thesis
      using e r term_of_factor [OF r] by (simp only: simp_thms)
  next
    case 2
    then have t: "reads_term vars (show_exp sp 1 (Bin f a b)) ?x"
      using Bin product_text [OF _ _ 2 sp] by (simp add: numeral_2_eq_2)
    then have e: "reads_expr vars (show_exp sp 0 (Bin f a b)) ?x"
      using expr_of_term [OF t] 2 by simp
    then have "reads_factor vars (show_exp sp 2 (Bin f a b)) ?x"
      using factor_of_expr [OF e sp] 2 by simp
    then show ?thesis
      using e t by blast
  qed
qed

text \<open>
  C12. The evaluator on the text of an expression, with the usual levels of the operators, operators of one level
  taken from the left, and blanks before the tokens: it reads the whole text and yields the value of the expression in
  32-bit arithmetic, a quotient or remainder by zero being zero; it faults exactly where a quotient or
  remainder that is evaluated does not exist in 32 bits.
\<close>

theorem expr_evaluates:
  assumes "set sp \<subseteq> {0x20, 9}" and "wf_exp e"
  shows "expr vars (show_exp sp 0 e) = (case aval vars e of None \<Rightarrow> Trap | Some v \<Rightarrow> Val v [])"
proof -
  have "run_call vars (Expr (show_exp sp 0 e @ [])) = opt_eval (aval vars e) (\<lambda>v. run_call vars (Expr_loop v []))"
    using reads_exp [OF assms] unfolding reads_expr_def by (simp add: no_digit_def no_product_def)
  then show ?thesis
    by (simp add: expr_def run_expr_loop [of vars _ "[]"] expr_body_def opt_eval_def)
qed

theorem expr_evaluates_witness:
  "expr [7] (ascii '' 10 - A % 4 * ( 2 - 5 )'') = Val 19 []"
proof -
  let ?e = "Bin Minus (Num 10) (Bin Times (Bin Rem (Var 0) (Num 4)) (Bin Minus (Num 2) (Num 5)))"
  have one: "tmp_digits False 10 n = [0x30 + ucast n]" if "n < 10" "n \<noteq> 0" for n
  proof -
    have "n mod 10 = n" "n div 10 = 0"
      using that by (simp_all add: word_less_nat_alt word_unat_eq_iff unat_mod unat_div)
    then show ?thesis
      using that by (simp add: tmp_digits.simps [of False 10 n] tmp_digits.simps [of False 10 0] dig_def word_less_nat_alt)
  qed
  have "tmp_digits False 10 10 = [0x30, 0x31]"
    using one [of 1] by (simp add: tmp_digits.simps [of False 10 10] dig_def word_less_nat_alt)
  then have "show_exp [0x20] 0 ?e = ascii '' 10 - A % 4 * ( 2 - 5 )''"
    by (simp add: ascii_def itoa_u_def one)
  moreover have "aval [7] ?e = Some 19"
    by (simp add: int_mod_def)
  ultimately show ?thesis
    using expr_evaluates [of "[0x20]" ?e "[7]"] by simp
qed

text \<open>
  C21. The evaluation of any line ends: calls never nest deeper than four times the length of the text plus three, and
  the rest of the line is no longer than the line.
\<close>

theorem expr_terminates:
  "expr vars s \<noteq> More \<and> (\<forall>n \<ge> 4 * length s + 3. evaluate vars n (Expr s) = expr vars s)
    \<and> (\<forall>v r. expr vars s = Val v r \<longrightarrow> length r \<le> length s)"
  using run_call_ends [of vars "Expr s"] run_call_eq [of "Expr s"] shorterD [OF run_call_shorter(3) [of s vars]]
  by (auto simp: expr_def ends_def need_def)

theorem expr_terminates_witness: "evaluate [] 100 (Expr (ascii ''((1 +'')) = expr [] (ascii ''((1 +'')"
  using expr_terminates [of "[]" "ascii ''((1 +''"] by (simp add: ascii_def del: evaluate.simps)

end
