(* ===== verification/BasicProgram.thy ===== *)
theory BasicProgram
  imports Basic
begin

text \<open>
  The statements and the program store of the BASIC interpreter, \<^verbatim>\<open>user/bin/basic.c\<close>. The table
  \<^verbatim>\<open>program\<close> with \<^verbatim>\<open>count\<close> is the list of its lines; output is collected in \<open>out\<close> and the console
  input is \<open>inp\<close>. \<open>None\<close> stands for a fault of the processor, an access outside an array, or a program that
  runs forever.
\<close>

section \<open>State\<close>

definition MAXLINES :: nat where
  "MAXLINES = 256"

definition LINELEN :: nat where
  "LINELEN = 128"

type_synonym listing = "(int \<times> bytes) list"

record basic =
  program :: listing
  vars :: "u32 list"
  out :: bytes
  inp :: bytes

definition emit :: "bytes \<Rightarrow> basic \<Rightarrow> basic" where
  "emit w b = b\<lparr>out := out b @ w\<rparr>"

text \<open>The character under \<^verbatim>\<open>ep\<close>; at the end it is the terminator.\<close>

definition peek :: "bytes \<Rightarrow> u8" where
  "peek ep = (case ep of [] \<Rightarrow> 0 | c # _ \<Rightarrow> c)"

definition starts :: "string \<Rightarrow> bytes \<Rightarrow> bool" where
  "starts w ep \<longleftrightarrow> take (length w) ep = ascii w"

section \<open>The program store\<close>

fun find_from :: "nat \<Rightarrow> int \<Rightarrow> listing \<Rightarrow> int" where
  "find_from i n [] = - 1"
| "find_from i n ((k, t) # p) = (if k = n then int i else find_from (i + 1) n p)"

definition find_line :: "int \<Rightarrow> listing \<Rightarrow> int" where
  "find_line n p = find_from 0 n p"

text \<open>\<open>None\<close>: the copy overruns the text of an existing line.\<close>

definition store :: "int \<Rightarrow> bytes \<Rightarrow> listing \<Rightarrow> listing option" where
  "store n s p =
     (let at = length (takeWhile (\<lambda>l. fst l < n) p); found = (at < length p \<and> fst (p ! at) = n) in
      if s = [] then Some (if found then take at p @ drop (at + 1) p else p)
      else if found then (if length s < LINELEN then Some (p[at := (n, s)]) else None)
      else if length p < MAXLINES then Some (take at p @ [(n, take (LINELEN - 1) s)] @ drop at p)
      else Some p)"

section \<open>Statements\<close>

text \<open>The condition of \<^verbatim>\<open>IF\<close> and the text behind \<^verbatim>\<open>THEN\<close>; \<open>None\<close> where an evaluation faults.\<close>

definition if_parts :: "u32 list \<Rightarrow> bytes \<Rightarrow> (bool \<times> bytes) option" where
  "if_parts vs ep =
     (case expr vs ep of
        Val a ep \<Rightarrow>
          let ep = skip_blanks ep; c = peek ep in
          map_option (\<lambda>(ok, ep). let ep = skip_blanks ep in (ok, if starts ''THEN'' ep then drop 4 ep else ep))
            (if c = 0x3D \<or> c = 0x3C \<or> c = 0x3E then
               (case expr vs (tl ep) of
                  Val d ep \<Rightarrow> Some (if c = 0x3D then a = d else if c = 0x3C then sint a < sint d else sint a > sint d, ep)
                | _ \<Rightarrow> None)
             else Some (False, ep))
      | _ \<Rightarrow> None)"

lemma expr_rest: "expr vs s = Val v r \<Longrightarrow> length r \<le> length s"
  using shorterD [OF run_call_shorter(3)] by (simp add: expr_def)

lemma if_parts_rest:
  assumes "if_parts vs ep = Some (b, r)"
  shows "length r \<le> length ep"
proof -
  obtain a ep1 where 1: "expr vs ep = Val a ep1"
    using assms by (auto simp: if_parts_def split: eval.splits)
  define q where "q = skip_blanks ep1"
  have q: "length q \<le> length ep"
    using expr_rest [OF 1] skip_blanks_length [of ep1] by (simp add: q_def)
  obtain ep2 where r: "r = skip_blanks ep2 \<or> r = drop 4 (skip_blanks ep2)" and 2: "ep2 = q \<or> (\<exists>d. expr vs (tl q) = Val d ep2)"
    using assms 1 by (fastforce simp: if_parts_def Let_def q_def [symmetric] split: if_splits eval.splits)
  have "length ep2 \<le> length q"
    using 2 expr_rest [of vs "tl q" _ ep2] by fastforce
  then show ?thesis
    using r q skip_blanks_length [of ep2] by auto
qed

lemma if_shrinks:
  assumes "if_parts vs (drop 2 (skip_blanks (if starts ''LET'' (skip_blanks s) then drop 3 (skip_blanks s) else skip_blanks s))) = Some (ok, r)"
    and "starts ''IF'' (skip_blanks (if starts ''LET'' (skip_blanks s) then drop 3 (skip_blanks s) else skip_blanks s))"
  shows "length (skip_blanks r) < length s"
proof -
  define q where "q = skip_blanks (if starts ''LET'' (skip_blanks s) then drop 3 (skip_blanks s) else skip_blanks s)"
  have "take 2 q = ascii ''IF''"
    using assms(2) [folded q_def] by (simp add: starts_def numeral_2_eq_2)
  then have "2 \<le> length q"
    by (cases "2 \<le> length q") (auto simp: ascii_def)
  moreover have "length q \<le> length s"
    using skip_blanks_length [of s] skip_blanks_length [of "drop 3 (skip_blanks s)"] by (auto simp: q_def)
  moreover have "length r \<le> length (drop 2 q)"
    by (rule if_parts_rest [OF assms(1) [folded q_def]])
  ultimately show ?thesis
    using skip_blanks_length [of r] by simp
qed

text \<open>The result is the number \<^verbatim>\<open>command\<close> returns, with the value of \<^verbatim>\<open>*jump\<close>.\<close>

function command :: "bytes \<Rightarrow> int \<Rightarrow> basic \<Rightarrow> (int \<times> int \<times> basic) option" where
  "command s jump b =
     (let ep = skip_blanks s in
      if starts ''REM'' ep \<or> peek ep = 0x27 then Some (0, jump, b)
      else if starts ''PRINT'' ep \<or> peek ep = 0x3F then
        (let ep = skip_blanks (if peek ep = 0x3F then tl ep else drop 5 ep) in
         if peek ep = 0x22 then Some (0, jump, emit (takeWhile (\<lambda>c. c \<noteq> 0x22) (tl ep) @ [10]) b)
         else case expr (vars b) ep of Val v _ \<Rightarrow> Some (0, jump, emit (itoa_s v @ [10]) b) | _ \<Rightarrow> None)
      else if starts ''INPUT'' ep then
        (let c = peek (skip_blanks (drop 5 ep)); b = emit (ascii ''? '') b; (line, rest) = getline 32 (inp b); b = b\<lparr>inp := rest\<rparr>
         in Some (0, jump, if isalpha c then b\<lparr>vars := (vars b)[letter_index c := atoi (cstr line)]\<rparr> else b))
      else let ep = skip_blanks (if starts ''LET'' ep then drop 3 ep else ep) in
      if isalpha (peek ep) \<and> (peek (tl ep) = 0x20 \<or> peek (tl ep) = 0x3D) then
        (let q = skip_blanks (tl ep); q = (if peek q = 0x3D then tl q else q) in
         case expr (vars b) q of Val v _ \<Rightarrow> Some (0, jump, b\<lparr>vars := (vars b)[letter_index (peek ep) := v]\<rparr>) | _ \<Rightarrow> None)
      else if starts ''GOTO'' ep then
        (case expr (vars b) (drop 4 ep) of
           Val v _ \<Rightarrow> let j = find_line (sint v) (program b) in Some (if j < 0 then 1 else 2, j, b)
         | _ \<Rightarrow> None)
      else if starts ''IF'' ep then
        (case if_parts (vars b) (drop 2 ep) of
           None \<Rightarrow> None
         | Some (ok, ep) \<Rightarrow>
             if ok then
               (let ep = skip_blanks ep in
                if isdigit (peek ep) then
                  (case expr (vars b) ep of Val v _ \<Rightarrow> Some (2, find_line (sint v) (program b), b) | _ \<Rightarrow> None)
                else command ep jump b)
             else Some (0, jump, b))
      else if starts ''END'' ep \<or> starts ''STOP'' ep then Some (3, jump, b)
      else Some (1, jump, b))"
  by pat_completeness auto
termination
proof (relation "measure (\<lambda>(s, jump, b). length s)", goal_cases)
  case (2 s jump b ep q x2 ok rest t)
  have "length (skip_blanks rest) < length s"
    by (rule if_shrinks [of "vars b" s ok]) (simp_all only: 2(1) [symmetric] 2(5) [symmetric] 2(8,9,10))
  then show ?case
    using 2(12) by simp
qed simp

declare command.simps [simp del]

section \<open>Programs\<close>

partial_function (option) run_loop :: "int \<Rightarrow> basic \<Rightarrow> basic option" where
  "run_loop pc b =
     (if pc \<ge> int (length (program b)) then Some b
      else if pc < 0 then None
      else case command (snd (program b ! nat pc)) (- 1) b of
        None \<Rightarrow> None
      | Some (r, j, b) \<Rightarrow>
          if r = 3 then Some b
          else if r = 2 then run_loop j b
          else run_loop (pc + 1)
            (if r = 1 then emit (ascii ''Error at '' @ itoa_s (word_of_int (fst (program b ! nat pc))) @ [10]) b else b))"

declare run_loop.simps [code]

definition run :: "basic \<Rightarrow> basic option" where
  "run b = run_loop 0 (b\<lparr>vars := replicate 26 0\<rparr>)"

definition list_lines :: "listing \<Rightarrow> bytes" where
  "list_lines p = concat (map (\<lambda>(n, t). itoa_s (word_of_int n) @ [0x20] @ t @ [10]) p)"

text \<open>A numbered line of text: \<open>no\<close> and the text behind the digits and blanks.\<close>

definition store_line :: "bytes \<Rightarrow> listing \<Rightarrow> listing option" where
  "store_line line p =
     (let s = cstr line; no = atoi s in
      if no \<noteq> 0 then store (sint no) (dropWhile (\<lambda>c. c = 0x20) (dropWhile isdigit s)) p else Some p)"

text \<open>\<^verbatim>\<open>load\<close> of the bytes of a file; \<open>line\<close> are the characters of the current line.\<close>

fun load_loop :: "bytes \<Rightarrow> bytes \<Rightarrow> listing \<Rightarrow> listing option" where
  "load_loop line [] p = (if line \<noteq> [] then store_line line p else Some p)"
| "load_loop line (c # cs) p =
     (if c = 13 then load_loop line cs p
      else if c = 10 then (case store_line line p of None \<Rightarrow> None | Some p \<Rightarrow> load_loop [] cs p)
      else load_loop (if length line < LINELEN - 1 then line @ [c] else line) cs p)"

definition load :: "bytes \<Rightarrow> listing \<Rightarrow> listing option" where
  "load file p = load_loop [] file p"

text \<open>The digits of a line number in \<^verbatim>\<open>save\<close>, least significant first, and the bytes it writes.\<close>

function rev_digits :: "int \<Rightarrow> bytes" where
  "rev_digits n = word_of_int (48 + n smod 10) # (if n sdiv 10 = 0 then [] else rev_digits (n sdiv 10))"
  by pat_completeness auto
termination
proof (relation "measure (\<lambda>n. nat \<bar>n\<bar>)")
  fix n :: int
  assume "n sdiv 10 \<noteq> 0"
  then show "(n sdiv 10, n) \<in> measure (\<lambda>n. nat \<bar>n\<bar>)"
    by (auto simp: signed_divide_int_def sgn_if abs_mult)
qed simp

declare rev_digits.simps [simp del]

definition save :: "listing \<Rightarrow> bytes" where
  "save p = concat (map (\<lambda>(n, t). rev (rev_digits n) @ [0x20] @ t @ [10]) p)"

text \<open>
  One line typed at the prompt, with the files as a parameter: \<open>rd\<close> yields the bytes of a file that can be
  opened and \<open>wr\<close> whether a file was written. The result tells whether the interpreter goes on.
\<close>

definition main_line ::
  "(bytes \<Rightarrow> 'k \<Rightarrow> bytes option) \<Rightarrow> (bytes \<Rightarrow> bytes \<Rightarrow> 'k \<Rightarrow> bool \<times> 'k) \<Rightarrow> bytes \<Rightarrow> basic \<Rightarrow> 'k \<Rightarrow> (bool \<times> basic \<times> 'k) option"
where
  "main_line rd wr line b k =
     (let go = map_option (\<lambda>b. (True, b, k)) in
      if isdigit (peek line) then
        go (map_option (\<lambda>p. b\<lparr>program := p\<rparr>)
          (store (sint (atoi line)) (dropWhile (\<lambda>c. c = 0x20) (dropWhile isdigit line)) (program b)))
      else if line = ascii ''RUN'' then go (run b)
      else if line = ascii ''LIST'' then go (Some (emit (list_lines (program b)) b))
      else if line = ascii ''NEW'' then go (Some (b\<lparr>program := []\<rparr>))
      else if starts ''LOAD '' line then
        (let b = b\<lparr>program := []\<rparr> in
         case rd (drop 5 line) k of
           None \<Rightarrow> go (Some (emit (ascii ''Cannot load'' @ [10]) b))
         | Some file \<Rightarrow> go (map_option (\<lambda>p. b\<lparr>program := p\<rparr>) (load file [])))
      else if starts ''SAVE '' line then
        (let (ok, k) = wr (drop 5 line) (save (program b)) k
         in Some (True, if ok then b else emit (ascii ''Cannot save'' @ [10]) b, k))
      else if line = ascii ''BYE'' \<or> line = ascii ''EXIT'' then Some (False, b, k)
      else go (map_option (\<lambda>(r, j, b). if r = 1 then emit (ascii ''Syntax error'' @ [10]) b else b) (command line (- 1) b)))"

section \<open>The store is a map\<close>

abbreviation sorted_lines :: "listing \<Rightarrow> bool" where
  "sorted_lines p \<equiv> sorted_wrt (<) (map fst p)"

lemma store_split:
  assumes "a = takeWhile (\<lambda>l. fst l < n) p" and "z = dropWhile (\<lambda>l. fst l < n) p"
  shows "store n s p =
    (case z of
       [] \<Rightarrow> if s = [] then Some p else if length p < MAXLINES then Some (a @ [(n, take (LINELEN - 1) s)]) else Some p
     | (k, t) # y \<Rightarrow>
         if k = n then (if s = [] then Some (a @ y) else if length s < LINELEN then Some (a @ (n, s) # y) else None)
         else if s = [] then Some p else if length p < MAXLINES then Some (a @ (n, take (LINELEN - 1) s) # z) else Some p)"
proof -
  have p: "p = a @ z"
    using assms by simp
  have l: "length (takeWhile (\<lambda>l. fst l < n) p) = length a"
    using assms by simp
  show ?thesis
    unfolding store_def Let_def l by (simp add: p list_update_append split: list.split)
qed

lemma sorted_lines_parts:
  assumes "sorted_lines p" and "a = takeWhile (\<lambda>l. fst l < n) p" and "z = dropWhile (\<lambda>l. fst l < n) p"
  shows "p = a @ z" and "\<forall>x\<in>fst ` set a. x < n" and "sorted_lines a" and "sorted_lines z" and "\<forall>x\<in>fst ` set z. n \<le> x"
proof -
  show p: "p = a @ z"
    using assms by simp
  then have s: "sorted_lines a" "sorted_lines z"
    using assms(1) by (simp_all add: sorted_wrt_append)
  then show "sorted_lines a" "sorted_lines z"
    by simp_all
  show "\<forall>x\<in>fst ` set a. x < n"
    using set_takeWhileD assms(2) by fastforce
  show "\<forall>x\<in>fst ` set z. n \<le> x"
  proof (cases z)
    case (Cons l y)
    then have "n \<le> fst l"
      using hd_dropWhile [of "\<lambda>l. fst l < n" p] assms(3) by auto
    then show ?thesis
      using s(2) Cons by auto
  qed simp
qed

lemma map_of_less: "\<forall>x\<in>fst ` set a. x < (n :: int) \<Longrightarrow> map_of a n = None"
  by (force simp: map_of_eq_None_iff)

text \<open>
  C18. The program store as a map from line numbers to texts: a line with an empty text is deleted, a line with any other
  text of at most 127 characters is entered or replaced, unless it is new and the store is full; every other
  line is kept, the lines stay sorted by their numbers, and there are never more than 256 of them.
\<close>

theorem store_refines_map:
  assumes "sorted_lines p" and "length p \<le> MAXLINES" and "length s < LINELEN"
  shows "\<exists>q. store n s p = Some q \<and> sorted_lines q \<and> length q \<le> MAXLINES
    \<and> map_of q = (if s = [] then (map_of p)(n := None)
        else if n \<in> dom (map_of p) \<or> length p < MAXLINES then (map_of p)(n \<mapsto> s) else map_of p)"
proof -
  define a z where "a = takeWhile (\<lambda>l. fst l < n) p" and "z = dropWhile (\<lambda>l. fst l < n) p"
  note parts = sorted_lines_parts [OF assms(1) a_def z_def] and split = store_split [OF a_def z_def, of s]
  have a: "map_of a n = None"
    using parts(2) by (rule map_of_less)
  show ?thesis
  proof (cases "z \<noteq> [] \<and> fst (hd z) = n")
    case True
    then obtain t y where z: "z = (n, t) # y"
      by (cases z) auto
    have "map_of p n = Some t"
      using parts(1) a z by (simp add: map_add_def)
    then have "n \<in> dom (map_of p)"
      by blast
    moreover have "\<forall>x\<in>fst ` set y. n < x" "map_of y n = None"
      using parts(4) z by (force simp: map_of_eq_None_iff)+
    ultimately show ?thesis
      using assms(2,3) parts a split unfolding z
      by (auto simp: sorted_wrt_append map_add_def fun_eq_iff split: option.split) fastforce+
  next
    case False
    then have z: "\<forall>x\<in>fst ` set z. n < x"
      using parts(4,5) by (cases z) fastforce+
    then have n: "map_of p n = None"
      using parts(1) a by (force simp: map_of_eq_None_iff)
    then have "(map_of p)(n := None) = map_of p" "n \<notin> dom (map_of p)"
      by auto
    moreover have "map_of (a @ (n, s) # z) = (map_of p)(n \<mapsto> s)"
      using a parts(1) by (auto simp: map_add_def fun_eq_iff split: option.split)
    moreover have "sorted_lines (a @ (n, s) # z)"
      using parts z by (fastforce simp: sorted_wrt_append)
    ultimately show ?thesis
      using assms split False parts(1) by (cases z) auto
  qed
qed

definition three_lines :: listing where
  "three_lines = [(10, ascii ''PRINT A''), (20, ascii ''A=A+1''), (30, ascii ''GOTO 10'')]"

theorem store_refines_map_witness:
  "\<exists>q. store 20 (ascii ''END'') three_lines = Some q \<and> sorted_lines q \<and> map_of q 20 = Some (ascii ''END'') \<and> map_of q 30 = Some (ascii ''GOTO 10'')"
proof -
  have "sorted_lines three_lines" "length three_lines \<le> MAXLINES" "length (ascii ''END'') < LINELEN"
      "20 \<in> dom (map_of three_lines)" "ascii ''END'' \<noteq> []" "map_of three_lines 30 = Some (ascii ''GOTO 10'')"
    by (simp_all add: three_lines_def MAXLINES_def LINELEN_def ascii_def)
  then show ?thesis
    using store_refines_map [of three_lines "ascii ''END''" 20] by auto
qed

section \<open>Saving and loading\<close>

lemma digit_cases:
  assumes "0 \<le> m" and "m < 10"
  shows "isdigit (word_of_int (48 + m))" and "ucast (word_of_int (48 + m) - 0x30 :: u8) = (word_of_int m :: u32)"
proof -
  have "m = 0 \<or> m = 1 \<or> m = 2 \<or> m = 3 \<or> m = 4 \<or> m = 5 \<or> m = 6 \<or> m = 7 \<or> m = 8 \<or> m = 9"
    using assms by arith
  then show "isdigit (word_of_int (48 + m))" "ucast (word_of_int (48 + m) - 0x30 :: u8) = (word_of_int m :: u32)"
    by (elim disjE; simp add: isdigit_def)+
qed

lemma rev_digits_facts:
  "0 \<le> n \<Longrightarrow> rev_digits n \<noteq> [] \<and> (\<forall>c\<in>set (rev_digits n). isdigit c) \<and> atoi_digits 0 (rev (rev_digits n)) = word_of_int n"
proof (induction n rule: rev_digits.induct)
  case (1 n)
  let ?m = "n mod 10"
  have sd: "n sdiv 10 = n div 10" "n smod 10 = ?m"
    using 1(2) by (simp_all add: signed_divide_int_def signed_modulo_int_def sgn_if minus_div_mult_eq_mod [symmetric])
  have m: "isdigit (word_of_int (48 + ?m))" "ucast (word_of_int (48 + ?m) - 0x30 :: u8) = (word_of_int ?m :: u32)"
    using digit_cases [of ?m] by simp_all
  show ?case
  proof (cases "n div 10 = 0")
    case True
    then have "?m = n"
      using 1(2) by presburger
    then show ?thesis
      using m True by (simp add: rev_digits.simps [of n] sd)
  next
    case False
    then have IH: "\<forall>c\<in>set (rev_digits (n div 10)). isdigit c" "atoi_digits 0 (rev (rev_digits (n div 10))) = word_of_int (n div 10)"
      using 1 sd by (simp_all add: pos_imp_zdiv_nonneg_iff)
    have "(word_of_int (n div 10) * 10 + word_of_int ?m :: u32) = word_of_int (n div 10 * 10 + ?m)"
      by (simp only: of_int_add of_int_mult of_int_numeral)
    then have "(word_of_int (n div 10) * 10 + word_of_int ?m :: u32) = word_of_int n"
      by (simp only: div_mult_mod_eq)
    then show ?thesis
      using m False IH by (simp add: rev_digits.simps [of n] sd atoi_digits_append)
  qed
qed

definition wf_line :: "int \<times> bytes \<Rightarrow> bool" where
  "wf_line l \<longleftrightarrow> 0 < fst l \<and> fst l < 2147483648 \<and> snd l \<noteq> [] \<and> hd (snd l) \<noteq> 0x20
     \<and> 0 \<notin> set (snd l) \<and> 10 \<notin> set (snd l) \<and> 13 \<notin> set (snd l)
     \<and> length (rev_digits (fst l)) + 1 + length (snd l) < LINELEN"

lemma digits_plain: "\<forall>c\<in>set ds. isdigit c \<Longrightarrow> 0 \<notin> set ds \<and> 10 \<notin> set ds \<and> 13 \<notin> set ds"
  by (auto simp: isdigit_def)

lemma cstr_plain: "0 \<notin> set s \<Longrightarrow> cstr s = s"
  by (auto simp: cstr_def takeWhile_eq_all_conv)

lemma store_line_text:
  assumes "wf_line (n, t)"
  shows "store_line (rev (rev_digits n) @ 0x20 # t) p = store n t p"
proof -
  define ds where "ds = rev (rev_digits n)"
  have n: "0 < n" "n < 2147483648" and t: "t \<noteq> []" "hd t \<noteq> 0x20" "0 \<notin> set t"
    using assms by (simp_all add: wf_line_def)
  have ds: "ds \<noteq> []" "\<forall>c\<in>set ds. isdigit c" "atoi_digits 0 ds = word_of_int n"
    using rev_digits_facts [of n] n by (simp_all add: ds_def)
  have c: "cstr (ds @ 0x20 # t) = ds @ 0x20 # t"
    using digits_plain [OF ds(2)] t(3) by (simp add: cstr_plain)
  obtain d e where de: "ds = d # e" "isdigit d"
    using ds(1,2) by (cases ds) auto
  have "atoi_digits 0 (ds @ 0x20 # t) = word_of_int n"
    using atoi_digits_append [OF ds(2), of 0 "0x20 # t"] ds(3) by (simp add: isdigit_def)
  then have a: "atoi (ds @ 0x20 # t) = word_of_int n"
    using digit_not_blank [OF de(2)] unfolding de(1) by (simp add: atoi_def)
  have "sint (word_of_int n :: u32) = n"
    using n by (simp add: signed_of_int signed_take_bit_int_eq_self)
  moreover from this have "(word_of_int n :: u32) \<noteq> 0"
    using n by auto
  moreover have "dropWhile isdigit (ds @ 0x20 # t) = 0x20 # t"
    using ds(2) by (simp add: dropWhile_append2 isdigit_def)
  moreover have "dropWhile (\<lambda>c. c = 0x20) (0x20 # t) = t"
    using t(1,2) by (cases t) auto
  ultimately show ?thesis
    by (simp add: store_line_def ds_def [symmetric] c a)
qed

lemma store_append:
  assumes "\<forall>x\<in>fst ` set p. x < n" and "length p < MAXLINES" and "t \<noteq> []" and "length t < LINELEN"
  shows "store n t p = Some (p @ [(n, t)])"
proof -
  have "takeWhile (\<lambda>l. fst l < n) p = p" "dropWhile (\<lambda>l. fst l < n) p = []"
    using assms(1) by (simp_all add: takeWhile_eq_all_conv)
  from store_split [OF this [symmetric], of t] show ?thesis
    using assms by simp
qed

lemma load_text:
  "10 \<notin> set w \<Longrightarrow> 13 \<notin> set w \<Longrightarrow> length line + length w < LINELEN \<Longrightarrow> load_loop line (w @ r) p = load_loop (line @ w) r p"
  by (induction w arbitrary: line) auto

lemma load_save:
  "sorted_lines (q @ p) \<Longrightarrow> \<forall>l\<in>set p. wf_line l \<Longrightarrow> length (q @ p) \<le> MAXLINES \<Longrightarrow> load_loop [] (save p) q = Some (q @ p)"
proof (induction p arbitrary: q)
  case (Cons l p)
  obtain n t where l: "l = (n, t)"
    by (cases l)
  let ?w = "rev (rev_digits n) @ 0x20 # t"
  have sv: "save (l # p) = ?w @ 10 # save p"
    by (simp add: save_def l)
  have wf: "wf_line (n, t)"
    using Cons.prems(2) l by simp
  have "10 \<notin> set ?w" "13 \<notin> set ?w" "length ?w < LINELEN"
    using wf rev_digits_facts [of n] digits_plain [of "rev_digits n"] by (auto simp: wf_line_def)
  then have "load_loop [] (save (l # p)) q = (case store_line ?w q of None \<Rightarrow> None | Some q \<Rightarrow> load_loop [] (save p) q)"
    using load_text [of ?w "[]" "10 # save p" q] by (simp add: sv)
  also have "store_line ?w q = Some (q @ [l])"
    using store_line_text [OF wf] store_append [of q n t] Cons.prems wf
    by (auto simp: l wf_line_def sorted_wrt_append)
  finally show ?case
    using Cons.IH [of "q @ [l]"] Cons.prems by simp
qed (simp add: save_def)

text \<open>
  C14. \<^verbatim>\<open>LOAD\<close> of a file that \<^verbatim>\<open>SAVE\<close> wrote yields the program again, for every program of at most 256 lines
  with positive numbers whose texts are not empty, start with a character other than a blank, and fit with
  their numbers into a line of 127 characters.
\<close>

theorem load_save_roundtrip:
  assumes "sorted_lines p" and "length p \<le> MAXLINES" and "\<forall>l\<in>set p. wf_line l"
  shows "load (save p) [] = Some p"
  using load_save [of "[]" p] assms by (simp add: load_def)

theorem load_save_roundtrip_witness: "load (save three_lines) [] = Some three_lines"
proof (rule load_save_roundtrip)
  show "sorted_lines three_lines" "length three_lines \<le> MAXLINES"
    by (simp_all add: three_lines_def MAXLINES_def)
  show "\<forall>l\<in>set three_lines. wf_line l"
    by (simp add: three_lines_def wf_line_def LINELEN_def ascii_def rev_digits.simps signed_divide_int_def)
qed

section \<open>A jump that leaves the program\<close>

text \<open>\<^verbatim>\<open>IF ... THEN\<close> with the number of a line that does not exist continues at index -1 of the table.\<close>

lemma expr_number:
  assumes "set sp \<subseteq> {0x20, 9}" and "no_digit r" and "peek (skip_blanks r) \<notin> {0x2A, 0x2F, 0x25, 0x2B, 0x2D}"
  shows "expr vs (sp @ itoa_u n 10 False @ r) = Val n (skip_blanks r)"
proof -
  have "no_product r"
    using assms(3) by (auto simp: no_product_def peek_def split: list.splits)
  then have "expr vs (sp @ itoa_u n 10 False @ r) = run_call vs (Expr_loop n r)"
    using reads_exp [OF assms(1), of "Num n" vs] assms(2) by (simp add: expr_def reads_expr_def)
  then show ?thesis
    using assms(3) by (auto simp: run_expr_loop [of vs n r] expr_body_def peek_def split: list.splits)
qed

lemma if_then_missing_line:
  "run \<lparr>program = [(10, ascii ''IF 1=1 THEN 99'')], vars = [], out = [], inp = []\<rparr> = None"
proof -
  let ?b = "\<lparr>program = [(10, ascii ''IF 1=1 THEN 99'')], vars = replicate 26 0, out = [], inp = []\<rparr>"
  have "tmp_digits False 10 1 = [0x31]"
    by (simp add: tmp_digits.simps dig_def)
  moreover have "tmp_digits False 10 99 = [0x39, 0x39]"
    by (simp add: tmp_digits.simps dig_def)
  ultimately have e: "expr vs (ascii '' 1=1 THEN 99'') = Val 1 (ascii ''=1 THEN 99'')"
      "expr vs (ascii ''1 THEN 99'') = Val 1 (ascii ''THEN 99'')" "expr vs (ascii ''99'') = Val 99 []" for vs
    using expr_number [of "[0x20]" "ascii ''=1 THEN 99''" vs 1] expr_number [of "[]" "ascii '' THEN 99''" vs 1]
      expr_number [of "[]" "[]" vs 99]
    by (simp_all add: itoa_u_def ascii_def no_digit_def isdigit_def peek_def)
  have "if_parts vs (ascii '' 1=1 THEN 99'') = Some (True, ascii '' 99'')" for vs
    using e unfolding if_parts_def by (simp add: ascii_def peek_def starts_def Let_def)
  then have "command (ascii ''IF 1=1 THEN 99'') (- 1) ?b = Some (2, - 1, ?b)"
    using e by (subst command.simps) (simp add: ascii_def starts_def peek_def isalpha_def isdigit_def find_line_def)
  then show ?thesis
    by (simp add: run_def run_loop.simps [of 0] run_loop.simps [of "- 1"])
qed

end
