(* ===== verification/Editor.thy ===== *)
theory Editor
  imports Libc Proc
begin

text \<open>
  The text editor, \<^verbatim>\<open>user/bin/fento.c\<close>. The buffer \<^verbatim>\<open>text\<close> always has its 32768 bytes, of which the first
  \<^verbatim>\<open>len\<close> are the file. Loops that may run forever are partial functions: \<open>None\<close> where they do.
\<close>

section \<open>Lines\<close>

definition CAP :: nat where
  "CAP = 32768"

definition ROWS :: nat where
  "ROWS = 23"

definition COLS :: nat where
  "COLS = 80"

record editor =
  etext :: bytes
  elen :: nat
  epos :: nat
  etop :: nat
  dirty :: bool

fun line_start :: "editor \<Rightarrow> nat \<Rightarrow> nat" where
  "line_start e 0 = 0"
| "line_start e (Suc p) = (if etext e ! p \<noteq> 10 then line_start e p else Suc p)"

function line_end :: "editor \<Rightarrow> nat \<Rightarrow> nat" where
  "line_end e p = (if p < elen e \<and> etext e ! p \<noteq> 10 then line_end e (p + 1) else p)"
  by pat_completeness auto
termination
  by (relation "measure (\<lambda>(e, p). elen e - p)") auto

declare line_end.simps [simp del]

definition prev_line :: "editor \<Rightarrow> nat \<Rightarrow> nat" where
  "prev_line e p = (let p = line_start e p in if p \<noteq> 0 then line_start e (p - 1) else 0)"

definition next_line :: "editor \<Rightarrow> nat \<Rightarrow> nat" where
  "next_line e p = (let p = line_end e p in if p < elen e then p + 1 else elen e)"

definition column :: "editor \<Rightarrow> nat \<Rightarrow> nat" where
  "column e p = p - line_start e p"

section \<open>The window\<close>

function locate_loop :: "editor \<Rightarrow> nat \<Rightarrow> nat \<Rightarrow> nat \<Rightarrow> nat" where
  "locate_loop e p q r = (if q < p \<and> r < ROWS then locate_loop e p (q + 1) (if etext e ! q = 10 then r + 1 else r) else r)"
  by pat_completeness auto
termination
  by (relation "measure (\<lambda>(e, p, q, r). p - q)") auto

declare locate_loop.simps [simp del]

definition locate :: "editor \<Rightarrow> nat \<Rightarrow> nat \<times> nat" where
  "locate e p = (locate_loop e p (etop e) 0, min (p - line_start e p) (COLS - 1))"

partial_function (option) adjust_up :: "editor \<Rightarrow> editor option" where
  "adjust_up e = (if epos e < etop e then adjust_up (e\<lparr>etop := prev_line e (etop e)\<rparr>) else Some e)"

partial_function (option) adjust_down :: "editor \<Rightarrow> editor option" where
  "adjust_down e = (if fst (locate e (epos e)) \<ge> ROWS then adjust_down (e\<lparr>etop := next_line e (etop e)\<rparr>) else Some e)"

declare adjust_up.simps [code] adjust_down.simps [code]

definition adjust :: "editor \<Rightarrow> editor option" where
  "adjust e = Option.bind (adjust_up e) adjust_down"

text \<open>
  The output of \<^verbatim>\<open>draw\<close>: a row shows at most 80 columns, a tabulator goes to the next multiple of four. The
  row function yields the characters of a row and the place where the row stopped.
\<close>

function draw_row :: "editor \<Rightarrow> nat \<Rightarrow> nat \<Rightarrow> bytes \<times> nat" where
  "draw_row e p c =
     (if p < elen e \<and> etext e ! p \<noteq> 10 \<and> c < COLS then
        (if etext e ! p = 9
         then let n = min (4 - c mod 4) (COLS - c) in map_prod ((@) (replicate n 0x20)) id (draw_row e (p + 1) (c + n))
         else map_prod ((#) (etext e ! p)) id (draw_row e (p + 1) (c + 1)))
      else ([], p))"
  by pat_completeness auto
termination
  by (relation "measure (\<lambda>(e, p, c). elen e - p)") auto

declare draw_row.simps [simp del]

definition esc :: "string \<Rightarrow> bytes" where
  "esc s = 0x1B # ascii s"

fun draw_rows :: "editor \<Rightarrow> nat \<Rightarrow> nat \<Rightarrow> bytes" where
  "draw_rows e 0 p = []"
| "draw_rows e (Suc k) p =
     (let (w, p) = draw_row e p 0; p = line_end e p; p = (if p < elen e \<and> etext e ! p = 10 then p + 1 else p)
      in esc ''[K'' @ w @ (if k > 0 then [10] else []) @ draw_rows e k p)"

definition draw :: "bytes \<Rightarrow> editor \<Rightarrow> (bytes \<times> editor) option" where
  "draw path e =
     map_option (\<lambda>e.
       let (row, col) = locate e (epos e) in
       (esc ''[H'' @ draw_rows e ROWS (etop e)
          @ esc ''[24;1H'' @ esc ''[7m Fento  '' @ path @ ascii ''  '' @ itoa_s (of_nat (elen e)) @ ascii '' bytes ''
          @ ascii (if dirty e then ''modified'' else ''saved'') @ ascii ''  Ctrl-S save  Ctrl-Q quit '' @ esc ''[K'' @ esc ''[0m''
          @ esc ''['' @ itoa_s (of_nat (row + 1)) @ ascii '';'' @ itoa_s (of_nat (col + 1)) @ ascii ''H'', e))
     (adjust e)"

section \<open>Editing\<close>

fun shift_right :: "nat \<Rightarrow> nat \<Rightarrow> bytes \<Rightarrow> bytes" where
  "shift_right p i t = (if i > p then shift_right p (i - 1) (t[i := t ! (i - 1)]) else t)"

declare shift_right.simps [simp del]

function shift_left :: "nat \<Rightarrow> nat \<Rightarrow> bytes \<Rightarrow> bytes" where
  "shift_left i n t = (if i < n - 1 then shift_left (i + 1) n (t[i := t ! (i + 1)]) else t)"
  by pat_completeness auto
termination
  by (relation "measure (\<lambda>(i, n, t). n - i)") auto

declare shift_left.simps [simp del]

definition insert_char :: "u8 \<Rightarrow> editor \<Rightarrow> editor" where
  "insert_char c e =
     (if elen e \<ge> CAP - 1 then e
      else e\<lparr>etext := (shift_right (epos e) (elen e) (etext e))[epos e := c], epos := epos e + 1, elen := elen e + 1, dirty := True\<rparr>)"

definition backspace :: "editor \<Rightarrow> editor" where
  "backspace e =
     (if epos e = 0 then e
      else let p = epos e - 1 in
        e\<lparr>epos := p, etext := shift_left p (elen e) (etext e), elen := elen e - 1, dirty := True\<rparr>)"

definition delete_char :: "editor \<Rightarrow> editor" where
  "delete_char e =
     (if epos e < elen e then e\<lparr>etext := shift_left (epos e) (elen e) (etext e), elen := elen e - 1, dirty := True\<rparr> else e)"

definition vertical :: "nat \<Rightarrow> editor \<Rightarrow> editor" where
  "vertical p e = (let col = column e (epos e); q = line_end e p in e\<lparr>epos := p + (if col < q - p then col else q - p)\<rparr>)"

text \<open>\<^verbatim>\<open>save\<close>: \<open>wr\<close> opens and writes the file and tells whether everything was written.\<close>

definition save_text :: "(bytes \<Rightarrow> 'k \<Rightarrow> bool \<times> 'k) \<Rightarrow> editor \<Rightarrow> 'k \<Rightarrow> editor \<times> 'k" where
  "save_text wr e k = (let (ok, k) = wr (take (elen e) (etext e)) k in (if ok then e\<lparr>dirty := False\<rparr> else e, k))"

text \<open>
  One turn of the main loop after \<^verbatim>\<open>draw\<close>, on the characters that are typed next: whether the editor goes on,
  the state, and the characters left. A character that never comes ends the turn.
\<close>

definition turn :: "(bytes \<Rightarrow> 'k \<Rightarrow> bool \<times> 'k) \<Rightarrow> bytes \<Rightarrow> editor \<Rightarrow> 'k \<Rightarrow> bool \<times> editor \<times> 'k \<times> bytes" where
  "turn wr inp e k =
     (case inp of
        [] \<Rightarrow> (True, e, k, [])
      | c # inp \<Rightarrow>
          if c = 17 then (False, e, k, inp)
          else if c = 19 then (let (e, k) = save_text wr e k in (True, e, k, inp))
          else if c = 8 \<or> c = 127 then (True, backspace e, k, inp)
          else if c = 27 then
            (case inp of
               a # b # inp \<Rightarrow>
                 if a \<noteq> 0x5B then (True, e, k, b # inp)
                 else if b = 0x44 \<and> epos e > 0 then (True, e\<lparr>epos := epos e - 1\<rparr>, k, inp)
                 else if b = 0x43 \<and> epos e < elen e then (True, e\<lparr>epos := epos e + 1\<rparr>, k, inp)
                 else if b = 0x41 then (True, vertical (prev_line e (epos e)) e, k, inp)
                 else if b = 0x42 then (True, vertical (next_line e (epos e)) e, k, inp)
                 else if b = 0x33 then
                   (case inp of [] \<Rightarrow> (True, e, k, []) | z # inp \<Rightarrow> (True, if z = 0x7E then delete_char e else e, k, inp))
                 else (True, e, k, inp)
             | _ \<Rightarrow> (True, e, k, []))
          else let c = (if c = 13 then 10 else c) in
            (True, if c \<ge> 32 \<or> c = 10 \<or> c = 9 then insert_char c e else e, k, inp))"

text \<open>The read loop at the start: the file in the pieces that \<^verbatim>\<open>read\<close> returns, none longer than the room left.\<close>

fun fill :: "bytes list \<Rightarrow> editor \<Rightarrow> editor" where
  "fill [] e = e"
| "fill (w # ws) e =
     (if elen e < CAP - 1 \<and> w \<noteq> []
      then fill ws (e\<lparr>etext := take (elen e) (etext e) @ w @ drop (elen e + length w) (etext e), elen := elen e + length w\<rparr>)
      else e)"

text \<open>The main loop on the characters that are typed: what is sent to the screen, and the final state.\<close>

lemma turn_shorter: "inp \<noteq> [] \<Longrightarrow> turn wr inp e k = (g, e', k', inp') \<Longrightarrow> length inp' < length inp"
  by (auto simp: turn_def Let_def split: list.splits if_splits prod.splits)

function session :: "(bytes \<Rightarrow> 'k \<Rightarrow> bool \<times> 'k) \<Rightarrow> bytes \<Rightarrow> bytes \<Rightarrow> editor \<Rightarrow> 'k \<Rightarrow> (bytes \<times> editor \<times> 'k) option" where
  "session wr path inp e k =
     (case draw path e of
        None \<Rightarrow> None
      | Some (w, e) \<Rightarrow>
          if inp = [] then Some (w, e, k)
          else case turn wr inp e k of
            (go, e, k, inp) \<Rightarrow> if go then map_option (map_prod ((@) w) id) (session wr path inp e k) else Some (w, e, k))"
  by pat_completeness auto
termination
  by (relation "measure (\<lambda>(wr, path, inp, e, k). length inp)") (auto dest: turn_shorter [OF _ sym])

declare session.simps [simp del]

section \<open>The text\<close>

definition content :: "editor \<Rightarrow> bytes" where
  "content e = take (elen e) (etext e)"

definition editor_inv :: "editor \<Rightarrow> bool" where
  "editor_inv e \<longleftrightarrow> length (etext e) = CAP \<and> elen e < CAP \<and> epos e \<le> elen e"

lemma shift_right_nth:
  "n < length t \<Longrightarrow> length (shift_right p n t) = length t
    \<and> (\<forall>j < length t. shift_right p n t ! j = (if p < j \<and> j \<le> n then t ! (j - 1) else t ! j))"
proof (induction p n t rule: shift_right.induct)
  case (1 p i t)
  then show ?case
    by (auto simp: shift_right.simps [of p i t] nth_list_update)
qed

lemma shift_left_nth:
  "n \<le> length t \<Longrightarrow> length (shift_left i n t) = length t
    \<and> (\<forall>j < length t. shift_left i n t ! j = (if i \<le> j \<and> j < n - 1 then t ! (j + 1) else t ! j))"
proof (induction i n t rule: shift_left.induct)
  case (1 i n t)
  then show ?case
    by (auto simp: shift_left.simps [of i n t] nth_list_update)
qed

lemma insert_char_content:
  assumes "editor_inv e" and "elen e < CAP - 1"
  shows "content (insert_char c e) = take (epos e) (content e) @ [c] @ drop (epos e) (content e)"
    and "epos (insert_char c e) = epos e + 1" and "elen (insert_char c e) = elen e + 1" and "editor_inv (insert_char c e)"
proof -
  note S = shift_right_nth [of "elen e" "etext e" "epos e"]
  show "content (insert_char c e) = take (epos e) (content e) @ [c] @ drop (epos e) (content e)"
    using assms S by (auto simp: content_def insert_char_def editor_inv_def nth_append nth_list_update nth_Cons' intro!: nth_equalityI)
  show "epos (insert_char c e) = epos e + 1" "elen (insert_char c e) = elen e + 1" "editor_inv (insert_char c e)"
    using assms S by (auto simp: insert_char_def editor_inv_def)
qed

lemma backspace_content:
  assumes "editor_inv e" and "0 < epos e"
  shows "content (backspace e) = take (epos e - 1) (content e) @ drop (epos e) (content e)"
    and "epos (backspace e) = epos e - 1" and "elen (backspace e) = elen e - 1" and "editor_inv (backspace e)"
proof -
  note S = shift_left_nth [of "elen e" "etext e" "epos e - 1"]
  show "content (backspace e) = take (epos e - 1) (content e) @ drop (epos e) (content e)"
    using assms S by (auto simp: content_def backspace_def editor_inv_def nth_append Let_def intro!: nth_equalityI)
  show "epos (backspace e) = epos e - 1" "elen (backspace e) = elen e - 1" "editor_inv (backspace e)"
    using assms S by (auto simp: backspace_def editor_inv_def Let_def)
qed

lemma delete_char_content:
  assumes "editor_inv e" and "epos e < elen e"
  shows "content (delete_char e) = take (epos e) (content e) @ drop (epos e + 1) (content e)"
    and "epos (delete_char e) = epos e" and "elen (delete_char e) = elen e - 1" and "editor_inv (delete_char e)"
proof -
  note S = shift_left_nth [of "elen e" "etext e" "epos e"]
  show "content (delete_char e) = take (epos e) (content e) @ drop (epos e + 1) (content e)"
    using assms S by (auto simp: content_def delete_char_def editor_inv_def nth_append intro!: nth_equalityI)
  show "epos (delete_char e) = epos e" "elen (delete_char e) = elen e - 1" "editor_inv (delete_char e)"
    using assms S by (auto simp: delete_char_def editor_inv_def)
qed

lemma content_length: "editor_inv e \<Longrightarrow> length (content e) = elen e"
  by (simp add: content_def editor_inv_def)

section \<open>The window follows the cursor\<close>

lemma line_start_le: "line_start e p \<le> p"
  by (induction p) auto

lemma line_end_bounds: "p \<le> line_end e p \<and> (p \<le> elen e \<longrightarrow> line_end e p \<le> elen e)"
proof (induction e p rule: line_end.induct)
  case (1 e p)
  then show ?case
    by (subst (1 2) line_end.simps) auto
qed

lemma line_end_before: "p \<le> j \<Longrightarrow> j < elen e \<Longrightarrow> etext e ! j = 10 \<Longrightarrow> line_end e p \<le> j"
proof (induction e p rule: line_end.induct)
  case (1 e p)
  show ?case
  proof (cases "p = j")
    case True
    then show ?thesis
      using 1 by (simp add: line_end.simps [of e j])
  next
    case False
    then show ?thesis
      using 1 by (subst line_end.simps) auto
  qed
qed

lemma prev_line_less: "0 < p \<Longrightarrow> prev_line e p < p"
  using line_start_le [of e p] line_start_le [of e "line_start e p - 1"] by (auto simp: prev_line_def Let_def)

definition newlines :: "editor \<Rightarrow> nat \<Rightarrow> nat \<Rightarrow> nat set" where
  "newlines e q p = {j. q \<le> j \<and> j < p \<and> etext e ! j = 10}"

lemma newlines_step: "q < p \<Longrightarrow> newlines e q p = (if etext e ! q = 10 then insert q (newlines e (q + 1) p) else newlines e (q + 1) p)"
  by (auto simp: newlines_def Suc_le_eq le_less)

lemma finite_newlines [simp]: "finite (newlines e q p)"
  by (rule finite_subset [of _ "{..<p}"]) (auto simp: newlines_def)

lemma locate_loop_spec: "r \<le> ROWS \<Longrightarrow> locate_loop e p q r = min ROWS (r + card (newlines e q p))"
proof (induction e p q r rule: locate_loop.induct)
  case (1 e p q r)
  show ?case
  proof (cases "q < p \<and> r < ROWS")
    case True
    moreover have "q \<notin> newlines e (q + 1) p"
      by (simp add: newlines_def)
    ultimately show ?thesis
      using 1 newlines_step [of q p e] by (simp add: locate_loop.simps [of e p q r])
  next
    case False
    then have "r = ROWS \<or> newlines e q p = {}"
      using 1(2) by (auto simp: newlines_def)
    then show ?thesis
      using False 1(2) by (subst locate_loop.simps) auto
  qed
qed

lemma line_functions_top [simp]:
  "line_start (e\<lparr>etop := t\<rparr>) = line_start e" "line_end (e\<lparr>etop := t\<rparr>) = line_end e" "newlines (e\<lparr>etop := t\<rparr>) = newlines e"
  "content (e\<lparr>etop := t\<rparr>) = content e" "editor_inv (e\<lparr>etop := t\<rparr>) = editor_inv e"
proof -
  show "line_start (e\<lparr>etop := t\<rparr>) = line_start e"
  proof
    fix p show "line_start (e\<lparr>etop := t\<rparr>) p = line_start e p"
      by (induction p) simp_all
  qed
  show "line_end (e\<lparr>etop := t\<rparr>) = line_end e"
  proof
    fix p show "line_end (e\<lparr>etop := t\<rparr>) p = line_end e p"
      by (induction e p rule: line_end.induct) (simp add: line_end.simps)
  qed
qed (simp_all add: newlines_def content_def editor_inv_def fun_eq_iff)

lemma adjust_up_spec: "\<exists>t \<le> epos e. adjust_up e = Some (if epos e < etop e then e\<lparr>etop := t\<rparr> else e)"
proof (induction "etop e" arbitrary: e rule: less_induct)
  case less
  show ?case
  proof (cases "epos e < etop e")
    case True
    let ?e = "e\<lparr>etop := prev_line e (etop e)\<rparr>"
    obtain t where "t \<le> epos e" "adjust_up ?e = Some (if epos e < prev_line e (etop e) then e\<lparr>etop := t\<rparr> else ?e)"
      using less [of ?e] prev_line_less [of "etop e" e] True by auto
    then show ?thesis
      using True by (subst adjust_up.simps) (auto simp: not_less)
  next
    case False
    then show ?thesis
      by (subst adjust_up.simps) auto
  qed
qed

lemma adjust_down_spec:
  "editor_inv e \<Longrightarrow> etop e \<le> epos e \<Longrightarrow> \<exists>t \<le> epos e. adjust_down e = Some (e\<lparr>etop := t\<rparr>) \<and> card (newlines e t (epos e)) < ROWS"
proof (induction "epos e - etop e" arbitrary: e rule: less_induct)
  case less
  let ?r = "locate_loop e (epos e) (etop e) 0"
  have r: "?r = min ROWS (card (newlines e (etop e) (epos e)))"
    by (simp add: locate_loop_spec)
  show ?case
  proof (cases "?r \<ge> ROWS")
    case True
    then have "newlines e (etop e) (epos e) \<noteq> {}"
      using r by (auto simp: ROWS_def)
    then obtain j where j: "etop e \<le> j" "j < epos e" "etext e ! j = 10"
      by (auto simp: newlines_def)
    then have "line_end e (etop e) \<le> j" "etop e \<le> line_end e (etop e)" "epos e \<le> elen e"
      using line_end_before [of "etop e" j e] line_end_bounds [of "etop e" e] less.prems(1) by (auto simp: editor_inv_def)
    then have n: "etop e < next_line e (etop e)" "next_line e (etop e) \<le> epos e"
      using j by (auto simp: next_line_def Let_def)
    let ?e = "e\<lparr>etop := next_line e (etop e)\<rparr>"
    have "epos e - next_line e (etop e) < epos e - etop e"
      using n j(1,2) by linarith
    then obtain t where "t \<le> epos e" "adjust_down ?e = Some (?e\<lparr>etop := t\<rparr>)" "card (newlines e t (epos e)) < ROWS"
      using less.hyps [of ?e] less.prems n by auto
    then show ?thesis
      using True by (subst adjust_down.simps) (auto simp: locate_def)
  next
    case False
    then show ?thesis
      using less.prems r by (subst adjust_down.simps) (auto simp: locate_def intro!: exI [of _ "etop e"])
  qed
qed

text \<open>
  C20. \<^verbatim>\<open>adjust\<close> always ends, changes nothing but the first line of the window, and leaves the cursor in one of the 23 rows
  of the window.
\<close>

theorem adjust_terminates:
  assumes "editor_inv e"
  shows "\<exists>t. adjust e = Some (e\<lparr>etop := t\<rparr>) \<and> t \<le> epos e \<and> card {j. t \<le> j \<and> j < epos e \<and> etext e ! j = 10} < 23"
proof -
  obtain t where t: "t \<le> epos e" "adjust_up e = Some (if epos e < etop e then e\<lparr>etop := t\<rparr> else e)"
    using adjust_up_spec [of e] by blast
  let ?e = "if epos e < etop e then e\<lparr>etop := t\<rparr> else e"
  obtain u where "u \<le> epos e" "adjust_down ?e = Some (e\<lparr>etop := u\<rparr>)" "card (newlines e u (epos e)) < ROWS"
    using adjust_down_spec [of ?e] assms t(1) by (cases "epos e < etop e") auto
  then show ?thesis
    using t(2) by (auto simp: adjust_def newlines_def ROWS_def)
qed

definition two_line_text :: editor where
  "two_line_text = \<lparr>etext = ascii ''ab'' @ [10] @ ascii ''cdef'' @ replicate 32761 0, elen = 7, epos = 6, etop = 7, dirty = False\<rparr>"

lemma two_line_text_inv: "editor_inv two_line_text"
  by (simp add: two_line_text_def editor_inv_def CAP_def ascii_def)

theorem adjust_terminates_witness: "\<exists>t. adjust two_line_text = Some (two_line_text\<lparr>etop := t\<rparr>) \<and> t \<le> 6"
  using adjust_terminates [OF two_line_text_inv] by (auto simp: two_line_text_def)

section \<open>Keys\<close>

text \<open>
  The editor as a text with a cursor: the characters before the cursor and those behind it.
\<close>

datatype key = Type u8 | Erase | Delete | Left | Right | Up | Down

fun key_bytes :: "key \<Rightarrow> bytes" where
  "key_bytes (Type c) = [c]"
| "key_bytes Erase = [127]"
| "key_bytes Delete = [27, 0x5B, 0x33, 0x7E]"
| "key_bytes Left = [27, 0x5B, 0x44]"
| "key_bytes Right = [27, 0x5B, 0x43]"
| "key_bytes Up = [27, 0x5B, 0x41]"
| "key_bytes Down = [27, 0x5B, 0x42]"

fun plain_key :: "key \<Rightarrow> bool" where
  "plain_key (Type c) \<longleftrightarrow> c \<ge> 32 \<and> c \<noteq> 127 \<or> c = 10 \<or> c = 9"
| "plain_key _ \<longleftrightarrow> True"

abbreviation line_head :: "bytes \<Rightarrow> bytes" where
  "line_head a \<equiv> takeWhile (\<lambda>c. c \<noteq> 10) a"

definition last_line :: "bytes \<Rightarrow> bytes" where
  "last_line b = rev (line_head (rev b))"

definition before_line :: "bytes \<Rightarrow> bytes" where
  "before_line b = rev (dropWhile (\<lambda>c. c \<noteq> 10) (rev b))"

fun press :: "key \<Rightarrow> bytes \<times> bytes \<Rightarrow> bytes \<times> bytes" where
  "press (Type c) (b, a) = (if length b + length a < CAP - 1 then (b @ [c], a) else (b, a))"
| "press Erase (b, a) = (butlast b, a)"
| "press Delete (b, a) = (b, tl a)"
| "press Left (b, a) = (if b = [] then (b, a) else (butlast b, last b # a))"
| "press Right (b, a) = (case a of [] \<Rightarrow> (b, []) | c # a \<Rightarrow> (b @ [c], a))"
| "press Up (b, a) =
     (if before_line b = [] then (b, a)
      else let up = butlast (before_line b); n = length (last_line b)
           in (before_line up @ take n (last_line up), drop n (last_line up) @ [10] @ last_line b @ a))"
| "press Down (b, a) =
     (case dropWhile (\<lambda>c. c \<noteq> 10) a of
        [] \<Rightarrow> (b @ a, [])
      | c # r \<Rightarrow> let n = min (length (last_line b)) (length (line_head r)) in (b @ line_head a @ [c] @ take n r, drop n r))"

definition halves :: "editor \<Rightarrow> bytes \<times> bytes" where
  "halves e = (take (epos e) (content e), drop (epos e) (content e))"

lemma last_line_split: "before_line b @ last_line b = b"
  unfolding before_line_def last_line_def by (metis rev_append rev_rev_ident takeWhile_dropWhile_id)

lemma before_line_10: "before_line b \<noteq> [] \<Longrightarrow> last (before_line b) = 10"
  using hd_dropWhile [of "\<lambda>c. c \<noteq> 10" "rev b"] by (auto simp: before_line_def last_rev)

lemma line_start_last_line:
  "p \<le> elen e \<Longrightarrow> editor_inv e \<Longrightarrow> line_start e p = p - length (last_line (take p (content e)))"
proof (induction p)
  case (Suc p)
  then have "take (Suc p) (content e) = take p (content e) @ [etext e ! p]"
    using content_length [of e] by (simp add: take_Suc_conv_app_nth content_def)
  then show ?case
    using Suc by (auto simp: last_line_def)
qed (simp add: last_line_def)

lemma line_end_line_head: "p \<le> elen e \<Longrightarrow> editor_inv e \<Longrightarrow> line_end e p = p + length (line_head (drop p (content e)))"
proof (induction e p rule: line_end.induct)
  case (1 e p)
  show ?case
  proof (cases "p < elen e")
    case True
    then have "drop p (content e) = etext e ! p # drop (p + 1) (content e)"
      using content_length [OF 1(3)] by (simp add: Cons_nth_drop_Suc [symmetric] content_def)
    then show ?thesis
      using 1 True by (simp add: line_end.simps [of e p])
  next
    case False
    then show ?thesis
      using content_length [OF 1(3)] by (simp add: line_end.simps [of e p])
  qed
qed

lemma halvesI: "content e = x @ y \<Longrightarrow> epos e = length x \<Longrightarrow> halves e = (x, y)"
  by (simp add: halves_def)

lemma halvesE:
  assumes "editor_inv e"
  obtains b a where "halves e = (b, a)" "content e = b @ a" "epos e = length b" "elen e = length b + length a"
  by (rule that [of "take (epos e) (content e)" "drop (epos e) (content e)"])
    (use assms content_length [OF assms] in \<open>simp_all add: halves_def editor_inv_def\<close>)

lemma last_line_no_newline: "10 \<notin> set (last_line b)"
  by (auto simp: last_line_def dest: set_takeWhileD)

lemma line_head_append: "10 \<notin> set l \<Longrightarrow> line_head (l @ r) = l @ line_head r"
  by (rule takeWhile_append2) auto

lemma vertical_keeps: "content (vertical p e) = content e" "etext (vertical p e) = etext e" "elen (vertical p e) = elen e"
  by (simp_all add: vertical_def Let_def content_def)

lemma vertical_pos:
  assumes inv: "editor_inv e" and h: "content e = b @ a" "epos e = length b" and p: "content e = x @ y" "p = length x"
  shows "epos (vertical p e) = length x + min (length (last_line b)) (length (line_head y))"
proof -
  have l: "length (last_line b) \<le> length b"
    using arg_cong [OF last_line_split [of b], of length] by simp
  have "column e (epos e) = length (last_line b)"
    using line_start_last_line [of "epos e" e] inv h l by (simp add: column_def editor_inv_def)
  moreover have "line_end e p = p + length (line_head y)"
    using line_end_line_head [of p e] inv p content_length [OF inv] by simp
  ultimately show ?thesis
    using p(2) by (simp add: vertical_def Let_def min_def)
qed

lemma press_up:
  assumes inv: "editor_inv e"
  shows "halves (vertical (prev_line e (epos e)) e) = press Up (halves e)"
proof -
  obtain b a where h: "halves e = (b, a)" "content e = b @ a" "epos e = length b" "elen e = length b + length a"
    using halvesE [OF inv] .
  have bl: "length (before_line b) + length (last_line b) = length b"
    using arg_cong [OF last_line_split [of b], of length] by simp
  have ls: "line_start e (epos e) = length (before_line b)"
    using line_start_last_line [of "epos e" e] inv h bl by simp
  show ?thesis
  proof (cases "before_line b = []")
    case True
    then have b: "last_line b = b"
      using last_line_split [of b] by simp
    have "prev_line e (epos e) = 0"
      using ls True by (simp add: prev_line_def)
    moreover have "epos (vertical 0 e) = length b"
      using vertical_pos [OF inv h(2,3), of "[]" "b @ a" 0] h(2) b last_line_no_newline [of b] by (simp add: line_head_append)
    ultimately show ?thesis
      using True h by (simp add: vertical_keeps halvesI)
  next
    case False
    define up where "up = butlast (before_line b)"
    have bf: "before_line b = up @ [10]"
      using False before_line_10 [OF False] append_butlast_last_id [OF False] by (simp add: up_def)
    have c: "content e = before_line up @ last_line up @ [10] @ last_line b @ a"
      using h(2) last_line_split [of b] last_line_split [of up] bf by (metis append.assoc)
    have ul: "length (before_line up) + length (last_line up) = length up"
      using arg_cong [OF last_line_split [of up], of length] by simp
    have "length up \<le> elen e" "take (length up) (content e) = up"
      using c last_line_split [of up] content_length [OF inv] ul by (simp, metis append.assoc append_eq_conv_conj)
    then have "line_start e (length up) = length (before_line up)"
      using line_start_last_line [of "length up" e] inv ul by simp
    then have p: "prev_line e (epos e) = length (before_line up)"
      using ls bf by (simp add: prev_line_def)
    have "epos (vertical (prev_line e (epos e)) e) = length (before_line up) + min (length (last_line b)) (length (last_line up))"
      using vertical_pos [OF inv h(2,3) c p] last_line_no_newline [of up] by (simp add: line_head_append)
    then have "halves (vertical (prev_line e (epos e)) e) =
        (before_line up @ take (length (last_line b)) (last_line up), drop (length (last_line b)) (last_line up) @ [10] @ last_line b @ a)"
      using c by (intro halvesI) (simp_all add: vertical_keeps min_def)
    then show ?thesis
      using False h(1) by (simp add: up_def [symmetric] Let_def)
  qed
qed

lemma press_down:
  assumes inv: "editor_inv e"
  shows "halves (vertical (next_line e (epos e)) e) = press Down (halves e)"
proof -
  obtain b a where h: "halves e = (b, a)" "content e = b @ a" "epos e = length b" "elen e = length b + length a"
    using halvesE [OF inv] .
  have le: "line_end e (epos e) = length b + length (line_head a)"
    using line_end_line_head [of "epos e" e] inv h by simp
  have a: "line_head a @ dropWhile (\<lambda>c. c \<noteq> 10) a = a"
    by simp
  show ?thesis
  proof (cases "dropWhile (\<lambda>c. c \<noteq> 10) a")
    case Nil
    then have "length (line_head a) = length a"
      using a by (metis append_Nil2)
    then have p: "next_line e (epos e) = length (b @ a)"
      using le h by (simp add: next_line_def Let_def)
    have "epos (vertical (next_line e (epos e)) e) = length (b @ a)"
      using vertical_pos [OF inv h(2,3) _ p, of "[]"] h(2) by simp
    then have "halves (vertical (next_line e (epos e)) e) = (b @ a, [])"
      using h(2) by (intro halvesI) (simp_all add: vertical_keeps)
    then show ?thesis
      by (simp only: h(1) press.simps Nil list.case)
  next
    case (Cons c r)
    then have l: "length (line_head a) + 1 + length r = length a" and aa: "a = line_head a @ [c] @ r"
      using arg_cong [OF a, of length] a by simp_all
    then have p: "next_line e (epos e) = length (b @ line_head a @ [c])"
      using le h by (simp add: next_line_def Let_def)
    have c: "content e = (b @ line_head a @ [c]) @ r"
      using h(2) aa by simp
    let ?n = "min (length (last_line b)) (length (line_head r))"
    have n: "?n \<le> length r"
      using length_takeWhile_le [of "\<lambda>c. c \<noteq> 10" r] by linarith
    have "epos (vertical (next_line e (epos e)) e) = length (b @ line_head a @ [c]) + ?n"
      using vertical_pos [OF inv h(2,3) c p] .
    then have "halves (vertical (next_line e (epos e)) e) = (b @ line_head a @ [c] @ take ?n r, drop ?n r)"
      using c n by (intro halvesI) (simp_all add: vertical_keeps)
    then show ?thesis
      using Cons h(1) by (simp add: Let_def)
  qed
qed

lemma vertical_inv: "editor_inv e \<Longrightarrow> p \<le> elen e \<Longrightarrow> editor_inv (vertical p e)"
  using line_end_bounds [of p e] by (auto simp: editor_inv_def vertical_def Let_def)

lemma line_moves_le: "editor_inv e \<Longrightarrow> prev_line e (epos e) \<le> elen e \<and> next_line e (epos e) \<le> elen e"
  using line_start_le [of e "epos e"] line_start_le [of e "line_start e (epos e) - 1"]
  by (auto simp: prev_line_def next_line_def Let_def editor_inv_def)

text \<open>One key, whatever follows it.\<close>

lemma turn_press:
  assumes inv: "editor_inv e" and "plain_key x"
  shows "\<exists>e'. turn wr (key_bytes x @ inp) e k = (True, e', k, inp) \<and> editor_inv e' \<and> halves e' = press x (halves e)"
proof -
  obtain b a where h: "halves e = (b, a)" "content e = b @ a" "epos e = length b" "elen e = length b + length a"
    using halvesE [OF inv] .
  show ?thesis
  proof (cases x)
    case (Type c)
    then have c: "c \<noteq> 17 \<and> c \<noteq> 19 \<and> c \<noteq> 8 \<and> c \<noteq> 127 \<and> c \<noteq> 27 \<and> c \<noteq> 13" "c \<ge> 32 \<or> c = 10 \<or> c = 9"
      using assms(2) by auto
    then have t: "turn wr (key_bytes x @ inp) e k = (True, insert_char c e, k, inp)"
      using Type by (simp add: turn_def)
    have "editor_inv (insert_char c e) \<and> halves (insert_char c e) = press x (halves e)"
      using insert_char_content [OF inv, of c] inv h Type by (cases "elen e < CAP - 1") (auto simp: insert_char_def intro!: halvesI)
    with t show ?thesis
      by blast
  next
    case Erase
    have "editor_inv (backspace e) \<and> halves (backspace e) = press Erase (halves e)"
      using backspace_content [OF inv] inv h by (cases "b = []") (auto simp: backspace_def butlast_conv_take intro!: halvesI)
    then show ?thesis
      using Erase by (simp add: turn_def)
  next
    case Delete
    have "editor_inv (delete_char e) \<and> halves (delete_char e) = press Delete (halves e)"
      using delete_char_content [OF inv] inv h by (cases a) (auto simp: delete_char_def intro!: halvesI)
    then show ?thesis
      using Delete by (simp add: turn_def)
  next
    case Left
    then show ?thesis
      using inv h by (cases b rule: rev_cases) (auto simp: turn_def editor_inv_def content_def intro!: halvesI)
  next
    case Right
    then show ?thesis
      using inv h by (cases a) (auto simp: turn_def editor_inv_def content_def intro!: halvesI)
  next
    case Up
    then show ?thesis
      using press_up [OF inv] vertical_inv [OF inv] line_moves_le [OF inv] by (simp add: turn_def)
  next
    case Down
    then show ?thesis
      using press_down [OF inv] vertical_inv [OF inv] line_moves_le [OF inv] by (simp add: turn_def)
  qed
qed

lemma draw_total:
  assumes "editor_inv e"
  obtains w t where "draw path e = Some (w, e\<lparr>etop := t\<rparr>)"
proof -
  obtain t where "t \<le> epos e" "adjust_up e = Some (if epos e < etop e then e\<lparr>etop := t\<rparr> else e)"
    using adjust_up_spec [of e] by blast
  then obtain u where "adjust e = Some (e\<lparr>etop := u\<rparr>)"
    using adjust_down_spec [of "if epos e < etop e then e\<lparr>etop := t\<rparr> else e"] assms
    by (cases "epos e < etop e") (auto simp: adjust_def)
  then show ?thesis
    using that by (cases "locate (e\<lparr>etop := u\<rparr>) (epos e)") (simp add: draw_def)
qed

lemma halves_top [simp]: "halves (e\<lparr>etop := t\<rparr>) = halves e"
  by (simp add: halves_def)

text \<open>
  C13. A session of the editor, for any sequence of keys ended by \<^verbatim>\<open>Ctrl-Q\<close>: every turn draws the window and the
  session ends with the text and the cursor that the keys describe. Characters are inserted at the cursor as
  long as there is room, the two deletions take the character before and behind it, and the cursor moves by
  one character, or to the line above or below as near to its column as that line allows.
\<close>

theorem session_presses_keys:
  assumes "editor_inv e" and "\<forall>x\<in>set xs. plain_key x"
  shows "\<exists>w e'. session wr path (concat (map key_bytes xs) @ [17]) e k = Some (w, e', k)
    \<and> editor_inv e' \<and> halves e' = fold press xs (halves e)"
  using assms
proof (induction xs arbitrary: e)
  case Nil
  obtain w t where d: "draw path e = Some (w, e\<lparr>etop := t\<rparr>)"
    using draw_total [OF Nil(1)] .
  then show ?case
    using Nil by (subst session.simps) (simp add: turn_def)
next
  case (Cons x xs)
  obtain w t where d: "draw path e = Some (w, e\<lparr>etop := t\<rparr>)"
    using draw_total [OF Cons.prems(1)] .
  let ?inp = "concat (map key_bytes xs) @ [17]"
  obtain e1 where t: "turn wr (key_bytes x @ ?inp) (e\<lparr>etop := t\<rparr>) k = (True, e1, k, ?inp)"
      "editor_inv e1" "halves e1 = press x (halves e)"
    using turn_press [of "e\<lparr>etop := t\<rparr>" x wr ?inp k] Cons.prems by auto
  obtain w2 e' where "session wr path ?inp e1 k = Some (w2, e', k)" "editor_inv e'" "halves e' = fold press xs (halves e1)"
    using Cons.IH [OF t(2)] Cons.prems(2) by auto
  moreover have "key_bytes x @ ?inp \<noteq> []"
    by simp
  ultimately show ?case
    using d t by (subst session.simps) simp
qed

theorem session_presses_keys_witness:
  "\<exists>w e'. session (\<lambda>_ k. (True, k)) [] (concat (map key_bytes [Up, Type 0x78, Erase, Left, Type 0x79]) @ [17]) two_line_text ()
      = Some (w, e', ()) \<and> content e' = ascii ''ayb'' @ [10] @ ascii ''cdef''"
proof -
  let ?xs = "[Up, Type 0x78, Erase, Left, Type 0x79]"
  have h: "halves two_line_text = (ascii ''ab'' @ [10] @ ascii ''cde'', ascii ''f'')"
    by (simp add: halves_def content_def two_line_text_def ascii_def)
  have "fold press ?xs (halves two_line_text) = (ascii ''ay'', ascii ''b'' @ [10] @ ascii ''cdef'')"
    unfolding h by (simp add: before_line_def last_line_def ascii_def CAP_def)
  then obtain w e' where e: "session (\<lambda>_ k. (True, k)) [] (concat (map key_bytes ?xs) @ [17]) two_line_text () = Some (w, e', ())"
      "halves e' = (ascii ''ay'', ascii ''b'' @ [10] @ ascii ''cdef'')"
    using session_presses_keys [OF two_line_text_inv, of ?xs "\<lambda>_ k. (True, k)" "[]" "()"] by auto
  moreover have "content e' = fst (halves e') @ snd (halves e')"
    by (simp add: halves_def)
  ultimately show ?thesis
    by (simp add: ascii_def)
qed

end
