(* ===== verification/Executables.thy ===== *)
theory Executables
  imports Libc Proc
begin

text \<open>
  What the compiler \<^verbatim>\<open>user/bin/fcc.c\<close> and the assembler \<^verbatim>\<open>user/bin/fasm.c\<close> write around their code: the
  header of an executable, the buffer with its patches, and the string literals of the compiler. The code itself
  is a parameter. The loader of the kernel is that of theory \<open>Elf\<close>.
\<close>

section \<open>The output buffer\<close>

text \<open>\<open>emit8\<close> appends a byte; \<open>out\<close> has as many bytes as \<^verbatim>\<open>olen\<close> says.\<close>

definition emit8 :: "u8 \<Rightarrow> bytes \<Rightarrow> bytes" where
  "emit8 v out = out @ [v]"

definition emit32 :: "u32 \<Rightarrow> bytes \<Rightarrow> bytes" where
  "emit32 v out = emit8 (ucast (drop_bit 24 v)) (emit8 (ucast (drop_bit 16 v)) (emit8 (ucast (drop_bit 8 v)) (emit8 (ucast v) out)))"

definition patch32 :: "nat \<Rightarrow> u32 \<Rightarrow> bytes \<Rightarrow> bytes" where
  "patch32 p v out =
     out[p := ucast v, p + 1 := ucast (drop_bit 8 v), p + 2 := ucast (drop_bit 16 v), p + 3 := ucast (drop_bit 24 v)]"

text \<open>\<^verbatim>\<open>header\<close> of the compiler: it ends with \<^verbatim>\<open>olen\<close> at the start of the code.\<close>

definition header :: "u32 \<Rightarrow> u32 \<Rightarrow> bytes" where
  "header sz start =
     (let out = fold emit8 ([0x7F, 0x45, 0x4C, 0x46, 1, 1, 1] @ replicate 9 0 @ [2, 0, 3, 0]) [];
          out = fold emit32 [1, start, 52, 0, 0] out;
          out = fold emit8 [52, 0, 32, 0, 1, 0, 0, 0, 0, 0, 0, 0] out;
          out = fold emit32 [1, 0, 0x08048000, 0x08048000, sz, sz, 7, 0x1000] out
      in out @ replicate (0x100 - length out) 0)"

text \<open>\<^verbatim>\<open>hdr\<close> of the assembler.\<close>

definition hdr :: bytes where
  "hdr =
     (let out = fold emit8 ([0x7F, 0x45, 0x4C, 0x46, 1, 1, 1] @ replicate 9 0 @ [2, 0, 3, 0]) [];
          out = fold emit32 [1, 0x08048100, 52, 0, 0] out;
          out = fold emit8 ([52, 0, 32, 0, 1, 0] @ replicate 6 0) out;
          out = fold emit32 [1, 0, 0x08048000, 0x08048000, 0, 0, 7, 0x1000] out
      in out @ replicate (0x100 - length out) 0)"

text \<open>The code behind the header, followed by the literals, with both sizes patched in.\<close>

definition finish :: "bytes \<Rightarrow> bytes" where
  "finish out = patch32 72 (of_nat (length out)) (patch32 68 (of_nat (length out)) out)"

definition fcc_image :: "bytes \<Rightarrow> bytes \<Rightarrow> bytes" where
  "fcc_image code literals = finish (header 0 0x08048100 @ code @ literals)"

definition fasm_image :: "bytes \<Rightarrow> bytes" where
  "fasm_image code = finish (hdr @ code)"

section \<open>String literals\<close>

text \<open>
  The copy of a literal of \<^verbatim>\<open>puts\<close> or \<^verbatim>\<open>printf\<close> from behind its opening quote, with room for \<open>k\<close> more
  characters: the characters stored and the source that is left.
\<close>

fun copy_literal :: "nat \<Rightarrow> bytes \<Rightarrow> bytes \<times> bytes" where
  "copy_literal k [] = ([], [])"
| "copy_literal 0 (c # p) = ([], c # p)"
| "copy_literal (Suc k) (c # p) =
     (if c = 0x22 then ([], c # p)
      else if c = 0x5C \<and> p \<noteq> [] then
        (if hd p = 0x6E then map_prod ((#) 10) id (copy_literal k p)
         else if hd p = 0x74 then map_prod ((#) 9) id (copy_literal k p)
         else map_prod ((#) (hd p)) id (copy_literal k (tl p)))
      else map_prod ((#) c) id (copy_literal k p))"

text \<open>An escape stores its character, and then the letter that names it once more.\<close>

lemma copy_literal_escape:
  "copy_literal (Suc (Suc (Suc (Suc (Suc k))))) (ascii ''a'' @ [0x5C] @ ascii ''nb'' @ [0x22]) = (ascii ''a'' @ [10] @ ascii ''nb'', [0x22])"
  by (simp add: ascii_def)

section \<open>The loader accepts the images\<close>

lemma zeros: "replicate 9 (0 :: u8) = [0, 0, 0, 0, 0, 0, 0, 0, 0]" "replicate 6 (0 :: u8) = [0, 0, 0, 0, 0, 0]"
  by (simp_all add: eval_nat_numeral)

definition front :: bytes where
  "front = [0x7F, 0x45, 0x4C, 0x46, 1, 1, 1, 0, 0, 0, 0, 0, 0, 0, 0, 0, 2, 0, 3, 0, 1, 0, 0, 0, 0, 0x81, 4, 8,
     52, 0, 0, 0, 0, 0, 0, 0, 0, 0, 0, 0, 52, 0, 32, 0, 1, 0, 0, 0, 0, 0, 0, 0,
     1, 0, 0, 0, 0, 0, 0, 0, 0, 0x80, 4, 8, 0, 0x80, 4, 8]"

lemma emit_fold: "fold emit8 xs out = out @ xs" "fold emit32 vs out = out @ concat (map enc32 vs)"
  by (induction xs arbitrary: out) (simp_all add: emit8_def, induction vs arbitrary: out, simp_all add: emit32_def emit8_def enc32_def byte_of_def)

lemma enc32_values:
  "enc32 0 = [0, 0, 0, 0]" "enc32 1 = [1, 0, 0, 0]" "enc32 52 = [52, 0, 0, 0]" "enc32 7 = [7, 0, 0, 0]" "enc32 0x1000 = [0, 0x10, 0, 0]"
  "enc32 0x08048000 = [0, 0x80, 4, 8]" "enc32 0x08048100 = [0, 0x81, 4, 8]"
  by (simp_all add: enc32_def byte_of_def)

lemma header_bytes: "header 0 0x08048100 = front @ [0, 0, 0, 0, 0, 0, 0, 0, 7, 0, 0, 0, 0, 0x10, 0, 0] @ replicate 172 0"
  unfolding header_def zeros emit_fold Let_def by (simp add: enc32_values front_def)

lemma hdr_header: "hdr = header 0 0x08048100"
  unfolding hdr_def header_def zeros by simp

definition segment_header :: "nat \<Rightarrow> elf32_phdr" where
  "segment_header n = \<lparr>p_type = PT_LOAD, p_offset = 0, p_vaddr = 0x08048000, p_paddr = 0x08048000,
     p_filesz = of_nat n, p_memsz = of_nat n, p_flags = 7, p_align = 0x1000\<rparr>"

lemma finish_front:
  assumes "out = front @ [0, 0, 0, 0, 0, 0, 0, 0, 7, 0, 0, 0, 0, 0x10, 0, 0] @ rest"
  shows "finish out = front @ enc32 (of_nat (length out)) @ enc32 (of_nat (length out)) @ [7, 0, 0, 0, 0, 0x10, 0, 0] @ rest"
proof -
  have "length front = 68"
    by (simp add: front_def)
  then show ?thesis
    unfolding finish_def patch32_def assms by (simp add: list_update_append enc32_def byte_of_def)
qed

lemma images:
  "fcc_image code literals = finish (front @ [0, 0, 0, 0, 0, 0, 0, 0, 7, 0, 0, 0, 0, 0x10, 0, 0] @ replicate 172 0 @ code @ literals)"
  "fasm_image code = finish (front @ [0, 0, 0, 0, 0, 0, 0, 0, 7, 0, 0, 0, 0, 0x10, 0, 0] @ replicate 172 0 @ code)"
  by (simp_all add: fcc_image_def fasm_image_def hdr_header header_bytes)

lemma finish_headers:
  assumes "img = finish (front @ [0, 0, 0, 0, 0, 0, 0, 0, 7, 0, 0, 0, 0, 0x10, 0, 0] @ rest)"
  shows "decode_ehdr (take 52 img) = \<lparr>e_ident = take 16 front, e_type = ET_EXEC, e_machine = EM_386, e_version = 1,
      e_entry = 0x08048100, e_phoff = 52, e_shoff = 0, e_flags = 0, e_ehsize = 52, e_phentsize = 32, e_phnum = 1,
      e_shentsize = 0, e_shnum = 0, e_shstrndx = 0\<rparr>"
    and "decode_phdr (take 32 (drop 52 img)) = segment_header (length img)"
proof -
  define n where "n = length (front @ [0, 0, 0, 0, 0, 0, 0, 0, 7, 0, 0, 0, 0, 0x10, 0, 0] @ rest)"
  have img: "img = front @ enc32 (of_nat n) @ enc32 (of_nat n) @ [7, 0, 0, 0, 0, 0x10, 0, 0] @ rest"
    unfolding assms n_def by (rule finish_front [OF refl])
  have n: "length img = n"
    unfolding img n_def by (simp add: enc32_def)
  have "take 52 img = take 52 front" "take 32 (drop 52 img) = drop 52 front @ enc32 (of_nat n) @ enc32 (of_nat n) @ [7, 0, 0, 0, 0, 0x10, 0, 0]"
    unfolding img by (simp_all add: front_def enc32_def)
  then show "decode_ehdr (take 52 img) = \<lparr>e_ident = take 16 front, e_type = ET_EXEC, e_machine = EM_386, e_version = 1,
      e_entry = 0x08048100, e_phoff = 52, e_shoff = 0, e_flags = 0, e_ehsize = 52, e_phentsize = 32, e_phnum = 1,
      e_shentsize = 0, e_shnum = 0, e_shstrndx = 0\<rparr>"
      "decode_phdr (take 32 (drop 52 img)) = segment_header (length img)"
    by (simp_all add: decode_ehdr_def decode_phdr_def slice_def front_def get16_def get32_def ET_EXEC_def EM_386_def segment_header_def
        PT_LOAD_def n enc32_def word32_of_def word16_of_def word32_of_byte_of [unfolded word32_of_def])
qed

text \<open>
  Every file the compiler and the assembler write passes the checks of the kernel's loader: where the file reads back as
  the image, \<^verbatim>\<open>elf_load\<close> maps exactly one segment, the whole file at 0x08048000, and starts the program at
  the code behind the header.
\<close>

lemma tools_write_executables:
  assumes "img = fcc_image code literals \<or> img = fasm_image code"
    and "minixfs_read i 52 0 v = (52, take 52 img)" and "minixfs_read i 32 52 v = (32, take 32 (drop 52 img))"
  shows "elf_load dir i v m =
    (let (ok, m) = load_segment dir i (segment_header (length img)) v m in
     (if ok then Some (0x08048100, page_up (0x08048000 + of_nat (length img))) else None, m))"
proof -
  have H: "decode_ehdr (take 52 img) = \<lparr>e_ident = take 16 front, e_type = ET_EXEC, e_machine = EM_386, e_version = 1,
      e_entry = 0x08048100, e_phoff = 52, e_shoff = 0, e_flags = 0, e_ehsize = 52, e_phentsize = 32, e_phnum = 1,
      e_shentsize = 0, e_shnum = 0, e_shstrndx = 0\<rparr>"
      "decode_phdr (take 32 (drop 52 img)) = segment_header (length img)"
    using assms(1) finish_headers images by metis+
  have "take 4 (take 16 front) = ELFMAG"
    by (simp add: front_def ELFMAG_def)
  then show ?thesis
    using assms(2,3) unfolding elf_load_def
    by (simp add: H Let_def segment_header_def split: prod.split) (metis word_gt_0)
qed

end
