(* ===== verification/Spec2Isabelle.thy ===== *)
theory Spec2Isabelle
  imports SysObjects SysPath Boot FsLimits Tools BasicProgram Editor Executables
begin

text \<open>
  A verification development for FentoOS, a 32-bit x86 hobby kernel (sources under
  \<^verbatim>\<open>src/kernel\<close>, headers under \<^verbatim>\<open>src/include\<close>, userland under
  \<^verbatim>\<open>src/user\<close>).
\<close>

end
